(* ===== verification/Prelude.thy ===== *)
theory Prelude
  imports Main "HOL-Library.Word" "HOL-Library.Signed_Division"
begin

unbundle bit_operations_syntax

text \<open>
  Shared vocabulary of the development: the machine types of the C sources, the error
  values a C function can end in, the sequencing operator of fallible code, bounds-checked
  array access and memory copies on byte lists, and the generic lemmas on lists and words
  that more than one component uses.
\<close>

section \<open>Machine types\<close>

type_synonym u8 = "8 word"       \<comment> \<open>unsigned char\<close>
type_synonym u16 = "16 word"     \<comment> \<open>uint16, and the bits of a short\<close>
type_synonym u32 = "32 word"     \<comment> \<open>unsigned int, and the bits of an int\<close>
type_synonym i64 = "64 word"     \<comment> \<open>the bits of a long; \<open>sint\<close> reads it\<close>

section \<open>Errors and sequencing\<close>

text \<open>
  How a call can fail to return a value: it calls \<open>exit\<close>, it raises an error of the server
  with \<open>ereport\<close>, it throws an exception, it reaches the end of a
  non-void function without a return statement, it touches memory outside an object, it
  copies with \<open>memcpy\<close> between ranges that overlap, it
  shifts by at least the width of the operand, it overflows an \<open>int\<close> (which C leaves undefined), or (in a hardware dataflow process) it reads a
  stream that will never hold another element.
\<close>

datatype cerr =
    ExitCall int | Ereport string | Throw string | NoReturnValue | OutOfBounds | Overlap | ShiftRange
  | IntOverflow | StreamEmpty

type_synonym 'a res = "cerr + 'a"

definition rbind :: "'a res \<Rightarrow> ('a \<Rightarrow> 'b res) \<Rightarrow> 'b res" where
  "rbind m f = (case m of Inl e \<Rightarrow> Inl e | Inr x \<Rightarrow> f x)"

lemma rbind_simps [simp]:
  "rbind (Inl e) f = Inl e"
  "rbind (Inr x) f = f x"
  by (simp_all add: rbind_def)

lemma rbind_eq_Inr: "rbind m f = Inr y \<longleftrightarrow> (\<exists>x. m = Inr x \<and> f x = Inr y)"
  by (cases m) auto

lemma rbind_eq_Inl: "rbind m f = Inl e \<longleftrightarrow> m = Inl e \<or> (\<exists>x. m = Inr x \<and> f x = Inl e)"
  by (cases m) auto

lemma rbind_InrE:
  assumes "rbind m f = Inr y"
  obtains x where "m = Inr x" "f x = Inr y"
  using assms by (auto simp: rbind_eq_Inr)

lemma rbind_Inr [simp]: "rbind m Inr = m"
  by (cases m) auto

lemma rbind_assoc: "rbind (rbind m f) g = rbind m (\<lambda>x. rbind (f x) g)"
  by (cases m) auto

lemma rbind_cong [fundef_cong]:
  "m = m' \<Longrightarrow> (\<And>x. m' = Inr x \<Longrightarrow> f x = g x) \<Longrightarrow> rbind m f = rbind m' g"
  by (cases m') auto

text \<open>A loop body run a fixed number of times, stopping at the first error.\<close>

fun rloop :: "nat \<Rightarrow> (nat \<Rightarrow> 's \<Rightarrow> 's res) \<Rightarrow> nat \<Rightarrow> 's \<Rightarrow> 's res" where
  "rloop 0 body i s = Inr s"
| "rloop (Suc n) body i s = rbind (body i s) (rloop n body (Suc i))"

lemma rloop_0 [simp]: "rloop 0 body i = Inr"
  by (rule ext) simp

text \<open>
  \<open>rloop n body i s\<close> is \<open>for (k = i; k < i + n; ++k) s = body (k, s)\<close>.
\<close>

lemma rloop_add:
  "rloop (m + n) body i s = rbind (rloop m body i s) (rloop n body (i + m))"
proof (induction m arbitrary: i s)
  case 0
  then show ?case by simp
next
  case (Suc m)
  show ?case
    by (cases "body i s") (simp_all add: Suc.IH rbind_assoc)
qed

lemma rloop_inv:
  assumes "\<And>k s. i \<le> k \<Longrightarrow> k < i + n \<Longrightarrow> P k s \<Longrightarrow> \<exists>s'. body k s = Inr s' \<and> P (Suc k) s'"
    and "P i s"
  shows "\<exists>s'. rloop n body i s = Inr s' \<and> P (i + n) s'"
  using assms
proof (induction n arbitrary: i s)
  case 0
  then show ?case by simp
next
  case (Suc n)
  from Suc.prems(1)[of i s] Suc.prems(2)
  obtain s1 where s1: "body i s = Inr s1" "P (Suc i) s1" by auto
  have "\<exists>s'. rloop n body (Suc i) s1 = Inr s' \<and> P (Suc i + n) s'"
    using Suc.prems(1) s1(2) by (intro Suc.IH) auto
  with s1 show ?case by auto
qed

text \<open>A body whose state after \<open>k\<close> is a function of \<open>k\<close>.\<close>

lemma rloop_det:
  assumes "\<And>k. i \<le> k \<Longrightarrow> k < i + n \<Longrightarrow> body k (f k) = Inr (f (Suc k))"
  shows "rloop n body i (f i) = Inr (f (i + n))"
proof -
  have "\<exists>s'. rloop n body i (f i) = Inr s' \<and> s' = f (i + n)"
    by (rule rloop_inv [where P = "\<lambda>k s. s = f k"]) (use assms in auto)
  then show ?thesis by simp
qed

section \<open>Streams\<close>

text \<open>
  A hardware stream is the list of the elements written and not yet read. Reading an empty
  one blocks for ever.
\<close>

definition sread :: "'a list \<Rightarrow> ('a \<times> 'a list) res" where
  "sread xs = (case xs of [] \<Rightarrow> Inl StreamEmpty | x # xs' \<Rightarrow> Inr (x, xs'))"

lemma sread_simps [simp]: "sread [] = Inl StreamEmpty" "sread (x # xs) = Inr (x, xs)"
  by (simp_all add: sread_def)

text \<open>Sizes and constants of the program, to be unfolded together.\<close>

named_theorems sizes "constants of the program"

section \<open>Arrays\<close>

definition rd :: "'a list \<Rightarrow> nat \<Rightarrow> 'a res" where
  "rd xs i = (if i < length xs then Inr (xs ! i) else Inl OutOfBounds)"

definition wr :: "'a list \<Rightarrow> nat \<Rightarrow> 'a \<Rightarrow> 'a list res" where
  "wr xs i v = (if i < length xs then Inr (xs[i := v]) else Inl OutOfBounds)"

lemma rd_in [simp]: "i < length xs \<Longrightarrow> rd xs i = Inr (xs ! i)"
  by (simp add: rd_def)

lemma rd_out [simp]: "length xs \<le> i \<Longrightarrow> rd xs i = Inl OutOfBounds"
  by (simp add: rd_def)

lemma wr_in [simp]: "i < length xs \<Longrightarrow> wr xs i v = Inr (xs[i := v])"
  by (simp add: wr_def)

lemma wr_out [simp]: "length xs \<le> i \<Longrightarrow> wr xs i v = Inl OutOfBounds"
  by (simp add: wr_def)

text \<open>\<open>n\<close> elements from index \<open>i\<close>, and \<open>memcpy\<close> into a destination array.\<close>

definition subarr :: "'a list \<Rightarrow> nat \<Rightarrow> nat \<Rightarrow> 'a list res" where
  "subarr xs i n = (if i + n \<le> length xs then Inr (take n (drop i xs)) else Inl OutOfBounds)"

definition blit :: "'a list \<Rightarrow> nat \<Rightarrow> 'a list \<Rightarrow> 'a list res" where
  "blit dst i src = (if i + length src \<le> length dst
     then Inr (take i dst @ src @ drop (i + length src) dst) else Inl OutOfBounds)"

lemma subarr_in [simp]: "i + n \<le> length xs \<Longrightarrow> subarr xs i n = Inr (take n (drop i xs))"
  by (simp add: subarr_def)

lemma blit_in: "i + length src \<le> length dst \<Longrightarrow>
    blit dst i src = Inr (take i dst @ src @ drop (i + length src) dst)"
  by (simp add: blit_def)

lemma blit_length: "blit dst i src = Inr dst' \<Longrightarrow> length dst' = length dst"
  by (auto simp: blit_def split: if_splits)

lemma take_blit: "blit dst i src = Inr dst' \<Longrightarrow> take (i + length src) dst' = take i dst @ src"
  by (auto simp: blit_def split: if_splits)

lemma drop_blit:
  "blit dst i src = Inr dst' \<Longrightarrow> drop (i + length src) dst' = drop (i + length src) dst"
  by (auto simp: blit_def split: if_splits)

text \<open>\<open>memcpy\<close> within one array: \<open>n\<close> elements from index \<open>j\<close> to index \<open>i\<close>.\<close>

definition memcpy_in :: "'a list \<Rightarrow> nat \<Rightarrow> nat \<Rightarrow> nat \<Rightarrow> 'a list res" where
  "memcpy_in xs i j n = (if 0 < n \<and> i < j + n \<and> j < i + n then Inl Overlap
     else rbind (subarr xs j n) (blit xs i))"

lemma memcpy_in_front:
  assumes "length xs \<le> 2 * j" "j \<le> length xs"
  shows "memcpy_in xs 0 j (length xs - j) = Inr (drop j xs @ drop (length xs - j) xs)"
  using assms by (auto simp: memcpy_in_def blit_def)

lemma drop_eq_Cons_nth: "i < length xs \<Longrightarrow> drop i xs = xs ! i # drop (Suc i) xs"
  by (simp add: Cons_nth_drop_Suc)

lemma drop_eq_appendD:
  assumes "drop i xs = ys @ zs"
  shows "drop (i + length ys) xs = zs"
proof -
  have "drop (i + length ys) xs = drop (length ys) (drop i xs)"
    by (simp add: add.commute)
  then show ?thesis using assms by simp
qed

section \<open>Words\<close>

lemma unat_u8_lt [simp]: "unat (b :: u8) < 256"
  using unsigned_less [of b] by simp

lemma uint_u8_bounds: "0 \<le> uint (b :: u8)" "uint (b :: u8) < 256"
  using uint_bounded [of b] by simp_all

lemma unat_of_nat_u8: "n < 256 \<Longrightarrow> unat (of_nat n :: u8) = n"
  by (simp add: unat_of_nat take_bit_eq_mod)

text \<open>Two bytes in little-endian order, as the sources assemble them.\<close>

definition le16 :: "u8 \<Rightarrow> u8 \<Rightarrow> nat" where
  "le16 lo hi = unat lo + 256 * unat hi"

lemma le16_bound: "le16 lo hi < 65536"
  using unat_u8_lt [of lo] unat_u8_lt [of hi] unfolding le16_def by linarith

end
