(* ===== verification/Numeric.thy ===== *)
theory Numeric
  imports Complex_Main Prelude
begin

text \<open>
  Column decoding: \<open>snumToLong3\<close> and \<open>getJdate\<close> of
  \<^verbatim>\<open>xql6/host/q6_swemu.c\<close>, which turn the payload of a short-format
  PostgreSQL numeric into a long holding hundredths and a four-byte date into an int,
  and the variant of \<open>snumToLong3\<close> of the FPGA kernel
  (\<^verbatim>\<open>xql6/kernel/q6_paged.cpp\<close>) that finds the payload length in the last byte of its buffer.
  The abstract side is the short numeric format itself: a sign, a display scale, the weight
  of the first base-10000 digit and the digits, with its encoding and its real value.
\<close>

section \<open>The code\<close>

text \<open>
  \<open>char weight = fData[0] & 0x7F; weight |= (weight & 0x40) << 1\<close>: the seven weight bits,
  sign-extended in a (signed) char.
\<close>

definition snum_weight :: "u8 \<Rightarrow> int" where
  "snum_weight b0 = (let weight = b0 AND 0x7F in sint (weight OR push_bit 1 (weight AND 0x40)))"

text \<open>\<open>(fData[1] & 0x20)\<close> as a truth value.\<close>

definition snum_sign :: "u8 \<Rightarrow> bool" where
  "snum_sign b1 \<longleftrightarrow> b1 AND 0x20 \<noteq> 0"

text \<open>
  \<open>unsigned int scale = (fData [1] & 0x1F) << 1 + (fData [0] & 0x80)\<close>. The addition binds
  tighter than the shift, so the shift distance is 1 or 129; the second is out of range for an
  int. No later statement of the function reads a variable computed from \<open>scale\<close>, so
  \<open>snumToLong3\<close> below leaves it out.
\<close>

definition snum_scale :: "u8 \<Rightarrow> u8 \<Rightarrow> u32 res" where
  "snum_scale b0 b1 = (let sh = 1 + unat (b0 AND 0x80) in
     if sh < 32 then Inr (push_bit sh (ucast (b1 AND 0x1F))) else Inl ShiftRange)"

text \<open>\<open>short dig = fData [fPtr+1] << 8 | fData [fPtr]\<close>\<close>

definition snum_dig :: "u8 \<Rightarrow> u8 \<Rightarrow> int" where
  "snum_dig lo hi = sint (push_bit 8 (ucast hi) OR ucast lo :: u16)"

text \<open>
  The digit loop \<open>for (i = nDigs-1; i >= 0; --i, fPtr += 2)\<close>; the first argument is
  \<open>i + 1\<close>, the last is \<open>res\<close>.
\<close>

fun snum_loop :: "u8 list \<Rightarrow> int \<Rightarrow> nat \<Rightarrow> nat \<Rightarrow> i64 \<Rightarrow> i64 res" where
  "snum_loop fData fsz 0 fPtr r = Inr r"
| "snum_loop fData fsz (Suc i) fPtr r =
     rbind (if int fPtr < fsz
            then rbind (rd fData (fPtr + 1)) (\<lambda>hi.
                 rbind (rd fData fPtr) (\<lambda>lo. Inr (snum_dig lo hi)))
            else Inr 0)
       (\<lambda>dig. snum_loop fData fsz i (fPtr + 2)
          (if i = 0 then r * 100 + word_of_int (dig sdiv 100)
           else r * 10000 + word_of_int dig))"

definition snumToLong3 :: "u8 list \<Rightarrow> int \<Rightarrow> i64 res" where
  "snumToLong3 fData fsz =
     rbind (rd fData 1) (\<lambda>b1.
     rbind (rd fData 0) (\<lambda>b0.
       let weight = snum_weight b0;
           nWhlDigs = (if weight \<ge> 0 then weight + 1 else 0);
           nDigs = nWhlDigs + 1
       in rbind (snum_loop fData fsz (nat nDigs) 2 0) (\<lambda>r.
            Inr (if snum_sign b1 then - r else r))))"

text \<open>The kernel's version: \<open>int fsz = fData [NMRC_FIELD_SZ-1]\<close>, the rest is the same text.\<close>

definition NMRC_FIELD_SZ :: nat where "NMRC_FIELD_SZ = 16"

definition k_snumToLong3 :: "u8 list \<Rightarrow> i64 res" where
  "k_snumToLong3 fData =
     rbind (rd fData (NMRC_FIELD_SZ - 1)) (\<lambda>fsz. snumToLong3 fData (uint fsz))"

text \<open>\<open>for (i=DATE_SZ-1; i>=0; --i) j = j<<8 | fData [i]\<close>\<close>

definition DATE_SZ :: nat where "DATE_SZ = 4"

fun jdate_loop :: "u8 list \<Rightarrow> nat \<Rightarrow> u32 \<Rightarrow> u32 res" where
  "jdate_loop fData 0 j = Inr j"
| "jdate_loop fData (Suc i) j =
     rbind (rd fData i) (\<lambda>b. jdate_loop fData i (push_bit 8 j OR ucast b))"

definition getJdate :: "u8 list \<Rightarrow> int res" where
  "getJdate fData = rbind (jdate_loop fData DATE_SZ 0) (\<lambda>j. Inr (sint j))"

section \<open>The short numeric format\<close>

record snum =
  sn_neg :: bool
  sn_dscale :: nat
  sn_weight :: int
  sn_digits :: "nat list"

definition enc_digit :: "nat \<Rightarrow> u8 list" where
  "enc_digit d = [of_nat (d mod 256), of_nat (d div 256)]"

text \<open>
  The header word, low byte first: bit 15 marks the short form, bit 13 is the sign, bits
  7--12 the display scale, bits 0--6 the weight in two's complement.
\<close>

definition enc_snum :: "snum \<Rightarrow> u8 list" where
  "enc_snum n =
     [of_nat (128 * (sn_dscale n mod 2) + nat (sn_weight n mod 128)),
      of_nat (128 + (if sn_neg n then 32 else 0) + sn_dscale n div 2)]
     @ concat (map enc_digit (sn_digits n))"

definition wf_snum :: "snum \<Rightarrow> bool" where
  "wf_snum n \<longleftrightarrow> sn_dscale n < 64 \<and> -64 \<le> sn_weight n \<and> sn_weight n < 64
     \<and> (\<forall>d \<in> set (sn_digits n). d < 10000)"

text \<open>The real value: digit \<open>k\<close> stands for \<open>d * 10000 ^ (weight - k)\<close>.\<close>

fun digits_real :: "int \<Rightarrow> nat list \<Rightarrow> real" where
  "digits_real w [] = 0"
| "digits_real w (d # ds) = real d * 10000 powi w + digits_real (w - 1) ds"

definition snum_real :: "snum \<Rightarrow> real" where
  "snum_real n = (if sn_neg n then -1 else 1) * digits_real (sn_weight n) (sn_digits n)"

text \<open>Hundredths of the magnitude, in integer arithmetic: \<open>n\<close> digits before the point.\<close>

definition hd0 :: "nat list \<Rightarrow> nat" where
  "hd0 ds = (case ds of [] \<Rightarrow> 0 | d # _ \<Rightarrow> d)"

fun digits_cents :: "nat \<Rightarrow> nat list \<Rightarrow> int \<Rightarrow> int" where
  "digits_cents 0 ds acc = acc * 100 + int (hd0 ds div 100)"
| "digits_cents (Suc n) ds acc = digits_cents n (tl ds) (acc * 10000 + int (hd0 ds))"

definition snum_cents :: "snum \<Rightarrow> int" where
  "snum_cents n = (if sn_neg n then -1 else 1) *
     digits_cents (nat (sn_weight n + 1)) (sn_digits n) 0"

section \<open>Decoding recovers the encoded value\<close>

lemma le16_or: "push_bit 8 (ucast hi) OR ucast lo = (of_nat (le16 lo hi) :: u16)"
proof -
  have "\<not> bit (push_bit 8 (ucast hi) :: u16) n \<or> \<not> bit (ucast lo :: u16) n" for n
    by (auto simp: bit_simps dest: bit_imp_le_length)
  then have "push_bit 8 (ucast hi) OR ucast lo = push_bit 8 (ucast hi) + (ucast lo :: u16)"
    by (simp add: disjunctive_add_eq_or bit_eq_iff bit_and_iff)
  also have "\<dots> = of_nat (le16 lo hi)"
    by (simp add: le16_def push_bit_eq_mult)
  finally show ?thesis .
qed

lemma le16_or_u32: "push_bit 8 (ucast hi) OR ucast lo = (of_nat (le16 lo hi) :: u32)"
proof -
  have "\<not> bit (push_bit 8 (ucast hi) :: u32) n \<or> \<not> bit (ucast lo :: u32) n" for n
    by (auto simp: bit_simps dest: bit_imp_le_length)
  then have "push_bit 8 (ucast hi) OR ucast lo = push_bit 8 (ucast hi) + (ucast lo :: u32)"
    by (simp add: disjunctive_add_eq_or bit_eq_iff bit_and_iff)
  also have "\<dots> = of_nat (le16 lo hi)"
    by (simp add: le16_def push_bit_eq_mult)
  finally show ?thesis .
qed

lemma snum_dig_enc:
  assumes "d < 10000"
  shows "snum_dig (of_nat (d mod 256)) (of_nat (d div 256)) = int d"
proof -
  have "le16 (of_nat (d mod 256)) (of_nat (d div 256)) = d"
    using assms by (simp add: le16_def unat_of_nat_u8)
  moreover have "sint (of_nat d :: u16) = int d"
    using assms by (simp add: signed_of_nat signed_take_bit_int_eq_self)
  ultimately show ?thesis by (simp add: snum_dig_def le16_or)
qed

lemma snum_weight_bits: "snum_weight b = signed_take_bit 6 (uint b)"
proof (rule bit_eqI)
  fix n :: nat
  have 1: "(0x7F :: u8) = mask 7" and 2: "(0x40 :: u8) = push_bit 6 1"
    by (simp_all add: mask_eq_exp_minus_1)
  have 3: "LENGTH(8) = 8" by simp
  have "n < 6 \<or> n = 6 \<or> n = 7 \<or> 8 \<le> n" by arith
  then show "bit (snum_weight b) n \<longleftrightarrow> bit (signed_take_bit 6 (uint b)) n"
    unfolding snum_weight_def Let_def 1 2
    by (simp only: bit_sint_iff bit_or_iff bit_and_iff bit_push_bit_iff bit_mask_iff
      bit_1_iff bit_signed_take_bit_iff bit_uint_iff min_def 3 possible_bit_word)
      auto
qed

lemma snum_weight_enc:
  assumes "-64 \<le> w" "w < 64" "c < 2"
  shows "snum_weight (of_nat (128 * c + nat (w mod 128))) = w"
proof -
  let ?k = "128 * c + nat (w mod 128)"
  have "nat (w mod 128) < 128" by (simp add: nat_less_iff)
  then have "?k < 256" using assms by arith
  then have "uint (of_nat ?k :: u8) = int ?k"
    by (metis unat_of_nat_u8 uint_nat)
  moreover have "signed_take_bit 6 (128 * int c + w mod 128) = signed_take_bit 6 w"
    by (simp add: signed_take_bit_eq_iff_take_bit_eq take_bit_eq_mod)
  moreover have "signed_take_bit 6 w = w"
    using assms by (simp add: signed_take_bit_int_eq_self)
  ultimately show ?thesis by (simp add: snum_weight_bits)
qed

lemma snum_sign_bit: "snum_sign b \<longleftrightarrow> odd (unat b div 32)"
proof -
  have "snum_sign b \<longleftrightarrow> bit b 5"
    by (simp add: snum_sign_def bit_iff_and_push_bit_not_eq_0)
  also have "\<dots> \<longleftrightarrow> bit (unat b) 5"
    by (simp add: bit_unsigned_iff bit_imp_le_length)
  finally show ?thesis by (simp add: bit_iff_odd)
qed

lemma snum_sign_enc:
  assumes "s < 64"
  shows "snum_sign (of_nat (128 + (if neg then 32 else 0) + s div 2)) = neg"
proof -
  let ?k = "128 + (if neg then 32 else 0) + s div 2 :: nat"
  have "unat (of_nat ?k :: u8) = ?k"
    using assms by (intro unat_of_nat_u8) auto
  moreover have "?k div 32 = (if neg then 5 else 4)"
    using assms by auto
  ultimately show ?thesis by (simp only: snum_sign_bit) simp
qed

lemma digits_real_bounds:
  "\<forall>d \<in> set ds. d < 10000 \<Longrightarrow> 0 \<le> digits_real w ds \<and> digits_real w ds < 10000 powi (w + 1)"
proof (induction ds arbitrary: w)
  case Nil
  then show ?case by simp
next
  case (Cons d ds)
  have IH: "0 \<le> digits_real (w - 1) ds" "digits_real (w - 1) ds < 10000 powi w"
    using Cons.IH[of "w - 1"] Cons.prems by auto
  have "real d + 1 \<le> 10000" using Cons.prems by simp
  then have "(real d + 1) * 10000 powi w \<le> 10000 * 10000 powi w"
    by (intro mult_right_mono) auto
  also have "10000 * 10000 powi w = (10000 powi (w + 1) :: real)"
    by (simp add: power_int_add)
  finally have "real d * 10000 powi w + 10000 powi w \<le> 10000 powi (w + 1)"
    by (simp add: algebra_simps)
  with IH show ?case by auto
qed

lemma floor_tail:
  fixes t :: real
  assumes "0 \<le> t" "t < 1 / 10000"
  shows "\<lfloor>100 * (real d / 10000 + t)\<rfloor> = int (d div 100)"
proof -
  have "real d = real (d div 100) * 100 + real (d mod 100)"
    by (metis div_mult_mod_eq of_nat_add of_nat_mult of_nat_numeral)
  moreover have "real (d mod 100) \<le> 99"
    using mod_less_divisor [of 100 d] by linarith
  ultimately show ?thesis
    using assms by (intro floor_unique) (auto simp: field_simps)
qed

lemma digits_cents_floor:
  assumes "\<forall>d \<in> set ds. d < 10000"
  shows "digits_cents n ds acc
    = acc * 100 * 10000 ^ n + \<lfloor>100 * digits_real (int n - 1) ds\<rfloor>"
  using assms
proof (induction n ds acc rule: digits_cents.induct)
  case (1 ds acc)
  show ?case
  proof (cases ds)
    case Nil
    then show ?thesis by (simp add: hd0_def)
  next
    case (Cons d ds')
    have "0 \<le> digits_real (-2) ds' \<and> digits_real (-2) ds' < 10000 powi (-1)"
      using digits_real_bounds [of ds' "-2"] 1 Cons by simp
    then have "\<lfloor>100 * (real d / 10000 + digits_real (-2) ds')\<rfloor> = int (d div 100)"
      by (intro floor_tail) (auto simp: power_int_minus)
    moreover have "digits_real (-1) ds = real d / 10000 + digits_real (-2) ds'"
      by (simp add: Cons)
    ultimately have "\<lfloor>100 * digits_real (-1) ds\<rfloor> = int (hd0 ds div 100)"
      by (simp only: hd0_def list.case Cons)
    moreover have "int 0 - 1 = -1" by simp
    ultimately show ?thesis
      by (simp only: digits_cents.simps power_0 mult_1_right)
  qed
next
  case (2 n ds acc)
  have IH: "digits_cents n (tl ds) (acc * 10000 + int (hd0 ds))
     = (acc * 10000 + int (hd0 ds)) * 100 * 10000 ^ n + \<lfloor>100 * digits_real (int n - 1) (tl ds)\<rfloor>"
    using 2 by (cases ds) auto
  have "digits_real (int n) ds = real (hd0 ds) * 10000 ^ n + digits_real (int n - 1) (tl ds)"
    by (cases ds) (auto simp: hd0_def)
  then have *: "100 * digits_real (int n) ds
     = of_int (100 * int (hd0 ds) * 10000 ^ n) + 100 * digits_real (int n - 1) (tl ds)"
    by (simp add: distrib_left)
  have "\<lfloor>100 * digits_real (int n) ds\<rfloor>
     = 100 * int (hd0 ds) * 10000 ^ n + \<lfloor>100 * digits_real (int n - 1) (tl ds)\<rfloor>"
    unfolding * by (rule int_add_floor [symmetric])
  with IH show ?case by (simp add: distrib_right)
qed

text \<open>The digits \<open>ds\<close> lie in the buffer from \<open>fPtr\<close> on, and \<open>fsz\<close> ends them.\<close>

definition digs_at :: "u8 list \<Rightarrow> nat \<Rightarrow> int \<Rightarrow> nat list \<Rightarrow> bool" where
  "digs_at fData fPtr fsz ds \<longleftrightarrow> (if ds = [] then fsz \<le> int fPtr else
     fsz = int (fPtr + 2 * length ds) \<and>
     (\<exists>rest. drop fPtr fData = concat (map enc_digit ds) @ rest))"

lemma digs_at_tl: "digs_at fData fPtr fsz ds \<Longrightarrow> digs_at fData (fPtr + 2) fsz (tl ds)"
proof (cases ds)
  case (Cons d ds')
  assume "digs_at fData fPtr fsz ds"
  with Cons obtain rest where
    "drop fPtr fData = enc_digit d @ (concat (map enc_digit ds') @ rest)"
    and "fsz = int (fPtr + 2 * length ds)"
    by (auto simp: digs_at_def)
  with Cons drop_eq_appendD [of fPtr fData "enc_digit d"] show ?thesis
    by (auto simp: digs_at_def enc_digit_def)
qed (simp add: digs_at_def)

lemma digs_at_read:
  assumes "digs_at fData fPtr fsz ds" and "\<forall>d \<in> set ds. d < 10000"
  shows "(if int fPtr < fsz then rbind (rd fData (fPtr + 1)) (\<lambda>hi.
      rbind (rd fData fPtr) (\<lambda>lo. Inr (snum_dig lo hi))) else Inr 0) = Inr (int (hd0 ds))"
proof (cases ds)
  case Nil
  then show ?thesis using assms by (simp add: digs_at_def hd0_def)
next
  case (Cons d ds')
  with assms obtain rest where rest: "drop fPtr fData =
      of_nat (d mod 256) # of_nat (d div 256) # rest" and "int fPtr < fsz"
    by (auto simp: digs_at_def enc_digit_def)
  have "fPtr + 1 < length fData"
    using arg_cong [OF rest, of length] by simp
  moreover have "fData ! fPtr = of_nat (d mod 256)"
    using rest by (rule nth_via_drop)
  moreover have "fData ! (fPtr + 1) = of_nat (d div 256)"
    using arg_cong [OF rest, of tl] by (intro nth_via_drop) (simp add: drop_Suc tl_drop)
  ultimately show ?thesis
    using Cons assms \<open>int fPtr < fsz\<close> by (simp add: hd0_def snum_dig_enc)
qed

lemma snum_loop_cents:
  assumes "digs_at fData fPtr fsz ds" and "\<forall>d \<in> set ds. d < 10000"
  shows "snum_loop fData fsz (Suc n) fPtr (word_of_int acc)
    = Inr (word_of_int (digits_cents n ds acc))"
  using assms
proof (induction n arbitrary: fPtr ds acc)
  case 0
  have "int (hd0 ds) sdiv 100 = int (hd0 ds div 100)"
    by (simp add: signed_divide_int_def zdiv_int sgn_if)
  then show ?case
    by (simp only: snum_loop.simps digs_at_read [OF 0] rbind_simps if_True digits_cents.simps)
      simp
next
  case (Suc n)
  have "snum_loop fData fsz (Suc n) (fPtr + 2) (word_of_int (acc * 10000 + int (hd0 ds)))
    = Inr (word_of_int (digits_cents n (tl ds) (acc * 10000 + int (hd0 ds))))"
    using Suc.prems by (intro Suc.IH digs_at_tl) (cases ds; auto)+
  moreover have "snum_loop fData fsz (Suc (Suc n)) fPtr (word_of_int acc)
    = snum_loop fData fsz (Suc n) (fPtr + 2) (word_of_int (acc * 10000 + int (hd0 ds)))"
    by (subst snum_loop.simps(2), subst digs_at_read [OF Suc.prems])
      (simp del: snum_loop.simps)
  ultimately show ?case by (simp only: digits_cents.simps)
qed

lemma enc_snum_length [simp]: "length (enc_snum n) = 2 + 2 * length (sn_digits n)"
proof -
  have "length (concat (map enc_digit ds)) = 2 * length ds" for ds
    by (induction ds) (simp_all add: enc_digit_def)
  then show ?thesis by (simp add: enc_snum_def)
qed

lemma snumToLong3_enc:
  assumes "wf_snum n" and "fData = enc_snum n @ rest"
  shows "snumToLong3 fData (int (length (enc_snum n))) = Inr (word_of_int (snum_cents n))"
proof -
  have 0: "fData ! 0 = of_nat (128 * (sn_dscale n mod 2) + nat (sn_weight n mod 128))"
    and 1: "fData ! 1 = of_nat (128 + (if sn_neg n then 32 else 0) + sn_dscale n div 2)"
    and len: "1 < length fData"
    and drp: "drop 2 fData = concat (map enc_digit (sn_digits n)) @ rest"
    using assms(2) by (simp_all add: enc_snum_def)
  have w: "snum_weight (fData ! 0) = sn_weight n"
    unfolding 0 using assms(1) by (intro snum_weight_enc) (auto simp: wf_snum_def)
  have sg: "snum_sign (fData ! 1) = sn_neg n"
    unfolding 1 using assms(1) by (intro snum_sign_enc) (auto simp: wf_snum_def)
  have "digs_at fData 2 (int (length (enc_snum n))) (sn_digits n)"
    using drp by (auto simp: digs_at_def)
  then have lp: "snum_loop fData (int (length (enc_snum n))) (Suc (nat (sn_weight n + 1))) 2 0
     = Inr (word_of_int (digits_cents (nat (sn_weight n + 1)) (sn_digits n) 0))"
    using snum_loop_cents [of fData 2 _ "sn_digits n" _ 0] assms(1)
    by (simp add: wf_snum_def del: snum_loop.simps)
  have nd: "nat ((if 0 \<le> sn_weight n then sn_weight n + 1 else 0) + 1)
     = Suc (nat (sn_weight n + 1))"
    by auto
  from len have "snumToLong3 fData (int (length (enc_snum n)))
     = rbind (snum_loop fData (int (length (enc_snum n))) (Suc (nat (sn_weight n + 1))) 2 0)
         (\<lambda>r. Inr (if sn_neg n then - r else r))"
    by (simp only: snumToLong3_def rd_in rbind_simps Let_def w sg nd)
  also have "\<dots> = Inr (word_of_int (snum_cents n))"
    unfolding lp by (simp add: snum_cents_def)
  finally show ?thesis .
qed


lemma k_snumToLong3_enc:
  assumes "wf_snum n" and "fData = enc_snum n @ rest"
    and "length fData = NMRC_FIELD_SZ" and "fData ! (NMRC_FIELD_SZ - 1) = of_nat (length (enc_snum n))"
  shows "k_snumToLong3 fData = Inr (word_of_int (snum_cents n))"
proof -
  have "length (enc_snum n) < 256"
    using assms(2,3) by (simp add: NMRC_FIELD_SZ_def)
  then have "uint (fData ! (NMRC_FIELD_SZ - 1)) = int (length (enc_snum n))"
    unfolding assms(4) by (metis unat_of_nat_u8 uint_nat)
  then show ?thesis
    using assms(3) snumToLong3_enc [OF assms(1,2)]
    by (simp add: k_snumToLong3_def NMRC_FIELD_SZ_def)
qed

definition enc_date :: "int \<Rightarrow> u8 list" where
  "enc_date d = [word_of_int d, word_of_int (drop_bit 8 d), word_of_int (drop_bit 16 d),
     word_of_int (drop_bit 24 d)]"

lemma enc_date_length [simp]: "length (enc_date d) = 4"
  by (simp add: enc_date_def)

lemma date_bytes:
  "push_bit 8 (push_bit 8 (push_bit 8 (ucast (word_of_int (drop_bit 24 d) :: u8))
      OR ucast (word_of_int (drop_bit 16 d) :: u8)) OR ucast (word_of_int (drop_bit 8 d) :: u8))
    OR ucast (word_of_int d :: u8) = (word_of_int d :: u32)"
proof (rule bit_word_eqI)
  fix n assume "n < LENGTH(32)"
  then consider "n < 8" | "8 \<le> n" "n < 16" | "16 \<le> n" "n < 24" | "24 \<le> n" "n < 32"
    by fastforce
  then show "bit (push_bit 8 (push_bit 8 (push_bit 8 (ucast (word_of_int (drop_bit 24 d) :: u8))
      OR ucast (word_of_int (drop_bit 16 d) :: u8)) OR ucast (word_of_int (drop_bit 8 d) :: u8))
      OR ucast (word_of_int d :: u8) :: u32) n \<longleftrightarrow> bit (word_of_int d :: u32) n"
    by cases (auto simp: bit_simps)
qed

lemma getJdate_enc:
  assumes "- (2 ^ 31) \<le> d" "d < 2 ^ 31"
  shows "getJdate (enc_date d @ rest) = Inr d"
proof -
  have "jdate_loop (enc_date d @ rest) DATE_SZ 0 = Inr (word_of_int d)"
    using date_bytes [of d] by (simp add: DATE_SZ_def enc_date_def numeral_eq_Suc)
  moreover have "sint (word_of_int d :: u32) = d"
    using assms by (simp add: signed_of_int signed_take_bit_int_eq_self)
  ultimately show ?thesis by (simp add: getJdate_def)
qed

lemma digits_cents_bounds:
  assumes "\<forall>d \<in> set ds. d < 10000"
  shows "0 \<le> digits_cents n ds 0 \<and> digits_cents n ds 0 < 100 * 10000 ^ n"
proof -
  let ?v = "digits_real (int n - 1) ds"
  have "0 \<le> ?v" "?v < 10000 ^ n"
    using digits_real_bounds [OF assms, of "int n - 1"] by auto
  then have "\<lfloor>100 * ?v\<rfloor> < 100 * 10000 ^ n" "0 \<le> \<lfloor>100 * ?v\<rfloor>"
    by (simp_all add: floor_less_iff)
  then show ?thesis using digits_cents_floor [OF assms, of n 0] by simp
qed

lemma snumToLong3_correct_law:
  assumes "wf_snum n" and "-1 \<le> sn_weight n" and "sn_weight n \<le> 3"
  shows "\<exists>r. snumToLong3 (enc_snum n @ rest) (int (length (enc_snum n))) = Inr r
    \<and> sint r = (if sn_neg n then -1 else 1) * \<lfloor>100 * \<bar>snum_real n\<bar>\<rfloor>"
proof -
  let ?m = "digits_cents (nat (sn_weight n + 1)) (sn_digits n) 0"
  have ds: "\<forall>d \<in> set (sn_digits n). d < 10000"
    using assms(1) by (simp add: wf_snum_def)
  have "\<bar>snum_real n\<bar> = digits_real (sn_weight n) (sn_digits n)"
    using digits_real_bounds [OF ds] by (simp add: snum_real_def)
  then have fl: "\<lfloor>100 * \<bar>snum_real n\<bar>\<rfloor> = ?m"
    using digits_cents_floor [OF ds, of "nat (sn_weight n + 1)" 0] assms(2) by simp
  have "100 * 10000 ^ nat (sn_weight n + 1) \<le> (100 * 10000 ^ 4 :: int)"
    using assms(3) by (intro mult_left_mono power_increasing) auto
  then have "0 \<le> ?m" "?m < 2 ^ 63"
    using digits_cents_bounds [OF ds, of "nat (sn_weight n + 1)"] by auto
  then have "- (2 ^ 63) \<le> snum_cents n" "snum_cents n < 2 ^ 63"
    by (auto simp: snum_cents_def)
  then have "sint (word_of_int (snum_cents n) :: i64) = snum_cents n"
    by (simp add: signed_of_int signed_take_bit_int_eq_self)
  then show ?thesis
    using snumToLong3_enc [OF assms(1) refl, of rest] fl by (simp add: snum_cents_def)
qed

lemma scale_mask: "b AND 0x1F = (of_nat (unat b mod 32) :: u8)"
proof -
  have "(0x1F :: u8) = mask 5" by (simp add: mask_eq_exp_minus_1)
  then have "b AND 0x1F = take_bit 5 b" by (simp add: take_bit_eq_mask)
  also have "\<dots> = of_nat (unat b mod 32)"
    by (simp add: word_unat_eq_iff unat_of_nat unsigned_take_bit_eq take_bit_eq_mod unat_mod)
  finally show ?thesis .
qed

lemma scale_low_bit: "b AND 0x80 = (of_nat (128 * (unat b div 128)) :: u8)"
proof -
  have p: "(0x80 :: u8) = push_bit 7 1" by simp
  have "b AND push_bit 7 1 = (if bit b 7 then push_bit 7 1 else 0)"
  proof (rule bit_word_eqI)
    fix n
    have *: "bit (push_bit 7 (1 :: u8)) n \<longleftrightarrow> n = 7"
      by (simp only: bit_push_bit_iff bit_1_iff possible_bit_word) auto
    show "bit (b AND push_bit 7 1) n \<longleftrightarrow> bit (if bit b 7 then push_bit 7 1 else 0 :: u8) n"
    proof (cases "bit b 7")
      case True
      then show ?thesis unfolding bit_and_iff if_P [OF True] * by blast
    next
      case False
      then show ?thesis unfolding bit_and_iff if_not_P [OF False] * bit_0_eq by auto
    qed
  qed
  moreover have "unat b div 128 < 2"
    by (rule less_mult_imp_div_less) simp
  moreover have "bit b 7 \<longleftrightarrow> odd (unat b div 128)"
    using bit_unsigned_iff [of b 7, where 'a = nat] by (simp add: bit_iff_odd bit_imp_le_length)
  ultimately show ?thesis
    unfolding p by (auto simp: less_2_cases_iff)
qed

lemma snum_scale_enc_law:
  assumes "wf_snum n"
  shows "snum_scale (enc_snum n ! 0) (enc_snum n ! 1) =
    (if even (sn_dscale n) then Inr (of_nat (sn_dscale n)) else Inl ShiftRange)"
proof -
  let ?s = "sn_dscale n" and ?w = "nat (sn_weight n mod 128)"
  have s: "?s < 64" and w: "?w < 128"
    using assms by (simp_all add: wf_snum_def nat_less_iff)
  let ?b0 = "enc_snum n ! 0" and ?b1 = "enc_snum n ! 1"
  have "unat ?b0 = 128 * (?s mod 2) + ?w"
    using w by (simp only: enc_snum_def append_Cons nth_Cons_0) (rule unat_of_nat_u8, arith)
  then have 0: "?b0 AND 0x80 = of_nat (128 * (?s mod 2))"
    using w by (simp only: scale_low_bit) simp
  have "unat ?b1 = 128 + (if sn_neg n then 32 else 0) + ?s div 2"
    using s by (simp only: enc_snum_def append_Cons nth_Cons_Suc nth_Cons_0 One_nat_def)
      (rule unat_of_nat_u8, auto)
  moreover have "(128 + (if sn_neg n then 32 else 0) + ?s div 2) mod 32 = ?s div 2"
  proof -
    have "128 + 32 + x = x + 5 * 32" "128 + 0 + x = x + 4 * 32" for x :: nat
      by simp_all
    then have *: "(128 + 32 + x) mod 32 = x mod 32" "(128 + 0 + x) mod 32 = x mod 32" for x :: nat
      by (simp_all only: mod_mult_self1)
    have "?s div 2 mod 32 = ?s div 2" using s by simp
    then show ?thesis by (cases "sn_neg n") (simp_all only: if_True if_False *)
  qed
  ultimately have 1: "?b1 AND 0x1F = of_nat (?s div 2)"
    by (simp only: scale_mask)
  show ?thesis
  proof (cases "even ?s")
    case True
    then have "?s mod 2 = 0" and half: "2 * (?s div 2) = ?s" by simp_all
    have "push_bit 1 (ucast (of_nat (?s div 2) :: u8)) = (of_nat (2 * (?s div 2)) :: u32)"
      using s by (simp add: unsigned_of_nat take_bit_nat_eq_self)
    with True 0 1 half show ?thesis by (simp add: snum_scale_def)
  next
    case False
    then have "?s mod 2 = 1" by (simp add: odd_iff_mod_2_eq_one)
    with False 0 show ?thesis by (simp add: snum_scale_def)
  qed
qed

lemma snumToLong3_low_weight_law:
  assumes "wf_snum n" and "sn_weight n < -1"
  shows "snumToLong3 (enc_snum n @ rest) (int (length (enc_snum n)))
      = Inr (word_of_int ((if sn_neg n then -1 else 1) * int (hd0 (sn_digits n) div 100)))
    \<and> \<lfloor>100 * \<bar>snum_real n\<bar>\<rfloor> = 0"
proof
  show "snumToLong3 (enc_snum n @ rest) (int (length (enc_snum n)))
      = Inr (word_of_int ((if sn_neg n then -1 else 1) * int (hd0 (sn_digits n) div 100)))"
    using snumToLong3_enc [OF assms(1) refl, of rest] assms(2) by (simp add: snum_cents_def)
  have b: "0 \<le> digits_real (sn_weight n) (sn_digits n)"
      "digits_real (sn_weight n) (sn_digits n) < 10000 powi (sn_weight n + 1)"
    using digits_real_bounds [of "sn_digits n" "sn_weight n"] assms(1) by (auto simp: wf_snum_def)
  have "10000 powi (sn_weight n + 1) \<le> (10000 powi (-1) :: real)"
    using assms(2) by (intro power_int_increasing) auto
  with b have "0 \<le> \<bar>snum_real n\<bar>" "100 * \<bar>snum_real n\<bar> < 1"
    by (auto simp: snum_real_def)
  then show "\<lfloor>100 * \<bar>snum_real n\<bar>\<rfloor> = 0"
    by (intro floor_unique) auto
qed

end
