(* ===== verification/Calendar.thy ===== *)
theory Calendar
  imports Prelude
begin

text \<open>
  Julian day arithmetic: \<open>date2j\<close> and \<open>j2date\<close> of \<^verbatim>\<open>xql6/host/q6_swemu.c\<close>
  (the test bench carries the same text in its class DateMgr). Dates are compared as day
  numbers relative to 2000-01-01, so what the query filter needs is that day numbers are
  ordered as dates are, and that the two constants of the kernel are the day numbers of
  1994-01-01 and 1995-01-01.
\<close>

section \<open>The code\<close>

definition MONTHS_PER_YEAR :: int where "MONTHS_PER_YEAR = 12"
definition POSTGRES_EPOCH_JDATE :: int where "POSTGRES_EPOCH_JDATE = 2451545"

text \<open>\<open>/\<close> on ints truncates towards zero: \<open>sdiv\<close>.\<close>

definition date2j :: "int \<Rightarrow> int \<Rightarrow> int \<Rightarrow> int" where
  "date2j y m d =
    (let m' = (if m > 2 then m + 1 else m + 13);
         y' = (if m > 2 then y + 4800 else y + 4799);
         century = y' sdiv 100;
         julian = y' * 365 - 32167;
         julian = julian + (y' sdiv 4 - century + century sdiv 4);
         julian = julian + ((7834 * m') sdiv 256 + d)
     in julian)"

text \<open>Values of type unsigned int: every operation reduces modulo \<open>2 ^ 32\<close>.\<close>

definition uint32 :: "int \<Rightarrow> int" where
  "uint32 x = x mod 2 ^ 32"

definition j2date :: "int \<Rightarrow> int \<times> int \<times> int" where
  "j2date jd =
    (let julian = uint32 jd;
         julian = uint32 (julian + 32044);
         quad = julian div 146097;
         extra = uint32 (uint32 (uint32 (julian - uint32 (quad * 146097)) * 4) + 3);
         julian = uint32 (julian + uint32 (uint32 (60 + uint32 (quad * 3)) + extra div 146097));
         quad = julian div 1461;
         julian = uint32 (julian - uint32 (quad * 1461));
         y = uint32 (julian * 4) div 1461;
         julian = uint32 ((if y \<noteq> 0 then uint32 (julian + 305) mod 365
                           else uint32 (julian + 306) mod 366) + 123);
         y = y + uint32 (quad * 4);
         year = y - 4800;
         quad = uint32 (julian * 2141) div 65536;
         day = uint32 (julian - uint32 (7834 * quad) div 256);
         month = uint32 (quad + 10) mod MONTHS_PER_YEAR + 1
     in (year, month, day))"

section \<open>Gregorian dates\<close>

definition leap :: "int \<Rightarrow> bool" where
  "leap y \<longleftrightarrow> 4 dvd y \<and> (\<not> 100 dvd y \<or> 400 dvd y)"

definition month_days :: "int \<Rightarrow> int \<Rightarrow> int" where
  "month_days y m = (if m = 2 then (if leap y then 29 else 28)
     else if m \<in> {4, 6, 9, 11} then 30 else 31)"

text \<open>The supported years keep every intermediate value of both functions inside 32 bits.\<close>

definition valid_date :: "int \<Rightarrow> int \<Rightarrow> int \<Rightarrow> bool" where
  "valid_date y m d \<longleftrightarrow> -4713 \<le> y \<and> y \<le> 5000000 \<and> 1 \<le> m \<and> m \<le> 12 \<and> 1 \<le> d \<and> d \<le> month_days y m"

text \<open>
  Years starting in March: their number, the days before them, and the offset of a day in
  its year. Month \<open>M\<close> runs from 4 (March) to 15 (February).
\<close>

definition march_year :: "int \<Rightarrow> int \<Rightarrow> int" where
  "march_year y m = (if m > 2 then y + 4800 else y + 4799)"

definition march_month :: "int \<Rightarrow> int" where
  "march_month m = (if m > 2 then m + 1 else m + 13)"

definition days_before :: "int \<Rightarrow> int" where
  "days_before Y = 365 * Y + Y div 4 - Y div 100 + Y div 400"

definition day_offset :: "int \<Rightarrow> int \<Rightarrow> int" where
  "day_offset m d = 7834 * march_month m div 256 + d - 123"

definition march_year_days :: "int \<Rightarrow> int" where
  "march_year_days Y = (if leap (Y + 1) then 366 else 365)"

lemma sdiv_nonneg: "0 \<le> (a::int) \<Longrightarrow> 0 < b \<Longrightarrow> a sdiv b = a div b"
  by (simp add: signed_divide_int_def sgn_if)

lemma date2j_form:
  assumes "valid_date y m d"
  shows "date2j y m d = days_before (march_year y m) + day_offset m d - 32044"
proof -
  have "0 \<le> march_year y m" "0 \<le> march_month m"
    using assms by (auto simp: valid_date_def march_year_def march_month_def)
  then show ?thesis
    unfolding date2j_def Let_def march_year_def [symmetric] march_month_def [symmetric]
    by (simp add: sdiv_nonneg days_before_def day_offset_def zdiv_zmult2_eq [of 4 _ 100, simplified])
qed

lemma day_offset_values:
  "day_offset 3 d = d - 1" "day_offset 4 d = d + 30" "day_offset 5 d = d + 60"
  "day_offset 6 d = d + 91" "day_offset 7 d = d + 121" "day_offset 8 d = d + 152"
  "day_offset 9 d = d + 183" "day_offset 10 d = d + 213" "day_offset 11 d = d + 244"
  "day_offset 12 d = d + 274" "day_offset 1 d = d + 305" "day_offset 2 d = d + 336"
  by (simp_all add: day_offset_def march_month_def)

lemma month_cases:
  assumes "1 \<le> (m::int)" "m \<le> 12"
  obtains "m = 1" | "m = 2" | "m = 3" | "m = 4" | "m = 5" | "m = 6" | "m = 7" | "m = 8"
    | "m = 9" | "m = 10" | "m = 11" | "m = 12"
proof -
  from assms have "m = 1 \<or> m = 2 \<or> m = 3 \<or> m = 4 \<or> m = 5 \<or> m = 6 \<or> m = 7 \<or> m = 8
      \<or> m = 9 \<or> m = 10 \<or> m = 11 \<or> m = 12"
    by presburger
  with that show thesis by blast
qed

lemma day_offset_range:
  assumes "valid_date y m d"
  shows "0 \<le> day_offset m d \<and> day_offset m d < march_year_days (march_year y m)"
proof -
  from assms have m: "1 \<le> m" "m \<le> 12" and d: "1 \<le> d" "d \<le> month_days y m"
    by (auto simp: valid_date_def)
  have leap: "leap (4800 + y) = leap y" "leap (y + 4800) = leap y"
    by (simp_all add: leap_def dvd_add_right_iff dvd_add_left_iff)
  from m d show ?thesis
    by (cases rule: month_cases)
      (auto simp: day_offset_values month_days_def march_year_days_def march_year_def leap add.commute
        split: if_splits)
qed

lemma days_before_Suc: "days_before (Y + 1) = days_before Y + march_year_days Y"
proof -
  have step: "(Y + 1) div k = Y div k + (if k dvd Y + 1 then 1 else 0)" if "0 < k" for k :: int
  proof (cases "Y mod k = k - 1")
    case True
    then have "Y + 1 = k * (Y div k + 1)"
      using mult_div_mod_eq [of k Y] by (simp only: distrib_left mult_1_right)
    then show ?thesis using that by (metis dvd_triv_left nonzero_mult_div_cancel_left less_irrefl)
  next
    case False
    then have r: "0 \<le> Y mod k + 1" "Y mod k + 1 < k"
      using that pos_mod_bound [OF that, of Y] pos_mod_sign [OF that, of Y] by linarith+
    have "Y + 1 = k * (Y div k) + (Y mod k + 1)" by simp
    then have "(Y + 1) div k = Y div k" "(Y + 1) mod k = Y mod k + 1"
      using int_div_pos_eq int_mod_pos_eq r by blast+
    then show ?thesis using r pos_mod_sign [OF that, of Y] by (simp add: dvd_eq_mod_eq_0)
  qed
  have "400 dvd Y + 1 \<Longrightarrow> 100 dvd Y + 1" "100 dvd Y + 1 \<Longrightarrow> 4 dvd Y + 1"
    by (erule dvd_trans [rotated], simp)+
  moreover have "(if A then 1 else 0) - (if B then 1 else 0) + (if C then 1 else 0)
      = (if C \<and> (\<not> B \<or> A) then 1 else (0 :: int))" if "A \<Longrightarrow> B" "B \<Longrightarrow> C" for A B C
    using that by (cases A; cases B; cases C) simp_all
  ultimately have "(if 400 dvd Y + 1 then 1 else 0) - (if 100 dvd Y + 1 then 1 else 0)
      + (if 4 dvd Y + 1 then 1 else 0) = (if leap (Y + 1) then 1 else (0 :: int))"
    unfolding leap_def by blast
  moreover have "days_before (Y + 1) = days_before Y + 365 + ((if 400 dvd Y + 1 then 1 else 0)
      - (if 100 dvd Y + 1 then 1 else 0) + (if 4 dvd Y + 1 then 1 else 0))"
    unfolding days_before_def step [of 4, simplified] step [of 100, simplified]
      step [of 400, simplified] by simp
  ultimately show ?thesis by (simp add: march_year_days_def)
qed


lemma days_before_mono: "Y \<le> Y' \<Longrightarrow> days_before Y \<le> days_before Y'"
  by (induction rule: int_ge_induct) (auto simp: days_before_Suc march_year_days_def)

lemma days_before_less: "Y < Y' \<Longrightarrow> days_before Y + march_year_days Y \<le> days_before Y'"
  using days_before_mono [of "Y + 1" Y'] by (simp add: days_before_Suc)

text \<open>Dates in calendar order.\<close>

definition date_less :: "int \<times> int \<times> int \<Rightarrow> int \<times> int \<times> int \<Rightarrow> bool" where
  "date_less a b \<longleftrightarrow> (case (a, b) of ((y, m, d), (y', m', d')) \<Rightarrow>
     y < y' \<or> y = y' \<and> (m < m' \<or> m = m' \<and> d < d'))"

lemma day_offset_month_less:
  assumes "valid_date y m d" "valid_date y' m' d'"
    and "march_year y m = march_year y' m'" "m < m' \<and> y = y' \<or> y < y'"
  shows "day_offset m d < day_offset m' d'"
proof -
  have m: "1 \<le> m" "m \<le> 12" and d: "1 \<le> d" "d \<le> month_days y m"
    and m': "1 \<le> m'" "m' \<le> 12" and d': "1 \<le> d'"
    using assms(1,2) by (auto simp: valid_date_def)
  have "m < m' \<and> y = y' \<and> (2 < m \<longleftrightarrow> 2 < m') \<or> y' = y + 1 \<and> 2 < m \<and> m' \<le> 2"
    using assms(3,4) by (auto simp: march_year_def split: if_splits)
  then show ?thesis using d d'
    by (cases rule: month_cases [OF m]; cases rule: month_cases [OF m'])
      (simp_all add: day_offset_values month_days_def split: if_splits)
qed

lemma date2j_mono_law:
  assumes "valid_date y m d" and "valid_date y' m' d'" and "date_less (y, m, d) (y', m', d')"
  shows "date2j y m d < date2j y' m' d'"
proof -
  have "march_year y m \<le> march_year y' m'"
    using assms by (auto simp: valid_date_def date_less_def march_year_def)
  then consider "march_year y m < march_year y' m'" | "march_year y m = march_year y' m'"
    by linarith
  then have "days_before (march_year y m) + day_offset m d
      < days_before (march_year y' m') + day_offset m' d'"
  proof cases
    case 1
    then show ?thesis
      using days_before_less [OF 1] day_offset_range [OF assms(1)] day_offset_range [OF assms(2)]
      by linarith
  next
    case 2
    show ?thesis
    proof (cases "y = y' \<and> m = m'")
      case True
      then show ?thesis using assms(3) by (simp add: date_less_def day_offset_def)
    next
      case False
      then have "m < m' \<and> y = y' \<or> y < y'" using assms(3) by (auto simp: date_less_def)
      from day_offset_month_less [OF assms(1,2) 2 this] 2 show ?thesis by simp
    qed
  qed
  then show ?thesis by (simp add: date2j_form assms(1,2))
qed

lemma date2j_1994: "date2j 1994 1 1 - POSTGRES_EPOCH_JDATE = -2191"
  by (simp add: date2j_def POSTGRES_EPOCH_JDATE_def signed_divide_int_def)

lemma date2j_1995: "date2j 1995 1 1 - POSTGRES_EPOCH_JDATE = -1826"
  by (simp add: date2j_def POSTGRES_EPOCH_JDATE_def signed_divide_int_def)

lemma year_1994_range_law:
  assumes "valid_date y m d"
  shows "-2191 \<le> date2j y m d - POSTGRES_EPOCH_JDATE
    \<and> date2j y m d - POSTGRES_EPOCH_JDATE < -1826 \<longleftrightarrow> y = 1994"
proof -
  have v: "valid_date 1994 1 1" "valid_date 1995 1 1"
    by (simp_all add: valid_date_def month_days_def)
  have md: "m = 1 \<or> 1 < m" "d = 1 \<or> 1 < d" using assms by (auto simp: valid_date_def)
  consider "y < 1994" | "y = 1994" | "1995 \<le> y" by linarith
  then show ?thesis
  proof cases
    case 1
    then show ?thesis
      using date2j_mono_law [OF assms v(1)] date2j_1994 by (simp add: date_less_def)
  next
    case 2
    then have "date2j y m d < date2j 1995 1 1"
      using date2j_mono_law [OF assms v(2)] by (simp add: date_less_def)
    moreover have "date2j 1994 1 1 \<le> date2j y m d"
      using date2j_mono_law [OF v(1) assms] md 2
      by (cases "m = 1 \<and> d = 1") (auto simp: date_less_def intro: less_imp_le)
    ultimately show ?thesis using 2 date2j_1994 date2j_1995 by linarith
  next
    case 3
    then have "y = 1995 \<or> 1995 < y" by linarith
    with 3 have "date2j 1995 1 1 \<le> date2j y m d"
      using date2j_mono_law [OF v(2) assms] md
      by (cases "y = 1995 \<and> m = 1 \<and> d = 1") (auto simp: date_less_def intro: less_imp_le)
    then show ?thesis using 3 date2j_1995 by linarith
  qed
qed


section \<open>Round trip\<close>

text \<open>The \<open>j2date\<close> computation on the integers, without the reductions modulo \<open>2 ^ 32\<close>.\<close>

definition j2date_int :: "int \<Rightarrow> int \<times> int \<times> int" where
  "j2date_int a =
    (let quad = a div 146097;
         extra = (a - quad * 146097) * 4 + 3;
         julian = a + (60 + quad * 3 + extra div 146097);
         quad = julian div 1461;
         julian = julian - quad * 1461;
         y = julian * 4 div 1461;
         julian = (if y \<noteq> 0 then (julian + 305) mod 365 else (julian + 306) mod 366) + 123;
         y = y + quad * 4;
         quad = julian * 2141 div 65536
     in (y - 4800, (quad + 10) mod 12 + 1, julian - 7834 * quad div 256))"

lemma uint32_id: "0 \<le> x \<Longrightarrow> x < 4294967296 \<Longrightarrow> uint32 x = x"
  by (simp add: uint32_def)

lemma j2date_eq_int:
  assumes "-32044 \<le> jd" "jd < 4000000000"
  shows "j2date jd = j2date_int (jd + 32044)"
proof -
  define a where "a = jd + 32044"
  define q1 where "q1 = a div 146097"
  define e where "e = (a - q1 * 146097) * 4 + 3"
  define j2 where "j2 = a + (60 + q1 * 3 + e div 146097)"
  define q2 where "q2 = j2 div 1461"
  define j3 where "j3 = j2 - q2 * 1461"
  define y1 where "y1 = j3 * 4 div 1461"
  define j4 where "j4 = (if y1 \<noteq> 0 then (j3 + 305) mod 365 else (j3 + 306) mod 366) + 123"
  define q4 where "q4 = j4 * 2141 div 65536"
  note defs = a_def q1_def e_def j2_def q2_def j3_def y1_def j4_def q4_def
  have a: "0 \<le> a" "a < 4000032044" using assms by (simp_all add: a_def)
  have q1: "0 \<le> q1" "q1 < 27380" "q1 * 146097 \<le> a" "a < q1 * 146097 + 146097"
    using a by (auto simp: q1_def)
  then have e: "0 \<le> e" "e < 584388" by (simp_all add: e_def)
  then have "0 \<le> e div 146097" "e div 146097 < 4" by auto
  then have j2: "0 \<le> j2" "j2 < 4000114260" using a q1 by (simp_all add: j2_def)
  then have q2: "0 \<le> q2" "q2 * 1461 \<le> j2" "j2 < q2 * 1461 + 1461" by (auto simp: q2_def)
  then have j3: "0 \<le> j3" "j3 < 1461" by (simp_all add: j3_def)
  have q2': "q2 < 2737929" using j2 by (auto simp: q2_def)
  have j4: "123 \<le> j4" "j4 < 489"
    unfolding j4_def by (auto simp: less_imp_le add_strict_mono pos_mod_bound
      intro: order.strict_trans2 [of _ "365 + 123"] order.strict_trans2 [of _ "366 + 123"])
  have q4: "0 \<le> q4" "q4 < 16" using j4 by (auto simp: q4_def)
  have "uint32 (uint32 jd + 32044) = uint32 a"
    by (simp add: uint32_def a_def mod_add_left_eq)
  also have "\<dots> = a" using a by (simp add: uint32_id)
  finally have 1: "uint32 (uint32 jd + 32044) = a" .
  have w2: "uint32 (q1 * 146097) = q1 * 146097" "uint32 (a - q1 * 146097) = a - q1 * 146097"
    "uint32 ((a - q1 * 146097) * 4) = (a - q1 * 146097) * 4"
    "uint32 (q1 * 3) = q1 * 3"
    "uint32 (60 + q1 * 3) = 60 + q1 * 3"
    "uint32 (60 + q1 * 3 + e div 146097) = 60 + q1 * 3 + e div 146097"
    using a q1 e j2 \<open>0 \<le> e div 146097\<close> \<open>e div 146097 < 4\<close> by (simp_all add: uint32_id)
  have 2: "uint32 ((a - q1 * 146097) * 4 + 3) = e"
    "uint32 (a + (60 + q1 * 3 + e div 146097)) = j2"
    unfolding e_def [symmetric] j2_def [symmetric] using e j2 by (simp_all add: uint32_id)
  have w3: "uint32 (q2 * 1461) = q2 * 1461" "uint32 (j3 * 4) = j3 * 4" "uint32 (j3 + 305) = j3 + 305" "uint32 (j3 + 306) = j3 + 306"
    "uint32 (q2 * 4) = q2 * 4"
    "uint32 (j4 * 2141) = j4 * 2141" "uint32 (7834 * q4) = 7834 * q4" "uint32 (q4 + 10) = q4 + 10"
    using j2 q2 q2' j3 j4 q4 by (simp_all add: uint32_id)
  have 3: "uint32 (j2 - q2 * 1461) = j3"
    unfolding j3_def [symmetric] using j3 by (simp add: uint32_id)
  have 4: "uint32 ((if y1 \<noteq> 0 then (j3 + 305) mod 365 else (j3 + 306) mod 366) + 123) = j4"
    using j4 by (simp add: uint32_id j4_def [symmetric])
  have m: "7834 * q4 div 256 \<le> j4"
  proof -
    have "65536 * q4 \<le> j4 * 2141" by (simp add: q4_def)
    then have "7834 * q4 \<le> 256 * j4" using q4 by linarith
    then show ?thesis by linarith
  qed
  have 5: "uint32 (j4 - 7834 * q4 div 256) = j4 - 7834 * q4 div 256"
    using m j4 q4 by (intro uint32_id) auto
  have "j2date jd = (y1 + q2 * 4 - 4800, (q4 + 10) mod 12 + 1, j4 - 7834 * q4 div 256)"
    by (simp only: j2date_def Let_def 1 q1_def [symmetric] 2 w2 q2_def [symmetric] 3 w3 y1_def [symmetric]
      4 q4_def [symmetric] 5 MONTHS_PER_YEAR_def)
  moreover have "j2date_int a = (y1 + q2 * 4 - 4800, (q4 + 10) mod 12 + 1, j4 - 7834 * q4 div 256)"
    by (simp only: j2date_int_def Let_def q1_def [symmetric] e_def [symmetric] j2_def [symmetric]
      q2_def [symmetric] j3_def [symmetric] y1_def [symmetric] j4_def [symmetric] q4_def [symmetric])
  ultimately show ?thesis by (simp add: a_def)
qed


text \<open>\<open>Y = 400 q + 100 c + 4 p + s\<close>: the leap rule in terms of the parts.\<close>

lemma year_parts:
  fixes Y :: int
  assumes "0 \<le> Y"
  obtains q r where "Y = 400 * q + r" "0 \<le> r" "r < 400" "0 \<le> q"
    "Y div 400 = q" "Y div 100 = 4 * q + r div 100" "Y div 4 = 100 * q + r div 4"
proof -
  define q r where "q = Y div 400" and "r = Y mod 400"
  have Y: "Y = 400 * q + r" by (simp add: q_def r_def)
  have four_hundred: "400 * q + r = r + 100 * (4 * q)" "400 * q + r = r + 4 * (100 * q)"
    by simp_all
  have "Y div 100 = 4 * q + r div 100"
    unfolding Y four_hundred(1) by (simp only: div_mult_self2)
  moreover have "Y div 4 = 100 * q + r div 4"
    unfolding Y four_hundred(2) by (simp only: div_mult_self2)
  moreover have "0 \<le> r" "r < 400" "0 \<le> q" "Y div 400 = q"
    using assms by (simp_all add: q_def r_def pos_imp_zdiv_nonneg_iff)
  ultimately show ?thesis using that Y by blast
qed

lemma j2date_int_form:
  assumes "0 \<le> Y" "0 \<le> D" "D < march_year_days Y"
  shows "j2date_int (days_before Y + D) =
    (let t = D + 123; M = t * 2141 div 65536
     in ((if D < 306 then Y else Y + 1) - 4800, (M + 10) mod 12 + 1, t - 7834 * M div 256))"
proof -
  obtain q r where Y: "Y = 400 * q + r" and r: "0 \<le> r" "r < 400" and q: "0 \<le> q"
    and dv: "Y div 400 = q" "Y div 100 = 4 * q + r div 100" "Y div 4 = 100 * q + r div 4"
    using year_parts [OF assms(1)] .
  have D: "D \<le> 365" using assms(3) by (simp add: march_year_days_def split: if_splits)
  define p where "p = r div 4"
  define c where "c = r div 100"
  define s where "s = r mod 4"
  have r4: "r = 4 * p + s" "0 \<le> s" "s \<le> 3" "0 \<le> p" "p \<le> 99"
    using r by (auto simp: p_def s_def)
  have r100: "100 * c \<le> r" "r \<le> 100 * c + 99" "0 \<le> c" "c \<le> 3"
    using r by (auto simp: c_def)
  define b where "b = 365 * r + p - c + D"
  have leap_end: "D = 365 \<Longrightarrow> s = 3 \<and> (r = 100 * c + 99 \<longrightarrow> c = 3)"
  proof -
    assume "D = 365"
    then have l: "leap (400 * q + r + 1)"
      using assms(3) by (simp add: march_year_days_def Y split: if_splits)
    then have "4 dvd 400 * q + r + 1" by (simp add: leap_def)
    moreover have "400 * q + r + 1 = 4 * (100 * q + p) + (s + 1)" by (simp add: r4(1))
    ultimately have "4 dvd s + 1" by (simp only: dvd_add_right_iff dvd_triv_left)
    then have "4 \<le> s + 1" using r4 by (intro zdvd_imp_le) auto
    then have "s = 3" using r4 by linarith
    moreover have "c = 3" if "r = 100 * c + 99"
    proof -
      have "400 * q + r + 1 = 100 * (4 * q + c + 1)" using that by simp
      then have "100 dvd 400 * q + r + 1" by (rule dvdI)
      with l have "400 dvd 400 * q + r + 1" by (simp only: leap_def) blast
      then have "400 dvd r + 1" by (simp only: add.assoc dvd_add_right_iff dvd_triv_left)
      then have "400 \<le> r + 1" using r by (intro zdvd_imp_le) auto
      with r100 that show ?thesis by linarith
    qed
    ultimately show ?thesis by blast
  qed
  have a: "days_before Y + D = 146097 * q + b"
    unfolding days_before_def dv b_def p_def c_def by (simp add: Y)
  have b: "0 \<le> b" "b < 146097"
    using r r4 r100 D assms(2) by (auto simp: b_def)
  have "s = 0" if "r = 100 * c" using that r4 by presburger
  then have extra_lo: "c * 146097 \<le> 4 * b + 3"
    using r r4 r100 D assms(2) by (cases "r = 100 * c") (auto simp: b_def)
  have extra_hi: "4 * b + 3 < (c + 1) * 146097"
  proof -
    have b4: "4 * b + 3 = 1461 * r - s - 4 * c + 4 * D + 3" by (simp add: b_def r4(1))
    consider "r \<le> 100 * c + 98" | "r = 100 * c + 99" "D \<le> 364" | "r = 100 * c + 99" "D = 365"
      using r100 D by linarith
    then show ?thesis
    proof cases
      case 1
      have "4 * b + 3 \<le> 146100 * c + 143178 - 4 * c + 1463"
        unfolding b4 using 1 r4(2) D by linarith
      also have "\<dots> < (c + 1) * 146097" using r100(3) by simp
      finally show ?thesis .
    next
      case 2
      then have "s = 3" using r4 by presburger
      with 2 have "4 * b + 3 < c * 146097 + 146097" using b4 r100 by linarith
      then show ?thesis by simp
    next
      case 3
      then have "s = 3" "c = 3" using leap_end by auto
      with 3 show ?thesis using b4 by simp
    qed
  qed
  have extra: "(4 * b + 3) div 146097 = c"
    using extra_lo extra_hi by (intro int_div_pos_eq [of _ _ _ "4 * b + 3 - c * 146097"]) auto
  define j where "j = 1461 * (100 * q + p) + (365 * s + D + 60)"
  have j: "146097 * q + b + (60 + q * 3 + c) = j"
    by (simp add: j_def b_def r4(1))
  have quad: "(days_before Y + D) div 146097 = q"
    unfolding a using b by simp
  define q2 where "q2 = 100 * q + p + (if s = 3 \<and> 306 \<le> D then 1 else 0)"
  define j3 where "j3 = 365 * s + D + 60 - (if s = 3 \<and> 306 \<le> D then 1461 else 0)"
  have j3: "0 \<le> j3" "j3 < 1461" "j = 1461 * q2 + j3"
    using r4 D assms(2) by (auto simp: j3_def q2_def j_def)
  then have q2: "j div 1461 = q2" by simp
  define y1 where "y1 = s + (if 306 \<le> D then 1 else 0) - (if s = 3 \<and> 306 \<le> D then 4 else 0)"
  have s: "s = 0 \<or> s = 1 \<or> s = 2 \<or> s = 3" using r4 by presburger
  have y1: "j3 * 4 div 1461 = y1"
    using s D assms(2) leap_end
    by (intro int_div_pos_eq [of _ _ _ "j3 * 4 - y1 * 1461"]) (auto simp: y1_def j3_def)
  have day: "(if y1 \<noteq> 0 then (j3 + 305) mod 365 else (j3 + 306) mod 366) = D"
  proof -
    consider "s = 3" "306 \<le> D" | "s = 0" "D < 306"
      | "\<not> (s = 3 \<and> 306 \<le> D)" "\<not> (s = 0 \<and> D < 306)" by linarith
    then show ?thesis
    proof cases
      case 1
      then show ?thesis using D by (simp add: y1_def j3_def)
    next
      case 2
      then have "j3 + 306 = D + 366" by (simp add: j3_def)
      with 2 assms(2) show ?thesis by (simp add: y1_def)
    next
      case 3
      then have "y1 \<noteq> 0" using s by (auto simp: y1_def)
      moreover have "j3 + 305 = D + 365 * (s + 1)" using 3 by (auto simp: j3_def)
      moreover have "D < 365" using 3 D leap_end by (cases "D = 365") auto
      ultimately show ?thesis using assms(2) by (simp only: mod_mult_self2) simp
    qed
  qed
  have year: "y1 + q2 * 4 = (if D < 306 then Y else Y + 1)"
    using r4 by (auto simp: y1_def q2_def Y)
  have e1: "(days_before Y + D - q * 146097) * 4 + 3 = 4 * b + 3"
    and e2: "days_before Y + D + (60 + q * 3 + c) = j"
    using a j by simp_all
  have e3: "j - q2 * 1461 = j3" using j3(3) by simp
  show ?thesis
    unfolding j2date_int_def Let_def quad
    by (simp only: e1 extra e2 q2 e3 y1 day year)
qed

lemma month_of_offset:
  assumes "1 \<le> m" "m \<le> 12" "1 \<le> d" "d \<le> month_days y m"
  shows "(day_offset m d + 123) * 2141 div 65536 = march_month m"
  using assms(3,4)
  by (cases rule: month_cases [OF assms(1,2)];
      intro int_div_pos_eq [of _ _ _ "(day_offset m d + 123) * 2141 - 65536 * march_month m"])
    (auto simp: day_offset_values march_month_def month_days_def split: if_splits)

lemma j2date_date2j_law:
  assumes "valid_date y m d"
  shows "j2date (date2j y m d) = (y, m, d)"
proof -
  have m: "1 \<le> m" "m \<le> 12" and d: "1 \<le> d" "d \<le> month_days y m" and y: "-4713 \<le> y" "y \<le> 5000000"
    using assms by (auto simp: valid_date_def)
  let ?Y = "march_year y m" and ?D = "day_offset m d"
  have Y: "0 \<le> ?Y" "?Y \<le> 5004800" using y by (auto simp: march_year_def)
  note D = day_offset_range [OF assms]
  have "0 \<le> days_before ?Y"
    using days_before_mono [OF Y(1)] by (simp add: days_before_def)
  moreover have "days_before ?Y \<le> days_before 5004800"
    by (rule days_before_mono [OF Y(2)])
  ultimately have "-32044 \<le> date2j y m d" "date2j y m d < 4000000000"
    using D by (auto simp: date2j_form [OF assms] march_year_days_def days_before_def split: if_splits)
  then have "j2date (date2j y m d) = j2date_int (days_before ?Y + ?D)"
    by (simp add: j2date_eq_int date2j_form [OF assms])
  also have "\<dots> = (let t = ?D + 123; M = t * 2141 div 65536
     in ((if ?D < 306 then ?Y else ?Y + 1) - 4800, (M + 10) mod 12 + 1, t - 7834 * M div 256))"
    using D Y by (intro j2date_int_form) auto
  also have "\<dots> = (y, m, d)"
    unfolding Let_def month_of_offset [OF m d] using d
    by (cases rule: month_cases [OF m])
      (simp_all add: day_offset_values march_month_def march_year_def month_days_def split: if_splits)
  finally show ?thesis .
qed

end
