(* ===== verification/Schema.thy ===== *)
theory Schema
  imports Numeric Calendar
begin

text \<open>
  The table both implementations of the query are hard-wired for: the attribute lengths and
  alignments of TPC-H lineitem (\<^verbatim>\<open>xql6/host/q6_swemu.c\<close>,
  \<^verbatim>\<open>xql6/kernel/q6_paged.h\<close>), the byte layout of a tuple under that schema, the layout of the
  8 KB pages tuples travel in, and the query itself as a sum over rows. The rows and
  their encoding are the specification the parsers are measured against.
\<close>

section \<open>Schema tables and alignment\<close>

definition PAGE_SZ :: nat where "PAGE_SZ = 8192"

definition nAttr :: nat where "nAttr = 16"

definition attrLens :: "int list" where
  "attrLens = [8, 8, 8, 4, -1, -1, -1, -1, -1, -1, 4, 4, 4, -1, -1, -1]"

definition align :: "bool list" where
  "align = [False, False, False, False, False, False, False, False, False, False,
            True, True, True, False, False, False]"

definition ALIGNOF_INT :: nat where "ALIGNOF_INT = 4"

text \<open>
  \<open>TYPEALIGN (ALIGNVAL, LEN)\<close> rounds up to a multiple of \<open>ALIGNVAL\<close>. The operand width is
  that of \<open>uintptr_t\<close>: 64 bits in the host, an unsigned int in the kernel.
\<close>

definition TYPEALIGN :: "nat \<Rightarrow> nat \<Rightarrow> nat" where
  "TYPEALIGN a len = unat ((of_nat len + (of_nat a - 1)) AND NOT (of_nat a - 1 :: 64 word))"

definition k_TYPEALIGN :: "nat \<Rightarrow> nat \<Rightarrow> nat" where
  "k_TYPEALIGN a len = unat ((of_nat len + (of_nat a - 1)) AND NOT (of_nat a - 1 :: 32 word))"

definition INTALIGN :: "nat \<Rightarrow> nat" where
  "INTALIGN len = TYPEALIGN ALIGNOF_INT len"

definition k_INTALIGN :: "nat \<Rightarrow> nat" where
  "k_INTALIGN len = k_TYPEALIGN ALIGNOF_INT len"

lemma and_not_mask_unat: "unat (x AND NOT (mask n)) = 2 ^ n * (unat x div 2 ^ n)"
  for x :: "'a::len word"
proof -
  have "unat (x AND NOT (mask n)) = push_bit n (drop_bit n (unat x))"
    by (rule bit_eqI) (auto simp: bit_simps dest: bit_imp_le_length)
  then show ?thesis by (simp add: push_bit_eq_mult drop_bit_eq_div mult.commute)
qed

lemma INTALIGN_eq:
  assumes "off < 2 ^ 31"
  shows "INTALIGN off = 4 * ((off + 3) div 4)"
proof -
  have "(of_nat ALIGNOF_INT - 1 :: 64 word) = mask 2"
    by (simp add: ALIGNOF_INT_def mask_eq_exp_minus_1)
  then have "INTALIGN off = 4 * (unat (of_nat off + mask 2 :: 64 word) div 4)"
    using and_not_mask_unat [of "of_nat off + mask 2 :: 64 word" 2]
    by (simp add: INTALIGN_def TYPEALIGN_def)
  moreover have "of_nat off + mask 2 = (of_nat (off + 3) :: 64 word)"
    by (simp add: mask_eq_exp_minus_1)
  ultimately show ?thesis using assms by (simp add: unat_of_nat del: of_nat_add)
qed

lemma k_INTALIGN_eq:
  assumes "off < 2 ^ 31"
  shows "k_INTALIGN off = 4 * ((off + 3) div 4)"
proof -
  have "(of_nat ALIGNOF_INT - 1 :: 32 word) = mask 2"
    by (simp add: ALIGNOF_INT_def mask_eq_exp_minus_1)
  then have "k_INTALIGN off = 4 * (unat (of_nat off + mask 2 :: 32 word) div 4)"
    using and_not_mask_unat [of "of_nat off + mask 2 :: 32 word" 2]
    by (simp add: k_INTALIGN_def k_TYPEALIGN_def)
  moreover have "of_nat off + mask 2 = (of_nat (off + 3) :: 32 word)"
    by (simp add: mask_eq_exp_minus_1)
  ultimately show ?thesis using assms by (simp add: unat_of_nat del: of_nat_add)
qed

section \<open>Tuple layout\<close>

text \<open>
  A tuple is the list of its attribute payloads. A fixed-length attribute is stored as it is,
  after zero padding to a multiple of four where the schema asks for it; a variable-length
  one behind a one-byte header \<open>2 * (len + 1) + 1\<close>.
\<close>

definition pad_len :: "nat \<Rightarrow> nat \<Rightarrow> nat" where
  "pad_len f off = (if align ! f then 4 * ((off + 3) div 4) - off else 0)"

definition enc_field :: "nat \<Rightarrow> nat \<Rightarrow> u8 list \<Rightarrow> u8 list" where
  "enc_field f off p = (if attrLens ! f \<noteq> -1 then replicate (pad_len f off) 0 @ p
     else of_nat (2 * (length p + 1) + 1) # p)"

fun enc_fields :: "nat \<Rightarrow> nat \<Rightarrow> u8 list list \<Rightarrow> u8 list" where
  "enc_fields f off [] = []"
| "enc_fields f off (p # ps) =
     enc_field f off p @ enc_fields (Suc f) (off + length (enc_field f off p)) ps"

definition wf_field :: "nat \<Rightarrow> u8 list \<Rightarrow> bool" where
  "wf_field f p \<longleftrightarrow> (if attrLens ! f \<noteq> -1 then int (length p) = attrLens ! f
     else length p \<le> 126)"

record lineitem =
  l_keys :: "u8 list list"          \<comment> \<open>orderkey, partkey, suppkey, linenumber\<close>
  l_quantity :: snum
  l_extendedprice :: snum
  l_discount :: snum
  l_flags :: "u8 list list"         \<comment> \<open>tax, returnflag, linestatus\<close>
  l_shipdate :: int
  l_rest :: "u8 list list"          \<comment> \<open>commitdate, receiptdate, shipinstruct, shipmode, comment\<close>

definition payloads :: "lineitem \<Rightarrow> u8 list list" where
  "payloads li = l_keys li @ [enc_snum (l_quantity li), enc_snum (l_extendedprice li),
     enc_snum (l_discount li)] @ l_flags li @ [enc_date (l_shipdate li)] @ l_rest li"

definition enc_tuple :: "lineitem \<Rightarrow> u8 list" where
  "enc_tuple li = enc_fields 0 0 (payloads li)"

text \<open>The three numerics fit the 16-byte field buffers and their cents fit a long.\<close>

definition wf_money :: "snum \<Rightarrow> bool" where
  "wf_money n \<longleftrightarrow> wf_snum n \<and> -1 \<le> sn_weight n \<and> sn_weight n \<le> 3 \<and> length (sn_digits n) \<le> 6"

definition wf_lineitem :: "lineitem \<Rightarrow> bool" where
  "wf_lineitem li \<longleftrightarrow> length (l_keys li) = 4 \<and> length (l_flags li) = 3 \<and> length (l_rest li) = 5
     \<and> list_all2 wf_field [0..<16] (payloads li)
     \<and> wf_money (l_quantity li) \<and> wf_money (l_extendedprice li) \<and> wf_money (l_discount li)
     \<and> - (2 ^ 31) \<le> l_shipdate li \<and> l_shipdate li < 2 ^ 31"

lemma short_header:
  assumes "l \<le> 126"
  shows "(of_nat (2 * (l + 1) + 1) :: u8) \<noteq> 1"
    "(of_nat (2 * (l + 1) + 1) :: u8) AND 1 \<noteq> 0"
    "unat (drop_bit 1 (of_nat (2 * (l + 1) + 1) :: u8)) = l + 1"
proof -
  have u: "unat (of_nat (2 * (l + 1) + 1) :: u8) = 2 * (l + 1) + 1"
    using assms by (intro unat_of_nat_u8) simp
  show "(of_nat (2 * (l + 1) + 1) :: u8) \<noteq> 1"
    using u by (metis add_is_1 One_nat_def Suc_eq_plus1 nat.inject mult_is_0 nat.distinct(1)
        unat_1 zero_neq_numeral)
  have "odd (of_nat (2 * (l + 1) + 1) :: u8)"
    by simp
  then show "(of_nat (2 * (l + 1) + 1) :: u8) AND 1 \<noteq> 0"
    by (simp only: and_one_eq odd_iff_mod_2_eq_one) simp
  have "take_bit 8 (2 * (l + 1) + 1) = 2 * (l + 1) + 1"
    using assms by (simp add: take_bit_nat_eq_self_iff)
  with u show "unat (drop_bit 1 (of_nat (2 * (l + 1) + 1) :: u8)) = l + 1"
    unfolding unsigned_drop_bit_eq u by (simp add: drop_bit_eq_div)
qed

section \<open>Pages and the query\<close>

text \<open>A page: the tuple count in two bytes, the tuples back to back, dead space.\<close>

definition tuples_bytes :: "lineitem list \<Rightarrow> u8 list" where
  "tuples_bytes lis = concat (map enc_tuple lis)"

definition page_of :: "lineitem list \<Rightarrow> u8 list \<Rightarrow> u8 list" where
  "page_of lis dead =
     [of_nat (length lis mod 256), of_nat (length lis div 256)] @ tuples_bytes lis @ dead"

definition wf_page :: "lineitem list \<Rightarrow> u8 list \<Rightarrow> bool" where
  "wf_page lis dead \<longleftrightarrow> list_all wf_lineitem lis \<and> length (page_of lis dead) = PAGE_SZ"

text \<open>
  Query 6: the sum of price times discount, in units of 1/10000, over the rows shipped in 1994
  with a discount of 0.05 to 0.07 and a quantity below 24. Dates are days since 2000-01-01.
\<close>

definition q6_row :: "lineitem \<Rightarrow> bool" where
  "q6_row li \<longleftrightarrow> -2191 \<le> l_shipdate li \<and> l_shipdate li < -1826
     \<and> 5 \<le> snum_cents (l_discount li) \<and> snum_cents (l_discount li) \<le> 7
     \<and> snum_cents (l_quantity li) < 2400"

definition q6_spec :: "lineitem list \<Rightarrow> int" where
  "q6_spec lis = sum_list (map (\<lambda>li. if q6_row li
     then snum_cents (l_extendedprice li) * snum_cents (l_discount li) else 0) lis)"

lemma q6_spec_simps [simp]:
  "q6_spec [] = 0"
  "q6_spec (li # lis) = (if q6_row li
     then snum_cents (l_extendedprice li) * snum_cents (l_discount li) else 0) + q6_spec lis"
  "q6_spec (lis @ lis') = q6_spec lis + q6_spec lis'"
  by (simp_all add: q6_spec_def)

lemma q6_spec_concat: "q6_spec (concat ls) = sum_list (map q6_spec ls)"
  by (induction ls) simp_all

lemma money_cents_sint:
  assumes "wf_money n"
  shows "sint (word_of_int (snum_cents n) :: i64) = snum_cents n"
proof -
  have w: "wf_snum n" "-1 \<le> sn_weight n" "sn_weight n \<le> 3" using assms by (auto simp: wf_money_def)
  have "\<forall>d \<in> set (sn_digits n). d < 10000" using w(1) by (auto simp: wf_snum_def)
  note b = digits_cents_bounds [OF this, of "nat (sn_weight n + 1)"]
  have "nat (sn_weight n + 1) \<le> 4" using w by simp
  then have "(10000 :: int) ^ nat (sn_weight n + 1) \<le> 10000 ^ 4" by (intro power_increasing) auto
  with b have "\<bar>snum_cents n\<bar> < 2 ^ 63" by (simp add: snum_cents_def)
  then have "- (2 ^ 63) \<le> snum_cents n" "snum_cents n < 2 ^ 63" by linarith+
  then show ?thesis by (simp add: signed_of_int signed_take_bit_int_eq_self)
qed

lemma enc_field_small: "f < nAttr \<Longrightarrow> wf_field f p \<Longrightarrow> length (enc_field f ofs p) \<le> 127"
proof -
  assume f: "f < nAttr" "wf_field f p"
  have "\<forall>f < 16. attrLens ! f \<le> 8" by (simp add: attrLens_def numeral_nat All_less_Suc)
  then have "attrLens ! f \<le> 8" using f(1) by (simp add: nAttr_def)
  moreover have "pad_len f ofs \<le> 3" by (simp add: pad_len_def) linarith
  ultimately show ?thesis using f(2) by (auto simp: enc_field_def wf_field_def)
qed

lemma enc_fields_small:
  "list_all2 wf_field [f..<f + length ps] ps \<Longrightarrow> f + length ps \<le> nAttr
   \<Longrightarrow> length (enc_fields f ofs ps) \<le> 127 * length ps"
proof (induction ps arbitrary: f ofs)
  case Nil
  then show ?case by simp
next
  case (Cons p ps)
  have wf: "wf_field f p" "list_all2 wf_field [Suc f..<Suc f + length ps] ps" "f < nAttr"
    "Suc f + length ps \<le> nAttr"
    using Cons.prems by (auto simp: upt_conv_Cons simp del: upt_Suc)
  then show ?case
    using Cons.IH [OF wf(2,4), of "ofs + length (enc_field f ofs p)"] enc_field_small [OF wf(3,1), of ofs] by simp
qed

lemma row_fields:
  assumes "wf_lineitem li"
  shows "length (payloads li) = nAttr" "list_all2 wf_field [0..<0 + length (payloads li)] (payloads li)"
    "length (enc_tuple li) \<le> 2032"
proof -
  show l: "length (payloads li) = nAttr" "list_all2 wf_field [0..<0 + length (payloads li)] (payloads li)"
    using assms by (auto simp: wf_lineitem_def nAttr_def payloads_def)
  show "length (enc_tuple li) \<le> 2032"
    using enc_fields_small [OF l(2), of 0] l(1) by (simp add: enc_tuple_def nAttr_def)
qed

lemma enc_tuple_longer:
  assumes "wf_lineitem li"
  shows "8 \<le> length (enc_tuple li)"
proof -
  obtain p ps where p: "payloads li = p # ps"
    using assms by (cases "payloads li") (auto simp: wf_lineitem_def)
  with assms have "length p = 8"
    by (simp add: wf_lineitem_def upt_conv_Cons wf_field_def attrLens_def)
  with p show ?thesis by (simp add: enc_tuple_def enc_field_def)
qed

lemma tuples_bytes_longer: "list_all wf_lineitem lis \<Longrightarrow> 8 * length lis \<le> length (tuples_bytes lis)"
  by (induction lis) (auto simp: tuples_bytes_def dest!: enc_tuple_longer)

lemma page_count_bound:
  assumes "wf_page lis dead"
  shows "length lis < 1024"
  using tuples_bytes_longer [of lis] assms by (auto simp: wf_page_def page_of_def PAGE_SZ_def)

lemma page_header:
  assumes "wf_page lis dead"
  shows "le16 (of_nat (length lis mod 256)) (of_nat (length lis div 256)) = length lis"
  using page_count_bound [OF assms] by (simp add: le16_def unat_of_nat_u8)

text \<open>A block: 256 pages back to back.\<close>

definition block_of :: "(lineitem list \<times> u8 list) list \<Rightarrow> u8 list" where
  "block_of pgs = concat (map (\<lambda>(lis, dead). page_of lis dead) pgs)"

definition wf_block :: "(lineitem list \<times> u8 list) list \<Rightarrow> bool" where
  "wf_block pgs \<longleftrightarrow> length pgs = 256 \<and> list_all (\<lambda>(lis, dead). wf_page lis dead) pgs"

definition rows_of :: "(lineitem list \<times> u8 list) list \<Rightarrow> lineitem list" where
  "rows_of pgs = concat (map fst pgs)"

lemma drop_block:
  assumes "list_all (\<lambda>(lis, dead). wf_page lis dead) pgs" "i < length pgs"
  shows "drop (i * PAGE_SZ) (block_of pgs)
    = page_of (fst (pgs ! i)) (snd (pgs ! i)) @ drop (Suc i * PAGE_SZ) (block_of pgs)"
    (is "?P pgs i")
  using assms
proof (induction pgs arbitrary: i)
  case Nil
  then show ?case by simp
next
  case (Cons pg pgs)
  have l: "length (page_of (fst pg) (snd pg)) = PAGE_SZ"
    using Cons.prems(1) by (auto simp: wf_page_def)
  show ?case
  proof (cases i)
    case 0
    then show ?thesis using l by (simp add: block_of_def split_beta)
  next
    case (Suc j)
    have "?P pgs j" using Cons.prems Suc by (intro Cons.IH) auto
    then show ?thesis using l Suc by (simp add: block_of_def split_beta)
  qed
qed

lemma block_length: "list_all (\<lambda>(lis, dead). wf_page lis dead) pgs
    \<Longrightarrow> length (block_of pgs) = length pgs * PAGE_SZ"
  by (induction pgs) (auto simp: block_of_def wf_page_def)

end
