(* ===== verification/PG_Page.thy ===== *)
theory PG_Page
  imports Prelude
begin

unbundle bit_operations_syntax

text \<open>
  The disk page of PostgreSQL 9.6 as the headers in
  \<^verbatim>\<open>postgresql/9.6/server/storage\<close> lay it out: the page header of \<^verbatim>\<open>bufpage.h\<close>, the line
  pointers of \<^verbatim>\<open>itemid.h\<close> and the tuple header of \<^verbatim>\<open>access/htup_details.h\<close>, read from the bytes
  of a page in little-endian order. Line pointers are 32-bit words with three bit fields,
  allocated from the low end as the compilers of the target do.
\<close>

section \<open>Line pointers\<close>

definition LP_UNUSED :: u32 where "LP_UNUSED = 0"
definition LP_NORMAL :: u32 where "LP_NORMAL = 1"
definition LP_REDIRECT :: u32 where "LP_REDIRECT = 2"
definition LP_DEAD :: u32 where "LP_DEAD = 3"

text \<open>The bit fields \<open>lp_off:15\<close>, \<open>lp_flags:2\<close>, \<open>lp_len:15\<close>.\<close>

type_synonym ItemIdData = u32

definition lp_off :: "ItemIdData \<Rightarrow> u32" where "lp_off iid = iid AND mask 15"
definition lp_flags :: "ItemIdData \<Rightarrow> u32" where "lp_flags iid = drop_bit 15 iid AND mask 2"
definition lp_len :: "ItemIdData \<Rightarrow> u32" where "lp_len iid = drop_bit 17 iid"

definition ItemIdGetLength :: "ItemIdData \<Rightarrow> nat" where "ItemIdGetLength iid = unat (lp_len iid)"
definition ItemIdGetOffset :: "ItemIdData \<Rightarrow> nat" where "ItemIdGetOffset iid = unat (lp_off iid)"
definition ItemIdGetFlags :: "ItemIdData \<Rightarrow> u32" where "ItemIdGetFlags iid = lp_flags iid"
definition ItemIdIsUsed :: "ItemIdData \<Rightarrow> bool" where "ItemIdIsUsed iid \<longleftrightarrow> lp_flags iid \<noteq> LP_UNUSED"
definition ItemIdIsNormal :: "ItemIdData \<Rightarrow> bool" where "ItemIdIsNormal iid \<longleftrightarrow> lp_flags iid = LP_NORMAL"
definition ItemIdIsRedirected :: "ItemIdData \<Rightarrow> bool" where
  "ItemIdIsRedirected iid \<longleftrightarrow> lp_flags iid = LP_REDIRECT"
definition ItemIdIsDead :: "ItemIdData \<Rightarrow> bool" where "ItemIdIsDead iid \<longleftrightarrow> lp_flags iid = LP_DEAD"
definition ItemIdHasStorage :: "ItemIdData \<Rightarrow> bool" where "ItemIdHasStorage iid \<longleftrightarrow> lp_len iid \<noteq> 0"

text \<open>Assignment to a bit field keeps the low bits of the value and the other fields.\<close>

definition set_bits :: "nat \<Rightarrow> nat \<Rightarrow> u32 \<Rightarrow> u32 \<Rightarrow> u32" where
  "set_bits pos n v iid = (iid AND NOT (push_bit pos (mask n))) OR push_bit pos (v AND mask n)"

definition set_lp_off :: "u32 \<Rightarrow> ItemIdData \<Rightarrow> ItemIdData" where "set_lp_off v iid = set_bits 0 15 v iid"
definition set_lp_flags :: "u32 \<Rightarrow> ItemIdData \<Rightarrow> ItemIdData" where
  "set_lp_flags v iid = set_bits 15 2 v iid"
definition set_lp_len :: "u32 \<Rightarrow> ItemIdData \<Rightarrow> ItemIdData" where "set_lp_len v iid = set_bits 17 15 v iid"

definition ItemIdSetUnused :: "ItemIdData \<Rightarrow> ItemIdData" where
  "ItemIdSetUnused iid = set_lp_len 0 (set_lp_off 0 (set_lp_flags LP_UNUSED iid))"

definition ItemIdSetNormal :: "u32 \<Rightarrow> u32 \<Rightarrow> ItemIdData \<Rightarrow> ItemIdData" where
  "ItemIdSetNormal off len iid = set_lp_len len (set_lp_off off (set_lp_flags LP_NORMAL iid))"

definition ItemIdSetRedirect :: "u32 \<Rightarrow> ItemIdData \<Rightarrow> ItemIdData" where
  "ItemIdSetRedirect link iid = set_lp_len 0 (set_lp_off link (set_lp_flags LP_REDIRECT iid))"

definition ItemIdSetDead :: "ItemIdData \<Rightarrow> ItemIdData" where
  "ItemIdSetDead iid = set_lp_len 0 (set_lp_off 0 (set_lp_flags LP_DEAD iid))"

definition ItemIdMarkDead :: "ItemIdData \<Rightarrow> ItemIdData" where
  "ItemIdMarkDead iid = set_lp_flags LP_DEAD iid"

lemma set_lp_simps [simp]:
  "lp_off (set_lp_off v iid) = v AND mask 15"
  "lp_off (set_lp_flags v iid) = lp_off iid"
  "lp_off (set_lp_len v iid) = lp_off iid"
  "lp_flags (set_lp_off v iid) = lp_flags iid"
  "lp_flags (set_lp_flags v iid) = v AND mask 2"
  "lp_flags (set_lp_len v iid) = lp_flags iid"
  "lp_len (set_lp_off v iid) = lp_len iid"
  "lp_len (set_lp_flags v iid) = lp_len iid"
  "lp_len (set_lp_len v iid) = v AND mask 15"
  unfolding lp_off_def lp_flags_def lp_len_def set_lp_off_def set_lp_flags_def set_lp_len_def
    set_bits_def
  by (rule bit_word_eqI; auto simp: bit_simps dest: bit_imp_le_length)+

section \<open>The page header\<close>

definition SizeOfPageHeaderData :: nat where "SizeOfPageHeaderData = 24"
definition sizeof_ItemIdData :: nat where "sizeof_ItemIdData = 4"
definition BLCKSZ :: nat where "BLCKSZ = 8192"

definition get16 :: "u8 list \<Rightarrow> nat \<Rightarrow> nat res" where
  "get16 page ofs = rbind (rd page ofs) (\<lambda>b0. rbind (rd page (ofs + 1)) (\<lambda>b1. Inr (le16 b0 b1)))"

definition get32 :: "u8 list \<Rightarrow> nat \<Rightarrow> u32 res" where
  "get32 page ofs = rbind (get16 page ofs) (\<lambda>lo. rbind (get16 page (ofs + 2)) (\<lambda>hi.
     Inr (of_nat (lo + 65536 * hi))))"

text \<open>The header fields the programs read, by their byte offsets.\<close>

definition pd_flags :: "u8 list \<Rightarrow> nat res" where "pd_flags page = get16 page 10"
definition pd_lower :: "u8 list \<Rightarrow> nat res" where "pd_lower page = get16 page 12"
definition pd_upper :: "u8 list \<Rightarrow> nat res" where "pd_upper page = get16 page 14"
definition pd_special :: "u8 list \<Rightarrow> nat res" where "pd_special page = get16 page 16"
definition pd_pagesize_version :: "u8 list \<Rightarrow> nat res" where "pd_pagesize_version page = get16 page 18"
definition pd_prune_xid :: "u8 list \<Rightarrow> u32 res" where "pd_prune_xid page = get32 page 20"

text \<open>
  \<open>PageGetItemId\<close> takes the address of \<open>pd_linp [offsetNumber - 1]\<close>; for offset number 0 that
  is the four bytes before the array, which hold \<open>pd_prune_xid\<close>.
\<close>

definition PageGetItemId :: "u8 list \<Rightarrow> nat \<Rightarrow> ItemIdData res" where
  "PageGetItemId page offsetNumber =
     get32 page (SizeOfPageHeaderData + sizeof_ItemIdData * offsetNumber - sizeof_ItemIdData)"

definition PageGetMaxOffsetNumber :: "u8 list \<Rightarrow> nat res" where
  "PageGetMaxOffsetNumber page = rbind (pd_lower page) (\<lambda>lower.
     Inr (if lower \<le> SizeOfPageHeaderData then 0
          else (lower - SizeOfPageHeaderData) div sizeof_ItemIdData))"

definition PageIsEmpty :: "u8 list \<Rightarrow> bool res" where
  "PageIsEmpty page = rbind (pd_lower page) (\<lambda>lower. Inr (lower \<le> SizeOfPageHeaderData))"

definition PageIsNew :: "u8 list \<Rightarrow> bool res" where
  "PageIsNew page = rbind (pd_upper page) (\<lambda>upper. Inr (upper = 0))"

definition PageGetPageSize :: "u8 list \<Rightarrow> nat res" where
  "PageGetPageSize page = rbind (pd_pagesize_version page) (\<lambda>v. Inr (256 * (v div 256)))"

definition PageGetPageLayoutVersion :: "u8 list \<Rightarrow> nat res" where
  "PageGetPageLayoutVersion page = rbind (pd_pagesize_version page) (\<lambda>v. Inr (v mod 256))"

text \<open>\<open>PageGetItem\<close>: the offset of the tuple inside the page.\<close>

definition PageGetItem :: "u8 list \<Rightarrow> ItemIdData \<Rightarrow> nat" where
  "PageGetItem page iid = ItemIdGetOffset iid"

text \<open>\<open>t_hoff\<close> of the tuple header at offset \<open>tup\<close>: after the 12 bytes of \<open>t_choice\<close>, the six of
  \<open>t_ctid\<close> and two two-byte info masks.\<close>

definition t_hoff :: "u8 list \<Rightarrow> nat \<Rightarrow> nat res" where
  "t_hoff page tup = rbind (rd page (tup + 22)) (\<lambda>b. Inr (unat b))"

lemma ItemId_roundtrip:
  assumes "off < 2 ^ 15" "len < 2 ^ 15"
  shows "ItemIdGetOffset (ItemIdSetNormal (of_nat off) (of_nat len) iid) = off"
    "ItemIdGetLength (ItemIdSetNormal (of_nat off) (of_nat len) iid) = len"
    "ItemIdIsNormal (ItemIdSetNormal (of_nat off) (of_nat len) iid)"
  using assms
  by (simp_all add: ItemIdGetOffset_def ItemIdGetLength_def ItemIdIsNormal_def ItemIdSetNormal_def
      LP_NORMAL_def take_bit_eq_mask [symmetric] unsigned_take_bit_eq unat_of_nat take_bit_nat_eq_self_iff )

end
