(* ===== verification/Fill.thy ===== *)
theory Fill
  imports Schema PG_Page
begin

text \<open>
  The routines that pack the tuples of a relation into the blocks the query runs on,
  \<^verbatim>\<open>xql6GetNextPage\<close> and \<^verbatim>\<open>xql6FillBlock\<close> of \<^verbatim>\<open>xql6/host/xql6.c\<close>. The buffer manager of
  the server is outside the repository: \<open>bufPage b\<close> is the content of the buffer that
  \<open>ReadBufferExtended\<close> returns for block \<open>b\<close>, and the calls on buffers are recorded in a trace. A page
  is read under a lock, but other sessions may change it between two reads: the routine that fills a block has a
  snapshot of the relation for every page it packs.
\<close>

section \<open>The code\<close>

definition XQL_PAGE_SZ :: nat where "XQL_PAGE_SZ = 8192"
definition XQL6_BLK_SZ :: nat where "XQL6_BLK_SZ = 2 * 1024 * 1024"
definition XQL6_PAGES_PER_BLK :: nat where "XQL6_PAGES_PER_BLK = XQL6_BLK_SZ div XQL_PAGE_SZ"

record Xql6FillState =
  fs_blkNum :: nat
  fs_nBlks :: nat
  fs_linNum :: nat

datatype buf_event = ReadBuffer nat | LockShare nat | Unlock nat | Release nat

text \<open>The locals \<open>p_dst\<close> (as an offset into the page buffer), \<open>nTups\<close>, and the page buffer.\<close>

record fill_loc =
  fl_buf :: "u8 list"
  fl_dst :: nat
  fl_nTups :: nat

text \<open>
  The loop over the line pointers of a page, \<open>n\<close> iterations to go; the flag is \<open>bFilled\<close>. A
  negative length reaches \<open>memcpy\<close> as a huge \<open>size_t\<close>.
\<close>

fun lines_loop :: "u8 list \<Rightarrow> nat \<Rightarrow> nat \<Rightarrow> fill_loc \<Rightarrow> (bool \<times> nat \<times> fill_loc) res" where
  "lines_loop page 0 linNum l = Inr (False, linNum, l)"
| "lines_loop page (Suc n) linNum l =
     rbind (PageGetItemId page linNum) (\<lambda>iid.
     let tuphdr = PageGetItem page iid in
     rbind (t_hoff page tuphdr) (\<lambda>hoff.
     let tuple_data_len = int (ItemIdGetLength iid) - int hoff in
     if tuple_data_len = 0 then lines_loop page n (Suc linNum) l
     else if int (fl_dst l) + tuple_data_len < int XQL_PAGE_SZ then
       (if tuple_data_len < 0 then Inl OutOfBounds else
        rbind (subarr page (tuphdr + hoff) (nat tuple_data_len)) (\<lambda>src.
        rbind (blit (fl_buf l) (fl_dst l) src) (\<lambda>buf.
          lines_loop page n (Suc linNum)
            (l\<lparr>fl_buf := buf, fl_dst := fl_dst l + nat tuple_data_len, fl_nTups := fl_nTups l + 1\<rparr>))))
     else Inr (True, linNum, l)))"

text \<open>
  The loop over the blocks of the relation, \<open>n\<close> to go. \<open>fsLin\<close> is \<open>p_fillState-> linNum\<close> and
  \<open>linNum\<close> the local variable, indeterminate until the first iteration.
\<close>

fun blocks_loop :: "(nat \<Rightarrow> u8 list) \<Rightarrow> nat \<Rightarrow> nat \<Rightarrow> nat \<Rightarrow> nat \<Rightarrow> fill_loc \<Rightarrow> buf_event list
    \<Rightarrow> (nat \<times> nat \<times> fill_loc \<times> buf_event list) res" where
  "blocks_loop bufPage 0 blkNum fsLin linNum l tr = Inr (blkNum, linNum, l, tr)"
| "blocks_loop bufPage (Suc n) blkNum fsLin linNum l tr =
     (let page = bufPage blkNum; tr1 = tr @ [ReadBuffer blkNum, LockShare blkNum] in
      rbind (PageGetMaxOffsetNumber page) (\<lambda>nLines.
      rbind (lines_loop page (nLines + 1 - fsLin) fsLin l) (\<lambda>(bFilled, linNum', l').
        let tr2 = tr1 @ [Unlock blkNum, Release blkNum] in
        if bFilled then Inr (blkNum, linNum', l', tr2)
        else blocks_loop bufPage n (Suc blkNum) 0 linNum' l' tr2)))"

definition xql6GetNextPage :: "(nat \<Rightarrow> u8 list) \<Rightarrow> nat \<Rightarrow> u8 list \<Rightarrow> Xql6FillState
    \<Rightarrow> (nat \<times> u8 list \<times> Xql6FillState \<times> buf_event list) res" where
  "xql6GetNextPage bufPage lin0 p_buf st =
     rbind (blocks_loop bufPage (fs_nBlks st - fs_blkNum st) (fs_blkNum st) (fs_linNum st) lin0
              \<lparr>fl_buf = p_buf, fl_dst = 2, fl_nTups = 0\<rparr> []) (\<lambda>(blkNum, linNum, l, tr).
     let nTups = fl_nTups l in
     rbind (wr (fl_buf l) 0 (of_nat (nTups mod 256))) (\<lambda>b0.
     rbind (wr b0 1 (of_nat (nTups div 256 mod 256))) (\<lambda>b1.
       Inr (nTups, b1, st\<lparr>fs_blkNum := blkNum, fs_linNum := linNum\<rparr>, tr))))"

text \<open>
  The page loop of \<open>xql6FillBlock\<close> on the block buffer \<open>blk\<close>, \<open>n\<close> pages to go; \<open>snap i\<close> is the
  relation as the call for page \<open>i\<close> finds it. Within one call every block is read once.
\<close>

fun fill_loop :: "(nat \<Rightarrow> nat \<Rightarrow> u8 list) \<Rightarrow> (nat \<Rightarrow> nat) \<Rightarrow> nat \<Rightarrow> nat \<Rightarrow> bool \<Rightarrow> u8 list \<Rightarrow> nat
    \<Rightarrow> Xql6FillState \<Rightarrow> buf_event list \<Rightarrow> (bool \<times> u8 list \<times> nat \<times> Xql6FillState \<times> buf_event list) res"
where
  "fill_loop snap lin0 pgNum 0 bRealPages blk nTups st tr = Inr (bRealPages, blk, nTups, st, tr)"
| "fill_loop snap lin0 pgNum (Suc n) bRealPages blk nTups st tr =
     rbind (subarr blk (pgNum * XQL_PAGE_SZ) XQL_PAGE_SZ) (\<lambda>p_buf.
     rbind (xql6GetNextPage (snap pgNum) (lin0 pgNum) p_buf st) (\<lambda>(pgTups, p_buf', st', tr').
     rbind (blit blk (pgNum * XQL_PAGE_SZ) p_buf') (\<lambda>blk'.
       fill_loop snap lin0 (Suc pgNum) n (pgTups \<noteq> 0) blk' (nTups + pgTups) st' (tr @ tr'))))"

definition xql6FillBlock :: "(nat \<Rightarrow> nat \<Rightarrow> u8 list) \<Rightarrow> (nat \<Rightarrow> nat) \<Rightarrow> u8 list \<Rightarrow> nat \<Rightarrow> Xql6FillState
    \<Rightarrow> (bool \<times> u8 list \<times> nat \<times> Xql6FillState \<times> buf_event list) res" where
  "xql6FillBlock snap lin0 blk nTups st =
     fill_loop snap lin0 0 XQL6_PAGES_PER_BLK True blk nTups st []"

section \<open>Well-formed heap pages\<close>

text \<open>
  \<open>item_data page lin d\<close>: line pointer \<open>lin\<close> leads to a tuple whose user data is \<open>d\<close> (empty for
  a line pointer the loop passes over). A heap page has a line pointer per tuple, and the
  bytes before the first one read as an item without data.
\<close>

definition item_data :: "u8 list \<Rightarrow> nat \<Rightarrow> u8 list \<Rightarrow> bool" where
  "item_data page lin d = (case PageGetItemId page lin of Inl _ \<Rightarrow> False | Inr iid \<Rightarrow>
     (case t_hoff page (ItemIdGetOffset iid) of Inl _ \<Rightarrow> False | Inr hoff \<Rightarrow>
        ItemIdGetLength iid = hoff + length d
        \<and> ItemIdGetOffset iid + hoff + length d \<le> length page
        \<and> take (length d) (drop (ItemIdGetOffset iid + hoff) page) = d
        \<and> length d < XQL_PAGE_SZ - 2))"

definition heap_page :: "u8 list \<Rightarrow> u8 list list \<Rightarrow> bool" where
  "heap_page page tups \<longleftrightarrow> length page = BLCKSZ
     \<and> PageGetMaxOffsetNumber page = Inr (length tups)
     \<and> item_data page 0 [] \<and> list_all (\<lambda>i. item_data page (Suc i) (tups ! i)) [0..<length tups]"

definition live :: "u8 list list \<Rightarrow> u8 list list" where
  "live ds = filter (\<lambda>d. d \<noteq> []) ds"

lemma live_simps [simp]: "live [] = []" "live (d # ds) = (if d = [] then live ds else d # live ds)"
  "live (ds @ es) = live ds @ live es"
  by (simp_all add: live_def)

text \<open>The relation: the tuples of each block.\<close>

definition relation_ok :: "(nat \<Rightarrow> u8 list) \<Rightarrow> u8 list list list \<Rightarrow> bool" where
  "relation_ok bufPage tupss \<longleftrightarrow> list_all (\<lambda>b. heap_page (bufPage b) (tupss ! b)) [0..<length tupss]"

text \<open>
  Every snapshot a run takes stores the same tuples, perhaps in other places of the page and
  with other headers: \<open>snaps k i\<close> is for page \<open>i\<close> of block \<open>k\<close> of the run.
\<close>

definition always_stored :: "(nat \<Rightarrow> nat \<Rightarrow> nat \<Rightarrow> u8 list) \<Rightarrow> u8 list list list \<Rightarrow> bool" where
  "always_stored snaps tupss \<longleftrightarrow> (\<forall>k i. relation_ok (snaps k i) tupss)"

lemma always_storedD: "always_stored snaps tupss \<Longrightarrow> \<forall>i. relation_ok (snaps k i) tupss"
  by (simp add: always_stored_def)

lemma always_stored_const: "always_stored (\<lambda>_ _. bufPage) tupss \<longleftrightarrow> relation_ok bufPage tupss"
  by (simp add: always_stored_def)

definition tups_from :: "u8 list list list \<Rightarrow> nat \<Rightarrow> nat \<Rightarrow> u8 list list" where
  "tups_from tupss blk lin = (if blk < length tupss
     then live (drop lin ([] # tupss ! blk)) @ live (concat (drop (Suc blk) tupss)) else [])"

definition pending :: "u8 list list list \<Rightarrow> Xql6FillState \<Rightarrow> u8 list list" where
  "pending tupss st = tups_from tupss (fs_blkNum st) (fs_linNum st)"

definition fill_ok :: "u8 list list list \<Rightarrow> Xql6FillState \<Rightarrow> bool" where
  "fill_ok tupss st \<longleftrightarrow> fs_nBlks st = length tupss \<and> fs_blkNum st \<le> length tupss
     \<and> (fs_blkNum st < length tupss \<longrightarrow> fs_linNum st \<le> Suc (length (tupss ! fs_blkNum st)))"

section \<open>Tuples are packed in order, none lost and none twice\<close>

text \<open>The locals after the tuples \<open>ts\<close> have been stored.\<close>

definition loc_ok :: "fill_loc \<Rightarrow> u8 list list \<Rightarrow> bool" where
  "loc_ok l ts \<longleftrightarrow> length (fl_buf l) = XQL_PAGE_SZ \<and> fl_dst l = 2 + length (concat ts)
     \<and> fl_dst l \<le> XQL_PAGE_SZ \<and> fl_nTups l = length ts
     \<and> take (length (concat ts)) (drop 2 (fl_buf l)) = concat ts"

lemma loc_ok_store:
  assumes "loc_ok l ts" "fl_dst l + length d < XQL_PAGE_SZ"
  shows "\<exists>buf. blit (fl_buf l) (fl_dst l) d = Inr buf
    \<and> loc_ok (l\<lparr>fl_buf := buf, fl_dst := fl_dst l + length d, fl_nTups := fl_nTups l + 1\<rparr>) (ts @ [d])"
proof -
  let ?buf = "take (fl_dst l) (fl_buf l) @ d @ drop (fl_dst l + length d) (fl_buf l)"
  have b: "blit (fl_buf l) (fl_dst l) d = Inr ?buf"
    using assms by (intro blit_in) (simp add: loc_ok_def)
  have "take (fl_dst l) (fl_buf l) = take 2 (fl_buf l) @ concat ts"
    using assms(1) unfolding loc_ok_def by (metis take_add)
  then have "drop 2 ?buf = concat ts @ d @ drop (fl_dst l + length d) (fl_buf l)"
    using assms(1) by (simp add: loc_ok_def XQL_PAGE_SZ_def)
  with assms b show ?thesis
    by (auto simp: loc_ok_def)
qed

lemma item_dataE:
  assumes "item_data page lin d"
  obtains iid hoff where "PageGetItemId page lin = Inr iid"
    "t_hoff page (ItemIdGetOffset iid) = Inr hoff" "ItemIdGetLength iid = hoff + length d"
    "ItemIdGetOffset iid + hoff + length d \<le> length page"
    "take (length d) (drop (ItemIdGetOffset iid + hoff) page) = d" "length d < XQL_PAGE_SZ - 2"
  using assms by (auto simp: item_data_def split: sum.splits)

lemma lines_loop_law:
  assumes "\<forall>i < length ds. item_data page (lin + i) (ds ! i)" "loc_ok l ts"
  shows "\<exists>bF k l'. lines_loop page (length ds) lin l = Inr (bF, lin + k, l')
    \<and> loc_ok l' (ts @ live (take k ds)) \<and> k \<le> length ds
    \<and> (if bF then k < length ds \<and> ds ! k \<noteq> [] \<and> XQL_PAGE_SZ \<le> fl_dst l' + length (ds ! k)
       else k = length ds)"
  using assms
proof (induction ds arbitrary: lin l ts)
  case Nil
  then show ?case by auto
next
  case (Cons d ds)
  have d: "item_data page lin d" using Cons.prems(1) by force
  have ds: "\<forall>i < length ds. item_data page (Suc lin + i) (ds ! i)"
    using Cons.prems(1) by fastforce
  obtain iid hoff where it: "PageGetItemId page lin = Inr iid"
    "t_hoff page (ItemIdGetOffset iid) = Inr hoff" "ItemIdGetLength iid = hoff + length d"
    "ItemIdGetOffset iid + hoff + length d \<le> length page"
    "take (length d) (drop (ItemIdGetOffset iid + hoff) page) = d"
    using item_dataE [OF d] by metis
  consider "d = []" | "d \<noteq> []" "fl_dst l + length d < XQL_PAGE_SZ"
    | "d \<noteq> []" "XQL_PAGE_SZ \<le> fl_dst l + length d" by linarith
  then show ?case
  proof cases
    case 1
    obtain bF k l' where "lines_loop page (length ds) (Suc lin) l = Inr (bF, Suc lin + k, l')"
      "loc_ok l' (ts @ live (take k ds))" "k \<le> length ds"
      "if bF then k < length ds \<and> ds ! k \<noteq> [] \<and> XQL_PAGE_SZ \<le> fl_dst l' + length (ds ! k)
       else k = length ds"
      using Cons.IH [OF ds Cons.prems(2)] by blast
    with 1 it show ?thesis
      by (intro exI [of _ bF] exI [of _ "Suc k"] exI [of _ l']) (auto simp: PageGetItem_def Let_def)
  next
    case 2
    obtain buf where b: "blit (fl_buf l) (fl_dst l) d = Inr buf"
      "loc_ok (l\<lparr>fl_buf := buf, fl_dst := fl_dst l + length d, fl_nTups := fl_nTups l + 1\<rparr>) (ts @ [d])"
      using loc_ok_store [OF Cons.prems(2) 2(2)] by blast
    obtain bF k l' where "lines_loop page (length ds) (Suc lin)
        (l\<lparr>fl_buf := buf, fl_dst := fl_dst l + length d, fl_nTups := fl_nTups l + 1\<rparr>)
        = Inr (bF, Suc lin + k, l')"
      "loc_ok l' ((ts @ [d]) @ live (take k ds))" "k \<le> length ds"
      "if bF then k < length ds \<and> ds ! k \<noteq> [] \<and> XQL_PAGE_SZ \<le> fl_dst l' + length (ds ! k)
       else k = length ds"
      using Cons.IH [OF ds b(2)] by blast
    with 2 it b show ?thesis
      by (intro exI [of _ bF] exI [of _ "Suc k"] exI [of _ l']) (auto simp: PageGetItem_def Let_def)
  next
    case 3
    with it Cons.prems(2) show ?thesis
      by (intro exI [of _ True] exI [of _ 0] exI [of _ l]) (auto simp: PageGetItem_def Let_def)
  qed
qed

text \<open>The calls one pass over a block makes: the buffer is released in the reverse order.\<close>

definition buf_cycle :: "nat \<Rightarrow> buf_event list" where
  "buf_cycle b = [ReadBuffer b, LockShare b, Unlock b, Release b]"

lemma tups_from_0: "tups_from tupss blk 0 = live (concat (drop blk tupss))"
  by (cases "blk < length tupss") (simp_all add: tups_from_def drop_eq_Cons_nth)

lemma blocks_loop_law:
  assumes "relation_ok bufPage tupss" "blk + n = length tupss"
    and "0 < n \<Longrightarrow> lin \<le> Suc (length (tupss ! blk))" "loc_ok l ts"
  shows "\<exists>blk' lin' l' ts' e. blocks_loop bufPage n blk lin lin0 l tr
      = Inr (blk', lin', l', tr @ concat (map buf_cycle [blk..<e]))
    \<and> loc_ok l' (ts @ ts') \<and> tups_from tupss blk lin = ts' @ tups_from tupss blk' lin'
    \<and> blk' \<le> length tupss \<and> (blk' < length tupss \<longrightarrow> lin' \<le> Suc (length (tupss ! blk')))
    \<and> (tups_from tupss blk' lin' \<noteq> [] \<longrightarrow>
        XQL_PAGE_SZ \<le> fl_dst l' + length (hd (tups_from tupss blk' lin')))"
  using assms(2-4)
proof (induction n arbitrary: blk lin lin0 l ts tr)
  case 0
  then show ?case
    by (intro exI [of _ blk] exI [of _ lin0] exI [of _ l] exI [of _ "[]"] exI [of _ blk])
      (auto simp: tups_from_def)
next
  case (Suc n)
  let ?page = "bufPage blk" and ?ds = "drop lin ([] # tupss ! blk)"
  have lt: "blk < length tupss" using Suc.prems(1) by simp
  then have hp: "heap_page ?page (tupss ! blk)"
    using assms(1) by (simp add: relation_ok_def list_all_iff)
  then have max: "PageGetMaxOffsetNumber ?page = Inr (length (tupss ! blk))"
    by (simp add: heap_page_def)
  have all: "item_data ?page i (([] # tupss ! blk) ! i)" if "i \<le> length (tupss ! blk)" for i
    using hp that by (cases i) (auto simp: heap_page_def list_all_iff)
  have lin: "lin \<le> Suc (length (tupss ! blk))" using Suc.prems(2) by simp
  have items: "\<forall>i < length ?ds. item_data ?page (lin + i) (?ds ! i)"
    using all lin by (auto simp: less_diff_conv)
  obtain bF k l1 where ll: "lines_loop ?page (length ?ds) lin l = Inr (bF, lin + k, l1)"
    and l1: "loc_ok l1 (ts @ live (take k ?ds))" and k: "k \<le> length ?ds"
    and bF: "if bF then k < length ?ds \<and> ?ds ! k \<noteq> [] \<and> XQL_PAGE_SZ \<le> fl_dst l1 + length (?ds ! k)
       else k = length ?ds"
    using lines_loop_law [OF items Suc.prems(3)] by blast
  have len: "length ?ds = length (tupss ! blk) + 1 - lin" by simp
  show ?case
  proof (cases bF)
    case True
    with bF have kk: "k < length ?ds" "?ds ! k \<noteq> []" "XQL_PAGE_SZ \<le> fl_dst l1 + length (?ds ! k)" by auto
    have dk: "drop k ?ds = ?ds ! k # drop (Suc k) ?ds" using kk(1) by (rule drop_eq_Cons_nth)
    have split: "tups_from tupss blk lin = live (take k ?ds) @ tups_from tupss blk (lin + k)"
    proof -
      have "live ?ds = live (take k ?ds) @ live (drop k ?ds)"
        by (metis append_take_drop_id live_simps(3))
      moreover have "drop k ?ds = drop (lin + k) ([] # tupss ! blk)" by (simp add: add.commute)
      ultimately show ?thesis using lt by (simp add: tups_from_def)
    qed
    have hd: "tups_from tupss blk (lin + k) = ?ds ! k # (live (drop (Suc k) ?ds)
        @ live (concat (drop (Suc blk) tupss)))"
    proof -
      have "drop (lin + k) ([] # tupss ! blk) = drop k ?ds" by (simp add: add.commute)
      then show ?thesis using lt kk(2) dk by (simp add: tups_from_def)
    qed
    have run: "blocks_loop bufPage (Suc n) blk lin lin0 l tr
        = Inr (blk, lin + k, l1, tr @ concat (map buf_cycle [blk..<Suc blk]))"
      using ll True max len by (simp add: Let_def buf_cycle_def)
    have "lin + k \<le> Suc (length (tupss ! blk))" using kk(1) len by simp
    with run l1 split hd kk(3) lt show ?thesis
      by (intro exI [of _ blk] exI [of _ "lin + k"] exI [of _ l1] exI [of _ "live (take k ?ds)"]
          exI [of _ "Suc blk"]) simp
  next
    case False
    with bF have kd: "k = length ?ds" by simp
    have l1': "loc_ok l1 (ts @ live ?ds)" using l1 kd by simp
    let ?tr = "tr @ buf_cycle blk"
    have nx: "Suc blk + n = length tupss" using Suc.prems(1) by simp
    have z: "0 < n \<Longrightarrow> 0 \<le> Suc (length (tupss ! Suc blk))" by simp
    obtain blk' lin' l' ts' e where IH: "blocks_loop bufPage n (Suc blk) 0 (lin + k) l1 ?tr
        = Inr (blk', lin', l', ?tr @ concat (map buf_cycle [Suc blk..<e]))"
      "loc_ok l' ((ts @ live ?ds) @ ts')" "tups_from tupss (Suc blk) 0 = ts' @ tups_from tupss blk' lin'"
      "blk' \<le> length tupss" "blk' < length tupss \<longrightarrow> lin' \<le> Suc (length (tupss ! blk'))"
      "tups_from tupss blk' lin' \<noteq> [] \<longrightarrow>
        XQL_PAGE_SZ \<le> fl_dst l' + length (hd (tups_from tupss blk' lin'))"
      using Suc.IH [OF nx z l1'] by blast
    have split: "tups_from tupss blk lin = (live ?ds @ ts') @ tups_from tupss blk' lin'"
      using lt IH(3) by (simp add: tups_from_def [of tupss blk] tups_from_0)
    have run: "blocks_loop bufPage (Suc n) blk lin lin0 l tr
        = Inr (blk', lin', l', ?tr @ concat (map buf_cycle [Suc blk..<e]))"
      using ll False max len IH(1) by (simp add: Let_def buf_cycle_def)
    have cyc: "\<exists>e'. ?tr @ concat (map buf_cycle [Suc blk..<e]) = tr @ concat (map buf_cycle [blk..<e'])"
    proof (cases "Suc blk \<le> e")
      case True
      then have "buf_cycle blk @ concat (map buf_cycle [Suc blk..<e]) = concat (map buf_cycle [blk..<e])"
        by (simp add: upt_conv_Cons)
      then show ?thesis by auto
    next
      case False
      then show ?thesis by (intro exI [of _ "Suc blk"]) simp
    qed
    then obtain e' where "?tr @ concat (map buf_cycle [Suc blk..<e]) = tr @ concat (map buf_cycle [blk..<e'])"
      by blast
    with run IH split show ?thesis
      by (intro exI [of _ blk'] exI [of _ lin'] exI [of _ l'] exI [of _ "live ?ds @ ts'"] exI [of _ e'])
        (simp del: blocks_loop.simps)
  qed
qed

text \<open>A packed page: the tuple count and the tuples, then whatever the buffer held before.\<close>

definition packed :: "u8 list list \<Rightarrow> u8 list \<Rightarrow> u8 list" where
  "packed ts dead = [of_nat (length ts mod 256), of_nat (length ts div 256 mod 256)] @ concat ts @ dead"

lemma loc_ok_packed:
  assumes "loc_ok l ts"
  obtains dead where "length (packed ts dead) = XQL_PAGE_SZ"
    "rbind (wr (fl_buf l) 0 (of_nat (fl_nTups l mod 256))) (\<lambda>b0. wr b0 1 (of_nat (fl_nTups l div 256 mod 256)))
      = Inr (packed ts dead)"
proof -
  have len: "length (fl_buf l) = XQL_PAGE_SZ" and n: "fl_nTups l = length ts"
    and t: "take (length (concat ts)) (drop 2 (fl_buf l)) = concat ts"
    using assms by (auto simp: loc_ok_def)
  obtain x y zs where xy: "fl_buf l = x # y # zs"
    using len by (cases "fl_buf l"; cases "tl (fl_buf l)") (auto simp: XQL_PAGE_SZ_def)
  have "take (length (concat ts)) zs = concat ts" using t by (simp add: xy)
  then obtain dead where zs: "zs = concat ts @ dead" by (metis append_take_drop_id)
  show ?thesis
  proof (rule that [of dead])
    show "length (packed ts dead) = XQL_PAGE_SZ" using len by (simp add: packed_def xy zs)
  qed (simp add: xy packed_def wr_def zs n)
qed

lemma xql6GetNextPage_law:
  assumes "relation_ok bufPage tupss" "fill_ok tupss st" "length p_buf = XQL_PAGE_SZ"
  shows "\<exists>ts dead st' e. xql6GetNextPage bufPage lin0 p_buf st
      = Inr (length ts, packed ts dead, st', concat (map buf_cycle [fs_blkNum st..<e]))
    \<and> length (packed ts dead) = XQL_PAGE_SZ \<and> fill_ok tupss st'
    \<and> pending tupss st = ts @ pending tupss st'
    \<and> (pending tupss st' \<noteq> [] \<longrightarrow> XQL_PAGE_SZ \<le> 2 + length (concat ts) + length (hd (pending tupss st')))"
proof -
  let ?l0 = "\<lparr>fl_buf = p_buf, fl_dst = 2, fl_nTups = 0\<rparr>"
  have l0: "loc_ok ?l0 []" using assms(3) by (simp add: loc_ok_def XQL_PAGE_SZ_def)
  have c: "fs_blkNum st + (fs_nBlks st - fs_blkNum st) = length tupss"
    "0 < fs_nBlks st - fs_blkNum st \<Longrightarrow> fs_linNum st \<le> Suc (length (tupss ! fs_blkNum st))"
    using assms(2) by (auto simp: fill_ok_def)
  obtain blk' lin' l' ts e where R: "blocks_loop bufPage (fs_nBlks st - fs_blkNum st) (fs_blkNum st)
      (fs_linNum st) lin0 ?l0 [] = Inr (blk', lin', l', concat (map buf_cycle [fs_blkNum st..<e]))"
    "loc_ok l' ts" "tups_from tupss (fs_blkNum st) (fs_linNum st) = ts @ tups_from tupss blk' lin'"
    "blk' \<le> length tupss" "blk' < length tupss \<longrightarrow> lin' \<le> Suc (length (tupss ! blk'))"
    "tups_from tupss blk' lin' \<noteq> [] \<longrightarrow>
        XQL_PAGE_SZ \<le> fl_dst l' + length (hd (tups_from tupss blk' lin'))"
    using blocks_loop_law [OF assms(1) c l0, where tr = "[]", unfolded append_Nil]
    by blast
  let ?st = "st\<lparr>fs_blkNum := blk', fs_linNum := lin'\<rparr>"
  have n: "fl_nTups l' = length ts" and dst: "fl_dst l' = 2 + length (concat ts)"
    using R(2) by (auto simp: loc_ok_def)
  obtain dead where dead: "length (packed ts dead) = XQL_PAGE_SZ"
    "rbind (wr (fl_buf l') 0 (of_nat (fl_nTups l' mod 256))) (\<lambda>b0. wr b0 1 (of_nat (fl_nTups l' div 256 mod 256)))
      = Inr (packed ts dead)"
    using loc_ok_packed [OF R(2)] by blast
  have run: "xql6GetNextPage bufPage lin0 p_buf st
      = Inr (length ts, packed ts dead, ?st, concat (map buf_cycle [fs_blkNum st..<e]))"
    using R(1) dead(2) by (simp add: xql6GetNextPage_def Let_def n rbind_assoc [symmetric])
  moreover have "fill_ok tupss ?st" using assms(2) R(4,5) by (simp add: fill_ok_def)
  ultimately show ?thesis
    using R(3,6) dst dead(1)
    by (intro exI [of _ ts] exI [of _ dead] exI [of _ ?st] exI [of _ e]) (simp add: pending_def)
qed

end
