(* ===== verification/Growing.thy ===== *)
theory Growing
  imports Fill "HOL-Library.Sublist"
begin

text \<open>
  Relations that grow while they are read. Other sessions may insert rows at any time: a page gets a
  new line pointer or an unused one is given a tuple. The lemmas say what the scan, which goes
  through the relation once, gets to see: at least the tuples that were there when it began
  and at most those that are there when it ends, in storage order.
\<close>

section \<open>Growth\<close>

definition page_grows :: "'a list list \<Rightarrow> 'a list list \<Rightarrow> bool" where
  "page_grows xs ys \<longleftrightarrow> length xs \<le> length ys \<and> list_all2 (\<lambda>x y. x = [] \<or> x = y) xs (take (length xs) ys)"

definition grows :: "'a list list list \<Rightarrow> 'a list list list \<Rightarrow> bool" where
  "grows tupss tupss' \<longleftrightarrow> list_all2 page_grows tupss tupss'"

lemma page_grows_simps [simp]:
  "page_grows [] ys" "page_grows (x # xs) (y # ys) \<longleftrightarrow> (x = [] \<or> x = y) \<and> page_grows xs ys"
  "\<not> page_grows (x # xs) []"
  by (auto simp: page_grows_def)

lemma page_grows_refl [simp]: "page_grows xs xs"
  by (induction xs) simp_all

lemma grows_refl [simp]: "grows tupss tupss"
  by (simp add: grows_def list_all2_refl)

lemma page_grows_length: "page_grows xs ys \<Longrightarrow> length xs \<le> length ys"
  by (simp add: page_grows_def)

lemma page_grows_drop: "page_grows xs ys \<Longrightarrow> page_grows (drop n xs) (drop n ys)"
proof (induction n arbitrary: xs ys)
  case (Suc n)
  then show ?case by (cases xs; cases ys) auto
qed simp

lemma page_grows_take: "page_grows xs ys \<Longrightarrow> page_grows (take n xs) (take n ys)"
proof (induction n arbitrary: xs ys)
  case (Suc n)
  then show ?case by (cases xs; cases ys) auto
qed simp

lemma page_grows_live: "page_grows xs ys \<Longrightarrow> subseq (live xs) (live ys)"
proof (induction xs arbitrary: ys)
  case (Cons x xs)
  then show ?case by (cases ys) auto
qed simp

lemma grows_length: "grows A B \<Longrightarrow> length A = length B"
  by (auto simp: grows_def dest: list_all2_lengthD)

lemma grows_nth: "grows A B \<Longrightarrow> b < length A \<Longrightarrow> page_grows (A ! b) (B ! b)"
  by (simp add: grows_def list_all2_conv_all_nth)

lemma grows_drop: "grows A B \<Longrightarrow> grows (drop n A) (drop n B)"
  by (simp add: grows_def list_all2_dropI)

lemma grows_take: "grows A B \<Longrightarrow> grows (take n A) (take n B)"
  by (simp add: grows_def list_all2_takeI)

lemma grows_live: "grows A B \<Longrightarrow> subseq (live (concat A)) (live (concat B))"
  unfolding grows_def
  by (induction rule: list_all2_induct) (auto intro: list_emb_append_mono page_grows_live)

section \<open>Positions of the scan\<close>

lemma tups_from_grows: "grows A B \<Longrightarrow> subseq (tups_from A blk lin) (tups_from B blk lin)"
  using grows_length [of A B] grows_nth [of A B blk]
  by (auto simp: tups_from_def intro!: list_emb_append_mono page_grows_live page_grows_drop grows_live grows_drop)

lemma pending_grows: "grows A B \<Longrightarrow> subseq (pending A st) (pending B st)"
  by (simp add: pending_def tups_from_grows)

lemma fill_ok_grows: "grows A B \<Longrightarrow> fill_ok A st \<Longrightarrow> fill_ok B st"
  using grows_length [of A B] page_grows_length [OF grows_nth [of A B "fs_blkNum st"]] by (auto simp: fill_ok_def)

text \<open>The tuples between two positions.\<close>

definition region :: "u8 list list list \<Rightarrow> nat \<Rightarrow> nat \<Rightarrow> nat \<Rightarrow> nat \<Rightarrow> u8 list list" where
  "region A blk lin blk' lin' =
     (if blk = blk' then live (take (lin' - lin) (drop lin ([] # A ! blk)))
      else live (drop lin ([] # A ! blk)) @ live (concat (take (blk' - Suc blk) (drop (Suc blk) A)))
        @ (if blk' < length A then live (take lin' ([] # A ! blk')) else []))"

definition position_le :: "nat \<times> nat \<Rightarrow> nat \<times> nat \<Rightarrow> bool" where
  "position_le p q \<longleftrightarrow> fst p < fst q \<or> fst p = fst q \<and> snd p \<le> snd q"

lemma region_split:
  assumes "blk < length A" "blk' \<le> length A" "position_le (blk, lin) (blk', lin')"
  shows "tups_from A blk lin = region A blk lin blk' lin' @ tups_from A blk' lin'"
proof (cases "blk = blk'")
  case True
  then have "lin \<le> lin'" using assms(3) by (simp add: position_le_def)
  then have "drop lin ([] # A ! blk) = take (lin' - lin) (drop lin ([] # A ! blk)) @ drop lin' ([] # A ! blk)"
    by (metis append_take_drop_id drop_drop le_add_diff_inverse2)
  then show ?thesis
    using True assms(1) live_simps(3) by (metis append.assoc region_def tups_from_def)
next
  case False
  then have lt: "blk < blk'" using assms(3) by (simp add: position_le_def)
  have "drop (Suc blk) A = take (blk' - Suc blk) (drop (Suc blk) A) @ drop blk' A"
    using lt by (metis Suc_leI append_take_drop_id drop_drop le_add_diff_inverse2)
  then have "live (concat (drop (Suc blk) A))
      = live (concat (take (blk' - Suc blk) (drop (Suc blk) A))) @ live (concat (drop blk' A))"
    by (metis concat_append live_simps(3))
  moreover have "live (concat (drop blk' A))
      = (if blk' < length A then live (take lin' ([] # A ! blk')) else []) @ tups_from A blk' lin'"
  proof (cases "blk' < length A")
    case True
    have "live ([] # A ! blk') = live (take lin' ([] # A ! blk')) @ live (drop lin' ([] # A ! blk'))"
      by (metis append_take_drop_id live_simps(3))
    moreover have "drop blk' A = A ! blk' # drop (Suc blk') A" using True by (rule drop_eq_Cons_nth)
    ultimately show ?thesis using True by (simp add: tups_from_def)
  qed (simp add: tups_from_def live_def)
  ultimately show ?thesis using False assms(1) by (simp add: region_def tups_from_def)
qed

lemma region_grows:
  assumes "grows A B" "blk < length A"
  shows "subseq (region A blk lin blk' lin') (region B blk lin blk' lin')"
  using assms grows_length [of A B] grows_nth [of A B]
  by (auto simp: region_def intro!: list_emb_append_mono page_grows_live page_grows_drop page_grows_take grows_live
      grows_take grows_drop)

text \<open>What a part of the scan has taken from one state of the relation lies in every later one.\<close>

lemma taken_grows:
  assumes "grows A E" "blk < length A" "blk' \<le> length A" "position_le (blk, lin) (blk', lin')"
    and "tups_from A blk lin = ts @ tups_from A blk' lin'"
  shows "subseq (ts @ tups_from E blk' lin') (tups_from E blk lin)"
proof -
  have "ts = region A blk lin blk' lin'" using region_split [OF assms(2-4)] assms(5) by simp
  then have "subseq ts (region E blk lin blk' lin')" using region_grows [OF assms(1,2)] by simp
  then show ?thesis
    using region_split [of blk E blk' lin lin'] assms(2-4) grows_length [OF assms(1)] by simp
qed

section \<open>The scan only goes forward\<close>

lemma lines_loop_order: "lines_loop page n lin l = Inr (bF, lin', l') \<Longrightarrow> lin \<le> lin'"
proof (induction page n lin l rule: lines_loop.induct)
  case (2 page n lin l)
  then show ?case
    by (fastforce simp: rbind_eq_Inr Let_def split: if_splits dest: Suc_leD)
qed simp

lemma blocks_loop_order:
  "blocks_loop bufPage (Suc n) blk lin lin0 l tr = Inr (blk', lin', l', tr') \<Longrightarrow> position_le (blk, lin) (blk', lin')"
proof (induction n arbitrary: blk lin lin0 l tr)
  case 0
  then show ?case
    by (auto simp: rbind_eq_Inr Let_def position_le_def split: if_splits dest: lines_loop_order)
next
  case (Suc n)
  obtain nLines bF lin1 l1 where L: "lines_loop (bufPage blk) (nLines + 1 - lin) lin l = Inr (bF, lin1, l1)"
    and R: "if bF then blk' = blk \<and> lin' = lin1
      else blocks_loop bufPage (Suc n) (Suc blk) 0 lin1 l1 (tr @ buf_cycle blk) = Inr (blk', lin', l', tr')"
    using Suc.prems by (subst (asm) blocks_loop.simps)
      (auto simp: rbind_eq_Inr Let_def buf_cycle_def simp del: blocks_loop.simps split: if_splits)
  show ?case
  proof (cases bF)
    case True
    with R lines_loop_order [OF L] show ?thesis by (simp add: position_le_def)
  next
    case False
    with R have "position_le (Suc blk, 0) (blk', lin')" using Suc.IH by (simp del: blocks_loop.simps)
    then show ?thesis by (auto simp: position_le_def)
  qed
qed

lemma xql6GetNextPage_order:
  assumes "xql6GetNextPage bufPage lin0 p st = Inr (n, p', st', tr)"
  shows "if fs_blkNum st < fs_nBlks st then position_le (fs_blkNum st, fs_linNum st) (fs_blkNum st', fs_linNum st')
    else fs_blkNum st' = fs_blkNum st"
proof -
  obtain blk' lin' l' tr2 where R: "blocks_loop bufPage (fs_nBlks st - fs_blkNum st) (fs_blkNum st) (fs_linNum st) lin0
      \<lparr>fl_buf = p, fl_dst = 2, fl_nTups = 0\<rparr> [] = Inr (blk', lin', l', tr2)"
    and st': "st' = st\<lparr>fs_blkNum := blk', fs_linNum := lin'\<rparr>"
    using assms by (auto simp: xql6GetNextPage_def rbind_eq_Inr Let_def)
  show ?thesis
  proof (cases "fs_nBlks st - fs_blkNum st")
    case 0
    with R st' show ?thesis by simp
  next
    case (Suc k)
    have "position_le (fs_blkNum st, fs_linNum st) (blk', lin')" using R unfolding Suc by (rule blocks_loop_order)
    moreover have "fs_blkNum st < fs_nBlks st" using Suc by simp
    ultimately show ?thesis using st' by simp
  qed
qed

lemma page_taken:
  assumes "grows A E" "fill_ok A st" "fill_ok A st'" "xql6GetNextPage bufPage lin0 p st = Inr (n, p', st', tr)"
    and "pending A st = ts @ pending A st'"
  shows "subseq (ts @ pending E st') (pending E st)"
proof (cases "fs_blkNum st < length A")
  case True
  then have "position_le (fs_blkNum st, fs_linNum st) (fs_blkNum st', fs_linNum st')"
    using xql6GetNextPage_order [OF assms(4)] assms(2) by (simp add: fill_ok_def)
  with taken_grows [OF assms(1) True] assms(3,5) show ?thesis by (simp add: pending_def fill_ok_def)
next
  case False
  then have "fs_blkNum st' = fs_blkNum st"
    using xql6GetNextPage_order [OF assms(4)] assms(2) by (simp add: fill_ok_def)
  then show ?thesis
    using False assms(5) grows_length [OF assms(1)] by (simp add: pending_def tups_from_def)
qed

section \<open>A block\<close>

lemma pending_small:
  assumes "relation_ok bufPage tupss" "d \<in> set (pending tupss st)"
  shows "length d < XQL_PAGE_SZ - 2"
proof -
  have "length d < XQL_PAGE_SZ - 2" if b: "b < length tupss" and d: "d \<in> set (tupss ! b)" for b
  proof -
    obtain i where i: "i < length (tupss ! b)" "tupss ! b ! i = d"
      using d by (auto simp: in_set_conv_nth)
    have "heap_page (bufPage b) (tupss ! b)"
      using assms(1) b by (simp add: relation_ok_def list_all_iff)
    then have "item_data (bufPage b) (Suc i) d"
      using i by (auto simp: heap_page_def list_all_iff)
    then show ?thesis by (rule item_dataE)
  qed
  moreover have "\<exists>b < length tupss. d \<in> set (tupss ! b)"
  proof -
    have "fs_blkNum st < length tupss" "d \<noteq> []" "d \<in> set (drop (fs_linNum st) ([] # tupss ! fs_blkNum st))
        \<or> (\<exists>ds \<in> set (drop (Suc (fs_blkNum st)) tupss). d \<in> set ds)"
      using assms(2) by (auto simp: pending_def tups_from_def live_def split: if_splits)
    then show ?thesis
      by (metis in_set_conv_nth in_set_dropD set_ConsD)
  qed
  ultimately show ?thesis by blast
qed

lemma page_nonempty:
  assumes "relation_ok bufPage tupss"
    and "pending tupss st \<noteq> [] \<longrightarrow> XQL_PAGE_SZ \<le> 2 + length (concat ts) + length (hd (pending tupss st))"
    and "ts = []"
  shows "pending tupss st = []"
proof (rule ccontr)
  assume "pending tupss st \<noteq> []"
  then show False
    using assms(2,3) pending_small [OF assms(1) hd_in_set, of st] by (simp add: XQL_PAGE_SZ_def)
qed

definition packed_pages :: "(u8 list list \<times> u8 list) list \<Rightarrow> u8 list" where
  "packed_pages pgs = concat (map (\<lambda>(ts, dead). packed ts dead) pgs)"

text \<open>
  The relation at the time page \<open>i\<close> is packed stores \<open>T i\<close>; all that it ever stores is in \<open>E\<close>.
\<close>

definition growing :: "(nat \<Rightarrow> u8 list list list) \<Rightarrow> u8 list list list \<Rightarrow> bool" where
  "growing T E \<longleftrightarrow> (\<forall>i. grows (T i) E) \<and> (\<forall>i j. i \<le> j \<longrightarrow> grows (T i) (T j))"

lemma growingD: "growing T E \<Longrightarrow> grows (T i) E" "growing T E \<Longrightarrow> i \<le> j \<Longrightarrow> grows (T i) (T j)"
  by (simp_all add: growing_def)

lemma growing_const [simp]: "growing (\<lambda>_. tupss) tupss"
  by (simp add: growing_def)

lemma growing_shift: "growing T E \<Longrightarrow> growing (\<lambda>i. T (n + i)) E"
  by (simp add: growing_def)

lemma fill_loop_grows:
  assumes "\<forall>i. relation_ok (snap i) (T i)" "growing T E"
    and "fill_ok (T pgNum) st" "length blk = (pgNum + n) * XQL_PAGE_SZ"
  shows "\<exists>pgs b st' bs. fill_loop snap lin0 pgNum n bR blk nTups st tr
      = Inr (b, take (pgNum * XQL_PAGE_SZ) blk @ packed_pages pgs,
          nTups + length (concat (map fst pgs)), st', tr @ concat (map buf_cycle bs))
    \<and> length pgs = n \<and> list_all (\<lambda>(ts, dead). length (packed ts dead) = XQL_PAGE_SZ) pgs
    \<and> fill_ok (T (pgNum + n)) st'
    \<and> subseq (pending (T pgNum) st) (concat (map fst pgs) @ pending (T (pgNum + n)) st')
    \<and> subseq (concat (map fst pgs) @ pending E st') (pending E st)
    \<and> b = (if n = 0 then bR else fst (last pgs) \<noteq> [])
    \<and> (n \<noteq> 0 \<and> \<not> b \<longrightarrow> subseq (pending (T pgNum) st) (concat (map fst pgs)))"
  using assms(3,4)
proof (induction n arbitrary: pgNum bR blk nTups st tr)
  case 0
  then show ?case
    by (intro exI [of _ "[]"] exI [of _ bR] exI [of _ st] exI [of _ "[]"]) (simp add: packed_pages_def)
next
  case (Suc n)
  let ?p = "take XQL_PAGE_SZ (drop (pgNum * XQL_PAGE_SZ) blk)"
  have len: "pgNum * XQL_PAGE_SZ + XQL_PAGE_SZ + n * XQL_PAGE_SZ = length blk"
    using Suc.prems(2) by (simp add: algebra_simps)
  then have p: "length ?p = XQL_PAGE_SZ" by simp
  obtain ts dead st1 e where pg: "xql6GetNextPage (snap pgNum) (lin0 pgNum) ?p st
      = Inr (length ts, packed ts dead, st1, concat (map buf_cycle [fs_blkNum st..<e]))"
    "length (packed ts dead) = XQL_PAGE_SZ" "fill_ok (T pgNum) st1"
    "pending (T pgNum) st = ts @ pending (T pgNum) st1"
    "pending (T pgNum) st1 \<noteq> [] \<longrightarrow> XQL_PAGE_SZ \<le> 2 + length (concat ts) + length (hd (pending (T pgNum) st1))"
    using xql6GetNextPage_law [OF spec [OF assms(1)] Suc.prems(1) p] by blast
  let ?blk = "take (pgNum * XQL_PAGE_SZ) blk @ packed ts dead
    @ drop (pgNum * XQL_PAGE_SZ + XQL_PAGE_SZ) blk"
  have bl: "blit blk (pgNum * XQL_PAGE_SZ) (packed ts dead) = Inr ?blk"
    using blit_in [of "pgNum * XQL_PAGE_SZ" "packed ts dead" blk] pg(2) len by simp
  have len1: "length ?blk = (Suc pgNum + n) * XQL_PAGE_SZ"
    using pg(2) len by (simp add: algebra_simps)
  have nx: "grows (T pgNum) (T (Suc pgNum))" using growingD(2) [OF assms(2)] by simp
  let ?tr = "tr @ concat (map buf_cycle [fs_blkNum st..<e])"
  obtain pgs b st' bs where IH: "fill_loop snap lin0 (Suc pgNum) n (length ts \<noteq> 0) ?blk
      (nTups + length ts) st1 ?tr = Inr (b, take (Suc pgNum * XQL_PAGE_SZ) ?blk @ packed_pages pgs,
        nTups + length ts + length (concat (map fst pgs)), st', ?tr @ concat (map buf_cycle bs))"
    "length pgs = n" "list_all (\<lambda>(ts, dead). length (packed ts dead) = XQL_PAGE_SZ) pgs"
    "fill_ok (T (Suc pgNum + n)) st'"
    "subseq (pending (T (Suc pgNum)) st1) (concat (map fst pgs) @ pending (T (Suc pgNum + n)) st')"
    "subseq (concat (map fst pgs) @ pending E st') (pending E st1)"
    "b = (if n = 0 then length ts \<noteq> 0 else fst (last pgs) \<noteq> [])"
    "n \<noteq> 0 \<and> \<not> b \<longrightarrow> subseq (pending (T (Suc pgNum)) st1) (concat (map fst pgs))"
    using Suc.IH [OF fill_ok_grows [OF nx pg(3)] len1] by blast
  have tk: "take (Suc pgNum * XQL_PAGE_SZ) ?blk = take (pgNum * XQL_PAGE_SZ) blk @ packed ts dead"
    using pg(2) len by simp
  have run: "fill_loop snap lin0 pgNum (Suc n) bR blk nTups st tr
    = Inr (b, take (pgNum * XQL_PAGE_SZ) blk @ packed_pages ((ts, dead) # pgs),
        nTups + length (concat (map fst ((ts, dead) # pgs))), st',
        tr @ concat (map buf_cycle ([fs_blkNum st..<e] @ bs)))"
    using p pg(1,2) bl IH(1) len by (simp add: packed_pages_def)
  note mono = pending_grows [OF nx, of st1]
  have low: "subseq (pending (T pgNum) st) (concat (map fst ((ts, dead) # pgs)) @ pending (T (pgNum + Suc n)) st')"
    using subseq_order.trans [OF mono IH(5)] pg(4) by (simp add: subseq_append')
  have "subseq (ts @ pending E st1) (pending E st)"
    by (rule page_taken [OF growingD(1) [OF assms(2)] Suc.prems(1) pg(3,1,4)])
  with IH(6) have up: "subseq (concat (map fst ((ts, dead) # pgs)) @ pending E st') (pending E st)"
    using subseq_order.trans [of "ts @ concat (map fst pgs) @ pending E st'" "ts @ pending E st1"] by (simp add: subseq_append')
  have fin: "subseq (pending (T pgNum) st) (concat (map fst ((ts, dead) # pgs)))" if "\<not> b"
  proof (cases "n = 0")
    case True
    then have "ts = []" using that IH(7) by auto
    then show ?thesis using page_nonempty [OF spec [OF assms(1)] pg(5)] pg(4) by simp
  next
    case False
    then show ?thesis using subseq_order.trans [OF mono] IH(8) that pg(4) by (simp add: subseq_append')
  qed
  show ?case
    by (intro exI [of _ "(ts, dead) # pgs"] exI [of _ b] exI [of _ st']
        exI [of _ "[fs_blkNum st..<e] @ bs"]) (use run IH(2-4,7) pg(2) low up fin in auto)
qed

text \<open>When the tuples are rows of lineitem, the filled block is a block of the query.\<close>

lemma packed_page_of:
  assumes "length (packed (map enc_tuple lis) dead) = XQL_PAGE_SZ" "list_all wf_lineitem lis"
  shows "packed (map enc_tuple lis) dead = page_of lis dead \<and> wf_page lis dead"
proof -
  have "8 * length lis \<le> length (concat (map enc_tuple lis))"
    using tuples_bytes_longer [OF assms(2)] by (simp add: tuples_bytes_def)
  then have "length lis < 1024" using assms(1) by (simp add: packed_def XQL_PAGE_SZ_def)
  then have "packed (map enc_tuple lis) dead = page_of lis dead"
    by (simp add: packed_def page_of_def tuples_bytes_def)
  with assms show ?thesis by (simp add: wf_page_def XQL_PAGE_SZ_def PAGE_SZ_def)
qed

lemma split_pages:
  assumes "map enc_tuple lis = concat (map fst pgs) @ rest"
    and "list_all (\<lambda>(ts, dead). length (packed ts dead) = XQL_PAGE_SZ) pgs" "list_all wf_lineitem lis"
  shows "\<exists>lpgs lis'. length lpgs = length pgs \<and> packed_pages pgs = block_of lpgs
    \<and> list_all (\<lambda>(l, dead). wf_page l dead) lpgs \<and> lis = rows_of lpgs @ lis'
    \<and> rest = map enc_tuple lis' \<and> length (concat (map fst pgs)) = length (rows_of lpgs)"
  using assms
proof (induction pgs arbitrary: lis)
  case Nil
  then show ?case by (intro exI [of _ "[]"] exI [of _ lis]) (simp add: packed_pages_def block_of_def rows_of_def)
next
  case (Cons pg pgs)
  obtain ts dead where pg: "pg = (ts, dead)" by force
  have "map enc_tuple lis = ts @ (concat (map fst pgs) @ rest)" using Cons.prems(1) pg by simp
  from iffD1 [OF map_eq_append_conv this]
  obtain l1 l2 where l: "lis = l1 @ l2" "map enc_tuple l1 = ts"
    "map enc_tuple l2 = concat (map fst pgs) @ rest"
    by metis
  obtain lpgs lis' where IH: "length lpgs = length pgs" "packed_pages pgs = block_of lpgs"
    "list_all (\<lambda>(l, dead). wf_page l dead) lpgs" "l2 = rows_of lpgs @ lis'" "rest = map enc_tuple lis'"
    "length (concat (map fst pgs)) = length (rows_of lpgs)"
    using Cons.IH [OF l(3)] Cons.prems l(1) by auto
  have "packed ts dead = page_of l1 dead \<and> wf_page l1 dead"
    using packed_page_of [of l1 dead] Cons.prems l pg by auto
  with IH l pg show ?case
    by (intro exI [of _ "(l1, dead) # lpgs"] exI [of _ lis'])
      (auto simp: packed_pages_def block_of_def rows_of_def)
qed

lemma subseq_of_map: "subseq xs (map f ys) \<Longrightarrow> \<exists>zs. xs = map f zs \<and> subseq zs ys"
proof (induction ys arbitrary: xs)
  case (Cons y ys)
  show ?case
  proof (cases "\<exists>xs'. xs = f y # xs' \<and> subseq xs' (map f ys)")
    case True
    then obtain xs' where "xs = f y # xs'" "subseq xs' (map f ys)" by blast
    with Cons.IH show ?thesis by (metis list.simps(9) subseq_Cons2)
  next
    case False
    then have "subseq xs (map f ys)"
      using Cons.prems by (cases xs) (auto split: if_splits)
    with Cons.IH show ?thesis by (metis list_emb_Cons)
  qed
next
  case Nil
  then show ?case by (auto dest: list_emb_Nil2)
qed

text \<open>
  A block filled from a growing relation. What is still to come is counted in the final relation
  \<open>E\<close>: the rows packed and those left are rows that were left before.
\<close>

lemma xql6FillBlock_grows:
  assumes "\<forall>i. relation_ok (snap i) (T i)" "growing T E" "fill_ok (T 0) st" "length blk = XQL6_BLK_SZ"
    and "pending E st = map enc_tuple lis" "list_all wf_lineitem lis"
  shows "\<exists>pgs lis' b st' bs. xql6FillBlock snap lin0 blk nTups st
      = Inr (b, block_of pgs, nTups + length (rows_of pgs), st', concat (map buf_cycle bs))
    \<and> wf_block pgs \<and> subseq (rows_of pgs @ lis') lis \<and> fill_ok (T XQL6_PAGES_PER_BLK) st'
    \<and> pending E st' = map enc_tuple lis'
    \<and> subseq (pending (T 0) st) (map enc_tuple (rows_of pgs) @ pending (T XQL6_PAGES_PER_BLK) st')
    \<and> (\<not> b \<longrightarrow> subseq (pending (T 0) st) (map enc_tuple (rows_of pgs))) \<and> (b \<longrightarrow> rows_of pgs \<noteq> [])"
proof -
  have sz: "length blk = (0 + XQL6_PAGES_PER_BLK) * XQL_PAGE_SZ"
    using assms(4) by (simp add: XQL6_BLK_SZ_def XQL6_PAGES_PER_BLK_def XQL_PAGE_SZ_def)
  obtain pgs b st' bs where F: "fill_loop snap lin0 0 XQL6_PAGES_PER_BLK True blk nTups st []
      = Inr (b, take (0 * XQL_PAGE_SZ) blk @ packed_pages pgs,
          nTups + length (concat (map fst pgs)), st', [] @ concat (map buf_cycle bs))"
    "length pgs = XQL6_PAGES_PER_BLK" "list_all (\<lambda>(ts, dead). length (packed ts dead) = XQL_PAGE_SZ) pgs"
    "fill_ok (T (0 + XQL6_PAGES_PER_BLK)) st'"
    "subseq (pending (T 0) st) (concat (map fst pgs) @ pending (T (0 + XQL6_PAGES_PER_BLK)) st')"
    "subseq (concat (map fst pgs) @ pending E st') (pending E st)"
    "b = (if XQL6_PAGES_PER_BLK = 0 then True else fst (last pgs) \<noteq> [])"
    "XQL6_PAGES_PER_BLK \<noteq> 0 \<and> \<not> b \<longrightarrow> subseq (pending (T 0) st) (concat (map fst pgs))"
    using fill_loop_grows [OF assms(1-3) sz, of lin0 True nTups "[]"] by blast
  have nz: "XQL6_PAGES_PER_BLK = 256" by (simp add: XQL6_PAGES_PER_BLK_def XQL6_BLK_SZ_def XQL_PAGE_SZ_def)
  obtain zs where zs: "concat (map fst pgs) @ pending E st' = map enc_tuple zs" "subseq zs lis"
    using subseq_of_map F(6) assms(5) by metis
  have "list_all wf_lineitem zs"
    using assms(6) zs(2) by (auto simp: list_all_iff elim: list_emb_set)
  then obtain lpgs lis' where L: "length lpgs = length pgs" "packed_pages pgs = block_of lpgs"
    "list_all (\<lambda>(l, dead). wf_page l dead) lpgs" "zs = rows_of lpgs @ lis'"
    "pending E st' = map enc_tuple lis'" "length (concat (map fst pgs)) = length (rows_of lpgs)"
    using split_pages [OF _ F(3)] zs(1) by metis
  have rows: "concat (map fst pgs) = map enc_tuple (rows_of lpgs)"
    using zs(1) L(4,5) by simp
  have "rows_of lpgs \<noteq> []" if b
  proof -
    have "pgs \<noteq> []" "fst (last pgs) \<noteq> []" using F(2,7) nz that by auto
    then have "\<exists>pg \<in> set pgs. fst pg \<noteq> []" using last_in_set by blast
    then have "concat (map fst pgs) \<noteq> []" by simp
    then show ?thesis using L(6) by (metis length_0_conv)
  qed
  with F L nz rows zs(2) show ?thesis
    by (intro exI [of _ lpgs] exI [of _ lis'] exI [of _ b] exI [of _ st'] exI [of _ bs])
      (auto simp: xql6FillBlock_def wf_block_def)
qed

text \<open>A relation that does not grow: the rows are packed in order, none lost and none twice.\<close>

lemma xql6FillBlock_law:
  assumes "\<forall>i. relation_ok (snap i) tupss" "fill_ok tupss st" "length blk = XQL6_BLK_SZ"
    and "pending tupss st = map enc_tuple lis" "list_all wf_lineitem lis"
  shows "\<exists>pgs lis' b st' bs. xql6FillBlock snap lin0 blk nTups st
      = Inr (b, block_of pgs, nTups + length (rows_of pgs), st', concat (map buf_cycle bs))
    \<and> wf_block pgs \<and> lis = rows_of pgs @ lis' \<and> fill_ok tupss st'
    \<and> pending tupss st' = map enc_tuple lis' \<and> (\<not> b \<longrightarrow> lis' = []) \<and> (b \<longrightarrow> rows_of pgs \<noteq> [])"
proof -
  obtain pgs lis' b st' bs where F: "xql6FillBlock snap lin0 blk nTups st
      = Inr (b, block_of pgs, nTups + length (rows_of pgs), st', concat (map buf_cycle bs))"
    "wf_block pgs" "subseq (rows_of pgs @ lis') lis" "fill_ok tupss st'" "pending tupss st' = map enc_tuple lis'"
    "subseq (pending tupss st) (map enc_tuple (rows_of pgs) @ pending tupss st')"
    "\<not> b \<longrightarrow> subseq (pending tupss st) (map enc_tuple (rows_of pgs))" "b \<longrightarrow> rows_of pgs \<noteq> []"
    using xql6FillBlock_grows [OF assms(1) growing_const assms(2-5), of lin0 nTups] by blast
  have "length lis \<le> length (rows_of pgs @ lis')"
    using list_emb_length [OF F(6)] assms(4) F(5) by simp
  then have eq: "lis = rows_of pgs @ lis'"
    using F(3) list_emb_length [OF F(3)] by (metis le_antisym subseq_same_length)
  have "lis' = []" if "\<not> b"
    using list_emb_length F(7) that assms(4) eq by fastforce
  with F eq show ?thesis by blast
qed

text \<open>
  A relation that grows while a run reads it: at the time page \<open>i\<close> of block \<open>k\<close> is packed it
  stores \<open>T (256 * k + i)\<close>.
\<close>

definition snaps_grow :: "(nat \<Rightarrow> nat \<Rightarrow> nat \<Rightarrow> u8 list) \<Rightarrow> (nat \<Rightarrow> u8 list list list) \<Rightarrow> u8 list list list \<Rightarrow> bool" where
  "snaps_grow snaps T E \<longleftrightarrow> growing T E \<and> (\<forall>k i. relation_ok (snaps k i) (T (XQL6_PAGES_PER_BLK * k + i)))"

lemma snaps_grow_const: "always_stored snaps tupss \<Longrightarrow> snaps_grow snaps (\<lambda>_. tupss) tupss"
  by (simp add: snaps_grow_def always_stored_def)

end
