(* ===== verification/Samples.thy ===== *)
theory Samples
  imports Growing
begin

text \<open>
  Concrete rows, pages, blocks and relations, on which the properties are evaluated: a row
  the query selects and one it does not, the page and the block they make, and a heap page of
  the server that stores them.
\<close>

section \<open>Rows\<close>

definition row1 :: lineitem where
  "row1 = \<lparr>l_keys = [replicate 8 1, replicate 8 2, replicate 8 3, replicate 4 4],
     l_quantity = \<lparr>sn_neg = False, sn_dscale = 2, sn_weight = 0, sn_digits = [17]\<rparr>,
     l_extendedprice = \<lparr>sn_neg = False, sn_dscale = 2, sn_weight = 1, sn_digits = [2, 1168, 2300]\<rparr>,
     l_discount = \<lparr>sn_neg = False, sn_dscale = 2, sn_weight = -1, sn_digits = [600]\<rparr>,
     l_flags = [[2, 128], [78], [79]], l_shipdate = -2000,
     l_rest = [replicate 4 5, replicate 4 6, [68], [84], [101, 103]]\<rparr>"

definition row2 :: lineitem where
  "row2 = row1\<lparr>l_shipdate := 100\<rparr>"

lemma row1_wf: "wf_lineitem row1"
  by (simp add: row1_def wf_lineitem_def wf_money_def wf_snum_def payloads_def wf_field_def
      attrLens_def upt_conv_Cons enc_snum_def enc_date_def enc_digit_def)

lemma row2_wf: "wf_lineitem row2"
  by (simp add: row2_def row1_def wf_lineitem_def wf_money_def wf_snum_def payloads_def wf_field_def
      attrLens_def upt_conv_Cons enc_snum_def enc_date_def enc_digit_def)

lemma row_values: "q6_spec [row1] = 12700938" "q6_spec [row2] = 0"
  by code_simp+

lemma row_lengths: "length (enc_tuple row1) = 75" "length (enc_tuple row2) = 75"
  by code_simp+

section \<open>Pages and blocks\<close>

definition dead1 :: "u8 list" where "dead1 = replicate 8040 0"
definition page1 :: "u8 list" where "page1 = page_of [row1, row2] dead1"
definition block1 :: "(lineitem list \<times> u8 list) list" where "block1 = replicate 256 ([row1, row2], dead1)"

lemma page1_wf: "wf_page [row1, row2] dead1"
  by (simp add: wf_page_def page_of_def tuples_bytes_def row1_wf row2_wf row_lengths dead1_def PAGE_SZ_def)

lemma block1_wf: "wf_block block1"
  by (simp add: wf_block_def block1_def list_all_iff page1_wf)

lemma block1_value: "q6_spec (rows_of block1) = 3251440128"
proof -
  have "q6_spec [row1, row2] = 12700938"
    using row_values q6_spec_simps(3) [of "[row1]" "[row2]"] by simp
  then show ?thesis
    by (simp add: rows_of_def q6_spec_concat block1_def sum_list_replicate)
qed

section \<open>A relation of one heap page\<close>

definition le32_bytes :: "u32 \<Rightarrow> u8 list" where
  "le32_bytes w = [ucast w, ucast (drop_bit 8 w), ucast (drop_bit 16 w), ucast (drop_bit 24 w)]"

text \<open>A tuple with a 24-byte header, and a page with two of them and \<open>xid\<close> as prune hint.\<close>

definition heap_tuple :: "lineitem \<Rightarrow> u8 list" where
  "heap_tuple li = replicate 22 0 @ [24, 0] @ enc_tuple li"

definition heap_page_with :: "u32 \<Rightarrow> u8 list" where
  "heap_page_with xid = replicate 12 0 @ [32, 0] @ replicate 6 0 @ le32_bytes xid
     @ le32_bytes (ItemIdSetNormal 7994 99 0) @ le32_bytes (ItemIdSetNormal 8093 99 0)
     @ replicate 7962 0 @ heap_tuple row1 @ heap_tuple row2"

definition heap1 :: "u8 list" where "heap1 = heap_page_with 0"

lemma heap1_length: "length heap1 = BLCKSZ"
  by (simp add: heap1_def heap_page_with_def heap_tuple_def le32_bytes_def row_lengths BLCKSZ_def)

lemma line_pointer_bytes:
  "le32_bytes (ItemIdSetNormal 7994 99 0) = [58, 159, 198, 0]"
  "le32_bytes (ItemIdSetNormal 8093 99 0) = [157, 159, 198, 0]"
  by code_simp+

lemma heap_page_with_shape:
  "heap_page_with xid = ([0, 0, 0, 0, 0, 0, 0, 0, 0, 0, 0, 0, 32, 0, 0, 0, 0, 0, 0, 0]
     @ le32_bytes xid @ [58, 159, 198, 0, 157, 159, 198, 0])
     @ replicate 7962 0 @ (replicate 22 0 @ [24, 0] @ enc_tuple row1)
     @ (replicate 22 0 @ [24, 0] @ enc_tuple row2)"
proof -
  have "replicate 12 (0 :: u8) = [0, 0, 0, 0, 0, 0, 0, 0, 0, 0, 0, 0]" "replicate 6 (0 :: u8) = [0, 0, 0, 0, 0, 0]"
    by code_simp+
  then show ?thesis by (simp add: heap_page_with_def line_pointer_bytes heap_tuple_def)
qed

lemma line_pointer_fields:
  "ItemIdGetOffset 13016890 = 7994" "ItemIdGetLength 13016890 = 99"
  "ItemIdGetOffset 13016989 = 8093" "ItemIdGetLength 13016989 = 99"
  "ItemIdGetOffset 0 = 0" "ItemIdGetLength 0 = 0"
  by code_simp+

lemmas heap_page_reads = item_data_def PageGetItemId_def PageGetMaxOffsetNumber_def pd_lower_def
  SizeOfPageHeaderData_def sizeof_ItemIdData_def get32_def get16_def rd_def t_hoff_def le16_def
  heap1_def heap_page_with_shape le32_bytes_def nth_append row_lengths line_pointer_fields XQL_PAGE_SZ_def

lemma heap1_item0: "item_data heap1 0 []" by (simp add: heap_page_reads)
lemma heap1_item1: "item_data heap1 1 (enc_tuple row1)" by (simp add: heap_page_reads)
lemma heap1_item2: "item_data heap1 2 (enc_tuple row2)" by (simp add: heap_page_reads)
lemma heap1_max: "PageGetMaxOffsetNumber heap1 = Inr 2" by (simp add: heap_page_reads)

lemmas heap1_items = heap1_item0 heap1_item1 heap1_item2 heap1_max

lemma heap1_page: "heap_page heap1 [enc_tuple row1, enc_tuple row2]"
  using heap1_items by (simp add: heap_page_def heap1_length upt_conv_Cons numeral_2_eq_2)

lemma heap1_relation: "relation_ok (\<lambda>_. heap1) [[enc_tuple row1, enc_tuple row2]]"
  using heap1_page by (simp add: relation_ok_def)

lemma heap1_stored: "always_stored (\<lambda>_ _ _. heap1) [[enc_tuple row1, enc_tuple row2]]"
  using heap1_relation by (simp add: always_stored_def)

text \<open>The page before its second line pointer is added.\<close>

definition heap0 :: "u8 list" where "heap0 = heap1[12 := 28]"

lemma heap0_item0: "item_data heap0 0 []" by (simp add: heap0_def heap_page_reads list_update_append)
lemma heap0_item1: "item_data heap0 1 (enc_tuple row1)" by (simp add: heap0_def heap_page_reads list_update_append)
lemma heap0_max: "PageGetMaxOffsetNumber heap0 = Inr 1" by (simp add: heap0_def heap_page_reads list_update_append)

lemmas heap0_items = heap0_item0 heap0_item1 heap0_max

lemma heap0_page: "heap_page heap0 [enc_tuple row1]"
  using heap0_items heap1_length by (simp add: heap_page_def heap0_def)

text \<open>A relation whose second row is inserted after the first page has been packed.\<close>

definition late_snaps :: "nat \<Rightarrow> nat \<Rightarrow> nat \<Rightarrow> u8 list" where
  "late_snaps k i b = (if k = 0 \<and> i = 0 then heap0 else heap1)"

definition late_rows :: "nat \<Rightarrow> u8 list list list" where
  "late_rows t = (if t = 0 then [[enc_tuple row1]] else [[enc_tuple row1, enc_tuple row2]])"

lemma late_relation: "snaps_grow late_snaps late_rows [[enc_tuple row1, enc_tuple row2]]"
  using heap0_page heap1_page
  by (auto simp: snaps_grow_def growing_def grows_def late_rows_def late_snaps_def relation_ok_def
      XQL6_PAGES_PER_BLK_def XQL6_BLK_SZ_def XQL_PAGE_SZ_def)

end
