(* ===== verification/Field_Parser.thy ===== *)
theory Field_Parser
  imports Schema
begin

text \<open>
  The interface between a byte reader and the code that walks the fields of a tuple. Every
  reader gives the length of the next field and skips bytes; the two
  implementations of the query also read a field into a buffer, the test bench only looks for
  the end of the tuple. The laws say
  what they do to the bytes still to be read and to the offset inside the tuple; the lemmas
  say what one step of a field loop does on a well-formed tuple, whichever reader runs below.
\<close>

text \<open>
  The walk over the fields of a tuple, with the reader's operations as arguments: fields
  outside \<open>wanted\<close> are skipped, the others are read into a buffer and handed to \<open>consume\<close>.
  \<open>spec_walk\<close> is the same walk over the payloads themselves.
\<close>

definition wanted :: "nat \<Rightarrow> bool" where
  "wanted f \<longleftrightarrow> f = 4 \<or> f = 5 \<or> f = 6 \<or> f = 10"

fun walk :: "(nat \<Rightarrow> 's \<Rightarrow> (nat \<times> 's) res) \<Rightarrow> (nat \<Rightarrow> u8 list \<Rightarrow> 's \<Rightarrow> (u8 list \<times> 's) res)
    \<Rightarrow> (nat \<Rightarrow> 's \<Rightarrow> 's res) \<Rightarrow> (nat \<Rightarrow> 'c \<Rightarrow> u8 list) \<Rightarrow> (nat \<Rightarrow> nat \<Rightarrow> u8 list \<Rightarrow> 'c \<Rightarrow> 'c res)
    \<Rightarrow> nat \<Rightarrow> nat \<Rightarrow> 'c \<Rightarrow> 's \<Rightarrow> ('c \<times> 's) res" where
  "walk fl gf sk buf consume f 0 c s = Inr (c, s)"
| "walk fl gf sk buf consume f (Suc n) c s =
     rbind (fl f s) (\<lambda>(l, s1).
       if wanted f then
         rbind (gf l (buf f c) s1) (\<lambda>(d, s2).
         rbind (consume f l d c) (\<lambda>c'. walk fl gf sk buf consume (Suc f) n c' s2))
       else rbind (sk l s1) (\<lambda>s2. walk fl gf sk buf consume (Suc f) n c s2))"

fun spec_walk :: "(nat \<Rightarrow> 'c \<Rightarrow> u8 list) \<Rightarrow> (nat \<Rightarrow> nat \<Rightarrow> u8 list \<Rightarrow> 'c \<Rightarrow> 'c res)
    \<Rightarrow> nat \<Rightarrow> u8 list list \<Rightarrow> 'c \<Rightarrow> 'c res" where
  "spec_walk buf consume f [] c = Inr c"
| "spec_walk buf consume f (p # ps) c =
     (if wanted f then
        if length p \<le> length (buf f c)
        then rbind (consume f (length p) (p @ drop (length p) (buf f c)) c)
               (spec_walk buf consume (Suc f) ps)
        else Inl OutOfBounds
      else spec_walk buf consume (Suc f) ps c)"

locale field_lengths =
  fixes inv :: "'s \<Rightarrow> bool"
    and remaining :: "'s \<Rightarrow> u8 list"
    and tup_off :: "'s \<Rightarrow> nat"
    and field_len :: "nat \<Rightarrow> 's \<Rightarrow> (nat \<times> 's) res"
    and skip :: "nat \<Rightarrow> 's \<Rightarrow> 's res"
  assumes field_len_law:
    "inv s \<Longrightarrow> f < nAttr \<Longrightarrow> wf_field f p \<Longrightarrow> tup_off s < 2 ^ 20 \<Longrightarrow>
     remaining s = enc_field f (tup_off s) p @ r \<Longrightarrow>
     \<exists>s'. field_len f s = Inr (length p, s') \<and> inv s' \<and> remaining s' = p @ r
       \<and> tup_off s' = tup_off s + (length (enc_field f (tup_off s) p) - length p)"
  and skip_law:
    "inv s \<Longrightarrow> remaining s = p @ r \<Longrightarrow>
     \<exists>s'. skip (length p) s = Inr s' \<and> inv s' \<and> remaining s' = r
       \<and> tup_off s' = tup_off s + length p"
begin

lemma enc_field_longer: "length p \<le> length (enc_field f off p)"
  by (simp add: enc_field_def)

lemma step_skip:
  assumes "inv s" "f < nAttr" "wf_field f p" "tup_off s < 2 ^ 20"
    and "remaining s = enc_field f (tup_off s) p @ r"
  shows "\<exists>s1 s2. field_len f s = Inr (length p, s1) \<and> skip (length p) s1 = Inr s2
    \<and> inv s2 \<and> remaining s2 = r \<and> tup_off s2 = tup_off s + length (enc_field f (tup_off s) p)"
proof -
  obtain s1 where s1: "field_len f s = Inr (length p, s1)" "inv s1" "remaining s1 = p @ r"
    "tup_off s1 = tup_off s + (length (enc_field f (tup_off s) p) - length p)"
    using field_len_law [OF assms(1-5)] by blast
  obtain s2 where "skip (length p) s1 = Inr s2" "inv s2"
    "remaining s2 = r" "tup_off s2 = tup_off s1 + length p"
    using skip_law [OF s1(2,3)] by blast
  with s1 enc_field_longer [of p f "tup_off s"] show ?thesis by (intro exI conjI) auto
qed

end

text \<open>A reader that delivers the bytes of a field as well.\<close>

locale field_parser = field_lengths +
  fixes get_field :: "nat \<Rightarrow> u8 list \<Rightarrow> 's \<Rightarrow> (u8 list \<times> 's) res"
  assumes get_field_law:
    "inv s \<Longrightarrow> remaining s = p @ r \<Longrightarrow> length p \<le> length fData \<Longrightarrow>
     \<exists>s'. get_field (length p) fData s = Inr (p @ drop (length p) fData, s') \<and> inv s'
       \<and> remaining s' = r \<and> tup_off s' = tup_off s + length p"
begin

lemma step_get:
  assumes "inv s" "f < nAttr" "wf_field f p" "tup_off s < 2 ^ 20"
    and "remaining s = enc_field f (tup_off s) p @ r" and "length p \<le> length fData"
  shows "\<exists>s1 s2. field_len f s = Inr (length p, s1)
    \<and> get_field (length p) fData s1 = Inr (p @ drop (length p) fData, s2)
    \<and> inv s2 \<and> remaining s2 = r \<and> tup_off s2 = tup_off s + length (enc_field f (tup_off s) p)"
proof -
  obtain s1 where s1: "field_len f s = Inr (length p, s1)" "inv s1" "remaining s1 = p @ r"
    "tup_off s1 = tup_off s + (length (enc_field f (tup_off s) p) - length p)"
    using field_len_law [OF assms(1-5)] by blast
  obtain s2 where "get_field (length p) fData s1 = Inr (p @ drop (length p) fData, s2)" "inv s2"
    "remaining s2 = r" "tup_off s2 = tup_off s1 + length p"
    using get_field_law [OF s1(2,3) assms(6)] by blast
  with s1 enc_field_longer [of p f "tup_off s"] show ?thesis by (intro exI conjI) auto
qed

lemma walk_law:
  assumes "inv s" "list_all2 wf_field [f..<f + length ps] ps" "f + length ps \<le> nAttr"
    and "tup_off s + length (enc_fields f (tup_off s) ps) < 2 ^ 20"
    and "remaining s = enc_fields f (tup_off s) ps @ r"
    and "spec_walk buf consume f ps c = Inr c'"
  shows "\<exists>s'. walk field_len get_field skip buf consume f (length ps) c s = Inr (c', s')
    \<and> inv s' \<and> remaining s' = r"
  using assms
proof (induction ps arbitrary: f c s)
  case Nil
  then show ?case by auto
next
  case (Cons p ps)
  let ?e = "enc_field f (tup_off s) p"
  let ?r = "enc_fields (Suc f) (tup_off s + length ?e) ps @ r"
  have wf: "wf_field f p" "list_all2 wf_field [Suc f..<Suc f + length ps] ps" "f < nAttr"
    "Suc f + length ps \<le> nAttr"
    using Cons.prems(2,3) by (auto simp: upt_conv_Cons simp del: upt_Suc)
  have off: "tup_off s < 2 ^ 20" using Cons.prems(4) by simp
  have rem: "remaining s = ?e @ ?r" using Cons.prems(5) by simp
  have next_ok: "\<exists>s'. walk field_len get_field skip buf consume (Suc f) (length ps) c1 s2
      = Inr (c', s') \<and> inv s' \<and> remaining s' = r"
    if "inv s2" "remaining s2 = ?r" "tup_off s2 = tup_off s + length ?e"
      "spec_walk buf consume (Suc f) ps c1 = Inr c'" for s2 c1
    using that wf Cons.prems(4) by (intro Cons.IH) (simp_all add: add.assoc)
  show ?case
  proof (cases "wanted f")
    case True
    with Cons.prems(6) obtain c1 where c1: "length p \<le> length (buf f c)"
      "consume f (length p) (p @ drop (length p) (buf f c)) c = Inr c1"
      "spec_walk buf consume (Suc f) ps c1 = Inr c'"
      by (auto simp: rbind_eq_Inr split: if_splits)
    obtain s1 s2 where "field_len f s = Inr (length p, s1)"
      "get_field (length p) (buf f c) s1 = Inr (p @ drop (length p) (buf f c), s2)"
      "inv s2" "remaining s2 = ?r" "tup_off s2 = tup_off s + length ?e"
      using step_get [OF Cons.prems(1) wf(3,1) off rem c1(1)] by blast
    with True c1 next_ok show ?thesis by simp
  next
    case False
    obtain s1 s2 where "field_len f s = Inr (length p, s1)" "skip (length p) s1 = Inr s2"
      "inv s2" "remaining s2 = ?r" "tup_off s2 = tup_off s + length ?e"
      using step_skip [OF Cons.prems(1) wf(3,1) off rem] by blast
    with False Cons.prems(6) next_ok show ?thesis by simp
  qed
qed

end

lemma spec_walk_skip:
  assumes "\<forall>i < length ps. \<not> wanted (f + i)"
  shows "spec_walk buf consume f (ps @ qs) c = spec_walk buf consume (f + length ps) qs c"
  using assms
proof (induction ps arbitrary: f)
  case Nil
  then show ?case by simp
next
  case (Cons p ps)
  have "\<not> wanted f" "\<forall>i < length ps. \<not> wanted (Suc f + i)"
    using Cons.prems by (force, auto)
  then show ?case using Cons.IH [of "Suc f"] by simp
qed

end
