(* ===== verification/Kernel.thy ===== *)
theory Kernel
  imports Field_Parser
begin

unbundle bit_operations_syntax

text \<open>
  The hardware version of the query, \<^verbatim>\<open>xql6/kernel/q6_paged.h\<close> and
  \<^verbatim>\<open>xql6/kernel/q6_paged.cpp\<close>: the tuple parser over a byte stream, the dataflow processes of
  a processing unit, and the top level that deals a block out to the processing units.

  A stream is the list of the elements written and not yet read. The processes of a dataflow
  region are composed in the order of the source, the order of C simulation; each reads only
  what an earlier one wrote. Reading an empty stream is \<open>StreamEmpty\<close>: the hardware would
  block there for ever.
\<close>

section \<open>The tuple parser\<close>

record tup_parser =
  t_off :: nat            \<comment> \<open>offset in tuple\<close>
  pgOff :: nat            \<comment> \<open>offset in a page\<close>
  t_strm :: "u8 list"     \<comment> \<open>the stream every method is called with\<close>

definition k_resetBuf :: "tup_parser \<Rightarrow> tup_parser" where
  "k_resetBuf s = s\<lparr>pgOff := 2\<rparr>"

definition startTup :: "tup_parser \<Rightarrow> tup_parser" where
  "startTup s = s\<lparr>t_off := 0\<rparr>"

definition k_getByte :: "tup_parser \<Rightarrow> (u8 \<times> tup_parser) res" where
  "k_getByte s = rbind (sread (t_strm s)) (\<lambda>(ch, strm).
     Inr (ch, s\<lparr>pgOff := pgOff s + 1, t_strm := strm\<rparr>))"

definition k_getHeaderInt :: "tup_parser \<Rightarrow> (nat \<times> tup_parser) res" where
  "k_getHeaderInt s = rbind (k_getByte s) (\<lambda>(ch1, s1). rbind (k_getByte s1) (\<lambda>(ch2, s2).
     Inr (unat (push_bit 8 (ucast ch2) OR ucast ch1 :: u32), s2)))"

text \<open>\<open>n\<close> times \<open>ch = getByte (stream); ++ off;\<close>\<close>

fun k_align_loop :: "nat \<Rightarrow> tup_parser \<Rightarrow> tup_parser res" where
  "k_align_loop 0 s = Inr s"
| "k_align_loop (Suc n) s =
     rbind (k_getByte s) (\<lambda>(ch, s1). k_align_loop n (s1\<lparr>t_off := t_off s1 + 1\<rparr>))"

definition k_getFieldLen :: "nat \<Rightarrow> tup_parser \<Rightarrow> (u32 \<times> tup_parser) res" where
  "k_getFieldLen fPtr s =
     (if attrLens ! fPtr \<noteq> -1 then
        (let fLen = of_int (attrLens ! fPtr) in
         if align ! fPtr then
           (let aoff = k_INTALIGN (t_off s) in
            if aoff \<noteq> t_off s
            then rbind (k_align_loop (aoff - t_off s) s) (\<lambda>s1. Inr (fLen, s1))
            else Inr (fLen, s))
         else Inr (fLen, s))
      else
        rbind (k_getByte s) (\<lambda>(ch, s1).
          let s2 = s1\<lparr>t_off := t_off s1 + 1\<rparr> in
          if ch AND 0x01 \<noteq> 0 then Inr (ucast (drop_bit 1 ch) - 1, s2)
          else Inl (ExitCall 10)))"

fun k_getField_loop :: "nat \<Rightarrow> nat \<Rightarrow> u8 list \<Rightarrow> tup_parser \<Rightarrow> (u8 list \<times> tup_parser) res" where
  "k_getField_loop i 0 fData s = Inr (fData, s)"
| "k_getField_loop i (Suc n) fData s =
     rbind (k_getByte s) (\<lambda>(ch, s1). rbind (wr fData i ch) (\<lambda>fData'.
       k_getField_loop (Suc i) n fData' s1))"

definition k_getField :: "u8 list \<Rightarrow> nat \<Rightarrow> tup_parser \<Rightarrow> (u8 list \<times> tup_parser) res" where
  "k_getField fData fLen s = rbind (k_getField_loop 0 fLen fData s) (\<lambda>(fData', s1).
     Inr (fData', s1\<lparr>t_off := t_off s1 + fLen\<rparr>))"

text \<open>\<open>n\<close> times \<open>ch = getByte (stream);\<close>\<close>

fun k_drop_loop :: "nat \<Rightarrow> tup_parser \<Rightarrow> tup_parser res" where
  "k_drop_loop 0 s = Inr s"
| "k_drop_loop (Suc n) s = rbind (k_getByte s) (\<lambda>(ch, s1). k_drop_loop n s1)"

definition k_skipBytes :: "nat \<Rightarrow> tup_parser \<Rightarrow> tup_parser res" where
  "k_skipBytes fLen s = k_drop_loop fLen (s\<lparr>t_off := t_off s + fLen\<rparr>)"

definition skipToPageEnd :: "tup_parser \<Rightarrow> tup_parser res" where
  "skipToPageEnd s = k_drop_loop (PAGE_SZ - pgOff s) s"

section \<open>The processes of a processing unit\<close>

text \<open>\<open>nTupsStrm\<close> is an array of six streams; the bytes after the header are passed on.\<close>

fun copy_loop :: "nat \<Rightarrow> u8 list \<Rightarrow> u8 list \<Rightarrow> (u8 list \<times> u8 list) res" where
  "copy_loop 0 strm out = Inr (strm, out)"
| "copy_loop (Suc n) strm out =
     rbind (sread strm) (\<lambda>(ch, strm'). copy_loop n strm' (out @ [ch]))"

definition getHeaderInt2 :: "u8 list \<Rightarrow> (u16 list list \<times> u8 list \<times> u8 list) res" where
  "getHeaderInt2 stream =
     rbind (sread stream) (\<lambda>(ch1, str1). rbind (sread str1) (\<lambda>(ch2, str2).
       let nTups = push_bit 8 (ucast ch2) OR ucast ch1 :: u16 in
       rbind (copy_loop (PAGE_SZ - 2) str2 []) (\<lambda>(str3, outStream).
         Inr (replicate 6 [nTups], outStream, str3))))"

text \<open>The four field streams \<open>q6_filter\<close> writes.\<close>

record field_strms =
  qtyFieldStrm :: "u8 list list"
  extFieldStrm :: "u8 list list"
  dscFieldStrm :: "u8 list list"
  shpFieldStrm :: "u8 list list"

definition no_fields :: field_strms where
  "no_fields = \<lparr>qtyFieldStrm = [], extFieldStrm = [], dscFieldStrm = [], shpFieldStrm = []\<rparr>"

definition write_field :: "nat \<Rightarrow> u8 list \<Rightarrow> field_strms \<Rightarrow> field_strms" where
  "write_field fPtr tmp os =
     (if fPtr = 4 then os\<lparr>qtyFieldStrm := qtyFieldStrm os @ [tmp]\<rparr>
      else if fPtr = 5 then os\<lparr>extFieldStrm := extFieldStrm os @ [tmp]\<rparr>
      else if fPtr = 6 then os\<lparr>dscFieldStrm := dscFieldStrm os @ [tmp]\<rparr>
      else os\<lparr>shpFieldStrm := shpFieldStrm os @ [tmp]\<rparr>)"

text \<open>
  The loop over the fields of a tuple; \<open>junk fPtr\<close> is the indeterminate initial content of the
  local \<open>tmp\<close>. The length returned by \<open>getFieldLen\<close> is truncated to an unsigned char.
\<close>

fun k_fields_loop :: "(nat \<Rightarrow> u8 list) \<Rightarrow> nat \<Rightarrow> nat \<Rightarrow> field_strms \<Rightarrow> tup_parser
    \<Rightarrow> (field_strms \<times> tup_parser) res" where
  "k_fields_loop junk fPtr 0 os s = Inr (os, s)"
| "k_fields_loop junk fPtr (Suc n) os s =
     rbind (k_getFieldLen fPtr s) (\<lambda>(l, s1). let fLen = ucast l :: u8 in
       if fPtr = 4 \<or> fPtr = 5 \<or> fPtr = 6 \<or> fPtr = 10 then
         rbind (k_getField (junk fPtr) (unat fLen) s1) (\<lambda>(tmp, s2).
         rbind (wr tmp (NMRC_FIELD_SZ - 1) fLen) (\<lambda>tmp'.
           k_fields_loop junk (Suc fPtr) n (write_field fPtr tmp' os) s2))
       else rbind (k_skipBytes (unat fLen) s1) (\<lambda>s2. k_fields_loop junk (Suc fPtr) n os s2))"

fun k_tuples_loop :: "(nat \<Rightarrow> nat \<Rightarrow> u8 list) \<Rightarrow> nat \<Rightarrow> nat \<Rightarrow> field_strms \<Rightarrow> tup_parser
    \<Rightarrow> (field_strms \<times> tup_parser) res" where
  "k_tuples_loop junk tcnt 0 os s = Inr (os, s)"
| "k_tuples_loop junk tcnt (Suc n) os s =
     rbind (k_fields_loop (junk tcnt) 0 nAttr os (startTup s)) (\<lambda>(os', s').
       k_tuples_loop junk (Suc tcnt) n os' s')"

definition TupParser :: "u8 list \<Rightarrow> tup_parser" where
  "TupParser strm = \<lparr>t_off = 0, pgOff = 2, t_strm = strm\<rparr>"

text \<open>
  \<open>q6_filter\<close> from a parser that is already constructed, so that both kernels can use it. The
  loop bound is a short. It returns the field streams, the stream \<open>filterDone\<close> and the parser
  with what is left of the byte stream.
\<close>

definition q6_filter_from :: "(nat \<Rightarrow> nat \<Rightarrow> u8 list) \<Rightarrow> u16 list \<Rightarrow> tup_parser
    \<Rightarrow> (field_strms \<times> bool list \<times> tup_parser) res" where
  "q6_filter_from junk nTupsStrm prsr =
     rbind (sread nTupsStrm) (\<lambda>(nTups, _).
     rbind (k_tuples_loop junk 0 (nat (sint nTups)) no_fields prsr) (\<lambda>(os, s).
     rbind (skipToPageEnd s) (\<lambda>s'. Inr (os, [True], s'))))"

definition q6_filter :: "(nat \<Rightarrow> nat \<Rightarrow> u8 list) \<Rightarrow> u16 list \<Rightarrow> u8 list
    \<Rightarrow> (field_strms \<times> bool list \<times> tup_parser) res" where
  "q6_filter junk nTupsStrm byteStream = q6_filter_from junk nTupsStrm (TupParser byteStream)"

fun toLong_loop :: "nat \<Rightarrow> u8 list list \<Rightarrow> i64 list \<Rightarrow> i64 list res" where
  "toLong_loop 0 fieldStrm longStrm = Inr longStrm"
| "toLong_loop (Suc n) fieldStrm longStrm =
     rbind (sread fieldStrm) (\<lambda>(tmp, fieldStrm').
     rbind (k_snumToLong3 tmp) (\<lambda>l. toLong_loop n fieldStrm' (longStrm @ [l])))"

definition toLong :: "u16 list \<Rightarrow> u8 list list \<Rightarrow> i64 list res" where
  "toLong nTupsStrm fieldStrm =
     rbind (sread nTupsStrm) (\<lambda>(nTups, _). toLong_loop (nat (sint nTups)) fieldStrm [])"

fun toDate_loop :: "nat \<Rightarrow> u8 list list \<Rightarrow> int list \<Rightarrow> int list res" where
  "toDate_loop 0 fieldStrm dateStrm = Inr dateStrm"
| "toDate_loop (Suc n) fieldStrm dateStrm =
     rbind (sread fieldStrm) (\<lambda>(tmp, fieldStrm').
     rbind (getJdate tmp) (\<lambda>d. toDate_loop n fieldStrm' (dateStrm @ [d])))"

definition toDate :: "u16 list \<Rightarrow> u8 list list \<Rightarrow> int list res" where
  "toDate nTupsStrm fieldStrm =
     rbind (sread nTupsStrm) (\<lambda>(nTups, _). toDate_loop (nat (sint nTups)) fieldStrm [])"

definition k_jd19940101 :: int where "k_jd19940101 = -2191"
definition k_jd19950101 :: int where "k_jd19950101 = -1826"
definition discountLow :: int where "discountLow = 5"
definition discountHi :: int where "discountHi = 7"
definition quantityHi :: int where "quantityHi = 2400"

fun agg_loop :: "nat \<Rightarrow> i64 \<Rightarrow> i64 list \<Rightarrow> i64 list \<Rightarrow> i64 list \<Rightarrow> int list \<Rightarrow> i64 res" where
  "agg_loop 0 acc qtyStrm extStrm dscStrm shpStrm = Inr acc"
| "agg_loop (Suc n) acc qtyStrm extStrm dscStrm shpStrm =
     rbind (sread qtyStrm) (\<lambda>(quantity, qtyStrm').
     rbind (sread extStrm) (\<lambda>(extPrice, extStrm').
     rbind (sread dscStrm) (\<lambda>(discount, dscStrm').
     rbind (sread shpStrm) (\<lambda>(shipDate, shpStrm').
       agg_loop n
         (if shipDate \<ge> k_jd19940101 \<and> shipDate < k_jd19950101
             \<and> sint discount \<ge> discountLow \<and> sint discount \<le> discountHi
             \<and> sint quantity < quantityHi
          then acc + extPrice * discount else acc)
         qtyStrm' extStrm' dscStrm' shpStrm'))))"

definition agg :: "u16 list \<Rightarrow> i64 list \<Rightarrow> i64 list \<Rightarrow> i64 list \<Rightarrow> int list \<Rightarrow> bool list \<Rightarrow> i64 res" where
  "agg nTupsStrm qtyStrm extStrm dscStrm shpStrm filterDone =
     rbind (sread nTupsStrm) (\<lambda>(nTups, _).
     rbind (agg_loop (nat (sint nTups)) 0 qtyStrm extStrm dscStrm shpStrm) (\<lambda>sum.
     rbind (sread filterDone) (\<lambda>_. Inr sum)))"

text \<open>The result and the rest of the byte stream.\<close>

definition k_q6_paged :: "(nat \<Rightarrow> nat \<Rightarrow> u8 list) \<Rightarrow> u8 list \<Rightarrow> (i64 \<times> u8 list) res" where
  "k_q6_paged junk byteStream =
     rbind (getHeaderInt2 byteStream) (\<lambda>(nTupsStrm, dataStream, byteStream').
     rbind (q6_filter junk (nTupsStrm ! 0) dataStream) (\<lambda>(os, filterDone, _).
     rbind (toLong (nTupsStrm ! 1) (qtyFieldStrm os)) (\<lambda>qtyStrm.
     rbind (toLong (nTupsStrm ! 2) (extFieldStrm os)) (\<lambda>extStrm.
     rbind (toLong (nTupsStrm ! 3) (dscFieldStrm os)) (\<lambda>dscStrm.
     rbind (toDate (nTupsStrm ! 4) (shpFieldStrm os)) (\<lambda>shpStrm.
     rbind (agg (nTupsStrm ! 5) qtyStrm extStrm dscStrm shpStrm filterDone) (\<lambda>res.
       Inr (res, byteStream'))))))))"

section \<open>The top level\<close>

definition k_WORD_SZ :: nat where "k_WORD_SZ = 16"
definition WORDS_PER_PAGE :: nat where "WORDS_PER_PAGE = PAGE_SZ div k_WORD_SZ"
definition NUM_BYTES :: nat where "NUM_BYTES = 2 * 1024 * 1024"
definition NUM_WORDS :: nat where "NUM_WORDS = NUM_BYTES div k_WORD_SZ"
definition NUM_PAGES :: nat where "NUM_PAGES = NUM_WORDS div WORDS_PER_PAGE"
definition NUM_PU :: nat where "NUM_PU = 32"
definition PAGES_PER_PU :: nat where "PAGES_PER_PU = NUM_PAGES div NUM_PU"

text \<open>\<open>for (j=0; j < WORD_SZ; ++j) out. write (tmp. data [j])\<close> for \<open>n\<close> words.\<close>

definition byte_body :: "u8 list \<Rightarrow> nat \<Rightarrow> u8 list \<Rightarrow> u8 list res" where
  "byte_body tmp j out = rbind (rd tmp j) (\<lambda>b. Inr (out @ [b]))"

definition word_body :: "nat \<Rightarrow> u8 list list \<times> u8 list \<Rightarrow> (u8 list list \<times> u8 list) res" where
  "word_body i = (\<lambda>(win, out). rbind (sread win) (\<lambda>(tmp, win').
     rbind (rloop k_WORD_SZ (byte_body tmp) 0 out) (\<lambda>out'. Inr (win', out'))))"

definition pageToByte :: "u8 list list \<Rightarrow> (u8 list list \<times> u8 list) res" where
  "pageToByte win =
     rloop PAGES_PER_PU (\<lambda>i. rloop WORDS_PER_PAGE word_body 0) 0 (win, [])"

text \<open>The round-robin distribution of a block to the input streams.\<close>

definition read_body :: "u8 list list \<Rightarrow> nat \<Rightarrow> nat \<Rightarrow> nat \<Rightarrow> u8 list list list \<Rightarrow> u8 list list list res" where
  "read_body inbuf i u j inStream =
     rbind (rd inbuf (i * NUM_PU * WORDS_PER_PAGE + u * WORDS_PER_PAGE + j)) (\<lambda>tmpData.
     rbind (rd inStream u) (\<lambda>strm. wr inStream u (strm @ [tmpData])))"

definition k_read :: "u8 list list \<Rightarrow> u8 list list list \<Rightarrow> u8 list list list res" where
  "k_read inbuf inStream =
     rloop PAGES_PER_PU (\<lambda>i. rloop NUM_PU (\<lambda>u. rloop WORDS_PER_PAGE (read_body inbuf i u) 0) 0) 0
       inStream"

text \<open>\<open>junk i\<close> serves the \<open>i\<close>-th call of \<open>q6_paged\<close>.\<close>

definition q6_body :: "(nat \<Rightarrow> nat \<Rightarrow> nat \<Rightarrow> u8 list) \<Rightarrow> nat \<Rightarrow> i64 \<times> u8 list \<Rightarrow> (i64 \<times> u8 list) res" where
  "q6_body junk i = (\<lambda>(sum, bStream).
     rbind (k_q6_paged (junk i) bStream) (\<lambda>(s, bStream'). Inr (sum + s, bStream')))"

definition q6 :: "(nat \<Rightarrow> nat \<Rightarrow> nat \<Rightarrow> u8 list) \<Rightarrow> u8 list \<Rightarrow> (i64 \<times> u8 list) res" where
  "q6 junk bStream = rloop PAGES_PER_PU (q6_body junk) 0 (0, bStream)"

definition pu_body :: "(nat \<Rightarrow> nat \<Rightarrow> nat \<Rightarrow> nat \<Rightarrow> u8 list) \<Rightarrow> u8 list list list \<Rightarrow> nat \<Rightarrow> i64 \<Rightarrow> i64 res" where
  "pu_body junk inStream u acc =
     rbind (rd inStream u) (\<lambda>strm.
     rbind (pageToByte strm) (\<lambda>(_, byteStream).
     rbind (q6 (junk u) byteStream) (\<lambda>(pu_sum, _). Inr (acc + pu_sum))))"

definition flowWrap :: "(nat \<Rightarrow> nat \<Rightarrow> nat \<Rightarrow> nat \<Rightarrow> u8 list) \<Rightarrow> u8 list list \<Rightarrow> i64 res" where
  "flowWrap junk inbuf =
     rbind (k_read inbuf (replicate NUM_PU [])) (\<lambda>inStream.
       rloop NUM_PU (pu_body junk inStream) 0 0)"

text \<open>The entry point; the result is what it stores to \<open>outbuf [0]\<close>.\<close>

definition fpga_q6 :: "(nat \<Rightarrow> nat \<Rightarrow> nat \<Rightarrow> nat \<Rightarrow> u8 list) \<Rightarrow> u8 list list \<Rightarrow> i64 res" where
  "fpga_q6 junk inbuf = flowWrap junk inbuf"

text \<open>A local array of \<open>n\<close> bytes, out of the content \<open>xs\<close> of uninitialised memory.\<close>

definition array_of :: "nat \<Rightarrow> u8 list \<Rightarrow> u8 list" where
  "array_of n xs = take n (xs @ replicate n 0)"

lemma array_of_length [simp]: "length (array_of n xs) = n"
  by (simp add: array_of_def)

section \<open>The parser offers the field interface\<close>

definition k_inv :: "tup_parser \<Rightarrow> bool" where
  "k_inv s \<longleftrightarrow> pgOff s + length (t_strm s) = PAGE_SZ"

definition k_field_len :: "nat \<Rightarrow> tup_parser \<Rightarrow> (nat \<times> tup_parser) res" where
  "k_field_len f s = rbind (k_getFieldLen f s) (\<lambda>(l, s1). Inr (unat (ucast l :: u8), s1))"

definition k_get :: "nat \<Rightarrow> u8 list \<Rightarrow> tup_parser \<Rightarrow> (u8 list \<times> tup_parser) res" where
  "k_get n fData s = k_getField fData n s"

lemma k_getByte_law:
  assumes "k_inv s" "t_strm s = b # r"
  shows "\<exists>s'. k_getByte s = Inr (b, s') \<and> k_inv s' \<and> t_strm s' = r \<and> t_off s' = t_off s"
  using assms by (simp add: k_getByte_def k_inv_def)

lemma k_align_loop_law:
  assumes "k_inv s" "t_strm s = bs @ r"
  shows "\<exists>s'. k_align_loop (length bs) s = Inr s' \<and> k_inv s' \<and> t_strm s' = r
    \<and> t_off s' = t_off s + length bs"
  using assms
proof (induction bs arbitrary: s)
  case Nil
  then show ?case by simp
next
  case (Cons b bs)
  then obtain s1 where s1: "k_getByte s = Inr (b, s1)" "k_inv s1" "t_strm s1 = bs @ r"
    "t_off s1 = t_off s"
    using k_getByte_law [of s b "bs @ r"] by auto
  let ?s1 = "s1\<lparr>t_off := t_off s1 + 1\<rparr>"
  have "k_inv ?s1" using s1(2) by (simp add: k_inv_def)
  with Cons.IH [of ?s1] s1 show ?case by auto
qed

lemma k_drop_loop_law:
  assumes "k_inv s" "t_strm s = bs @ r"
  shows "\<exists>s'. k_drop_loop (length bs) s = Inr s' \<and> k_inv s' \<and> t_strm s' = r \<and> t_off s' = t_off s"
  using assms
proof (induction bs arbitrary: s)
  case Nil
  then show ?case by simp
next
  case (Cons b bs)
  then obtain s1 where "k_getByte s = Inr (b, s1)" "k_inv s1" "t_strm s1 = bs @ r"
    "t_off s1 = t_off s"
    using k_getByte_law [of s b "bs @ r"] by auto
  with Cons.IH [of s1] show ?case by auto
qed

lemma k_getField_loop_law:
  assumes "k_inv s" "t_strm s = bs @ r" "i + length bs \<le> length fData"
  shows "\<exists>s'. k_getField_loop i (length bs) fData s
      = Inr (take i fData @ bs @ drop (i + length bs) fData, s')
    \<and> k_inv s' \<and> t_strm s' = r \<and> t_off s' = t_off s"
  using assms
proof (induction bs arbitrary: i fData s)
  case Nil
  then show ?case by simp
next
  case (Cons b bs)
  then obtain s1 where s1: "k_getByte s = Inr (b, s1)" "k_inv s1" "t_strm s1 = bs @ r"
    "t_off s1 = t_off s"
    using k_getByte_law [of s b "bs @ r"] by auto
  obtain s' where "k_getField_loop (Suc i) (length bs) (fData[i := b]) s1
      = Inr (take (Suc i) (fData[i := b]) @ bs @ drop (Suc i + length bs) (fData[i := b]), s')"
    "k_inv s'" "t_strm s' = r" "t_off s' = t_off s1"
    using Cons.IH [of s1 "Suc i" "fData[i := b]"] s1 Cons.prems(3) by auto
  moreover have "take (Suc i) (fData[i := b]) = take i fData @ [b]"
    using Cons.prems(3) by (simp add: take_Suc_conv_app_nth)
  ultimately show ?case using s1 Cons.prems(3) by simp
qed

lemma attrLens_small: "f < nAttr \<Longrightarrow> attrLens ! f \<noteq> -1 \<Longrightarrow> 0 < attrLens ! f \<and> attrLens ! f < 256"
  by (simp add: nAttr_def attrLens_def less_Suc_eq eval_nat_numeral) auto

lemma unat_small_u32: "n < 256 \<Longrightarrow> unat (ucast (of_nat n :: u32) :: u8) = n"
  by (simp add: unsigned_ucast_eq unat_of_nat take_bit_nat_eq_self_iff)

lemma k_getFieldLen_law:
  assumes "k_inv s" "f < nAttr" "wf_field f p" "t_off s < 2 ^ 20"
    and "t_strm s = enc_field f (t_off s) p @ r"
  shows "\<exists>s'. k_field_len f s = Inr (length p, s') \<and> k_inv s' \<and> t_strm s' = p @ r
    \<and> t_off s' = t_off s + (length (enc_field f (t_off s) p) - length p)"
proof (cases "attrLens ! f \<noteq> -1")
  case True
  then have al: "attrLens ! f = int (length p)" using assms(3) by (simp add: wf_field_def)
  then have "length p < 256" using attrLens_small [OF assms(2)] True by simp
  then have len: "unat (ucast (of_int (attrLens ! f) :: u32) :: u8) = length p"
    by (simp add: al unat_small_u32)
  have ia: "k_INTALIGN (t_off s) = 4 * ((t_off s + 3) div 4)"
    using assms(4) by (simp add: k_INTALIGN_eq)
  have enc: "t_strm s = replicate (pad_len f (t_off s)) 0 @ (p @ r)"
    using True assms(5) by (simp add: enc_field_def)
  obtain s' where "k_align_loop (pad_len f (t_off s)) s = Inr s'" "k_inv s'"
    "t_strm s' = p @ r" "t_off s' = t_off s + pad_len f (t_off s)"
    using k_align_loop_law [OF assms(1) enc] by auto
  then show ?thesis
    using True len ia enc assms(1)
    by (auto simp: k_field_len_def k_getFieldLen_def enc_field_def pad_len_def Let_def)
next
  case False
  let ?h = "of_nat (2 * (length p + 1) + 1) :: u8"
  have l: "length p \<le> 126" using False assms(3) by (simp add: wf_field_def)
  obtain s' where s': "k_getByte s = Inr (?h, s')" "k_inv s'" "t_strm s' = p @ r"
    "t_off s' = t_off s"
    using k_getByte_law [OF assms(1), of ?h "p @ r"] assms(5) False by (auto simp: enc_field_def)
  have "unat (drop_bit 1 ?h) = length p + 1"
    by (rule short_header(3) [OF l])
  then have "(ucast (drop_bit 1 ?h) :: u32) = of_nat (length p + 1)"
    by (metis of_nat_unat)
  then have "(ucast (drop_bit 1 ?h) :: u32) - 1 = of_nat (length p)"
    by (simp only: of_nat_add) simp
  then have "unat (ucast (ucast (drop_bit 1 ?h) - 1 :: u32) :: u8) = length p"
    using l by (simp only: unat_small_u32)
  with False s' short_header(2) [OF l] show ?thesis
    by (simp add: k_field_len_def k_getFieldLen_def enc_field_def k_inv_def Let_def
        del: of_nat_Suc of_nat_add)
qed

interpretation kp: field_parser k_inv t_strm t_off k_field_len k_skipBytes k_get
proof (unfold_locales, goal_cases)
  case (1 s f p r)
  then show ?case by (intro k_getFieldLen_law)
next
  case (2 s p r)
  have "k_inv (s\<lparr>t_off := t_off s + length p\<rparr>)" using 2(1) by (simp add: k_inv_def)
  then show ?case
    using k_drop_loop_law [of "s\<lparr>t_off := t_off s + length p\<rparr>" p r] 2(2)
    by (auto simp: k_skipBytes_def)
next
  case (3 s p r fData)
  then show ?case
    using k_getField_loop_law [of s p r 0 fData] 
    by (auto simp: k_get_def k_getField_def k_inv_def)
qed

section \<open>One page through the processes\<close>

definition k_consume :: "nat \<Rightarrow> nat \<Rightarrow> u8 list \<Rightarrow> field_strms \<Rightarrow> field_strms res" where
  "k_consume fPtr fLen tmp os =
     rbind (wr tmp (NMRC_FIELD_SZ - 1) (of_nat fLen)) (\<lambda>tmp'. Inr (write_field fPtr tmp' os))"

lemma k_fields_loop_walk:
  "walk k_field_len k_get k_skipBytes (\<lambda>f _. junk f) k_consume f n os s = Inr (os', s')
   \<Longrightarrow> k_fields_loop junk f n os s = Inr (os', s')"
proof (induction n arbitrary: f os s)
  case 0
  then show ?case by simp
next
  case (Suc n)
  from Suc.prems obtain l s1 where l: "k_getFieldLen f s = Inr (l, s1)"
    by (auto simp: rbind_eq_Inr k_field_len_def)
  let ?l = "ucast l :: u8"
  show ?case
  proof (cases "wanted f")
    case False
    with Suc l show ?thesis by (auto simp: wanted_def rbind_eq_Inr k_field_len_def)
  next
    case True
    have "k_field_len f s = Inr (unat ?l, s1)" using l by (simp add: k_field_len_def)
    with True Suc.prems obtain d s2 os1 where "k_get (unat ?l) (junk f) s1 = Inr (d, s2)"
      and c: "k_consume f (unat ?l) d os = Inr os1"
      and w: "walk k_field_len k_get k_skipBytes (\<lambda>f _. junk f) k_consume (Suc f) n os1 s2 = Inr (os', s')"
      by (auto elim!: rbind_InrE)
    then have "k_getField (junk f) (unat ?l) s1 = Inr (d, s2)" by (simp add: k_get_def)
    moreover have "k_fields_loop junk (Suc f) n os1 s2 = Inr (os', s')" by (rule Suc.IH [OF w])
    ultimately show ?thesis using True l c
      by (auto simp: wanted_def k_consume_def rbind_eq_Inr Let_def)
  qed
qed

text \<open>
  \<open>decoded os lis os'\<close>: \<open>os'\<close> has one more entry per row on each stream than \<open>os\<close>, and each
  converts to the row's value.
\<close>

definition cents :: "(lineitem \<Rightarrow> snum) \<Rightarrow> lineitem \<Rightarrow> i64" where
  "cents col li = word_of_int (snum_cents (col li))"

definition decoded :: "field_strms \<Rightarrow> lineitem list \<Rightarrow> field_strms \<Rightarrow> bool" where
  "decoded os lis os' \<longleftrightarrow> (\<exists>Q E D H.
     os' = \<lparr>qtyFieldStrm = qtyFieldStrm os @ Q, extFieldStrm = extFieldStrm os @ E,
       dscFieldStrm = dscFieldStrm os @ D, shpFieldStrm = shpFieldStrm os @ H\<rparr>
     \<and> map k_snumToLong3 Q = map (\<lambda>li. Inr (cents l_quantity li)) lis
     \<and> map k_snumToLong3 E = map (\<lambda>li. Inr (cents l_extendedprice li)) lis
     \<and> map k_snumToLong3 D = map (\<lambda>li. Inr (cents l_discount li)) lis
     \<and> map getJdate H = map (\<lambda>li. Inr (l_shipdate li)) lis)"

lemma decoded_Nil: "decoded os [] os"
  by (simp add: decoded_def)

lemma decoded_append:
  assumes "decoded os lis os'" "decoded os' lis' os''"
  shows "decoded os (lis @ lis') os''"
proof -
  obtain Q E D H where 1: "os' = \<lparr>qtyFieldStrm = qtyFieldStrm os @ Q,
      extFieldStrm = extFieldStrm os @ E, dscFieldStrm = dscFieldStrm os @ D,
      shpFieldStrm = shpFieldStrm os @ H\<rparr>"
    "map k_snumToLong3 Q = map (\<lambda>li. Inr (cents l_quantity li)) lis"
    "map k_snumToLong3 E = map (\<lambda>li. Inr (cents l_extendedprice li)) lis"
    "map k_snumToLong3 D = map (\<lambda>li. Inr (cents l_discount li)) lis"
    "map getJdate H = map (\<lambda>li. Inr (l_shipdate li)) lis"
    using assms(1) unfolding decoded_def by blast
  obtain Q' E' D' H' where 2: "os'' = \<lparr>qtyFieldStrm = qtyFieldStrm os' @ Q',
      extFieldStrm = extFieldStrm os' @ E', dscFieldStrm = dscFieldStrm os' @ D',
      shpFieldStrm = shpFieldStrm os' @ H'\<rparr>"
    "map k_snumToLong3 Q' = map (\<lambda>li. Inr (cents l_quantity li)) lis'"
    "map k_snumToLong3 E' = map (\<lambda>li. Inr (cents l_extendedprice li)) lis'"
    "map k_snumToLong3 D' = map (\<lambda>li. Inr (cents l_discount li)) lis'"
    "map getJdate H' = map (\<lambda>li. Inr (l_shipdate li)) lis'"
    using assms(2) unfolding decoded_def by blast
  show ?thesis
    unfolding decoded_def
    by (rule exI [of _ "Q @ Q'"], rule exI [of _ "E @ E'"], rule exI [of _ "D @ D'"],
        rule exI [of _ "H @ H'"]) (simp add: 1 2)
qed

lemma k_step:
  assumes "wanted f" "length p \<le> length (buf f)" "length (buf f) = NMRC_FIELD_SZ"
  shows "spec_walk (\<lambda>f _. buf f) k_consume f (p # ps) os
    = spec_walk (\<lambda>f _. buf f) k_consume (Suc f) ps
        (write_field f ((p @ drop (length p) (buf f))[NMRC_FIELD_SZ - 1 := of_nat (length p)]) os)"
  using assms by (simp add: k_consume_def NMRC_FIELD_SZ_def)

lemma money_field_decodes:
  assumes "wf_money n" "length fd = NMRC_FIELD_SZ"
  shows "k_snumToLong3 ((enc_snum n @ drop (length (enc_snum n)) fd)
      [NMRC_FIELD_SZ - 1 := of_nat (length (enc_snum n))]) = Inr (word_of_int (snum_cents n))"
proof (rule k_snumToLong3_enc)
  have l: "length (enc_snum n) \<le> NMRC_FIELD_SZ - 1" "length (enc_snum n) < NMRC_FIELD_SZ"
    using assms(1) by (auto simp: wf_money_def NMRC_FIELD_SZ_def)
  show "(enc_snum n @ drop (length (enc_snum n)) fd)[NMRC_FIELD_SZ - 1 := of_nat (length (enc_snum n))]
    = enc_snum n @ (drop (length (enc_snum n)) fd)
        [NMRC_FIELD_SZ - 1 - length (enc_snum n) := of_nat (length (enc_snum n))]"
    using l(1) by (simp add: list_update_append del: enc_snum_length)
  show "wf_snum n" using assms(1) by (simp add: wf_money_def)
  show "length ((enc_snum n @ drop (length (enc_snum n)) fd)
      [NMRC_FIELD_SZ - 1 := of_nat (length (enc_snum n))]) = NMRC_FIELD_SZ"
    using l assms(2) by (simp del: enc_snum_length)
  show "(enc_snum n @ drop (length (enc_snum n)) fd)
      [NMRC_FIELD_SZ - 1 := of_nat (length (enc_snum n))] ! (NMRC_FIELD_SZ - 1) = of_nat (length (enc_snum n))"
    using l assms(2) by (simp add: NMRC_FIELD_SZ_def del: enc_snum_length)
qed

lemma spec_walk_k_payloads:
  assumes "wf_lineitem li" "\<forall>f. length (junk f) = NMRC_FIELD_SZ"
  shows "\<exists>os'. decoded os [li] os'
    \<and> spec_walk (\<lambda>f _. junk f) k_consume 0 (payloads li) os = Inr os'"
proof -
  let ?w = "spec_walk (\<lambda>f _. junk f) k_consume"
  let ?q = "l_quantity li" and ?p = "l_extendedprice li" and ?d = "l_discount li"
  have n: "length (l_keys li) = 4" "length (l_flags li) = 3" "length (l_rest li) = 5"
    and wf: "wf_money ?q" "wf_money ?p" "wf_money ?d"
    and dt: "- (2 ^ 31) \<le> l_shipdate li" "l_shipdate li < 2 ^ 31"
    using assms(1) by (auto simp: wf_lineitem_def)
  then have len: "length (enc_snum ?q) \<le> NMRC_FIELD_SZ" "length (enc_snum ?p) \<le> NMRC_FIELD_SZ"
      "length (enc_snum ?d) \<le> NMRC_FIELD_SZ" "length (enc_date (l_shipdate li)) \<le> NMRC_FIELD_SZ"
    by (auto simp: wf_money_def NMRC_FIELD_SZ_def)
  define fld where "fld f p = (p @ drop (length p) (junk f))[NMRC_FIELD_SZ - 1 := of_nat (length p)]"
    for f and p :: "u8 list"
  have step: "?w f (p # ps) os = ?w (Suc f) ps (write_field f (fld f p) os)"
    if "wanted f" "length p \<le> NMRC_FIELD_SZ" for f p ps os
    unfolding fld_def using that assms(2) by (intro k_step) auto
  let ?os = "write_field 10 (fld 10 (enc_date (l_shipdate li))) (write_field 6 (fld 6 (enc_snum ?d))
    (write_field 5 (fld 5 (enc_snum ?p)) (write_field 4 (fld 4 (enc_snum ?q)) os)))"
  have "?w 0 (payloads li) os = Inr ?os"
    using n len spec_walk_skip [of "l_keys li" 0 "\<lambda>f _. junk f" k_consume]
      spec_walk_skip [of "l_flags li" 7 "\<lambda>f _. junk f" k_consume]
      spec_walk_skip [of "l_rest li" 11 "\<lambda>f _. junk f" k_consume "[]"]
    by (simp add: payloads_def wanted_def step del: spec_walk.simps(2) enc_snum_length enc_date_length)
  moreover have "decoded os [li] ?os"
  proof -
    have "k_snumToLong3 (fld 4 (enc_snum ?q)) = Inr (cents l_quantity li)"
      "k_snumToLong3 (fld 5 (enc_snum ?p)) = Inr (cents l_extendedprice li)"
      "k_snumToLong3 (fld 6 (enc_snum ?d)) = Inr (cents l_discount li)"
      using wf assms(2) unfolding fld_def cents_def by (blast intro: money_field_decodes)+
    moreover have "getJdate (fld 10 (enc_date (l_shipdate li))) = Inr (l_shipdate li)"
    proof -
      have "fld 10 (enc_date (l_shipdate li)) = enc_date (l_shipdate li)
          @ (drop 4 (junk 10))[NMRC_FIELD_SZ - 1 - 4 := of_nat 4]"
        by (simp add: fld_def list_update_append NMRC_FIELD_SZ_def)
      then show ?thesis using getJdate_enc [OF dt] by simp
    qed
    ultimately show ?thesis by (cases os) (simp add: decoded_def write_field_def)
  qed
  ultimately show ?thesis by blast
qed

lemma k_tuple_step:
  assumes "k_inv s" "t_strm s = enc_tuple li @ r" "wf_lineitem li" "\<forall>f. length (junk f) = NMRC_FIELD_SZ"
  obtains os' s' where "k_fields_loop junk 0 nAttr os (startTup s) = Inr (os', s')" "k_inv s'" "t_strm s' = r"
    "decoded os [li] os'"
proof -
  let ?s = "startTup s"
  have inv: "k_inv ?s" using assms(1) by (simp add: k_inv_def startTup_def)
  have un: "t_strm ?s = enc_fields 0 (t_off ?s) (payloads li) @ r"
    using assms(2) by (simp add: startTup_def enc_tuple_def)
  have "length (t_strm ?s) < 2 ^ 20" using inv by (simp add: k_inv_def PAGE_SZ_def)
  then have sz: "t_off ?s + length (enc_fields 0 (t_off ?s) (payloads li)) < 2 ^ 20"
    unfolding un by (simp add: startTup_def)
  obtain os1 where os1: "decoded os [li] os1"
    "spec_walk (\<lambda>f _. junk f) k_consume 0 (payloads li) os = Inr os1"
    using spec_walk_k_payloads [OF assms(3,4)] by blast
  obtain s1 where s1: "walk k_field_len k_get k_skipBytes (\<lambda>f _. junk f) k_consume 0 nAttr
      os ?s = Inr (os1, s1)" "k_inv s1" "t_strm s1 = r"
    using kp.walk_law [OF inv row_fields(2) [OF assms(3)] _ sz un os1(2)] by (auto simp: row_fields(1) [OF assms(3)])
  from that [OF k_fields_loop_walk [OF s1(1)] s1(2,3) os1(1)] show ?thesis .
qed

lemma k_tuples_loop_law:
  assumes "k_inv s" "t_strm s = tuples_bytes lis @ r" "list_all wf_lineitem lis"
    and "\<forall>t f. length (junk t f) = NMRC_FIELD_SZ"
  shows "\<exists>os' s'. k_tuples_loop junk t (length lis) os s = Inr (os', s') \<and> k_inv s' \<and> t_strm s' = r
    \<and> decoded os lis os'"
  using assms(1-3)
proof (induction lis arbitrary: t os s)
  case Nil
  then show ?case by (simp add: tuples_bytes_def decoded_Nil)
next
  case (Cons li lis)
  have wf: "wf_lineitem li" using Cons.prems(3) by simp
  have un: "t_strm s = enc_tuple li @ (tuples_bytes lis @ r)" using Cons.prems(2) by (simp add: tuples_bytes_def)
  obtain os1 s1 where s1: "k_fields_loop (junk t) 0 nAttr os (startTup s) = Inr (os1, s1)" "k_inv s1"
    "t_strm s1 = tuples_bytes lis @ r" "decoded os [li] os1"
    using k_tuple_step [OF Cons.prems(1) un wf, of "junk t"] assms(4) by blast
  obtain os' s' where "k_tuples_loop junk (Suc t) (length lis) os1 s1 = Inr (os', s')" "k_inv s'"
    "t_strm s' = r" "decoded os1 lis os'"
    using Cons.IH [OF s1(2,3)] Cons.prems(3) by fastforce
  then show ?case
    using s1(1) decoded_append [OF s1(4), of lis os'] by simp
qed

lemma copy_loop_law: "copy_loop (length bs) (bs @ r) out = Inr (r, out @ bs)"
  by (induction bs arbitrary: out) simp_all

lemma skipToPageEnd_law:
  assumes "k_inv s"
  shows "\<exists>s'. skipToPageEnd s = Inr s' \<and> t_strm s' = []"
proof -
  have "PAGE_SZ - pgOff s = length (t_strm s)" using assms by (simp add: k_inv_def)
  then show ?thesis
    using k_drop_loop_law [OF assms, of "t_strm s" "[]"] by (auto simp: skipToPageEnd_def)
qed

lemma toLong_loop_law:
  "map k_snumToLong3 Q = map (\<lambda>li. Inr (f li)) lis
   \<Longrightarrow> toLong_loop (length lis) Q out = Inr (out @ map f lis)"
proof (induction lis arbitrary: Q out)
  case Nil
  then show ?case by simp
next
  case (Cons li lis)
  then show ?case by (cases Q) auto
qed

lemma toDate_loop_law:
  "map getJdate Q = map (\<lambda>li. Inr (f li)) lis
   \<Longrightarrow> toDate_loop (length lis) Q out = Inr (out @ map f lis)"
proof (induction lis arbitrary: Q out)
  case Nil
  then show ?case by simp
next
  case (Cons li lis)
  then show ?case by (cases Q) auto
qed

lemma agg_loop_law:
  "list_all wf_lineitem lis \<Longrightarrow> agg_loop (length lis) acc (map (cents l_quantity) lis)
     (map (cents l_extendedprice) lis) (map (cents l_discount) lis) (map l_shipdate lis)
   = Inr (acc + word_of_int (q6_spec lis))"
proof (induction lis arbitrary: acc)
  case Nil
  then show ?case by simp
next
  case (Cons li lis)
  then have "wf_money (l_quantity li)" "wf_money (l_discount li)"
    by (auto simp: wf_lineitem_def)
  note s = this [THEN money_cents_sint]
  from Cons s show ?case
    by (simp add: cents_def q6_row_def k_jd19940101_def k_jd19950101_def discountLow_def
        discountHi_def quantityHi_def add.assoc)
qed

lemma header_short:
  assumes "wf_page lis dead"
  shows "nat (sint (push_bit 8 (ucast (of_nat (length lis div 256) :: u8))
    OR ucast (of_nat (length lis mod 256) :: u8) :: u16)) = length lis"
  using page_count_bound [OF assms]
  by (simp only: le16_or page_header [OF assms]) (simp add: signed_of_nat signed_take_bit_int_eq_self)

text \<open>The conversions and the aggregation on the field streams of the rows \<open>lis\<close>.\<close>

lemma decoded_sum:
  assumes "decoded no_fields lis os" "nat (sint n) = length lis" "list_all wf_lineitem lis"
  shows "rbind (toLong [n] (qtyFieldStrm os)) (\<lambda>q. rbind (toLong [n] (extFieldStrm os)) (\<lambda>e.
      rbind (toLong [n] (dscFieldStrm os)) (\<lambda>d. rbind (toDate [n] (shpFieldStrm os)) (\<lambda>h.
        agg [n] q e d h [True])))) = Inr (word_of_int (q6_spec lis))"
proof -
  obtain Q E D H where "os = \<lparr>qtyFieldStrm = Q, extFieldStrm = E, dscFieldStrm = D, shpFieldStrm = H\<rparr>"
    "map k_snumToLong3 Q = map (\<lambda>li. Inr (cents l_quantity li)) lis"
    "map k_snumToLong3 E = map (\<lambda>li. Inr (cents l_extendedprice li)) lis"
    "map k_snumToLong3 D = map (\<lambda>li. Inr (cents l_discount li)) lis"
    "map getJdate H = map (\<lambda>li. Inr (l_shipdate li)) lis"
    using assms(1) unfolding decoded_def no_fields_def by auto
  then have "toLong [n] (qtyFieldStrm os) = Inr (map (cents l_quantity) lis)"
    "toLong [n] (extFieldStrm os) = Inr (map (cents l_extendedprice) lis)"
    "toLong [n] (dscFieldStrm os) = Inr (map (cents l_discount) lis)"
    "toDate [n] (shpFieldStrm os) = Inr (map l_shipdate lis)"
    using toLong_loop_law [of _ _ lis "[]"] toDate_loop_law [of _ l_shipdate lis "[]"] assms(2)
    by (simp_all add: toLong_def toDate_def)
  then show ?thesis using agg_loop_law [OF assms(3)] assms(2) by (simp add: agg_def)
qed

text \<open>The filter on a data stream that starts with the rows \<open>lis\<close>.\<close>

lemma q6_filter_from_law:
  assumes "k_inv prsr" "t_strm prsr = tuples_bytes lis @ r" "list_all wf_lineitem lis"
    and "nat (sint n) = length lis" "\<forall>t f. length (junk t f) = NMRC_FIELD_SZ"
  shows "\<exists>os s. q6_filter_from junk [n] prsr = Inr (os, [True], s) \<and> decoded no_fields lis os"
proof -
  obtain os s where os: "k_tuples_loop junk 0 (length lis) no_fields prsr = Inr (os, s)"
    "k_inv s" "decoded no_fields lis os"
    using k_tuples_loop_law [OF assms(1-3,5), of 0 no_fields] by auto
  obtain s' where "skipToPageEnd s = Inr s'" using skipToPageEnd_law [OF os(2)] by blast
  with os(1,3) assms(4) show ?thesis by (auto simp: q6_filter_from_def)
qed

lemma k_q6_paged_law:
  assumes "wf_page lis dead" "\<forall>t f. length (junk t f) = NMRC_FIELD_SZ"
  shows "k_q6_paged junk (page_of lis dead @ rest) = Inr (word_of_int (q6_spec lis), rest)"
proof -
  let ?data = "tuples_bytes lis @ dead"
  let ?n = "push_bit 8 (ucast (of_nat (length lis div 256) :: u8))
    OR ucast (of_nat (length lis mod 256) :: u8) :: u16"
  have pg: "length (page_of lis dead) = PAGE_SZ" "list_all wf_lineitem lis"
    using assms(1) by (auto simp: wf_page_def)
  then have dl: "length ?data = PAGE_SZ - 2" by (simp add: page_of_def)
  have hd: "getHeaderInt2 (page_of lis dead @ rest) = Inr (replicate 6 [?n], ?data, rest)"
    using copy_loop_law [of ?data rest "[]"] unfolding dl
    by (simp add: getHeaderInt2_def page_of_def Let_def)
  have n: "nat (sint ?n) = length lis" by (rule header_short [OF assms(1)])
  have "k_inv (TupParser ?data)" using dl by (simp add: k_inv_def TupParser_def PAGE_SZ_def)
  then obtain os s where os: "q6_filter junk [?n] ?data = Inr (os, [True], s)" "decoded no_fields lis os"
    using q6_filter_from_law [of "TupParser ?data" lis dead ?n junk] pg(2) n assms(2)
    by (auto simp: q6_filter_def TupParser_def)
  show ?thesis
    using hd os(1) decoded_sum [OF os(2) n pg(2)]
    by (auto simp: k_q6_paged_def rbind_eq_Inr)
qed

section \<open>A block through the processing units\<close>

text \<open>The memory of a block as the kernel sees it: an array of 16-byte words.\<close>

fun words_of :: "nat \<Rightarrow> u8 list \<Rightarrow> u8 list list" where
  "words_of 0 bs = []"
| "words_of (Suc n) bs = take k_WORD_SZ bs # words_of n (drop k_WORD_SZ bs)"

lemma words_of_length [simp]: "length (words_of n bs) = n"
  by (induction n arbitrary: bs) simp_all

lemma words_of_nth: "k < n \<Longrightarrow> words_of n bs ! k = take k_WORD_SZ (drop (k_WORD_SZ * k) bs)"
proof (induction n arbitrary: k bs)
  case 0
  then show ?case by simp
next
  case (Suc n)
  then show ?case by (cases k) (simp_all add: add.commute)
qed

lemma concat_words_of: "concat (words_of n bs) = take (k_WORD_SZ * n) bs"
  by (induction n arbitrary: bs) (simp_all add: take_add)

lemma words_of_words: "k_WORD_SZ * n \<le> length bs \<Longrightarrow> w \<in> set (words_of n bs) \<Longrightarrow> length w = k_WORD_SZ"
proof (induction n arbitrary: bs)
  case 0
  then show ?case by simp
next
  case (Suc n)
  then show ?case using Suc.IH [of "drop k_WORD_SZ bs"] by auto
qed

lemma words_of_segment:
  "k + m \<le> n \<Longrightarrow> map (\<lambda>j. words_of n bs ! (k + j)) [0..<m] = words_of m (drop (k_WORD_SZ * k) bs)"
  by (rule nth_equalityI) (simp_all add: words_of_nth algebra_simps)

text \<open>The reader deals page \<open>i * NUM_PU + u\<close> to processing unit \<open>u\<close>.\<close>

lemma read_words:
  assumes "u < length strms" "i * NUM_PU * WORDS_PER_PAGE + u * WORDS_PER_PAGE + j + n \<le> length inbuf"
  shows "rloop n (read_body inbuf i u) j strms = Inr (strms[u := strms ! u @
     map (\<lambda>k. inbuf ! (i * NUM_PU * WORDS_PER_PAGE + u * WORDS_PER_PAGE + k)) [j..<j + n]])"
  using assms
proof (induction n arbitrary: j strms)
  case 0
  then show ?case by simp
next
  case (Suc n)
  let ?x = "inbuf ! (i * NUM_PU * WORDS_PER_PAGE + u * WORDS_PER_PAGE + j)"
  have b: "read_body inbuf i u j strms = Inr (strms[u := strms ! u @ [?x]])"
    using Suc.prems by (simp add: read_body_def)
  have "rloop n (read_body inbuf i u) (Suc j) (strms[u := strms ! u @ [?x]]) =
    Inr (strms[u := strms ! u @ [?x] @
      map (\<lambda>k. inbuf ! (i * NUM_PU * WORDS_PER_PAGE + u * WORDS_PER_PAGE + k)) [Suc j..<Suc j + n]])"
    using Suc.prems by (subst Suc.IH) simp_all
  then show ?case using b by (simp add: upt_conv_Cons del: upt_Suc)
qed

definition pg_words :: "u8 list list \<Rightarrow> nat \<Rightarrow> u8 list list" where
  "pg_words inbuf k = map (\<lambda>j. inbuf ! (k * WORDS_PER_PAGE + j)) [0..<WORDS_PER_PAGE]"

lemma read_pu:
  assumes "u < length strms" "i < PAGES_PER_PU" "u < NUM_PU" "length inbuf = NUM_WORDS"
  shows "rloop WORDS_PER_PAGE (read_body inbuf i u) 0 strms
    = Inr (strms[u := strms ! u @ pg_words inbuf (i * NUM_PU + u)])"
proof -
  have "i * NUM_PU + u + 1 \<le> NUM_PAGES"
    using assms(2,3) by (simp add: PAGES_PER_PU_def NUM_PU_def NUM_PAGES_def NUM_WORDS_def
        NUM_BYTES_def WORDS_PER_PAGE_def k_WORD_SZ_def PAGE_SZ_def)
  then have "(i * NUM_PU + u + 1) * WORDS_PER_PAGE \<le> NUM_PAGES * WORDS_PER_PAGE"
    by (rule mult_le_mono1)
  also have "\<dots> = NUM_WORDS"
    by (simp add: NUM_PAGES_def NUM_WORDS_def
        NUM_BYTES_def WORDS_PER_PAGE_def k_WORD_SZ_def PAGE_SZ_def)
  finally have "i * NUM_PU * WORDS_PER_PAGE + u * WORDS_PER_PAGE + 0 + WORDS_PER_PAGE \<le> length inbuf"
    using assms(4) by (simp add: algebra_simps)
  from read_words [OF assms(1) this] show ?thesis
    by (simp add: pg_words_def algebra_simps)
qed

lemma read_row:
  assumes "i < PAGES_PER_PU" "length inbuf = NUM_WORDS" "length strms = NUM_PU" "u + n \<le> NUM_PU"
  shows "rloop n (\<lambda>u. rloop WORDS_PER_PAGE (read_body inbuf i u) 0) u strms
    = Inr (map (\<lambda>v. if u \<le> v \<and> v < u + n then strms ! v @ pg_words inbuf (i * NUM_PU + v)
        else strms ! v) [0..<NUM_PU])"
  using assms(3,4)
proof (induction n arbitrary: u strms)
  case 0
  then show ?case by (auto simp: list_eq_iff_nth_eq)
next
  case (Suc n)
  let ?s = "strms[u := strms ! u @ pg_words inbuf (i * NUM_PU + u)]"
  have "rloop WORDS_PER_PAGE (read_body inbuf i u) 0 strms = Inr ?s"
    using Suc.prems assms(1,2) by (intro read_pu) auto
  moreover have "rloop n (\<lambda>u. rloop WORDS_PER_PAGE (read_body inbuf i u) 0) (Suc u) ?s
    = Inr (map (\<lambda>v. if Suc u \<le> v \<and> v < Suc u + n then ?s ! v @ pg_words inbuf (i * NUM_PU + v)
        else ?s ! v) [0..<NUM_PU])"
    using Suc.prems by (intro Suc.IH) auto
  ultimately show ?case
    using Suc.prems by (auto simp: nth_list_update simp del: upt_Suc)
qed

lemma read_rows:
  assumes "length inbuf = NUM_WORDS" "length strms = NUM_PU" "i + n \<le> PAGES_PER_PU"
  shows "rloop n (\<lambda>i. rloop NUM_PU (\<lambda>u. rloop WORDS_PER_PAGE (read_body inbuf i u) 0) 0) i strms
    = Inr (map (\<lambda>v. strms ! v @ concat (map (\<lambda>k. pg_words inbuf (k * NUM_PU + v)) [i..<i + n]))
        [0..<NUM_PU])"
  using assms(2,3)
proof (induction n arbitrary: i strms)
  case 0
  then show ?case by (auto simp: list_eq_iff_nth_eq)
next
  case (Suc n)
  let ?s = "map (\<lambda>v. strms ! v @ pg_words inbuf (i * NUM_PU + v)) [0..<NUM_PU]"
  have "rloop NUM_PU (\<lambda>u. rloop WORDS_PER_PAGE (read_body inbuf i u) 0) 0 strms = Inr ?s"
    using Suc.prems assms(1) by (subst read_row) auto
  moreover have "rloop n (\<lambda>i. rloop NUM_PU (\<lambda>u. rloop WORDS_PER_PAGE (read_body inbuf i u) 0) 0)
      (Suc i) ?s = Inr (map (\<lambda>v. ?s ! v
        @ concat (map (\<lambda>k. pg_words inbuf (k * NUM_PU + v)) [Suc i..<Suc i + n])) [0..<NUM_PU])"
    using Suc.prems by (intro Suc.IH) auto
  moreover have "[i..<i + Suc n] = i # [Suc i..<Suc i + n]"
    by (simp add: upt_conv_Cons del: upt_Suc)
  ultimately show ?case by (simp del: upt_Suc)
qed

lemma k_read_law:
  assumes "length inbuf = NUM_WORDS"
  shows "k_read inbuf (replicate NUM_PU []) = Inr (map (\<lambda>u.
    concat (map (\<lambda>i. pg_words inbuf (i * NUM_PU + u)) [0..<PAGES_PER_PU])) [0..<NUM_PU])"
  using read_rows [OF assms, of "replicate NUM_PU []" 0 PAGES_PER_PU]
  by (simp add: k_read_def)

lemma byte_loop: "j + n \<le> length tmp
    \<Longrightarrow> rloop n (byte_body tmp) j out = Inr (out @ take n (drop j tmp))"
proof (induction n arbitrary: j out)
  case 0
  then show ?case by simp
next
  case (Suc n)
  then show ?case by (simp add: byte_body_def drop_eq_Cons_nth [of j tmp])
qed

lemma word_loop:
  assumes "n \<le> length win" "\<forall>w \<in> set win. length w = k_WORD_SZ"
  shows "rloop n word_body i (win, out) = Inr (drop n win, out @ concat (take n win))"
  using assms
proof (induction n arbitrary: i win out)
  case 0
  then show ?case by simp
next
  case (Suc n)
  then obtain w win' where w: "win = w # win'" by (cases win) auto
  have "word_body i (win, out) = Inr (win', out @ w)"
    using Suc.prems w byte_loop [of 0 k_WORD_SZ w out] by (simp add: word_body_def)
  with Suc w show ?case by simp
qed

lemma page_loop:
  assumes "m * WORDS_PER_PAGE \<le> length win" "\<forall>w \<in> set win. length w = k_WORD_SZ"
  shows "rloop m (\<lambda>i. rloop WORDS_PER_PAGE word_body 0) i (win, out)
    = Inr (drop (m * WORDS_PER_PAGE) win, out @ concat (take (m * WORDS_PER_PAGE) win))"
  using assms
proof (induction m arbitrary: i win out)
  case 0
  then show ?case by simp
next
  case (Suc m)
  have "\<forall>w \<in> set (drop WORDS_PER_PAGE win). length w = k_WORD_SZ"
    using Suc.prems(2) by (meson in_set_dropD)
  then have "rloop m (\<lambda>i. rloop WORDS_PER_PAGE word_body 0) (Suc i)
      (drop WORDS_PER_PAGE win, out @ concat (take WORDS_PER_PAGE win))
    = Inr (drop (m * WORDS_PER_PAGE) (drop WORDS_PER_PAGE win),
        (out @ concat (take WORDS_PER_PAGE win))
          @ concat (take (m * WORDS_PER_PAGE) (drop WORDS_PER_PAGE win)))"
    using Suc.prems(1) by (intro Suc.IH) auto
  then show ?case
    using Suc.prems word_loop [of WORDS_PER_PAGE win 0 out] by (simp add: take_add add.commute)
qed

lemma pageToByte_law:
  assumes "length win = PAGES_PER_PU * WORDS_PER_PAGE" "\<forall>w \<in> set win. length w = k_WORD_SZ"
  shows "pageToByte win = Inr ([], concat win)"
  using page_loop [of PAGES_PER_PU win 0 "[]"] assms by (simp add: pageToByte_def)

lemma drop_concat:
  assumes "\<forall>pg \<in> set pgs. length pg = PAGE_SZ" "k < length pgs"
  shows "drop (k * PAGE_SZ) (concat pgs) = pgs ! k @ concat (drop (Suc k) pgs)"
proof -
  have l: "length (concat (take k pgs)) = k * PAGE_SZ"
  proof -
    have "map length (take k pgs) = replicate k PAGE_SZ"
      using assms by (intro nth_equalityI) auto
    then show ?thesis by (simp add: length_concat sum_list_replicate)
  qed
  have "concat pgs = concat (take k pgs) @ concat (drop k pgs)" by (metis append_take_drop_id concat_append)
  then have "drop (k * PAGE_SZ) (concat pgs) = concat (drop k pgs)" by (simp add: l)
  then show ?thesis using assms(2) by (simp add: drop_eq_Cons_nth)
qed

lemma pg_words_page:
  assumes "\<forall>pg \<in> set pgs. length pg = PAGE_SZ" "length pgs = NUM_PAGES" "k < NUM_PAGES"
  shows "pg_words (words_of NUM_WORDS (concat pgs)) k = words_of WORDS_PER_PAGE (pgs ! k)"
proof -
  have wpp: "k_WORD_SZ * WORDS_PER_PAGE = PAGE_SZ"
    by (simp add: WORDS_PER_PAGE_def k_WORD_SZ_def PAGE_SZ_def)
  have "NUM_PAGES * WORDS_PER_PAGE = NUM_WORDS"
    by (simp add: NUM_PAGES_def NUM_WORDS_def NUM_BYTES_def WORDS_PER_PAGE_def k_WORD_SZ_def PAGE_SZ_def)
  then have "k * WORDS_PER_PAGE + WORDS_PER_PAGE \<le> NUM_WORDS"
    using assms(3) by (metis Suc_leI add.commute mult_Suc mult_le_mono1)
  then have "pg_words (words_of NUM_WORDS (concat pgs)) k
      = words_of WORDS_PER_PAGE (drop (k * PAGE_SZ) (concat pgs))"
    unfolding pg_words_def by (subst words_of_segment) (simp_all add: wpp [symmetric] mult.left_commute)
  also have "\<dots> = words_of WORDS_PER_PAGE (pgs ! k @ concat (drop (Suc k) pgs))"
    using drop_concat [OF assms(1), of k] assms(2,3) by simp
  also have "\<dots> = words_of WORDS_PER_PAGE (pgs ! k)"
  proof (rule nth_equalityI)
    have "length (pgs ! k) = k_WORD_SZ * WORDS_PER_PAGE"
      using assms by (simp add: wpp)
    moreover have "k_WORD_SZ + k_WORD_SZ * i \<le> k_WORD_SZ * WORDS_PER_PAGE" if "i < WORDS_PER_PAGE" for i
      using that by (metis Suc_leI mult_Suc_right mult_le_mono2)
    ultimately show "words_of WORDS_PER_PAGE (pgs ! k @ concat (drop (Suc k) pgs)) ! i
      = words_of WORDS_PER_PAGE (pgs ! k) ! i"
      if "i < length (words_of WORDS_PER_PAGE (pgs ! k @ concat (drop (Suc k) pgs)))" for i
      using that by (fastforce simp: words_of_nth)
  qed simp
  finally show ?thesis .
qed

lemma concat_concat_map: "concat (concat (map g xs)) = concat (map (\<lambda>x. concat (g x)) xs)"
  by (induction xs) simp_all

text \<open>The pages of processing unit \<open>u\<close>.\<close>

definition pu_pages :: "'a list \<Rightarrow> nat \<Rightarrow> 'a list" where
  "pu_pages pgs u = map (\<lambda>i. pgs ! (i * NUM_PU + u)) [0..<PAGES_PER_PU]"

lemma pu_index: "i < PAGES_PER_PU \<Longrightarrow> u < NUM_PU \<Longrightarrow> i * NUM_PU + u < NUM_PAGES"
  by (simp add: PAGES_PER_PU_def NUM_PU_def NUM_PAGES_def NUM_WORDS_def
        NUM_BYTES_def WORDS_PER_PAGE_def k_WORD_SZ_def PAGE_SZ_def)

lemma pageToByte_pages:
  assumes "\<forall>pg \<in> set pgs. length pg = PAGE_SZ" "length pgs = NUM_PAGES" "u < NUM_PU"
    and "strm = concat (map (\<lambda>i. pg_words (words_of NUM_WORDS (concat pgs)) (i * NUM_PU + u)) [0..<PAGES_PER_PU])"
  shows "pageToByte strm = Inr ([], concat (pu_pages pgs u))"
proof -
  have wpp: "k_WORD_SZ * WORDS_PER_PAGE = PAGE_SZ"
    by (simp add: WORDS_PER_PAGE_def k_WORD_SZ_def PAGE_SZ_def)
  have len: "length (pgs ! k) = PAGE_SZ" if "k < NUM_PAGES" for k
    using that assms(1,2) by simp
  have strm: "strm = concat (map (\<lambda>i. words_of WORDS_PER_PAGE (pgs ! (i * NUM_PU + u))) [0..<PAGES_PER_PU])"
    unfolding assms(4) using pg_words_page [OF assms(1,2)] pu_index assms(3)
    by (intro arg_cong [where f = concat] map_cong) auto
  have "concat (words_of WORDS_PER_PAGE (pgs ! (i * NUM_PU + u))) = pgs ! (i * NUM_PU + u)"
    if "i < PAGES_PER_PU" for i
    using len [OF pu_index [OF that assms(3)]] by (simp add: concat_words_of wpp)
  then have "concat (map (\<lambda>i. concat (words_of WORDS_PER_PAGE (pgs ! (i * NUM_PU + u)))) [0..<PAGES_PER_PU])
      = concat (map (\<lambda>i. pgs ! (i * NUM_PU + u)) [0..<PAGES_PER_PU])"
    by (intro arg_cong [where f = concat] map_cong) auto
  then have cc: "concat strm = concat (pu_pages pgs u)"
    unfolding strm by (simp add: concat_concat_map pu_pages_def comp_def)
  have "pageToByte strm = Inr ([], concat strm)"
  proof (rule pageToByte_law)
    show "length strm = PAGES_PER_PU * WORDS_PER_PAGE"
      unfolding strm by (simp add: length_concat comp_def sum_list_triv)
    show "\<forall>w \<in> set strm. length w = k_WORD_SZ"
    proof
      fix w
      assume "w \<in> set strm"
      then obtain i where i: "i < PAGES_PER_PU" "w \<in> set (words_of WORDS_PER_PAGE (pgs ! (i * NUM_PU + u)))"
        unfolding strm by auto
      show "length w = k_WORD_SZ"
        by (rule words_of_words [OF _ i(2)]) (simp add: len [OF pu_index [OF i(1) assms(3)]] wpp)
    qed
  qed
  then show ?thesis by (simp only: cc)
qed

text \<open>The processing units together see every page once.\<close>

lemma sum_lessThan_add: "(\<Sum>k<a + n. f k) = (\<Sum>k<a. f k) + (\<Sum>u<n. (f (a + u :: nat) :: int))"
  by (induction n) (simp_all add: add.assoc)

lemma split_range:
  fixes f :: "nat \<Rightarrow> int"
  shows "(\<Sum>u<n. \<Sum>i<m. f (i * n + u)) = (\<Sum>k<m * n. f k)"
proof -
  have "(\<Sum>u<n. \<Sum>i<m. f (i * n + u)) = (\<Sum>i<m. \<Sum>u<n. f (i * n + u))"
    by (rule sum.swap)
  also have "\<dots> = (\<Sum>k<m * n. f k)"
  proof (induction m)
    case 0
    then show ?case by simp
  next
    case (Suc m)
    have "(\<Sum>k<Suc m * n. f k) = (\<Sum>k<m * n + n. f k)" by (simp add: add.commute)
    also have "\<dots> = (\<Sum>k<m * n. f k) + (\<Sum>u<n. f (m * n + u))"
      by (rule sum_lessThan_add)
    finally show ?case using Suc by simp
  qed
  finally show ?thesis .
qed

lemma pu_pages_sum:
  fixes v :: "'a \<Rightarrow> int"
  assumes "length pgs = NUM_PAGES"
  shows "(\<Sum>u<NUM_PU. sum_list (map v (pu_pages pgs u))) = sum_list (map v pgs)"
proof -
  have "sum_list (map v (pu_pages pgs u)) = (\<Sum>i<PAGES_PER_PU. v (pgs ! (i * NUM_PU + u)))" for u
    by (simp add: pu_pages_def sum_list_sum_nth atLeast0LessThan)
  moreover have "sum_list (map v pgs) = (\<Sum>k<length pgs. v (pgs ! k))"
    by (simp add: sum_list_sum_nth atLeast0LessThan)
  moreover have "PAGES_PER_PU * NUM_PU = length pgs"
    using assms by (simp add: PAGES_PER_PU_def NUM_PU_def NUM_PAGES_def NUM_WORDS_def
        NUM_BYTES_def WORDS_PER_PAGE_def k_WORD_SZ_def PAGE_SZ_def)
  ultimately show ?thesis
    using split_range [where f = "\<lambda>k. v (pgs ! k)" and m = PAGES_PER_PU and n = NUM_PU] by simp
qed

lemma pu_loop:
  assumes "\<And>u acc. u < NUM_PU \<Longrightarrow> body u acc = Inr (acc + word_of_int (f u))" "u + n \<le> NUM_PU"
  shows "rloop n body u (acc :: i64) = Inr (acc + word_of_int (\<Sum>v<n. f (u + v)))"
  using assms(2)
proof (induction n arbitrary: u acc)
  case 0
  then show ?case by simp
next
  case (Suc n)
  have "(\<Sum>v<Suc n. f (u + v)) = f u + (\<Sum>v<n. f (Suc u + v))"
    by (subst sum.lessThan_Suc_shift) simp
  with Suc assms(1) show ?case by (simp add: add.assoc)
qed

text \<open>
  The contract of a page process: on a page it knows, it consumes exactly that page and returns
  the page's value. Both versions of the kernel deal such a process out in the same way.
\<close>

locale page_process =
  fixes paged :: "(nat \<Rightarrow> nat \<Rightarrow> u8 list) \<Rightarrow> u8 list \<Rightarrow> (i64 \<times> u8 list) res"
    and ok :: "'p \<Rightarrow> bool" and bytes :: "'p \<Rightarrow> u8 list" and val :: "'p \<Rightarrow> int"
  assumes page_size: "ok p \<Longrightarrow> length (bytes p) = PAGE_SZ"
    and page_law: "ok p \<Longrightarrow> \<forall>t f. length (junk t f) = NMRC_FIELD_SZ \<Longrightarrow>
      paged junk (bytes p @ rest) = Inr (word_of_int (val p), rest)"
begin

lemma pages_loop:
  assumes "\<forall>p \<in> set ps. ok p" "\<forall>i t f. length (junk i t f) = NMRC_FIELD_SZ"
  shows "rloop (length ps) (\<lambda>i (acc, strm). rbind (paged (junk i) strm) (\<lambda>(s, strm'). Inr (acc + s, strm'))) i
      (acc, concat (map bytes ps) @ rest)
    = Inr (acc + word_of_int (sum_list (map val ps)), rest)"
  using assms(1)
proof (induction ps arbitrary: i acc)
  case Nil
  then show ?case by simp
next
  case (Cons p ps)
  have "paged (junk i) (bytes p @ concat (map bytes ps) @ rest) = Inr (word_of_int (val p), concat (map bytes ps) @ rest)"
    using Cons.prems assms(2) by (intro page_law) auto
  then show ?case using Cons by (simp add: add.assoc)
qed

text \<open>The pages of one unit, from its input stream.\<close>

definition unit_sum :: "(nat \<Rightarrow> nat \<Rightarrow> nat \<Rightarrow> u8 list) \<Rightarrow> u8 list list \<Rightarrow> i64 res" where
  "unit_sum junk strm = rbind (pageToByte strm) (\<lambda>(_, byteStream).
     rbind (rloop PAGES_PER_PU (\<lambda>i (acc, strm). rbind (paged (junk i) strm) (\<lambda>(s, strm'). Inr (acc + s, strm'))) 0
       (0, byteStream)) (\<lambda>(s, _). Inr s))"

lemma block_law:
  assumes "\<forall>p \<in> set ps. ok p" "length ps = NUM_PAGES" "\<forall>u i t f. length (junk u i t f) = NMRC_FIELD_SZ"
  shows "rbind (k_read (words_of NUM_WORDS (concat (map bytes ps))) (replicate NUM_PU [])) (\<lambda>inStream.
      rloop NUM_PU (\<lambda>u acc. rbind (rd inStream u) (\<lambda>strm. rbind (unit_sum (junk u) strm) (\<lambda>s. Inr (acc + s)))) 0 0)
    = Inr (word_of_int (sum_list (map val ps)))"
proof -
  let ?pgs = "map bytes ps"
  have sz: "\<forall>pg \<in> set ?pgs. length pg = PAGE_SZ" "length ?pgs = NUM_PAGES"
    using assms(1,2) page_size by auto
  let ?in = "map (\<lambda>u. concat (map (\<lambda>i. pg_words (words_of NUM_WORDS (concat ?pgs)) (i * NUM_PU + u))
    [0..<PAGES_PER_PU])) [0..<NUM_PU]"
  have mp: "pu_pages ?pgs u = map bytes (pu_pages ps u)" if "u < NUM_PU" for u
    using that assms(2) pu_index [of _ u] by (auto simp: pu_pages_def)
  have wf: "\<forall>p \<in> set (pu_pages ps u). ok p" if "u < NUM_PU" for u
    using that assms(1,2) pu_index [of _ u] by (auto simp: pu_pages_def)
  have "unit_sum (junk u) (?in ! u) = Inr (word_of_int (sum_list (map val (pu_pages ps u))))" if u: "u < NUM_PU" for u
  proof -
    have "pageToByte (?in ! u) = Inr ([], concat (map bytes (pu_pages ps u)))"
      unfolding mp [OF u, symmetric] using u by (intro pageToByte_pages [OF sz u]) simp
    moreover have "length (pu_pages ps u) = PAGES_PER_PU" by (simp add: pu_pages_def)
    ultimately show ?thesis
      using pages_loop [OF wf [OF u], of "junk u" 0 0 "[]"] assms(3) by (simp add: unit_sum_def)
  qed
  then have "rloop NUM_PU (\<lambda>u acc. rbind (rd ?in u) (\<lambda>strm. rbind (unit_sum (junk u) strm) (\<lambda>s. Inr (acc + s)))) 0 0
      = Inr (0 + word_of_int (\<Sum>u<NUM_PU. sum_list (map val (pu_pages ps (0 + u)))))"
    by (intro pu_loop) auto
  moreover have "length (words_of NUM_WORDS (concat ?pgs)) = NUM_WORDS" by simp
  ultimately show ?thesis
    using pu_pages_sum [OF assms(2), of val] by (simp add: k_read_law)
qed

end

interpretation packed: page_process k_q6_paged "\<lambda>(lis, dead). wf_page lis dead" "\<lambda>(lis, dead). page_of lis dead"
  "\<lambda>(lis, dead). q6_spec lis"
  by unfold_locales (auto simp: wf_page_def k_q6_paged_law)

lemma pu_body_unit:
  "pu_body junk inStream u acc = rbind (rd inStream u) (\<lambda>strm. rbind (packed.unit_sum (junk u) strm) (\<lambda>s. Inr (acc + s)))"
  by (simp add: pu_body_def packed.unit_sum_def q6_def q6_body_def [abs_def] rbind_assoc case_prod_unfold comp_def)

lemma fpga_q6_law:
  assumes "wf_block pgs" "\<forall>u i t f. length (junk u i t f) = NMRC_FIELD_SZ"
  shows "fpga_q6 junk (words_of NUM_WORDS (block_of pgs)) = Inr (word_of_int (q6_spec (rows_of pgs)))"
proof -
  have "length pgs = NUM_PAGES" "\<forall>p \<in> set pgs. (\<lambda>(lis, dead). wf_page lis dead) p"
    using assms(1) by (auto simp: wf_block_def list_all_iff NUM_PAGES_def NUM_WORDS_def NUM_BYTES_def
        WORDS_PER_PAGE_def k_WORD_SZ_def PAGE_SZ_def)
  note law = packed.block_law [OF this(2,1) assms(2)]
  have "sum_list (map (\<lambda>(lis, dead). q6_spec lis) pgs) = q6_spec (rows_of pgs)"
    by (simp add: rows_of_def q6_spec_concat comp_def case_prod_unfold)
  with law show ?thesis
    by (simp add: fpga_q6_def flowWrap_def pu_body_unit [abs_def] block_of_def)
qed

end
