(* ===== verification/Swemu.thy ===== *)
theory Swemu
  imports Field_Parser
begin

unbundle bit_operations_syntax

text \<open>
  The software emulation of the query on the host, \<^verbatim>\<open>xql6/host/q6_swemu.c\<close>: a reader that
  fetches 8-byte words from a page and hands out bytes, the field functions on top of it, the
  per-page query \<open>q6_paged\<close> and the per-block entry \<open>q6_swemu\<close>.
  The static variables \<open>off\<close>, \<open>woff\<close>, \<open>woffMax\<close>, \<open>p_buf\<close>, \<open>bufIdx\<close>, \<open>p_word\<close>
  of the file are the record \<open>rdr\<close>, passed through every function.
\<close>

section \<open>The word reader\<close>

definition WORD_SZ :: nat where "WORD_SZ = 8"

record rdr =
  off :: nat
  woff :: nat
  woffMax :: nat
  p_buf :: "u8 list"
  bufIdx :: nat
  p_word :: "u8 list"

text \<open>\<open>for (i=0; i<WORD_SZ; ++i) p_word [i] = p_buf [bufIdx++]\<close>\<close>

definition getWord_body :: "nat \<Rightarrow> rdr \<Rightarrow> rdr res" where
  "getWord_body i s =
     rbind (rd (p_buf s) (bufIdx s)) (\<lambda>b.
     rbind (wr (p_word s) i b) (\<lambda>w.
       Inr (s\<lparr>p_word := w, bufIdx := bufIdx s + 1\<rparr>)))"

definition getWord :: "rdr \<Rightarrow> (nat \<times> rdr) res" where
  "getWord s = (if bufIdx s \<ge> PAGE_SZ then Inr (0, s)
     else rbind (rloop WORD_SZ getWord_body 0 s) (\<lambda>s'. Inr (WORD_SZ, s')))"

definition resetBuf :: "rdr \<Rightarrow> rdr" where
  "resetBuf s = s\<lparr>bufIdx := 0, woff := WORD_SZ, woffMax := WORD_SZ\<rparr>"

text \<open>\<open>None\<close> is the return value 0 (\<open>*p_ch\<close> unchanged), \<open>Some\<close> is 1 with the byte stored.\<close>

definition getByte :: "rdr \<Rightarrow> (u8 option \<times> rdr) res" where
  "getByte s =
     rbind (if woff s = woffMax s
            then rbind (getWord s) (\<lambda>(n, s1). Inr (s1\<lparr>woffMax := n, woff := 0\<rparr>))
            else Inr s)
       (\<lambda>s2. if woff s2 = woffMax s2 then Inr (None, s2)
             else rbind (rd (p_word s2) (woff s2)) (\<lambda>b.
               Inr (Some b, s2\<lparr>off := off s2 + 1, woff := woff s2 + 1\<rparr>)))"

definition getHeaderInt :: "rdr \<Rightarrow> (nat \<times> rdr) res" where
  "getHeaderInt s =
     rbind (getByte s) (\<lambda>(c1, s1). case c1 of None \<Rightarrow> Inl (ExitCall 50) | Some ch1 \<Rightarrow>
     rbind (getByte s1) (\<lambda>(c2, s2). case c2 of None \<Rightarrow> Inl (ExitCall 51) | Some ch2 \<Rightarrow>
       Inr (unat (push_bit 8 (ucast ch2) OR ucast ch1 :: u32), s2)))"

text \<open>\<open>for (i=0; i<nWordsToRead; ++i) woffMax = getWord ()\<close>\<close>

definition skip_body :: "nat \<Rightarrow> rdr \<Rightarrow> rdr res" where
  "skip_body i s = rbind (getWord s) (\<lambda>(n, s1). Inr (s1\<lparr>woffMax := n\<rparr>))"

definition skipBytes :: "nat \<Rightarrow> rdr \<Rightarrow> rdr res" where
  "skipBytes fLen s =
     (let nWordsToRead = (woff s + fLen) div WORD_SZ in
      rbind (rloop nWordsToRead skip_body 0 s) (\<lambda>s1.
        Inr (s1\<lparr>off := off s1 + fLen, woff := (woff s1 + fLen) mod WORD_SZ\<rparr>)))"

section \<open>Fields\<close>

text \<open>
  The alignment loop \<open>for (i=off; i< aoff; ++i) if (! getByte (&ch)) return 0\<close>; the flag says
  whether the loop ran to its end.
\<close>

fun align_loop :: "nat \<Rightarrow> rdr \<Rightarrow> (bool \<times> rdr) res" where
  "align_loop 0 s = Inr (True, s)"
| "align_loop (Suc n) s =
     rbind (getByte s) (\<lambda>(c, s1). case c of None \<Rightarrow> Inr (False, s1) | Some _ \<Rightarrow> align_loop n s1)"

text \<open>
  The branch for four-byte headers. Its condition is
  \<open>(ch & 0x03 == 0) || (ch & 0x03 == 2)\<close>, where \<open>==\<close> binds tighter than \<open>&\<close>.
\<close>

definition long_header_cond :: "u8 \<Rightarrow> bool" where
  "long_header_cond ch \<longleftrightarrow>
     ch AND of_bool ((0x03 :: u8) = 0) \<noteq> 0 \<or> ch AND of_bool ((0x03 :: u8) = 2) \<noteq> 0"

fun long_len_loop :: "nat \<Rightarrow> nat \<Rightarrow> u32 \<Rightarrow> rdr \<Rightarrow> (u32 \<times> rdr) res" where
  "long_len_loop i 0 fLen s = Inr (fLen, s)"
| "long_len_loop i (Suc n) fLen s =
     rbind (getByte s) (\<lambda>(c, s1). case c of None \<Rightarrow> Inl (ExitCall 2)
       | Some ch \<Rightarrow> long_len_loop (Suc i) n (fLen OR push_bit (i * 8) (ucast ch)) s1)"

definition getFieldLen :: "nat \<Rightarrow> rdr \<Rightarrow> (nat \<times> rdr) res" where
  "getFieldLen fPtr s =
     (if attrLens ! fPtr \<noteq> -1 then
        (let fLen = nat (attrLens ! fPtr) in
         if align ! fPtr then
           (let aoff = INTALIGN (off s) in
            if aoff \<noteq> off s then
              rbind (align_loop (aoff - off s) s) (\<lambda>(ok, s1). Inr (if ok then fLen else 0, s1))
            else Inr (fLen, s))
         else Inr (fLen, s))
      else
        rbind (getByte s) (\<lambda>(c, s1). case c of None \<Rightarrow> Inr (0, s1) | Some ch \<Rightarrow>
          if long_header_cond ch then
            rbind (long_len_loop 0 3 (ucast (drop_bit 2 ch)) s1) (\<lambda>(fLen, s2).
              Inr (unat (fLen - 4), s2))
          else if ch = 0x01 then Inl NoReturnValue
          else if ch AND 0x01 \<noteq> 0 then Inr (unat (drop_bit 1 ch) - 1, s1)
          else Inl NoReturnValue))"

definition FIELD_SZ :: nat where "FIELD_SZ = 16"

text \<open>The result says whether the function returned 1; \<open>fData\<close> is the caller's buffer.\<close>

fun getField_loop :: "nat \<Rightarrow> nat \<Rightarrow> u8 list \<Rightarrow> rdr \<Rightarrow> (bool \<times> u8 list \<times> rdr) res" where
  "getField_loop i 0 fData s = Inr (True, fData, s)"
| "getField_loop i (Suc n) fData s =
     rbind (getByte s) (\<lambda>(c, s1). case c of None \<Rightarrow> Inr (False, fData, s1)
       | Some ch \<Rightarrow> rbind (wr fData i ch) (\<lambda>fData'. getField_loop (Suc i) n fData' s1))"

definition getField :: "nat \<Rightarrow> u8 list \<Rightarrow> rdr \<Rightarrow> (bool \<times> u8 list \<times> rdr) res" where
  "getField fLen fData s = getField_loop 0 fLen fData s"

section \<open>The query on a page and on a block\<close>

text \<open>The locals of the tuple loop.\<close>

record cols =
  shipDate :: int
  discount :: i64
  quantity :: i64
  extPrice :: i64

definition cols0 :: cols where
  "cols0 = \<lparr>shipDate = 0, discount = 0, quantity = 0, extPrice = 0\<rparr>"

text \<open>
  The field loop from field \<open>fPtr\<close> on, \<open>n\<close> fields to go; the flag is \<open>eof\<close>.
  \<open>skipBytes\<close> always returns 1, so its end-of-file branch is never taken.
\<close>

fun fields_loop :: "nat \<Rightarrow> nat \<Rightarrow> cols \<Rightarrow> u8 list \<Rightarrow> rdr \<Rightarrow> (bool \<times> cols \<times> u8 list \<times> rdr) res" where
  "fields_loop fPtr 0 c fData s = Inr (False, c, fData, s)"
| "fields_loop fPtr (Suc n) c fData s =
     rbind (getFieldLen fPtr s) (\<lambda>(fLen, s1).
       if \<not> (fPtr = 4 \<or> fPtr = 5 \<or> fPtr = 6 \<or> fPtr = 10) then
         rbind (skipBytes fLen s1) (\<lambda>s2. fields_loop (Suc fPtr) n c fData s2)
       else
         rbind (getField fLen fData s1) (\<lambda>(ok, fData', s2).
           if \<not> ok then Inr (True, c, fData', s2)
           else rbind
             (if fPtr = 4 then rbind (snumToLong3 fData' (int fLen)) (\<lambda>v. Inr (c\<lparr>quantity := v\<rparr>))
              else if fPtr = 5 then rbind (snumToLong3 fData' (int fLen)) (\<lambda>v. Inr (c\<lparr>extPrice := v\<rparr>))
              else if fPtr = 6 then rbind (snumToLong3 fData' (int fLen)) (\<lambda>v. Inr (c\<lparr>discount := v\<rparr>))
              else rbind (getJdate fData') (\<lambda>v. Inr (c\<lparr>shipDate := v\<rparr>)))
             (\<lambda>c'. fields_loop (Suc fPtr) n c' fData' s2)))"

definition jd19940101 :: int where "jd19940101 = date2j 1994 1 1 - POSTGRES_EPOCH_JDATE"
definition jd19950101 :: int where "jd19950101 = date2j 1995 1 1 - POSTGRES_EPOCH_JDATE"

definition row_sum :: "cols \<Rightarrow> i64 \<Rightarrow> i64" where
  "row_sum c acc =
     (if shipDate c \<ge> jd19940101 \<and> shipDate c < jd19950101
         \<and> sint (discount c) \<ge> 5 \<and> sint (discount c) \<le> 7 \<and> sint (quantity c) < 2400
      then acc + extPrice c * discount c else acc)"

text \<open>The tuple loop; \<open>if (eof) break\<close> leaves it with the sum so far.\<close>

fun tuples_loop :: "nat \<Rightarrow> i64 \<Rightarrow> u8 list \<Rightarrow> rdr \<Rightarrow> (i64 \<times> rdr) res" where
  "tuples_loop 0 acc fData s = Inr (acc, s)"
| "tuples_loop (Suc n) acc fData s =
     rbind (fields_loop 0 nAttr cols0 fData (s\<lparr>off := 0\<rparr>)) (\<lambda>(eof, c, fData', s1).
       if eof then Inr (acc, s1) else tuples_loop n (row_sum c acc) fData' s1)"

text \<open>\<open>fData0\<close> is the indeterminate initial content of the local array \<open>fData\<close>.\<close>

definition q6_paged :: "u8 list \<Rightarrow> rdr \<Rightarrow> (i64 \<times> rdr) res" where
  "q6_paged fData0 s =
     rbind (getHeaderInt (resetBuf s)) (\<lambda>(nTups, s1). tuples_loop nTups 0 fData0 s1)"

definition BLK_SZ :: nat where "BLK_SZ = 2 * 1024 * 1024"
definition PAGES_PER_BLK :: nat where "PAGES_PER_BLK = BLK_SZ div PAGE_SZ"

text \<open>\<open>memcpy (p_buf, p_blk, PAGE_SZ); p_blk += PAGE_SZ; q6_sum += q6_paged ()\<close>, \<open>page\<close> up.\<close>

fun swemu_pages :: "(nat \<Rightarrow> u8 list) \<Rightarrow> nat \<Rightarrow> nat \<Rightarrow> u8 list \<Rightarrow> i64 \<Rightarrow> rdr \<Rightarrow> (i64 \<times> rdr) res" where
  "swemu_pages junk page 0 p_blk q6_sum s = Inr (q6_sum, s)"
| "swemu_pages junk page (Suc n) p_blk q6_sum s =
     rbind (subarr p_blk (page * PAGE_SZ) PAGE_SZ) (\<lambda>pg.
     rbind (q6_paged (junk page) (s\<lparr>p_buf := pg\<rparr>)) (\<lambda>(r, s1).
       swemu_pages junk (Suc page) n p_blk (q6_sum + r) s1))"

text \<open>
  \<open>junk\<close> gives the indeterminate bytes of \<open>fData\<close> in each call; the malloc'ed page
  buffer is always overwritten before it is read, so its initial content does not appear.
\<close>

definition q6_swemu :: "(nat \<Rightarrow> u8 list) \<Rightarrow> u8 list \<Rightarrow> rdr \<Rightarrow> (i64 \<times> rdr) res" where
  "q6_swemu junk p_blk s =
     rbind (swemu_pages junk 0 PAGES_PER_BLK p_blk 0 s) (\<lambda>(q6_sum, s1). Inr (q6_sum, s1\<lparr>p_buf := []\<rparr>))"

section \<open>The word reader delivers the page byte by byte\<close>

text \<open>
  The bytes not yet handed out, and the invariant of the reader between calls: a
  fetched word is the one before \<open>bufIdx\<close>, and a failed fetch leaves both word offsets at 0.
\<close>

definition unread :: "rdr \<Rightarrow> u8 list" where
  "unread s = drop (bufIdx s - (woffMax s - woff s)) (p_buf s)"

definition rdr_inv :: "rdr \<Rightarrow> bool" where
  "rdr_inv s \<longleftrightarrow> length (p_buf s) = PAGE_SZ \<and> length (p_word s) = WORD_SZ
     \<and> WORD_SZ dvd bufIdx s \<and> bufIdx s \<le> PAGE_SZ \<and> woff s \<le> woffMax s
     \<and> (woffMax s = WORD_SZ \<or> woffMax s = 0 \<and> bufIdx s = PAGE_SZ)
     \<and> (woff s < woffMax s \<longrightarrow> WORD_SZ \<le> bufIdx s
          \<and> p_word s = take WORD_SZ (drop (bufIdx s - WORD_SZ) (p_buf s)))"

lemma getWord_loop:
  assumes "bufIdx s + n \<le> length (p_buf s)" "i + n \<le> length (p_word s)"
  shows "rloop n getWord_body i s = Inr (s\<lparr>bufIdx := bufIdx s + n,
     p_word := take i (p_word s) @ take n (drop (bufIdx s) (p_buf s)) @ drop (i + n) (p_word s)\<rparr>)"
  using assms
proof (induction n arbitrary: i s)
  case 0
  then show ?case by simp
next
  case (Suc n)
  let ?w = "(p_word s)[i := p_buf s ! bufIdx s]"
  let ?s1 = "s\<lparr>p_word := ?w, bufIdx := bufIdx s + 1\<rparr>"
  have b: "getWord_body i s = Inr ?s1"
    using Suc.prems by (simp add: getWord_body_def)
  have "rloop n getWord_body (Suc i) ?s1 = Inr (?s1\<lparr>bufIdx := bufIdx ?s1 + n,
     p_word := take (Suc i) (p_word ?s1) @ take n (drop (bufIdx ?s1) (p_buf ?s1))
       @ drop (Suc i + n) (p_word ?s1)\<rparr>)"
    using Suc.prems by (intro Suc.IH) auto
  moreover have "take (Suc i) ?w = take i (p_word s) @ [p_buf s ! bufIdx s]"
    using Suc.prems by (simp add: take_Suc_conv_app_nth)
  moreover have "take (Suc n) (drop (bufIdx s) (p_buf s))
      = p_buf s ! bufIdx s # take n (drop (Suc (bufIdx s)) (p_buf s))"
    using Suc.prems by (simp add: drop_eq_Cons_nth)
  ultimately show ?case using b Suc.prems by simp
qed

lemma getWord_eof: "PAGE_SZ \<le> bufIdx s \<Longrightarrow> getWord s = Inr (0, s)"
  by (simp add: getWord_def)

lemma getWord_word:
  assumes "length (p_buf s) = PAGE_SZ" "length (p_word s) = WORD_SZ" "bufIdx s + WORD_SZ \<le> PAGE_SZ"
  shows "getWord s = Inr (WORD_SZ, s\<lparr>bufIdx := bufIdx s + WORD_SZ,
     p_word := take WORD_SZ (drop (bufIdx s) (p_buf s))\<rparr>)"
proof -
  have "0 < WORD_SZ" by (simp add: WORD_SZ_def)
  with assms show ?thesis
    by (simp add: getWord_def getWord_loop)
qed

lemma aligned_end: "WORD_SZ dvd i \<Longrightarrow> i < PAGE_SZ \<Longrightarrow> i + WORD_SZ \<le> PAGE_SZ"
  unfolding WORD_SZ_def PAGE_SZ_def by presburger

lemma getByte_none:
  assumes "rdr_inv s" "unread s = []"
  shows "\<exists>s'. getByte s = Inr (None, s') \<and> rdr_inv s' \<and> unread s' = []"
proof -
  have "woff s = woffMax s" "bufIdx s = PAGE_SZ"
    using assms by (auto simp: rdr_inv_def unread_def WORD_SZ_def PAGE_SZ_def)
  then show ?thesis
    using assms by (auto simp: getByte_def getWord_eof rdr_inv_def unread_def)
qed

lemma getByte_some:
  assumes "rdr_inv s" "unread s = b # bs"
  shows "\<exists>s'. getByte s = Inr (Some b, s') \<and> rdr_inv s' \<and> unread s' = bs \<and> off s' = off s + 1"
proof (cases "woff s = woffMax s")
  case True
  then have d: "drop (bufIdx s) (p_buf s) = b # bs"
    using assms by (simp add: unread_def)
  then have "bufIdx s < length (p_buf s)"
    by (metis drop_all linorder_not_le list.distinct(1))
  then have lt: "bufIdx s < PAGE_SZ" "WORD_SZ dvd bufIdx s"
    using assms by (auto simp: rdr_inv_def)
  then have "woffMax s = WORD_SZ" using assms by (auto simp: rdr_inv_def)
  let ?w = "take WORD_SZ (drop (bufIdx s) (p_buf s))"
  have gw: "getWord s = Inr (WORD_SZ, s\<lparr>bufIdx := bufIdx s + WORD_SZ, p_word := ?w\<rparr>)"
    using assms lt by (intro getWord_word aligned_end) (auto simp: rdr_inv_def)
  have nz: "0 < WORD_SZ" by (simp add: WORD_SZ_def)
  with d have w0: "?w ! 0 = b" and "0 < length ?w" by (simp_all add: take_Cons')
  have bs: "drop (Suc (bufIdx s)) (p_buf s) = bs"
    using drop_eq_appendD [of "bufIdx s" "p_buf s" "[b]" bs] d by simp
  show ?thesis
    using True nz gw w0 \<open>0 < length ?w\<close> bs lt aligned_end [OF lt(2,1)] assms(1)
    by (simp add: getByte_def rdr_inv_def unread_def)
next
  case False
  then have w: "woff s < woffMax s" "woffMax s = WORD_SZ" "WORD_SZ \<le> bufIdx s"
    "p_word s = take WORD_SZ (drop (bufIdx s - WORD_SZ) (p_buf s))"
    using assms by (auto simp: rdr_inv_def)
  have d: "drop (bufIdx s - WORD_SZ + woff s) (p_buf s) = b # bs"
    using assms w by (simp add: unread_def)
  have k: "bufIdx s - WORD_SZ \<le> length (p_buf s)"
    using assms(1) unfolding rdr_inv_def by linarith
  have "p_word s ! woff s = b"
    using w(1,2) nth_via_drop [OF d] unfolding w(4) by (subst nth_take) (use k in auto)
  moreover have "drop (bufIdx s - WORD_SZ + Suc (woff s)) (p_buf s) = bs"
    using drop_eq_appendD [of _ "p_buf s" "[b]" bs] d by simp
  moreover have lw: "length (p_word s) = WORD_SZ"
    using assms(1) by (simp add: rdr_inv_def)
  ultimately have "getByte s = Inr (Some b, s\<lparr>off := off s + 1, woff := woff s + 1\<rparr>)"
    "unread (s\<lparr>off := off s + 1, woff := woff s + 1\<rparr>) = bs"
    using False w(1-3) by (simp_all add: getByte_def unread_def Suc_diff_le)
  moreover have "rdr_inv (s\<lparr>off := off s + 1, woff := woff s + 1\<rparr>)"
    using w assms(1) unfolding rdr_inv_def by auto
  ultimately show ?thesis by auto
qed


lemma unread_length: "rdr_inv s \<Longrightarrow> length (unread s) = PAGE_SZ - bufIdx s + (woffMax s - woff s)"
  by (auto simp: rdr_inv_def unread_def)

lemma skip_words:
  assumes "length (p_buf s) = PAGE_SZ" "length (p_word s) = WORD_SZ"
    and "bufIdx s + WORD_SZ * n \<le> PAGE_SZ"
  shows "rloop n skip_body i s = Inr (if n = 0 then s else s\<lparr>bufIdx := bufIdx s + WORD_SZ * n,
     woffMax := WORD_SZ,
     p_word := take WORD_SZ (drop (bufIdx s + WORD_SZ * n - WORD_SZ) (p_buf s))\<rparr>)"
  using assms
proof (induction n arbitrary: i s)
  case 0
  then show ?case by simp
next
  case (Suc n)
  let ?s1 = "s\<lparr>bufIdx := bufIdx s + WORD_SZ, p_word := take WORD_SZ (drop (bufIdx s) (p_buf s)),
    woffMax := WORD_SZ\<rparr>"
  have "skip_body i s = Inr ?s1"
    using Suc.prems by (simp add: skip_body_def getWord_word)
  moreover have "rloop n skip_body (Suc i) ?s1 = Inr (if n = 0 then ?s1 else
     ?s1\<lparr>bufIdx := bufIdx ?s1 + WORD_SZ * n, woffMax := WORD_SZ,
     p_word := take WORD_SZ (drop (bufIdx ?s1 + WORD_SZ * n - WORD_SZ) (p_buf ?s1))\<rparr>)"
    using Suc.prems by (intro Suc.IH) auto
  ultimately show ?case by (simp add: algebra_simps)
qed

lemma skipBytes_law:
  assumes inv: "rdr_inv s" and len: "n \<le> length (unread s)"
  shows "\<exists>s'. skipBytes n s = Inr s' \<and> rdr_inv s' \<and> unread s' = drop n (unread s)
    \<and> off s' = off s + n"
proof -
  define w where "w = (woff s + n) div WORD_SZ"
  define m where "m = (woff s + n) mod WORD_SZ"
  have nw: "woff s + n = WORD_SZ * w + m" "m < WORD_SZ"
    by (simp_all add: w_def m_def WORD_SZ_def)
  have I: "length (p_buf s) = PAGE_SZ" "length (p_word s) = WORD_SZ" "WORD_SZ dvd bufIdx s"
    "bufIdx s \<le> PAGE_SZ" "woff s \<le> woffMax s"
    using inv by (auto simp: rdr_inv_def)
  have sk: "skipBytes n s = rbind (rloop w skip_body 0 s)
      (\<lambda>s1. Inr (s1\<lparr>off := off s1 + n, woff := (woff s1 + n) mod WORD_SZ\<rparr>))"
    by (simp add: skipBytes_def w_def)
  consider "w = 0" | "0 < w" "bufIdx s + WORD_SZ * w \<le> PAGE_SZ"
    | "0 < w" "PAGE_SZ < bufIdx s + WORD_SZ * w" by linarith
  then show ?thesis
  proof cases
    case 1
    then have "woff s + n = m" using nw by simp
    moreover have "woff s + n \<le> woffMax s"
      using inv len nw 1 unread_length [OF inv] by (auto simp: rdr_inv_def)
    moreover have "woff s < woffMax s \<longrightarrow> WORD_SZ \<le> bufIdx s" "woffMax s \<le> WORD_SZ"
      using inv by (auto simp: rdr_inv_def)
    ultimately have "bufIdx s - (woffMax s - (woff s + n)) = n + (bufIdx s - (woffMax s - woff s))"
      using I(5) by (cases "woff s = woffMax s") auto
    then show ?thesis
      using 1 sk inv nw \<open>woff s + n = m\<close> \<open>woff s + n \<le> woffMax s\<close>
      by (auto simp: rdr_inv_def unread_def m_def [symmetric] add.commute)
  next
    case 2
    have "0 < WORD_SZ" by (simp add: WORD_SZ_def)
    with 2 have wm: "woffMax s = WORD_SZ" using inv by (auto simp: rdr_inv_def)
    let ?s1 = "s\<lparr>bufIdx := bufIdx s + WORD_SZ * w, woffMax := WORD_SZ,
      p_word := take WORD_SZ (drop (bufIdx s + WORD_SZ * w - WORD_SZ) (p_buf s))\<rparr>"
    have "rloop w skip_body 0 s = Inr ?s1"
      using skip_words [OF I(1,2) 2(2)] 2(1) by simp
    then have s': "skipBytes n s = Inr (?s1\<lparr>off := off s + n, woff := m\<rparr>)"
      by (simp add: sk m_def)
    have "WORD_SZ \<le> WORD_SZ * w" using 2(1) by simp
    moreover have "woff s < WORD_SZ \<longrightarrow> WORD_SZ \<le> bufIdx s" using inv wm by (auto simp: rdr_inv_def)
    ultimately have "bufIdx s + WORD_SZ * w - (WORD_SZ - m) = n + (bufIdx s - (WORD_SZ - woff s))"
      using nw I(5) wm by (cases "woff s = WORD_SZ") auto
    then have "drop (bufIdx s + WORD_SZ * w - (WORD_SZ - m)) (p_buf s) = drop n (unread s)"
      by (simp add: unread_def wm add.commute)
    moreover have ge: "WORD_SZ \<le> bufIdx s + WORD_SZ * w"
      using \<open>WORD_SZ \<le> WORD_SZ * w\<close> by (rule trans_le_add2)
    moreover have "min (PAGE_SZ - (bufIdx s + WORD_SZ * w - WORD_SZ)) WORD_SZ = WORD_SZ"
      by (rule min_absorb2) (use ge 2(2) in linarith)
    ultimately show ?thesis
      using s' I 2 nw by (auto simp: rdr_inv_def unread_def)
  next
    case 3
    then obtain v where v: "w = Suc v" by (cases w) auto
    have wm: "woffMax s = WORD_SZ"
    proof (rule ccontr)
      assume "woffMax s \<noteq> WORD_SZ"
      then have "woff s + n = 0"
        using inv len unread_length [OF inv] by (auto simp: rdr_inv_def)
      with 3(1) show False by (simp add: w_def)
    qed
    have "woff s + n \<le> PAGE_SZ - bufIdx s + WORD_SZ"
      using len wm I(5) by (simp add: unread_length [OF inv])
    then have le: "bufIdx s + WORD_SZ * v + m \<le> PAGE_SZ"
      using nw(1) v I(4) by (simp add: algebra_simps)
    have "WORD_SZ dvd bufIdx s + WORD_SZ * v" using I(3) by simp
    with le 3(2) v have ends: "bufIdx s + WORD_SZ * v = PAGE_SZ" "m = 0"
      using aligned_end [of "bufIdx s + WORD_SZ * v"] by (cases "bufIdx s + WORD_SZ * v < PAGE_SZ"; simp)+
    let ?s1 = "if v = 0 then s else s\<lparr>bufIdx := bufIdx s + WORD_SZ * v, woffMax := WORD_SZ,
      p_word := take WORD_SZ (drop (bufIdx s + WORD_SZ * v - WORD_SZ) (p_buf s))\<rparr>"
    have "getWord ?s1 = Inr (0, ?s1)"
      by (rule getWord_eof) (use ends(1) in auto)
    then have "skip_body v ?s1 = Inr (?s1\<lparr>woffMax := 0\<rparr>)"
      by (simp add: skip_body_def)
    moreover have "rloop v skip_body 0 s = Inr ?s1"
      by (rule skip_words [OF I(1,2)]) (use ends(1) in simp)
    ultimately have "rloop w skip_body 0 s = Inr (?s1\<lparr>woffMax := 0\<rparr>)"
      using rloop_add [of v 1 skip_body 0 s] by (simp add: v)
    then have s': "skipBytes n s = Inr (?s1\<lparr>woffMax := 0, off := off s + n, woff := 0\<rparr>)"
      using ends(2) by (simp add: sk m_def)
    have "length (unread s) \<le> n"
      using nw(1) v ends wm I(5) by (simp add: unread_length [OF inv])
    then show ?thesis
      using s' I ends by (auto simp: rdr_inv_def unread_def WORD_SZ_def PAGE_SZ_def)
  qed
qed


section \<open>The field functions on well-formed fields\<close>

lemma align_loop_law:
  assumes "rdr_inv s" "unread s = bs @ r"
  shows "\<exists>s'. align_loop (length bs) s = Inr (True, s') \<and> rdr_inv s' \<and> unread s' = r
    \<and> off s' = off s + length bs"
  using assms
proof (induction bs arbitrary: s)
  case Nil
  then show ?case by simp
next
  case (Cons b bs)
  then obtain s1 where "getByte s = Inr (Some b, s1)" "rdr_inv s1" "unread s1 = bs @ r"
    "off s1 = off s + 1"
    using getByte_some [of s b "bs @ r"] by auto
  with Cons.IH [of s1] show ?case by auto
qed

lemma getField_loop_law:
  assumes "rdr_inv s" "unread s = bs @ r" "i + length bs \<le> length fData"
  shows "\<exists>s'. getField_loop i (length bs) fData s
      = Inr (True, take i fData @ bs @ drop (i + length bs) fData, s')
    \<and> rdr_inv s' \<and> unread s' = r \<and> off s' = off s + length bs"
  using assms
proof (induction bs arbitrary: i fData s)
  case Nil
  then show ?case by simp
next
  case (Cons b bs)
  then obtain s1 where s1: "getByte s = Inr (Some b, s1)" "rdr_inv s1" "unread s1 = bs @ r"
    "off s1 = off s + 1"
    using getByte_some [of s b "bs @ r"] by auto
  obtain s' where "getField_loop (Suc i) (length bs) (fData[i := b]) s1
      = Inr (True, take (Suc i) (fData[i := b]) @ bs @ drop (Suc i + length bs) (fData[i := b]), s')"
    "rdr_inv s'" "unread s' = r" "off s' = off s1 + length bs"
    using Cons.IH [of s1 "Suc i" "fData[i := b]"] s1 Cons.prems(3) by auto
  moreover have "take (Suc i) (fData[i := b]) = take i fData @ [b]"
    using Cons.prems(3) by (simp add: take_Suc_conv_app_nth)
  ultimately show ?case using s1 Cons.prems(3) by simp
qed

lemma long_header_cond_False [simp]: "\<not> long_header_cond ch"
  by (simp add: long_header_cond_def)

lemma getFieldLen_law:
  assumes "rdr_inv s" "f < nAttr" "wf_field f p" "off s < 2 ^ 20"
    and "unread s = enc_field f (off s) p @ r"
  shows "\<exists>s'. getFieldLen f s = Inr (length p, s') \<and> rdr_inv s' \<and> unread s' = p @ r
    \<and> off s' = off s + (length (enc_field f (off s) p) - length p)"
proof (cases "attrLens ! f \<noteq> -1")
  case True
  then have len: "nat (attrLens ! f) = length p" using assms(3) by (simp add: wf_field_def)
  have ia: "INTALIGN (off s) = 4 * ((off s + 3) div 4)" using assms(4) by (simp add: INTALIGN_eq)
  have enc: "unread s = replicate (pad_len f (off s)) 0 @ (p @ r)"
    using True assms(5) by (simp add: enc_field_def)
  obtain s' where "align_loop (pad_len f (off s)) s = Inr (True, s')" "rdr_inv s'"
    "unread s' = p @ r" "off s' = off s + pad_len f (off s)"
    using align_loop_law [OF assms(1) enc] by auto
  then show ?thesis
    using True len ia enc assms(1) by (auto simp: getFieldLen_def enc_field_def pad_len_def Let_def)
next
  case False
  then have l: "length p \<le> 126" using assms(3) by (simp add: wf_field_def)
  obtain s' where "getByte s = Inr (Some (of_nat (2 * (length p + 1) + 1)), s')" "rdr_inv s'"
    "unread s' = p @ r" "off s' = off s + 1"
    using getByte_some [OF assms(1), of "of_nat (2 * (length p + 1) + 1)" "p @ r"] assms(5) False
    by (auto simp: enc_field_def)
  then show ?thesis
    using False short_header [OF l] by (simp add: getFieldLen_def enc_field_def del: of_nat_Suc of_nat_add)
qed

section \<open>The reader offers the field interface\<close>

definition getField_ok :: "nat \<Rightarrow> u8 list \<Rightarrow> rdr \<Rightarrow> (u8 list \<times> rdr) res" where
  "getField_ok fLen fData s =
     rbind (getField fLen fData s) (\<lambda>(ok, d, s'). if ok then Inr (d, s') else Inl StreamEmpty)"

interpretation sw: field_parser rdr_inv unread off getFieldLen skipBytes getField_ok
proof (unfold_locales, goal_cases)
  case (1 s f p r)
  then show ?case by (intro getFieldLen_law)
next
  case (2 s p r)
  then show ?case using skipBytes_law [of s "length p"] by auto
next
  case (3 s p r fData)
  then show ?case
    using getField_loop_law [of s p r 0 fData] by (auto simp: getField_ok_def getField_def)
qed

section \<open>The tuple loop computes the query\<close>

definition sw_buf :: "nat \<Rightarrow> cols \<times> u8 list \<Rightarrow> u8 list" where
  "sw_buf f c = snd c"

definition sw_consume :: "nat \<Rightarrow> nat \<Rightarrow> u8 list \<Rightarrow> cols \<times> u8 list \<Rightarrow> (cols \<times> u8 list) res" where
  "sw_consume fPtr fLen d cb = (let c = fst cb in rbind
     (if fPtr = 4 then rbind (snumToLong3 d (int fLen)) (\<lambda>v. Inr (c\<lparr>quantity := v\<rparr>))
      else if fPtr = 5 then rbind (snumToLong3 d (int fLen)) (\<lambda>v. Inr (c\<lparr>extPrice := v\<rparr>))
      else if fPtr = 6 then rbind (snumToLong3 d (int fLen)) (\<lambda>v. Inr (c\<lparr>discount := v\<rparr>))
      else rbind (getJdate d) (\<lambda>v. Inr (c\<lparr>shipDate := v\<rparr>)))
     (\<lambda>c'. Inr (c', d)))"

lemma fields_loop_walk:
  "walk getFieldLen getField_ok skipBytes sw_buf sw_consume f n (c, fData) s = Inr ((c', fData'), s')
   \<Longrightarrow> fields_loop f n c fData s = Inr (False, c', fData', s')"
proof (induction n arbitrary: f c fData s)
  case 0
  then show ?case by simp
next
  case (Suc n)
  from Suc.prems obtain l s1 where l: "getFieldLen f s = Inr (l, s1)"
    by (auto simp: rbind_eq_Inr)
  show ?case
  proof (cases "wanted f")
    case False
    with Suc l show ?thesis by (auto simp: wanted_def rbind_eq_Inr)
  next
    case True
    with Suc.prems l obtain d s2 where d: "getField l fData s1 = Inr (True, d, s2)"
      by (auto simp: getField_ok_def sw_buf_def rbind_eq_Inr split: if_splits)
    with True Suc.prems l obtain cc where cc: "sw_consume f l d (c, fData) = Inr cc"
      "walk getFieldLen getField_ok skipBytes sw_buf sw_consume (Suc f) n cc s2
        = Inr ((c', fData'), s')"
      unfolding walk.simps by (auto simp: getField_ok_def sw_buf_def rbind_eq_Inr)
    then obtain c1 where "cc = (c1, d)"
      by (auto simp: sw_consume_def Let_def rbind_eq_Inr)
    note c1 = cc [unfolded this]
    from Suc.IH [OF c1(2)] True l d c1(1) show ?thesis
      by (auto simp: wanted_def sw_consume_def rbind_eq_Inr Let_def)
  qed
qed

definition cols_of :: "lineitem \<Rightarrow> cols" where
  "cols_of li = \<lparr>shipDate = l_shipdate li, discount = word_of_int (snum_cents (l_discount li)),
     quantity = word_of_int (snum_cents (l_quantity li)),
     extPrice = word_of_int (snum_cents (l_extendedprice li))\<rparr>"

lemma sw_step:
  assumes "wanted f" "length p \<le> length fData"
    and "sw_consume f (length p) (p @ drop (length p) fData) (c, fData) = Inr c'"
  shows "spec_walk sw_buf sw_consume f (p # ps) (c, fData)
    = spec_walk sw_buf sw_consume (Suc f) ps c'"
  using assms by (simp add: sw_buf_def)

lemma spec_walk_payloads:
  assumes "wf_lineitem li" "length fData = FIELD_SZ"
  shows "\<exists>fData'. length fData' = FIELD_SZ
    \<and> spec_walk sw_buf sw_consume 0 (payloads li) (cols0, fData) = Inr (cols_of li, fData')"
proof -
  let ?w = "spec_walk sw_buf sw_consume"
  let ?q = "l_quantity li" and ?p = "l_extendedprice li" and ?d = "l_discount li"
  have n: "length (l_keys li) = 4" "length (l_flags li) = 3" "length (l_rest li) = 5"
    and wf: "wf_snum ?q" "wf_snum ?p" "wf_snum ?d"
    and len: "length (enc_snum ?q) \<le> FIELD_SZ" "length (enc_snum ?p) \<le> FIELD_SZ"
      "length (enc_snum ?d) \<le> FIELD_SZ"
    and dt: "- (2 ^ 31) \<le> l_shipdate li" "l_shipdate li < 2 ^ 31"
    using assms(1) by (auto simp: wf_lineitem_def wf_money_def FIELD_SZ_def)
  define over where "over p fd = p @ drop (length p) fd" for p fd :: "u8 list"
  have over: "length (over p fd) = FIELD_SZ" if "length p \<le> FIELD_SZ" "length fd = FIELD_SZ" for p fd
    using that by (simp add: over_def)
  define f1 where "f1 = over (enc_snum ?q) fData"
  define f2 where "f2 = over (enc_snum ?p) f1"
  define f3 where "f3 = over (enc_snum ?d) f2"
  define f4 where "f4 = over (enc_date (l_shipdate li)) f3"
  have l: "length f1 = FIELD_SZ" "length f2 = FIELD_SZ" "length f3 = FIELD_SZ" "length f4 = FIELD_SZ"
    using assms(2) len by (simp_all add: f1_def f2_def f3_def f4_def over FIELD_SZ_def del: enc_snum_length)
  define c1 where "c1 = cols0\<lparr>quantity := word_of_int (snum_cents ?q)\<rparr>"
  define c2 where "c2 = c1\<lparr>extPrice := word_of_int (snum_cents ?p)\<rparr>"
  define c3 where "c3 = c2\<lparr>discount := word_of_int (snum_cents ?d)\<rparr>"
  have c4: "c3\<lparr>shipDate := l_shipdate li\<rparr> = cols_of li"
    by (simp add: c3_def c2_def c1_def cols0_def cols_of_def)
  have "?w 4 (enc_snum ?q # ps) (cols0, fData) = ?w 5 ps (c1, f1)" for ps
    using snumToLong3_enc [OF wf(1) refl] len assms(2)
    by (subst sw_step [of _ _ _ _ "(c1, f1)"])
      (auto simp: wanted_def sw_consume_def f1_def over_def c1_def Let_def simp del: enc_snum_length)
  moreover have "?w 5 (enc_snum ?p # ps) (c1, f1) = ?w 6 ps (c2, f2)" for ps
    using snumToLong3_enc [OF wf(2) refl] len l
    by (subst sw_step [of _ _ _ _ "(c2, f2)"])
      (auto simp: wanted_def sw_consume_def f2_def over_def c2_def Let_def simp del: enc_snum_length)
  moreover have "?w 6 (enc_snum ?d # ps) (c2, f2) = ?w 7 ps (c3, f3)" for ps
    using snumToLong3_enc [OF wf(3) refl] len l
    by (subst sw_step [of _ _ _ _ "(c3, f3)"])
      (auto simp: wanted_def sw_consume_def f3_def over_def c3_def Let_def simp del: enc_snum_length)
  moreover have "?w 10 (enc_date (l_shipdate li) # ps) (c3, f3) = ?w 11 ps (cols_of li, f4)" for ps
    using getJdate_enc [OF dt] l
    by (subst sw_step [of _ _ _ _ "(cols_of li, f4)"])
      (auto simp: wanted_def sw_consume_def f4_def over_def c4 FIELD_SZ_def)
  ultimately have "?w 0 (payloads li) (cols0, fData) = Inr (cols_of li, f4)"
    using n spec_walk_skip [of "l_keys li" 0 sw_buf sw_consume]
      spec_walk_skip [of "l_flags li" 7 sw_buf sw_consume]
      spec_walk_skip [of "l_rest li" 11 sw_buf sw_consume "[]"]
    by (simp add: payloads_def wanted_def del: spec_walk.simps(2))
  with l(4) show ?thesis by blast
qed

lemma row_sum_cols_of:
  assumes "wf_lineitem li"
  shows "row_sum (cols_of li) acc = acc + word_of_int (if q6_row li
     then snum_cents (l_extendedprice li) * snum_cents (l_discount li) else 0)"
proof -
  have "wf_money (l_quantity li)" "wf_money (l_discount li)" 
    using assms by (auto simp: wf_lineitem_def)
  note s = this [THEN money_cents_sint]
  show ?thesis
    using s by (simp add: row_sum_def cols_of_def q6_row_def jd19940101_def jd19950101_def
        date2j_1994 date2j_1995)
qed

lemma tuple_step:
  assumes "rdr_inv s" "unread s = enc_tuple li @ r" "wf_lineitem li" "length fData = FIELD_SZ"
  obtains fData' s1 where "fields_loop 0 nAttr cols0 fData (s\<lparr>off := 0\<rparr>) = Inr (False, cols_of li, fData', s1)"
    "length fData' = FIELD_SZ" "rdr_inv s1" "unread s1 = r"
proof -
  let ?s = "s\<lparr>off := 0\<rparr>"
  have inv: "rdr_inv ?s" using assms(1) by (simp add: rdr_inv_def)
  have un: "unread ?s = enc_fields 0 (off ?s) (payloads li) @ r"
    using assms(2) by (simp add: unread_def enc_tuple_def)
  have "length (unread ?s) < 2 ^ 20"
    using unread_length [OF inv] inv by (auto simp: rdr_inv_def PAGE_SZ_def WORD_SZ_def)
  then have sz: "off ?s + length (enc_fields 0 (off ?s) (payloads li)) < 2 ^ 20"
    unfolding un by simp
  obtain fData' where f': "length fData' = FIELD_SZ"
    "spec_walk sw_buf sw_consume 0 (payloads li) (cols0, fData) = Inr (cols_of li, fData')"
    using spec_walk_payloads [OF assms(3,4)] by blast
  obtain s1 where s1: "walk getFieldLen getField_ok skipBytes sw_buf sw_consume 0 nAttr
      (cols0, fData) ?s = Inr ((cols_of li, fData'), s1)" "rdr_inv s1" "unread s1 = r"
    using sw.walk_law [OF inv row_fields(2) [OF assms(3)] _ sz un f'(2)] by (auto simp: row_fields(1) [OF assms(3)])
  from that [OF fields_loop_walk [OF s1(1)] f'(1) s1(2,3)] show ?thesis .
qed

lemma tuples_loop_law:
  assumes "rdr_inv s" "unread s = tuples_bytes lis @ r" "list_all wf_lineitem lis"
    and "length fData = FIELD_SZ"
  shows "\<exists>s'. tuples_loop (length lis) acc fData s = Inr (acc + word_of_int (q6_spec lis), s')
    \<and> rdr_inv s' \<and> unread s' = r"
  using assms
proof (induction lis arbitrary: acc fData s)
  case Nil
  then show ?case by (simp add: tuples_bytes_def)
next
  case (Cons li lis)
  have wf: "wf_lineitem li" using Cons.prems(3) by simp
  have "unread s = enc_tuple li @ (tuples_bytes lis @ r)" using Cons.prems(2) by (simp add: tuples_bytes_def)
  from tuple_step [OF Cons.prems(1) this wf Cons.prems(4)]
  obtain fData' s1 where s1: "fields_loop 0 nAttr cols0 fData (s\<lparr>off := 0\<rparr>) = Inr (False, cols_of li, fData', s1)"
    "length fData' = FIELD_SZ" "rdr_inv s1" "unread s1 = tuples_bytes lis @ r" .
  obtain s' where "tuples_loop (length lis) (row_sum (cols_of li) acc) fData' s1
      = Inr (row_sum (cols_of li) acc + word_of_int (q6_spec lis), s')" "rdr_inv s'" "unread s' = r"
    using Cons.IH [OF s1(3,4) _ s1(2)] Cons.prems(3) by auto
  then show ?case
    using s1(1) row_sum_cols_of [OF wf] by (simp add: add.assoc)
qed

section \<open>Pages and blocks\<close>

lemma getHeaderInt_law:
  assumes "rdr_inv s" "unread s = b1 # b2 # r"
  shows "\<exists>s'. getHeaderInt s = Inr (le16 b1 b2, s') \<and> rdr_inv s' \<and> unread s' = r"
proof -
  obtain s1 where s1: "getByte s = Inr (Some b1, s1)" "rdr_inv s1" "unread s1 = b2 # r"
    using getByte_some [OF assms] by blast
  obtain s2 where s2: "getByte s1 = Inr (Some b2, s2)" "rdr_inv s2" "unread s2 = r"
    using getByte_some [OF s1(2,3)] by blast
  have "unat (push_bit 8 (ucast b2) OR ucast b1 :: u32) = le16 b1 b2"
    using le16_bound [of b1 b2]
    by (simp add: le16_or_u32 unat_of_nat take_bit_nat_eq_self_iff)
  with s1 s2 show ?thesis by (simp add: getHeaderInt_def)
qed

lemma resetBuf_inv:
  assumes "length pg = PAGE_SZ" "length (p_word s) = WORD_SZ"
  shows "rdr_inv (resetBuf (s\<lparr>p_buf := pg\<rparr>))" "unread (resetBuf (s\<lparr>p_buf := pg\<rparr>)) = pg"
  using assms by (simp_all add: rdr_inv_def resetBuf_def unread_def)

lemma q6_paged_law:
  assumes "wf_page lis dead" "length fData = FIELD_SZ" "length (p_word s) = WORD_SZ"
  shows "\<exists>s'. q6_paged fData (s\<lparr>p_buf := page_of lis dead\<rparr>) = Inr (word_of_int (q6_spec lis), s')
    \<and> length (p_word s') = WORD_SZ"
proof -
  let ?s = "resetBuf (s\<lparr>p_buf := page_of lis dead\<rparr>)"
  have pg: "length (page_of lis dead) = PAGE_SZ" "list_all wf_lineitem lis"
    using assms(1) by (auto simp: wf_page_def)
  have un: "unread ?s = of_nat (length lis mod 256) # of_nat (length lis div 256)
      # (tuples_bytes lis @ dead)"
    using resetBuf_inv(2) [OF pg(1) assms(3)] by (simp add: page_of_def)
  obtain s1 where s1: "getHeaderInt ?s = Inr (length lis, s1)" "rdr_inv s1"
    "unread s1 = tuples_bytes lis @ dead"
    using getHeaderInt_law [OF resetBuf_inv(1) [OF pg(1) assms(3)] un] page_header [OF assms(1)]
    by auto
  obtain s2 where "tuples_loop (length lis) 0 fData s1 = Inr (0 + word_of_int (q6_spec lis), s2)"
    "rdr_inv s2"
    using tuples_loop_law [OF s1(2,3) pg(2) assms(2)] by blast
  with s1(1) show ?thesis by (simp add: q6_paged_def rdr_inv_def)
qed

lemma swemu_pages_law:
  assumes "list_all (\<lambda>(lis, dead). wf_page lis dead) pgs" "\<forall>i. length (junk i) = FIELD_SZ"
    and "length (p_word s) = WORD_SZ" "page + n = length pgs"
  shows "\<exists>s'. swemu_pages junk page n (block_of pgs) acc s
    = Inr (acc + word_of_int (q6_spec (rows_of (drop page pgs))), s') \<and> length (p_word s') = WORD_SZ"
  using assms(3,4)
proof (induction n arbitrary: page acc s)
  case 0
  then show ?case by (simp add: rows_of_def)
next
  case (Suc n)
  obtain lis dead where pg: "pgs ! page = (lis, dead)" by force
  have lt: "page < length pgs" using Suc.prems(2) by simp
  then have wf: "wf_page lis dead" using assms(1) pg by (auto simp: list_all_length)
  then have len: "length (page_of lis dead) = PAGE_SZ" by (simp add: wf_page_def)
  have "page * PAGE_SZ + PAGE_SZ \<le> length (block_of pgs)"
    using block_length [OF assms(1)] lt by (metis Suc_leI add.commute mult_Suc mult_le_mono1)
  then have sub: "subarr (block_of pgs) (page * PAGE_SZ) PAGE_SZ = Inr (page_of lis dead)"
    using drop_block [OF assms(1) lt] len pg by simp
  obtain s1 where s1: "q6_paged (junk page) (s\<lparr>p_buf := page_of lis dead\<rparr>)
      = Inr (word_of_int (q6_spec lis), s1)" "length (p_word s1) = WORD_SZ"
    using q6_paged_law [OF wf _ Suc.prems(1)] assms(2) by blast
  obtain s' where "swemu_pages junk (Suc page) n (block_of pgs) (acc + word_of_int (q6_spec lis)) s1
      = Inr (acc + word_of_int (q6_spec lis) + word_of_int (q6_spec (rows_of (drop (Suc page) pgs))), s')"
    "length (p_word s') = WORD_SZ"
    using Suc.IH [OF s1(2), of "Suc page" "acc + word_of_int (q6_spec lis)"] Suc.prems(2)
    by auto
  moreover have "rows_of (drop page pgs) = lis @ rows_of (drop (Suc page) pgs)"
    using pg lt by (simp add: drop_eq_Cons_nth rows_of_def)
  ultimately show ?case using sub s1(1) by (simp add: add.assoc)
qed

lemma q6_swemu_law:
  assumes "wf_block pgs" "\<forall>i. length (junk i) = FIELD_SZ" "length (p_word s) = WORD_SZ"
  shows "\<exists>s'. q6_swemu junk (block_of pgs) s = Inr (word_of_int (q6_spec (rows_of pgs)), s')"
  using swemu_pages_law [of pgs junk s 0 PAGES_PER_BLK 0] assms
  by (auto simp: q6_swemu_def wf_block_def PAGES_PER_BLK_def BLK_SZ_def PAGE_SZ_def)

end
