(* ===== verification/Pipeline.thy ===== *)
theory Pipeline
  imports Fill
begin

text \<open>
  The pipeline both versions of \<^verbatim>\<open>xql6_run_hw\<close> run: ten buffers, filled and enqueued in
  turn, results read back in groups of five, the rest drained at the end. The host is a program
  over a program counter, the device completes any enqueued buffer at any time, and a run is an
  interleaving of their steps. Where the rows of the next block come from is a parameter: the
  first version packs them out of the server's buffers, the peer-to-peer version reads the file.
\<close>

section \<open>Host and device\<close>

text \<open>
  The program points of the host: the top of the loop, the call of \<open>xql6FillBlock\<close>, the call
  of \<open>fpga_q6_enq_compute\<close>, the drain loop, the end.
\<close>

datatype pc = Top | DoFill | DoEnq | Drain | Halt

text \<open>The command chain of a buffer: migrate in, run, migrate out. \<open>Done\<close>: \<open>rdEvent\<close> has fired.\<close>

datatype job = Idle | Pending | Done

record hw =
  h_pc :: pc
  blkId :: nat
  blkIdDone :: nat
  h_sum :: i64
  h_nTups :: nat
  bRealPages :: bool
  enq_ok :: bool
  h_fill :: Xql6FillState
  pInp :: "u8 list list"
  pOut :: "i64 list"
  jobs :: "job list"

text \<open>The initial state: the ten mapped buffers with any content, the results with any content.\<close>

definition hw_init :: "nat \<Rightarrow> u8 list list \<Rightarrow> i64 list \<Rightarrow> hw" where
  "hw_init nBlks inp out = \<lparr>h_pc = Top, blkId = 0, blkIdDone = 0, h_sum = 0, h_nTups = 0,
     bRealPages = True, enq_ok = True,
     h_fill = \<lparr>fs_blkNum = 0, fs_nBlks = nBlks, fs_linNum = 0\<rparr>,
     pInp = inp, pOut = out, jobs = replicate 10 Idle\<rparr>"

text \<open>Whether this iteration reads back a group of five, and the sum it adds.\<close>

definition read_back :: "hw \<Rightarrow> bool" where
  "read_back s \<longleftrightarrow> blkId s mod 5 = 0 \<and> blkId s \<ge> 10"

definition grp :: "hw \<Rightarrow> nat" where
  "grp s = ((blkId s - 10) div 5) mod 2"

definition group_sum :: "hw \<Rightarrow> i64" where
  "group_sum s = sum_list (map (\<lambda>k. pOut s ! (grp s * 5 + k)) [0..<5])"

definition group_done :: "hw \<Rightarrow> bool" where
  "group_done s \<longleftrightarrow> list_all (\<lambda>k. jobs s ! (grp s * 5 + k) = Done) [0..<5]"

text \<open>
  A step of the host, whose step that fills a buffer is \<open>fillr\<close>. Waiting for events is a step
  that is only possible once they have fired. Enqueueing may fail; then the loop is left without
  counting the block.
\<close>

inductive buf_step :: "(hw \<Rightarrow> hw \<Rightarrow> bool) \<Rightarrow> hw \<Rightarrow> hw \<Rightarrow> bool" for fillr where
  p_top_read: "h_pc s = Top \<Longrightarrow> bRealPages s \<Longrightarrow> read_back s \<Longrightarrow> group_done s \<Longrightarrow>
    buf_step fillr s (s\<lparr>h_pc := DoFill, h_sum := h_sum s + group_sum s, blkIdDone := blkId s - 5\<rparr>)"
| p_top_go: "h_pc s = Top \<Longrightarrow> bRealPages s \<Longrightarrow> \<not> read_back s \<Longrightarrow>
    buf_step fillr s (s\<lparr>h_pc := DoFill\<rparr>)"
| p_top_exit: "h_pc s = Top \<Longrightarrow> \<not> bRealPages s \<Longrightarrow> buf_step fillr s (s\<lparr>h_pc := Drain\<rparr>)"
| p_fill: "h_pc s = DoFill \<Longrightarrow> fillr s s' \<Longrightarrow> buf_step fillr s s'"
| p_enq: "h_pc s = DoEnq \<Longrightarrow>
    buf_step fillr s (s\<lparr>h_pc := Top, blkId := blkId s + 1,
      jobs := (jobs s)[blkId s mod 10 := Pending]\<rparr>)"
| p_enq_fail: "h_pc s = DoEnq \<Longrightarrow> buf_step fillr s (s\<lparr>h_pc := Drain, enq_ok := False\<rparr>)"
| p_drain: "h_pc s = Drain \<Longrightarrow> blkIdDone s < blkId s \<Longrightarrow> jobs s ! (blkIdDone s mod 10) = Done \<Longrightarrow>
    buf_step fillr s (s\<lparr>h_sum := h_sum s + pOut s ! (blkIdDone s mod 10),
      blkIdDone := blkIdDone s + 1\<rparr>)"
| p_halt: "h_pc s = Drain \<Longrightarrow> blkId s \<le> blkIdDone s \<Longrightarrow> buf_step fillr s (s\<lparr>h_pc := Halt\<rparr>)"

text \<open>The device runs the command chain of any pending buffer.\<close>

inductive dev_step :: "(u8 list \<Rightarrow> i64) \<Rightarrow> hw \<Rightarrow> hw \<Rightarrow> bool" for dev where
  run: "b < 10 \<Longrightarrow> jobs s ! b = Pending \<Longrightarrow>
    dev_step dev s (s\<lparr>jobs := (jobs s)[b := Done], pOut := (pOut s)[b := dev (pInp s ! b)]\<rparr>)"

text \<open>\<open>buf_reach fillr dev s0 n s\<close>: an interleaving of \<open>n\<close> steps leads from \<open>s0\<close> to \<open>s\<close>.\<close>

inductive buf_reach :: "(hw \<Rightarrow> hw \<Rightarrow> bool) \<Rightarrow> (u8 list \<Rightarrow> i64) \<Rightarrow> hw \<Rightarrow> nat \<Rightarrow> hw \<Rightarrow> bool"
  for fillr dev s0 where
  p_reach_init: "buf_reach fillr dev s0 0 s0"
| p_reach_host: "buf_reach fillr dev s0 n s \<Longrightarrow> buf_step fillr s s' \<Longrightarrow> buf_reach fillr dev s0 (Suc n) s'"
| p_reach_dev: "buf_reach fillr dev s0 n s \<Longrightarrow> dev_step dev s s' \<Longrightarrow> buf_reach fillr dev s0 (Suc n) s'"

inductive_cases buf_stepE: "buf_step fillr s s'"
inductive_cases dev_stepE: "dev_step dev s s'"

section \<open>The pipeline invariant\<close>

lemma slot_inj_le:
  assumes "k \<le> k'" "k' < k + 10" "k mod 10 = (k' mod 10 :: nat)"
  shows "k = k'"
proof -
  have "10 dvd k' - k" using assms(1,3) by (metis mod_eq_dvd_iff_nat)
  then show ?thesis using assms(1,2) by (auto dest: dvd_imp_le)
qed

lemma slot_inj:
  assumes "d \<le> k" "k < d + 10" "d \<le> k'" "k' < d + 10" "k mod 10 = (k' mod 10 :: nat)"
  shows "k = k'"
  using slot_inj_le [of k k'] slot_inj_le [of k' k] assms by (cases "k \<le> k'") auto

text \<open>
  \<open>bs\<close> are the blocks filled so far, a block of type \<open>'b\<close> being in memory as \<open>bytes b\<close> and worth
  \<open>val b\<close>. \<open>slots_ok\<close>: the buffers of the blocks enqueued and not yet read back hold these blocks,
  and once the device is done, their values.
\<close>

definition slots_ok :: "('b \<Rightarrow> u8 list) \<Rightarrow> ('b \<Rightarrow> i64) \<Rightarrow> hw \<Rightarrow> 'b list \<Rightarrow> bool" where
  "slots_ok bytes val s bs \<longleftrightarrow> (\<forall>k. blkIdDone s \<le> k \<and> k < blkId s \<longrightarrow>
     pInp s ! (k mod 10) = bytes (bs ! k)
     \<and> (jobs s ! (k mod 10) = Pending
        \<or> jobs s ! (k mod 10) = Done \<and> pOut s ! (k mod 10) = val (bs ! k)))"

definition pending_ok :: "hw \<Rightarrow> bool" where
  "pending_ok s \<longleftrightarrow> (\<forall>b < 10. jobs s ! b = Pending \<longrightarrow>
     (\<exists>k. blkIdDone s \<le> k \<and> k < blkId s \<and> k mod 10 = b))"

definition counts_ok :: "hw \<Rightarrow> bool" where
  "counts_ok s \<longleftrightarrow> (case h_pc s of
       Top \<Rightarrow> blkIdDone s = 5 * ((blkId s - 1) div 5) - 5
     | DoFill \<Rightarrow> blkIdDone s = 5 * (blkId s div 5) - 5
     | DoEnq \<Rightarrow> blkIdDone s = 5 * (blkId s div 5) - 5
     | Drain \<Rightarrow> blkIdDone s \<le> blkId s \<and> blkId s \<le> blkIdDone s + 10 \<and> (enq_ok s \<longrightarrow> \<not> bRealPages s)
     | Halt \<Rightarrow> blkIdDone s = blkId s \<and> (enq_ok s \<longrightarrow> \<not> bRealPages s))
   \<and> (h_pc s \<in> {Top, DoFill, DoEnq} \<longrightarrow> enq_ok s) \<and> (h_pc s = DoFill \<longrightarrow> bRealPages s)"

definition filled :: "hw \<Rightarrow> nat" where
  "filled s = (if h_pc s = DoEnq \<or> \<not> enq_ok s then blkId s + 1 else blkId s)"

text \<open>
  The blocks filled so far satisfy \<open>ok\<close>, the source of the rows is in a state that \<open>src\<close> relates
  to them, \<open>r\<close> being what is left, and the sum counts the blocks read back.
\<close>

type_synonym ('b, 'r) source = "Xql6FillState \<Rightarrow> nat \<Rightarrow> bool \<Rightarrow> 'b list \<Rightarrow> 'r \<Rightarrow> bool"

definition src_ok :: "('b \<Rightarrow> bool) \<Rightarrow> ('b \<Rightarrow> i64) \<Rightarrow> ('b, 'r) source \<Rightarrow> hw \<Rightarrow> 'b list \<Rightarrow> 'r \<Rightarrow> bool" where
  "src_ok ok val src s bs r \<longleftrightarrow> length bs = filled s \<and> list_all ok bs
     \<and> src (h_fill s) (h_nTups s) (bRealPages s) bs r
     \<and> h_sum s = sum_list (map val (take (blkIdDone s) bs))"

definition mem_ok :: "hw \<Rightarrow> bool" where
  "mem_ok s \<longleftrightarrow> length (pInp s) = 10 \<and> length (pOut s) = 10 \<and> length (jobs s) = 10
     \<and> list_all (\<lambda>b. length b = XQL6_BLK_SZ) (pInp s)"

definition buf_inv :: "('b \<Rightarrow> bool) \<Rightarrow> ('b \<Rightarrow> u8 list) \<Rightarrow> ('b \<Rightarrow> i64) \<Rightarrow> ('b, 'r) source
    \<Rightarrow> hw \<Rightarrow> 'b list \<Rightarrow> 'r \<Rightarrow> bool" where
  "buf_inv ok bytes val src s bs r \<longleftrightarrow> mem_ok s \<and> counts_ok s \<and> src_ok ok val src s bs r
     \<and> slots_ok bytes val s bs \<and> pending_ok s
     \<and> (h_pc s = DoEnq \<longrightarrow> pInp s ! (blkId s mod 10) = bytes (bs ! blkId s))"

lemma buf_invD:
  assumes "buf_inv ok bytes val src s bs r"
  shows "mem_ok s" "counts_ok s" "src_ok ok val src s bs r" "slots_ok bytes val s bs" "pending_ok s"
    "h_pc s = DoEnq \<Longrightarrow> pInp s ! (blkId s mod 10) = bytes (bs ! blkId s)"
  using assms by (auto simp: buf_inv_def)

lemma window:
  assumes "counts_ok s"
  shows "blkIdDone s \<le> blkId s" "blkId s \<le> blkIdDone s + 10"
    "h_pc s \<in> {DoFill, DoEnq} \<Longrightarrow> blkId s < blkIdDone s + 10"
proof -
  let ?t = "5 * ((blkId s - 1) div 5) - 5" and ?f = "5 * (blkId s div 5) - 5"
  have m: "5 * ((blkId s - 1) div 5) + (blkId s - 1) mod 5 = blkId s - 1" "(blkId s - 1) mod 5 < 5"
    "5 * (blkId s div 5) + blkId s mod 5 = blkId s" "blkId s mod 5 < 5" by simp_all
  have t: "?t \<le> blkId s" "blkId s \<le> ?t + 10" and f: "?f \<le> blkId s" "blkId s < ?f + 10"
    using m by linarith+
  consider "h_pc s = Top" "blkIdDone s = ?t" | "h_pc s \<in> {DoFill, DoEnq}" "blkIdDone s = ?f"
    | "h_pc s \<in> {Drain, Halt}" "blkIdDone s \<le> blkId s" "blkId s \<le> blkIdDone s + 10"
    using assms by (cases "h_pc s") (simp_all add: counts_ok_def)
  then have "blkIdDone s \<le> blkId s \<and> blkId s \<le> blkIdDone s + 10
    \<and> (h_pc s \<in> {DoFill, DoEnq} \<longrightarrow> blkId s < blkIdDone s + 10)"
  proof cases
    case 1
    then show ?thesis using t by (simp only: pc.distinct insert_iff empty_iff simp_thms)
  next
    case 2
    then show ?thesis using f by (simp only: less_imp_le simp_thms)
  next
    case 3
    then show ?thesis by auto
  qed
  then show "blkIdDone s \<le> blkId s" "blkId s \<le> blkIdDone s + 10"
    "h_pc s \<in> {DoFill, DoEnq} \<Longrightarrow> blkId s < blkIdDone s + 10"
    by blast+
qed

text \<open>The buffer about to be filled is not one the device may still be reading.\<close>

lemma fill_slot_free:
  assumes "buf_inv ok bytes val src s bs r" "h_pc s \<in> {DoFill, DoEnq}"
  shows "jobs s ! (blkId s mod 10) \<noteq> Pending"
proof
  assume p: "jobs s ! (blkId s mod 10) = Pending"
  have "pending_ok s" "counts_ok s" using assms(1) by (simp_all add: buf_inv_def)
  then obtain k where k: "blkIdDone s \<le> k" "k < blkId s" "k mod 10 = blkId s mod 10"
    using p unfolding pending_ok_def by (metis mod_less_divisor zero_less_numeral)
  have "blkId s < blkIdDone s + 10" "blkIdDone s \<le> blkId s"
    using window [OF \<open>counts_ok s\<close>] assms(2) by auto
  then show False using slot_inj [of "blkIdDone s" k "blkId s"] k by simp
qed

lemma slot_of_group: "k < 5 \<Longrightarrow> (5 * q + k) mod 10 = q mod 2 * 5 + (k :: nat)"
proof -
  assume k: "k < 5"
  have "5 * q + k = (q mod 2 * 5 + k) + 10 * (q div 2)"
    using div_mult_mod_eq [of q 2] by linarith
  then have "(5 * q + k) mod 10 = (q mod 2 * 5 + k) mod 10" by (metis mod_mult_self2)
  moreover have "q mod 2 * 5 + k < 10" using k mod_less_divisor [of 2 q] by linarith
  ultimately show ?thesis by simp
qed

lemma read_back_group:
  assumes "h_pc s = Top" "counts_ok s" "read_back s"
  shows "blkIdDone s = blkId s - 10" "\<And>k. k < 5 \<Longrightarrow> grp s * 5 + k = (blkIdDone s + k) mod 10"
proof -
  obtain m where m: "blkId s = 5 * m" "2 \<le> m"
    using assms(3) by (auto simp: read_back_def elim!: dvdE simp flip: dvd_eq_mod_eq_0)
  have "(5 * m - 1) div 5 = m - 1"
    using m(2) by presburger
  then show d: "blkIdDone s = blkId s - 10"
    using assms(1,2) m by (simp add: counts_ok_def)
  have "5 * m - 10 = 5 * (m - 2)" by simp
  then have "(5 * m - 10) div 5 = m - 2" by simp
  then have g: "grp s = (m - 2) mod 2" using m by (simp add: grp_def)
  have "blkIdDone s = 5 * (m - 2)" using d m by simp
  then show "grp s * 5 + k = (blkIdDone s + k) mod 10" if "k < 5" for k
    using that g by (simp add: slot_of_group)
qed

lemma slots_ok_later:
  assumes "slots_ok bytes val s bs" "blkIdDone s \<le> blkIdDone s'" "blkId s' = blkId s" "pInp s' = pInp s"
    "jobs s' = jobs s" "pOut s' = pOut s"
  shows "slots_ok bytes val s' bs"
  unfolding slots_ok_def assms(3-6)
proof (intro allI impI)
  fix k
  assume "blkIdDone s' \<le> k \<and> k < blkId s"
  then have "blkIdDone s \<le> k \<and> k < blkId s" using assms(2) by simp
  with assms(1) show "pInp s ! (k mod 10) = bytes (bs ! k) \<and> (jobs s ! (k mod 10) = Pending
      \<or> jobs s ! (k mod 10) = Done \<and> pOut s ! (k mod 10) = val (bs ! k))"
    unfolding slots_ok_def by blast
qed

lemma inv_top_read:
  assumes inv: "buf_inv ok bytes val src s bs r"
    and s: "h_pc s = Top" "bRealPages s" "read_back s" "group_done s"
  shows "buf_inv ok bytes val src (s\<lparr>h_pc := DoFill, h_sum := h_sum s + group_sum s, blkIdDone := blkId s - 5\<rparr>) bs r"
    (is "buf_inv _ _ _ _ ?s _ _")
proof -
  note I = buf_invD [OF inv]
  note G = read_back_group [OF s(1) I(2) s(3)]
  have ge: "10 \<le> blkId s" "blkId s mod 5 = 0" using s(3) by (simp_all add: read_back_def)
  have len: "length bs = blkId s" using I(2,3) s(1) by (simp add: src_ok_def filled_def counts_ok_def)
  have part: "pOut s ! (grp s * 5 + k) = val (bs ! (blkIdDone s + k))" if k: "k < 5" for k
  proof -
    have "jobs s ! (grp s * 5 + k) = Done"
      using s(4) k by (simp add: group_done_def list_all_iff)
    then have "jobs s ! ((blkIdDone s + k) mod 10) = Done" unfolding G(2) [OF k] .
    moreover have "blkIdDone s + k < blkId s" using G(1) ge k by simp
    ultimately show ?thesis
      using I(4) G(2) [OF k] unfolding slots_ok_def by (metis job.distinct(6) le_add1)
  qed
  have "group_sum s = sum_list (map (\<lambda>k. val (bs ! (blkIdDone s + k))) [0..<5])"
    unfolding group_sum_def using part by (intro arg_cong [where f = sum_list] map_cong) auto
  also have "map (\<lambda>k. val (bs ! (blkIdDone s + k))) [0..<5] = map val (take 5 (drop (blkIdDone s) bs))"
    using len G(1) ge by (intro nth_equalityI) auto
  finally have sum: "sum_list (map val (take (blkId s - 5) bs))
      = sum_list (map val (take (blkIdDone s) bs)) + group_sum s"
    using G(1) ge take_add [of "blkIdDone s" 5 bs] by simp
  have "blkId s - 5 = 5 * (blkId s div 5) - 5" using ge(2) by presburger
  then have "counts_ok ?s" using I(2) s(1,2) by (simp add: counts_ok_def)
  moreover have "src_ok ok val src ?s bs r"
    using I(3) sum s(1) by (simp add: src_ok_def filled_def)
  moreover have "slots_ok bytes val ?s bs" by (rule slots_ok_later [OF I(4)]) (use G(1) in auto)
  moreover have "pending_ok ?s"
    unfolding pending_ok_def
  proof (intro allI impI)
    fix b :: nat
    assume b: "b < 10" "jobs ?s ! b = Pending"
    then obtain k where k: "blkIdDone s \<le> k" "k < blkId s" "k mod 10 = b"
      using I(5) by (auto simp: pending_ok_def)
    have "blkId s - 5 \<le> k"
    proof (rule ccontr)
      assume "\<not> blkId s - 5 \<le> k"
      then have j: "k - blkIdDone s < 5" "k = blkIdDone s + (k - blkIdDone s)" using k G(1) ge by auto
      have "jobs s ! (grp s * 5 + (k - blkIdDone s)) = Done"
        using s(4) j(1) by (simp add: group_done_def list_all_iff)
      then have "jobs s ! b = Done" unfolding G(2) [OF j(1)] using j(2) k(3) by simp
      with b(2) show False by simp
    qed
    with k show "\<exists>k. blkIdDone ?s \<le> k \<and> k < blkId ?s \<and> k mod 10 = b" by auto
  qed
  ultimately show ?thesis using I(1) by (simp add: buf_inv_def mem_ok_def)
qed

lemma inv_top_go:
  assumes inv: "buf_inv ok bytes val src s bs r" and s: "h_pc s = Top" "bRealPages s" "\<not> read_back s"
  shows "buf_inv ok bytes val src (s\<lparr>h_pc := DoFill\<rparr>) bs r"
proof -
  note I = buf_invD [OF inv]
  have "5 * ((blkId s - 1) div 5) - 5 = 5 * (blkId s div 5) - 5"
  proof (cases "blkId s < 10")
    case True
    then have "blkId s div 5 \<le> 1" "(blkId s - 1) div 5 \<le> 1" by presburger+
    then show ?thesis by simp
  next
    case False
    then have "blkId s mod 5 \<noteq> 0" using s(3) by (simp add: read_back_def)
    moreover have "5 * (blkId s div 5) + blkId s mod 5 = blkId s" "blkId s mod 5 < 5" by simp_all
    ultimately have "5 * (blkId s div 5) \<le> blkId s - 1" "blkId s - 1 < 5 * (blkId s div 5) + 5"
      by linarith+
    then have "(blkId s - 1) div 5 = blkId s div 5" by (intro div_nat_eqI) simp_all
    then show ?thesis by simp
  qed
  then have "counts_ok (s\<lparr>h_pc := DoFill\<rparr>)" using I(2) s(1,2) by (simp add: counts_ok_def)
  with I s(1) show ?thesis
    by (simp add: buf_inv_def mem_ok_def src_ok_def filled_def slots_ok_def pending_ok_def)
qed

lemma inv_top_exit:
  assumes inv: "buf_inv ok bytes val src s bs r" and s: "h_pc s = Top" "\<not> bRealPages s"
  shows "buf_inv ok bytes val src (s\<lparr>h_pc := Drain\<rparr>) bs r"
proof -
  note I = buf_invD [OF inv]
  have "counts_ok (s\<lparr>h_pc := Drain\<rparr>)"
    using I(2) s window [OF I(2)] by (simp add: counts_ok_def)
  with I s(1) show ?thesis
    by (simp add: buf_inv_def mem_ok_def src_ok_def filled_def slots_ok_def pending_ok_def)
qed

lemma inv_enq:
  assumes inv: "buf_inv ok bytes val src s bs r" and s: "h_pc s = DoEnq"
  shows "buf_inv ok bytes val src (s\<lparr>h_pc := Top, blkId := blkId s + 1, jobs := (jobs s)[blkId s mod 10 := Pending]\<rparr>) bs r"
    (is "buf_inv _ _ _ _ ?s _ _")
proof -
  note I = buf_invD [OF inv]
  let ?b = "blkId s mod 10"
  have b10: "?b < 10" by simp
  have slot: "?b \<noteq> k mod 10" if "blkIdDone s \<le> k" "k < blkId s" for k
    using slot_inj [of "blkIdDone s" k "blkId s"] window [OF I(2)] s that by fastforce
  have len: "length (jobs s) = 10" using I(1) by (simp add: mem_ok_def)
  have "slots_ok bytes val ?s bs"
    unfolding slots_ok_def
  proof (intro allI impI)
    fix k
    assume k: "blkIdDone ?s \<le> k \<and> k < blkId ?s"
    show "pInp ?s ! (k mod 10) = bytes (bs ! k) \<and> (jobs ?s ! (k mod 10) = Pending
      \<or> jobs ?s ! (k mod 10) = Done \<and> pOut ?s ! (k mod 10) = val (bs ! k))"
      using k I(4,6) s len slot b10 by (cases "k = blkId s") (auto simp: slots_ok_def nth_list_update)
  qed
  moreover have "pending_ok ?s"
    unfolding pending_ok_def
  proof (intro allI impI)
    fix b :: nat
    assume b: "b < 10" "jobs ?s ! b = Pending"
    show "\<exists>k. blkIdDone ?s \<le> k \<and> k < blkId ?s \<and> k mod 10 = b"
    proof (cases "b = ?b")
      case True
      then show ?thesis using window(1) [OF I(2)] by (intro exI [of _ "blkId s"]) simp
    next
      case False
      then have "jobs s ! b = Pending" using b(2) by (simp add: nth_list_update)
      then obtain k where "blkIdDone s \<le> k" "k < blkId s" "k mod 10 = b"
        using I(5) b(1) by (auto simp: pending_ok_def)
      then show ?thesis by (intro exI [of _ k]) simp
    qed
  qed
  moreover have "counts_ok ?s" using I(2) s by (simp add: counts_ok_def)
  moreover have "src_ok ok val src ?s bs r"
    using I(2,3) s by (simp add: src_ok_def filled_def counts_ok_def)
  ultimately show ?thesis using I(1) by (simp add: buf_inv_def mem_ok_def)
qed

lemma inv_enq_fail:
  assumes inv: "buf_inv ok bytes val src s bs r" and s: "h_pc s = DoEnq"
  shows "buf_inv ok bytes val src (s\<lparr>h_pc := Drain, enq_ok := False\<rparr>) bs r"
proof -
  note I = buf_invD [OF inv]
  have "counts_ok (s\<lparr>h_pc := Drain, enq_ok := False\<rparr>)"
    using window [OF I(2)] by (simp add: counts_ok_def)
  with I s show ?thesis
    by (simp add: buf_inv_def mem_ok_def src_ok_def filled_def slots_ok_def pending_ok_def)
qed

lemma inv_drain:
  assumes inv: "buf_inv ok bytes val src s bs r"
    and s: "h_pc s = Drain" "blkIdDone s < blkId s" "jobs s ! (blkIdDone s mod 10) = Done"
  shows "buf_inv ok bytes val src (s\<lparr>h_sum := h_sum s + pOut s ! (blkIdDone s mod 10),
      blkIdDone := blkIdDone s + 1\<rparr>) bs r" (is "buf_inv _ _ _ _ ?s _ _")
proof -
  note I = buf_invD [OF inv]
  have "pOut s ! (blkIdDone s mod 10) = val (bs ! blkIdDone s)"
    using I(4) s(2,3) unfolding slots_ok_def by (metis job.distinct(6) le_refl)
  moreover have "blkIdDone s < length bs"
    using I(3) s(1,2) by (auto simp: src_ok_def filled_def)
  ultimately have "src_ok ok val src ?s bs r"
    using I(3) s(1) by (simp add: src_ok_def filled_def take_Suc_conv_app_nth)
  moreover have "pending_ok ?s"
    unfolding pending_ok_def
  proof (intro allI impI)
    fix b :: nat
    assume b: "b < 10" "jobs ?s ! b = Pending"
    then obtain k where k: "blkIdDone s \<le> k" "k < blkId s" "k mod 10 = b"
      using I(5) by (auto simp: pending_ok_def)
    then have "k \<noteq> blkIdDone s" using b(2) s(3) by auto
    with k show "\<exists>k. blkIdDone ?s \<le> k \<and> k < blkId ?s \<and> k mod 10 = b" by (intro exI [of _ k]) simp
  qed
  moreover have "slots_ok bytes val ?s bs" using I(4) by (simp add: slots_ok_def)
  moreover have "counts_ok ?s" using I(2) s by (simp add: counts_ok_def)
  ultimately show ?thesis using I(1) s(1) by (simp add: buf_inv_def mem_ok_def)
qed

lemma inv_halt:
  assumes inv: "buf_inv ok bytes val src s bs r" and s: "h_pc s = Drain" "blkId s \<le> blkIdDone s"
  shows "buf_inv ok bytes val src (s\<lparr>h_pc := Halt\<rparr>) bs r"
  using assms
  by (auto simp: buf_inv_def mem_ok_def src_ok_def filled_def slots_ok_def pending_ok_def counts_ok_def)

text \<open>
  The potential of a state: the phase and what is left of the source give the rank, which every step of the
  host lowers; a step of the device lowers the number of pending buffers.
\<close>

definition rank :: "hw \<Rightarrow> nat \<Rightarrow> nat" where
  "rank s k = (case h_pc s of
      Top \<Rightarrow> if bRealPages s then 3 * k + 22 else 19
    | DoFill \<Rightarrow> 3 * k + 21
    | DoEnq \<Rightarrow> if bRealPages s then 3 * k + 23 else 20
    | Drain \<Rightarrow> blkId s - blkIdDone s + 1
    | Halt \<Rightarrow> 0)"

definition pendings :: "hw \<Rightarrow> nat" where
  "pendings s = card {b. b < 10 \<and> jobs s ! b = Pending}"

definition potential :: "hw \<Rightarrow> nat \<Rightarrow> nat" where
  "potential s k = 11 * rank s k + pendings s"

lemma pendings_le: "pendings s \<le> 10"
proof -
  have "pendings s \<le> card {b :: nat. b < 10}"
    unfolding pendings_def by (rule card_mono) auto
  then show ?thesis by simp
qed

lemma dev_potential:
  assumes "dev_step dev s s'" "length (jobs s) = 10"
  shows "potential s' k < potential s k"
proof -
  obtain b where b: "b < 10" "jobs s ! b = Pending"
    and s': "s' = s\<lparr>jobs := (jobs s)[b := Done], pOut := (pOut s)[b := dev (pInp s ! b)]\<rparr>"
    using assms(1) by (auto elim: dev_stepE)
  have "{c. c < 10 \<and> jobs s' ! c = Pending} = {c. c < 10 \<and> jobs s ! c = Pending} - {b}"
    using b assms(2) by (auto simp: s' nth_list_update)
  then have "pendings s' < pendings s"
    using b unfolding pendings_def by (simp only:) (rule card_Diff1_less, auto)
  moreover have "rank s' k = rank s k" by (simp add: s' rank_def split: pc.split)
  ultimately show ?thesis by (simp add: potential_def)
qed



lemma buf_reach_trans:
  assumes "buf_reach fillr dev s1 m s2" "buf_reach fillr dev s0 n s1"
  shows "buf_reach fillr dev s0 (n + m) s2"
  using assms
proof induction
  case p_reach_init
  then show ?case by simp
next
  case (p_reach_host m s s')
  then show ?case using buf_reach.p_reach_host by fastforce
next
  case (p_reach_dev m s s')
  then show ?case using buf_reach.p_reach_dev by fastforce
qed

text \<open>The start of a run, from ten mapped buffers and a source that is ready.\<close>

lemma buf_inv_init:
  assumes "length inp = 10" "list_all (\<lambda>b. length b = XQL6_BLK_SZ) inp" "length out = 10"
    and "src \<lparr>fs_blkNum = 0, fs_nBlks = nBlks, fs_linNum = 0\<rparr> 0 True [] r"
  shows "buf_inv ok bytes val src (hw_init nBlks inp out) [] r"
  using assms
  by (simp add: buf_inv_def hw_init_def mem_ok_def counts_ok_def src_ok_def filled_def slots_ok_def
      pending_ok_def)

lemma potential_init: "potential (hw_init nBlks inp out) k = 33 * k + 242"
proof -
  have "{b. b < 10 \<and> replicate 10 Idle ! b = Pending} = {}" by auto
  then show ?thesis by (simp add: potential_def rank_def pendings_def hw_init_def)
qed

text \<open>At the end of a run without an enqueue failure every block has been read back.\<close>

lemma buf_halt:
  assumes "buf_inv ok bytes val src s bs r" "h_pc s = Halt" "enq_ok s"
  shows "h_sum s = sum_list (map val bs) \<and> src (h_fill s) (h_nTups s) False bs r"
  using buf_invD [OF assms(1)] assms(2,3) by (auto simp: src_ok_def filled_def counts_ok_def)

section \<open>A source of blocks\<close>

text \<open>
  What the pipeline relies on. The device returns the value of a block. Filling delivers the
  next block and, as long as it says that there is more, uses up some of the source; it can
  always be done.
\<close>

locale block_source =
  fixes fillr :: "hw \<Rightarrow> hw \<Rightarrow> bool" and dev :: "u8 list \<Rightarrow> i64"
    and ok :: "'b \<Rightarrow> bool" and bytes :: "'b \<Rightarrow> u8 list" and val :: "'b \<Rightarrow> i64"
    and src :: "('b, 'r) source" and left :: "'r \<Rightarrow> nat"
  assumes dev_law: "ok b \<Longrightarrow> dev (bytes b) = val b"
    and block_size: "ok b \<Longrightarrow> length (bytes b) = XQL6_BLK_SZ"
    and fill_law: "src (h_fill s) (h_nTups s) (bRealPages s) bs r \<Longrightarrow> length bs = blkId s \<Longrightarrow> bRealPages s \<Longrightarrow>
      length (pInp s ! (blkId s mod 10)) = XQL6_BLK_SZ \<Longrightarrow> fillr s s' \<Longrightarrow>
      \<exists>br n st b r'. s' = s\<lparr>h_pc := DoEnq, bRealPages := br, h_nTups := n, h_fill := st,
          pInp := (pInp s)[blkId s mod 10 := bytes b]\<rparr>
        \<and> ok b \<and> src st n br (bs @ [b]) r' \<and> (br \<longrightarrow> left r' < left r)"
    and fill_total: "src (h_fill s) (h_nTups s) (bRealPages s) bs r \<Longrightarrow> length bs = blkId s \<Longrightarrow> bRealPages s \<Longrightarrow>
      length (pInp s ! (blkId s mod 10)) = XQL6_BLK_SZ \<Longrightarrow> \<exists>s'. fillr s s'"
begin

abbreviation inv :: "hw \<Rightarrow> 'b list \<Rightarrow> 'r \<Rightarrow> bool" where
  "inv \<equiv> buf_inv ok bytes val src"

lemma fill_ready:
  assumes "inv s bs r" "h_pc s = DoFill"
  shows "src (h_fill s) (h_nTups s) (bRealPages s) bs r" "length bs = blkId s" "bRealPages s"
    "length (pInp s ! (blkId s mod 10)) = XQL6_BLK_SZ"
  using buf_invD [OF assms(1)] assms(2)
  by (auto simp: src_ok_def filled_def counts_ok_def mem_ok_def list_all_length)

lemma inv_fill:
  assumes inv: "inv s bs r" and s: "h_pc s = DoFill" and f: "fillr s s'"
  shows "\<exists>bs' r'. inv s' bs' r' \<and> h_pc s' = DoEnq \<and> enq_ok s' = enq_ok s
    \<and> (bRealPages s' \<longrightarrow> left r' < left r)"
proof -
  note I = buf_invD [OF inv]
  note R = fill_ready [OF inv s]
  obtain br n st b r' where F: "s' = s\<lparr>h_pc := DoEnq, bRealPages := br, h_nTups := n, h_fill := st,
      pInp := (pInp s)[blkId s mod 10 := bytes b]\<rparr>"
    "ok b" "src st n br (bs @ [b]) r'" "br \<longrightarrow> left r' < left r"
    using fill_law [OF R f] by blast
  have b10: "blkId s mod 10 < 10" by simp
  have slot: "blkId s mod 10 \<noteq> k mod 10" if "blkIdDone s \<le> k" "k < blkId s" for k
    using slot_inj [of "blkIdDone s" k "blkId s"] window [OF I(2)] s that by fastforce
  have "src_ok ok val src s' (bs @ [b]) r'"
    using I(2,3) R(2) F s window(1) [OF I(2)] by (auto simp: src_ok_def filled_def counts_ok_def)
  moreover have "slots_ok bytes val s' (bs @ [b])"
    using I(4) slot R(2) F(1) by (auto simp: slots_ok_def nth_append nth_list_update)
  moreover have "list_all (\<lambda>b. length b = XQL6_BLK_SZ) (pInp s')"
    using I(1) F(1) block_size [OF F(2)] b10 by (auto simp: mem_ok_def list_all_length nth_list_update)
  moreover have "pInp s' ! (blkId s' mod 10) = bytes ((bs @ [b]) ! blkId s')"
    using I(1) F(1) R(2) by (simp add: mem_ok_def nth_append)
  ultimately have "inv s' (bs @ [b]) r'"
    using I(1,2,5) s F(1) by (simp add: buf_inv_def mem_ok_def counts_ok_def pending_ok_def)
  then show ?thesis using F(1,4) by auto
qed

lemma inv_dev:
  assumes inv: "inv s bs r" and step: "dev_step dev s s'"
  shows "inv s' bs r"
proof -
  note I = buf_invD [OF inv]
  obtain b where b: "b < 10" "jobs s ! b = Pending"
    and s': "s' = s\<lparr>jobs := (jobs s)[b := Done], pOut := (pOut s)[b := dev (pInp s ! b)]\<rparr>"
    using step by (auto elim: dev_stepE)
  have len: "length (jobs s) = 10" "length (pOut s) = 10" using I(1) by (simp_all add: mem_ok_def)
  have "slots_ok bytes val s' bs"
    unfolding slots_ok_def
  proof (intro allI impI)
    fix k
    assume "blkIdDone s' \<le> k \<and> k < blkId s'"
    then have k: "blkIdDone s \<le> k" "k < blkId s" by (simp_all add: s')
    then have bl: "pInp s ! (k mod 10) = bytes (bs ! k)" using I(4) by (simp add: slots_ok_def)
    have "ok (bs ! k)"
      using I(3) k by (auto simp: src_ok_def filled_def list_all_length split: if_splits)
    then have "dev (bytes (bs ! k)) = val (bs ! k)" by (rule dev_law)
    then show "pInp s' ! (k mod 10) = bytes (bs ! k) \<and> (jobs s' ! (k mod 10) = Pending
      \<or> jobs s' ! (k mod 10) = Done \<and> pOut s' ! (k mod 10) = val (bs ! k))"
      using I(4) k b bl len by (cases "k mod 10 = b") (auto simp: s' slots_ok_def)
  qed
  moreover have "pending_ok s'"
    using I(5) b(1) len by (auto simp: pending_ok_def s' nth_list_update split: if_splits)
  moreover have "counts_ok s'" using I(2) by (simp add: s' counts_ok_def split: pc.splits)
  moreover have "src_ok ok val src s' bs r" using I(3) by (simp add: s' src_ok_def filled_def)
  moreover have "mem_ok s'" using I(1) by (simp add: s' mem_ok_def)
  moreover have "h_pc s' = DoEnq \<longrightarrow> pInp s' ! (blkId s' mod 10) = bytes (bs ! blkId s')"
    using I(6) by (simp add: s')
  ultimately show ?thesis by (simp add: buf_inv_def)
qed

lemma inv_main_step:
  assumes inv: "inv s bs r" and step: "buf_step fillr s s'"
  shows "\<exists>bs' r'. inv s' bs' r' \<and> rank s' (left r') < rank s (left r)"
  using step
proof cases
  case p_top_read
  with inv_top_read [OF inv] show ?thesis by (intro exI [of _ bs] exI [of _ r]) (simp add: rank_def)
next
  case p_top_go
  with inv_top_go [OF inv] show ?thesis by (intro exI [of _ bs] exI [of _ r]) (simp add: rank_def)
next
  case p_top_exit
  with inv_top_exit [OF inv] window [OF buf_invD(2) [OF inv]] show ?thesis
    by (intro exI [of _ bs] exI [of _ r]) (simp add: rank_def)
next
  case p_fill
  obtain bs' r' where "inv s' bs' r'" "h_pc s' = DoEnq" "bRealPages s' \<longrightarrow> left r' < left r"
    using inv_fill [OF inv p_fill] by blast
  with p_fill show ?thesis by (intro exI [of _ bs'] exI [of _ r']) (auto simp: rank_def)
next
  case p_enq
  with inv_enq [OF inv] show ?thesis by (intro exI [of _ bs] exI [of _ r]) (simp add: rank_def)
next
  case p_enq_fail
  have "blkId s - blkIdDone s < 12" using window [OF buf_invD(2) [OF inv]] by linarith
  with p_enq_fail inv_enq_fail [OF inv] show ?thesis
    by (intro exI [of _ bs] exI [of _ r]) (simp add: rank_def)
next
  case p_drain
  with inv_drain [OF inv] show ?thesis by (intro exI [of _ bs] exI [of _ r]) (simp add: rank_def)
next
  case p_halt
  with inv_halt [OF inv] show ?thesis by (intro exI [of _ bs] exI [of _ r]) (simp add: rank_def)
qed

text \<open>Every step makes the potential smaller, so a run has a bounded number of steps.\<close>

lemma inv_reach:
  assumes "buf_reach fillr dev s0 n s" "inv s0 bs0 r0"
  shows "\<exists>bs r. inv s bs r \<and> n + potential s (left r) \<le> potential s0 (left r0)"
  using assms(1)
proof induction
  case p_reach_init
  then show ?case using assms(2) by auto
next
  case (p_reach_host n s s')
  then obtain bs r where I: "inv s bs r" "n + potential s (left r) \<le> potential s0 (left r0)" by blast
  obtain bs' r' where J: "inv s' bs' r'" "rank s' (left r') < rank s (left r)"
    using inv_main_step [OF I(1) p_reach_host.hyps(2)] by blast
  have "potential s' (left r') < potential s (left r)"
    using J(2) pendings_le [of s'] by (simp add: potential_def)
  with I(2) J(1) show ?case by (intro exI [of _ bs'] exI [of _ r']) simp
next
  case (p_reach_dev n s s')
  then obtain bs r where I: "inv s bs r" "n + potential s (left r) \<le> potential s0 (left r0)" by blast
  have "potential s' (left r) < potential s (left r)"
    using dev_potential [OF p_reach_dev.hyps(2)] buf_invD(1) [OF I(1)] by (simp add: mem_ok_def)
  with I(2) inv_dev [OF I(1) p_reach_dev.hyps(2)] show ?case
    by (intro exI [of _ bs] exI [of _ r]) simp
qed

text \<open>No reachable state is stuck before the end: either the host or the device can move.\<close>

lemma inv_progress:
  assumes inv: "inv s bs r" and "h_pc s \<noteq> Halt"
  shows "\<exists>s'. (buf_step fillr s s' \<or> dev_step d s s') \<and> enq_ok s' = enq_ok s"
proof -
  note I = buf_invD [OF inv]
  have blocked: "\<exists>s'. dev_step d s s' \<and> enq_ok s' = enq_ok s"
    if "blkIdDone s \<le> k" "k < blkId s" "jobs s ! (k mod 10) \<noteq> Done" for k
  proof -
    have "jobs s ! (k mod 10) = Pending" using I(4) that unfolding slots_ok_def by blast
    then show ?thesis using dev_step.run [of "k mod 10" s d] by (auto intro!: exI)
  qed
  have moved: "\<exists>s'. (buf_step fillr s s' \<or> dev_step d s s') \<and> enq_ok s' = enq_ok s"
    if "buf_step fillr s s1" "enq_ok s1 = enq_ok s" for s1
    using that by blast
  show ?thesis
  proof (cases "h_pc s")
    case Top
    show ?thesis
    proof (cases "bRealPages s \<and> read_back s \<and> \<not> group_done s")
      case True
      then obtain k where k: "k < 5" "jobs s ! (grp s * 5 + k) \<noteq> Done"
        by (auto simp: group_done_def list_all_iff)
      note G = read_back_group [OF Top I(2)]
      have "blkIdDone s + k < blkId s"
        using G(1) True k(1) by (auto simp: read_back_def)
      then show ?thesis using blocked [of "blkIdDone s + k"] G(2) [OF _ k(1)] k True by auto
    next
      case False
      then consider "bRealPages s" "read_back s" "group_done s" | "bRealPages s" "\<not> read_back s"
        | "\<not> bRealPages s" by blast
      then show ?thesis
      proof cases
        case 1
        show ?thesis by (rule moved [OF buf_step.p_top_read [OF Top 1]]) simp
      next
        case 2
        show ?thesis by (rule moved [OF buf_step.p_top_go [OF Top 2]]) simp
      next
        case 3
        show ?thesis by (rule moved [OF buf_step.p_top_exit [OF Top 3]]) simp
      qed
    qed
  next
    case DoFill
    obtain s1 where s1: "fillr s s1" using fill_total [OF fill_ready [OF inv DoFill]] by blast
    then have "enq_ok s1 = enq_ok s" using inv_fill [OF inv DoFill] by blast
    then show ?thesis using moved buf_step.p_fill [of s fillr s1, OF DoFill s1] by blast
  next
    case DoEnq
    show ?thesis by (rule moved [OF buf_step.p_enq [OF DoEnq]]) simp
  next
    case Drain
    then consider "blkIdDone s < blkId s" "jobs s ! (blkIdDone s mod 10) = Done"
      | "blkIdDone s < blkId s" "jobs s ! (blkIdDone s mod 10) \<noteq> Done" | "blkId s \<le> blkIdDone s"
      by linarith
    then show ?thesis
    proof cases
      case 1
      show ?thesis by (rule moved [OF buf_step.p_drain [OF Drain 1]]) simp
    next
      case 2
      then show ?thesis using blocked [of "blkIdDone s"] by auto
    next
      case 3
      show ?thesis by (rule moved [OF buf_step.p_halt [OF Drain 3]]) simp
    qed
  next
    case Halt
    then show ?thesis using assms(2) by simp
  qed
qed

text \<open>From every state of the invariant a run without enqueue failure leads to the end.\<close>

lemma can_halt:
  assumes "inv s bs r" "enq_ok s"
  shows "\<exists>n s'. buf_reach fillr dev s n s' \<and> h_pc s' = Halt \<and> enq_ok s'"
  using assms
proof (induction "potential s (left r)" arbitrary: s bs r rule: less_induct)
  case less
  show ?case
  proof (cases "h_pc s = Halt")
    case True
    then show ?thesis using less.prems(2) buf_reach.p_reach_init by blast
  next
    case False
    then obtain s1 where s1: "buf_step fillr s s1 \<or> dev_step dev s s1" "enq_ok s1"
      using inv_progress [OF less.prems(1)] less.prems(2) by blast
    then have one: "buf_reach fillr dev s (Suc 0) s1"
      using buf_reach.p_reach_host buf_reach.p_reach_dev buf_reach.p_reach_init by metis
    then obtain bs1 r1 where I: "inv s1 bs1 r1"
      "Suc 0 + potential s1 (left r1) \<le> potential s (left r)"
      using inv_reach [OF one less.prems(1)] by blast
    obtain n s' where "buf_reach fillr dev s1 n s'" "h_pc s' = Halt" "enq_ok s'"
      using less.hyps [OF _ I(1) s1(2)] I(2) by auto
    then show ?thesis using buf_reach_trans [OF _ one] by blast
  qed
qed

end

end
