(* ===== verification/Run_HW.thy ===== *)
theory Run_HW
  imports Kernel Swemu Pipeline Growing
begin

text \<open>
  The hardware run \<^verbatim>\<open>xql6_run_hw\<close> of \<^verbatim>\<open>xql6/host/xql6.c\<close> after the kernel is started: the
  pipeline, filled by \<^verbatim>\<open>xql6FillBlock\<close>.
\<close>

section \<open>The engine contract\<close>

text \<open>What the host relies on: on a well-formed block the engine returns the query's sum.\<close>

locale block_engine =
  fixes compute :: "u8 list \<Rightarrow> i64"
  assumes compute_law: "wf_block pgs \<Longrightarrow> compute (block_of pgs) = word_of_int (q6_spec (rows_of pgs))"

text \<open>
  The accelerator is the kernel on the words of the buffer. \<open>junk\<close> is the content of
  uninitialised memory.
\<close>

definition fpga_compute :: "(nat \<Rightarrow> nat \<Rightarrow> nat \<Rightarrow> nat \<Rightarrow> u8 list) \<Rightarrow> u8 list \<Rightarrow> i64" where
  "fpga_compute junk blk = (case fpga_q6 (\<lambda>u i t f. array_of NMRC_FIELD_SZ (junk u i t f))
     (words_of NUM_WORDS blk) of Inl _ \<Rightarrow> 0 | Inr r \<Rightarrow> r)"

definition swemu_compute :: "(nat \<Rightarrow> u8 list) \<Rightarrow> rdr \<Rightarrow> u8 list \<Rightarrow> i64" where
  "swemu_compute junk s blk = (case q6_swemu (\<lambda>i. array_of FIELD_SZ (junk i)) blk
     (s\<lparr>p_word := array_of WORD_SZ (p_word s)\<rparr>) of Inl _ \<Rightarrow> 0 | Inr (r, _) \<Rightarrow> r)"

interpretation hw_engine: block_engine "fpga_compute junk" for junk
  by unfold_locales (simp add: fpga_compute_def fpga_q6_law)

interpretation sw_engine: block_engine "swemu_compute junk s" for junk s
proof
  fix pgs
  assume "wf_block pgs"
  then obtain s' where "q6_swemu (\<lambda>i. array_of FIELD_SZ (junk i)) (block_of pgs)
      (s\<lparr>p_word := array_of WORD_SZ (p_word s)\<rparr>) = Inr (word_of_int (q6_spec (rows_of pgs)), s')"
    using q6_swemu_law by fastforce
  then show "swemu_compute junk s (block_of pgs) = word_of_int (q6_spec (rows_of pgs))"
    by (simp add: swemu_compute_def)
qed

section \<open>The host\<close>

text \<open>
  A step of the host; \<open>snaps k i\<close> is the relation as it is found when page \<open>i\<close> of block \<open>k\<close> is packed. Waiting for events is a step that is only possible once they have
  fired. Enqueueing may fail; then the loop is left without counting the block.
\<close>

inductive host_step :: "(nat \<Rightarrow> nat \<Rightarrow> nat \<Rightarrow> u8 list) \<Rightarrow> hw \<Rightarrow> hw \<Rightarrow> bool" for snaps where
  top_read: "h_pc s = Top \<Longrightarrow> bRealPages s \<Longrightarrow> read_back s \<Longrightarrow> group_done s \<Longrightarrow>
    host_step snaps s (s\<lparr>h_pc := DoFill, h_sum := h_sum s + group_sum s, blkIdDone := blkId s - 5\<rparr>)"
| top_go: "h_pc s = Top \<Longrightarrow> bRealPages s \<Longrightarrow> \<not> read_back s \<Longrightarrow>
    host_step snaps s (s\<lparr>h_pc := DoFill\<rparr>)"
| top_exit: "h_pc s = Top \<Longrightarrow> \<not> bRealPages s \<Longrightarrow> host_step snaps s (s\<lparr>h_pc := Drain\<rparr>)"
| fill: "h_pc s = DoFill \<Longrightarrow>
    xql6FillBlock (snaps (blkId s)) lin0 (pInp s ! (blkId s mod 10)) (h_nTups s) (h_fill s)
      = Inr (b, blk, nTups, st, tr) \<Longrightarrow>
    host_step snaps s (s\<lparr>h_pc := DoEnq, bRealPages := b, h_nTups := nTups, h_fill := st,
      pInp := (pInp s)[blkId s mod 10 := blk]\<rparr>)"
| enq: "h_pc s = DoEnq \<Longrightarrow>
    host_step snaps s (s\<lparr>h_pc := Top, blkId := blkId s + 1,
      jobs := (jobs s)[blkId s mod 10 := Pending]\<rparr>)"
| enq_fail: "h_pc s = DoEnq \<Longrightarrow> host_step snaps s (s\<lparr>h_pc := Drain, enq_ok := False\<rparr>)"
| drain: "h_pc s = Drain \<Longrightarrow> blkIdDone s < blkId s \<Longrightarrow> jobs s ! (blkIdDone s mod 10) = Done \<Longrightarrow>
    host_step snaps s (s\<lparr>h_sum := h_sum s + pOut s ! (blkIdDone s mod 10),
      blkIdDone := blkIdDone s + 1\<rparr>)"
| halt: "h_pc s = Drain \<Longrightarrow> blkId s \<le> blkIdDone s \<Longrightarrow> host_step snaps s (s\<lparr>h_pc := Halt\<rparr>)"

text \<open>\<open>hw_reach snaps dev s0 n s\<close>: an interleaving of \<open>n\<close> steps leads from \<open>s0\<close> to \<open>s\<close>.\<close>

inductive hw_reach :: "(nat \<Rightarrow> nat \<Rightarrow> nat \<Rightarrow> u8 list) \<Rightarrow> (u8 list \<Rightarrow> i64) \<Rightarrow> hw \<Rightarrow> nat \<Rightarrow> hw \<Rightarrow> bool"
  for snaps dev s0 where
  reach_init: "hw_reach snaps dev s0 0 s0"
| reach_host: "hw_reach snaps dev s0 n s \<Longrightarrow> host_step snaps s s' \<Longrightarrow> hw_reach snaps dev s0 (Suc n) s'"
| reach_dev: "hw_reach snaps dev s0 n s \<Longrightarrow> dev_step dev s s' \<Longrightarrow> hw_reach snaps dev s0 (Suc n) s'"

section \<open>The run is a run of the pipeline\<close>

definition fill_rel :: "(nat \<Rightarrow> nat \<Rightarrow> nat \<Rightarrow> u8 list) \<Rightarrow> hw \<Rightarrow> hw \<Rightarrow> bool" where
  "fill_rel snaps s s' \<longleftrightarrow> (\<exists>lin0 b blk nTups st tr.
     xql6FillBlock (snaps (blkId s)) lin0 (pInp s ! (blkId s mod 10)) (h_nTups s) (h_fill s) = Inr (b, blk, nTups, st, tr)
     \<and> s' = s\<lparr>h_pc := DoEnq, bRealPages := b, h_nTups := nTups, h_fill := st,
         pInp := (pInp s)[blkId s mod 10 := blk]\<rparr>)"

lemma host_step_pipe: "host_step snaps s s' \<longleftrightarrow> buf_step (fill_rel snaps) s s'"
proof
  assume "host_step snaps s s'"
  then show "buf_step (fill_rel snaps) s s'"
  proof cases
    case fill
    then have "fill_rel snaps s s'" unfolding fill_rel_def by blast
    then show ?thesis by (rule buf_step.p_fill [of s, OF fill(2)])
  qed (blast intro: buf_step.intros)+
next
  assume "buf_step (fill_rel snaps) s s'"
  then show "host_step snaps s s'"
  proof cases
    case p_fill
    then show ?thesis unfolding fill_rel_def using host_step.fill by blast
  qed (blast intro: host_step.intros)+
qed

lemma hw_reach_pipe: "hw_reach snaps dev s0 n s \<longleftrightarrow> buf_reach (fill_rel snaps) dev s0 n s"
proof
  assume "hw_reach snaps dev s0 n s"
  then show "buf_reach (fill_rel snaps) dev s0 n s"
    by induction (auto simp: host_step_pipe intro: buf_reach.intros)
next
  assume "buf_reach (fill_rel snaps) dev s0 n s"
  then show "hw_reach snaps dev s0 n s"
    by induction (auto simp flip: host_step_pipe intro: hw_reach.intros)
qed

section \<open>The packed blocks are a source\<close>

definition blk_sum :: "(lineitem list \<times> u8 list) list \<Rightarrow> i64" where
  "blk_sum pgs = word_of_int (q6_spec (rows_of pgs))"

text \<open>
  The relation may grow while it is read; \<open>lis'\<close> are the rows the scan has not passed of all rows \<open>lis\<close> it ever
  stores. The rows it stored at first are among those packed and those that are left.
\<close>

definition rows_src :: "(nat \<Rightarrow> u8 list list list) \<Rightarrow> u8 list list list \<Rightarrow> lineitem list
    \<Rightarrow> ((lineitem list \<times> u8 list) list, lineitem list) source" where
  "rows_src T E lis st nTups br bs lis' \<longleftrightarrow> subseq (concat (map rows_of bs) @ lis') lis
     \<and> list_all wf_lineitem lis' \<and> fill_ok (T (XQL6_PAGES_PER_BLK * length bs)) st
     \<and> pending E st = map enc_tuple lis' \<and> nTups = length (concat (map rows_of bs))
     \<and> subseq (live (concat (T 0))) (map enc_tuple (concat (map rows_of bs)) @ pending (T (XQL6_PAGES_PER_BLK * length bs)) st)
     \<and> (\<not> br \<longrightarrow> subseq (live (concat (T 0))) (map enc_tuple (concat (map rows_of bs))))"

definition packing_src :: "(nat \<Rightarrow> nat \<Rightarrow> nat \<Rightarrow> u8 list) \<Rightarrow> (nat \<Rightarrow> u8 list list list) \<Rightarrow> u8 list list list
    \<Rightarrow> lineitem list \<Rightarrow> ((lineitem list \<times> u8 list) list, lineitem list) source" where
  "packing_src snaps T E lis st nTups br bs lis' \<longleftrightarrow>
     snaps_grow snaps T E \<and> rows_src T E lis st nTups br bs lis'"

abbreviation hw_inv :: "(nat \<Rightarrow> u8 list list list) \<Rightarrow> u8 list list list \<Rightarrow> lineitem list \<Rightarrow> hw
    \<Rightarrow> (lineitem list \<times> u8 list) list list \<Rightarrow> lineitem list \<Rightarrow> bool" where
  "hw_inv T E lis \<equiv> buf_inv wf_block block_of blk_sum (rows_src T E lis)"

lemma packing_inv:
  "buf_inv wf_block block_of blk_sum (packing_src snaps T E lis) s bs lis'
   \<longleftrightarrow> snaps_grow snaps T E \<and> hw_inv T E lis s bs lis'"
  by (auto simp: buf_inv_def src_ok_def packing_src_def)

lemma packing_fill:
  assumes "packing_src snaps T E lis (h_fill s) (h_nTups s) (bRealPages s) bs lis'" "length bs = blkId s"
    and "length (pInp s ! (blkId s mod 10)) = XQL6_BLK_SZ"
  shows "\<exists>pgs lis'' br st bs'. xql6FillBlock (snaps (blkId s)) lin0 (pInp s ! (blkId s mod 10)) (h_nTups s) (h_fill s)
      = Inr (br, block_of pgs, h_nTups s + length (rows_of pgs), st, concat (map buf_cycle bs'))
    \<and> wf_block pgs \<and> packing_src snaps T E lis st (h_nTups s + length (rows_of pgs)) br (bs @ [pgs]) lis''
    \<and> (br \<longrightarrow> length lis'' < length lis')"
proof -
  let ?P = XQL6_PAGES_PER_BLK
  let ?T = "\<lambda>i. T (?P * blkId s + i)" and ?done = "concat (map rows_of bs)"
  have R: "snaps_grow snaps T E" "fill_ok (?T 0) (h_fill s)" "pending E (h_fill s) = map enc_tuple lis'"
    "list_all wf_lineitem lis'" "subseq (?done @ lis') lis" "h_nTups s = length ?done"
    "subseq (live (concat (T 0))) (map enc_tuple ?done @ pending (?T 0) (h_fill s))"
    using assms(1,2) by (auto simp: packing_src_def rows_src_def)
  have T: "\<forall>i. relation_ok (snaps (blkId s) i) (?T i)" "growing ?T E"
    using R(1) by (auto simp: snaps_grow_def intro: growing_shift)
  obtain pgs lis'' br st bs' where F: "xql6FillBlock (snaps (blkId s)) lin0 (pInp s ! (blkId s mod 10)) (h_nTups s) (h_fill s)
      = Inr (br, block_of pgs, h_nTups s + length (rows_of pgs), st, concat (map buf_cycle bs'))"
    "wf_block pgs" "subseq (rows_of pgs @ lis'') lis'" "fill_ok (?T ?P) st" "pending E st = map enc_tuple lis''"
    "subseq (pending (?T 0) (h_fill s)) (map enc_tuple (rows_of pgs) @ pending (?T ?P) st)"
    "\<not> br \<longrightarrow> subseq (pending (?T 0) (h_fill s)) (map enc_tuple (rows_of pgs))" "br \<longrightarrow> rows_of pgs \<noteq> []"
    using xql6FillBlock_grows [OF T R(2) assms(3) R(3,4), where ?lin0.0 = lin0 and nTups = "h_nTups s"] by blast
  have wf: "list_all wf_lineitem lis''" using R(4) F(3) by (auto simp: list_all_iff elim: list_emb_set)
  have up: "subseq (?done @ rows_of pgs @ lis'') lis"
    by (rule subseq_order.trans [OF _ R(5)]) (simp add: subseq_append' F(3))
  have low: "subseq (live (concat (T 0))) (map enc_tuple (?done @ rows_of pgs) @ pending (?T ?P) st)"
    by (rule subseq_order.trans [OF R(7)]) (use F(6) in \<open>simp add: subseq_append'\<close>)
  have fin: "subseq (live (concat (T 0))) (map enc_tuple (?done @ rows_of pgs))" if "\<not> br"
    by (rule subseq_order.trans [OF R(7)]) (use F(7) that in \<open>simp add: subseq_append'\<close>)
  have nx: "?T ?P = T (?P * length (bs @ [pgs]))" using assms(2) by (simp add: algebra_simps)
  have "packing_src snaps T E lis st (h_nTups s + length (rows_of pgs)) br (bs @ [pgs]) lis''"
    using R(1,6) F(4,5) wf up low fin unfolding nx packing_src_def rows_src_def by simp
  moreover have "br \<longrightarrow> length lis'' < length lis'"
    using list_emb_length [OF F(3)] F(8) by (cases "rows_of pgs") auto
  ultimately show ?thesis using F(1,2) by blast
qed

sublocale block_engine \<subseteq> packing: block_source "fill_rel snaps" compute wf_block block_of blk_sum
  "packing_src snaps T E lis" length for snaps T E lis
proof (unfold_locales, goal_cases)
  case (1 b)
  then show ?case by (simp add: compute_law blk_sum_def)
next
  case (2 b)
  then show ?case using block_length [of b] by (simp add: wf_block_def XQL6_BLK_SZ_def PAGE_SZ_def)
next
  case (3 s bs r s')
  from 3(5) obtain lin0 b blk nTups st tr where f: "xql6FillBlock (snaps (blkId s)) lin0 (pInp s ! (blkId s mod 10))
      (h_nTups s) (h_fill s) = Inr (b, blk, nTups, st, tr)"
    and s': "s' = s\<lparr>h_pc := DoEnq, bRealPages := b, h_nTups := nTups, h_fill := st,
         pInp := (pInp s)[blkId s mod 10 := blk]\<rparr>"
    unfolding fill_rel_def by blast
  obtain pgs lis'' where "blk = block_of pgs" "wf_block pgs"
    "packing_src snaps T E lis st nTups b (bs @ [pgs]) lis''" "b \<longrightarrow> length lis'' < length r"
    using packing_fill [OF 3(1,2,4), of lin0] f by auto
  with s' show ?case by blast
next
  case (4 s bs r)
  show ?case using packing_fill [OF 4(1,2,4), of "\<lambda>_. 0"] unfolding fill_rel_def by blast
qed

context block_engine
begin

lemma run_reach:
  assumes "hw_reach snaps compute s0 n s" "snaps_grow snaps T E" "hw_inv T E lis s0 bs0 lis0"
  shows "\<exists>bs lis'. hw_inv T E lis s bs lis' \<and> n + potential s (length lis') \<le> potential s0 (length lis0)"
  using packing.inv_reach [of snaps s0 n s T E lis bs0 lis0] assms by (auto simp: hw_reach_pipe packing_inv)

lemma run_progress:
  assumes "hw_inv T E lis s bs lis'" "snaps_grow snaps T E" "h_pc s \<noteq> Halt"
  shows "\<exists>s'. host_step snaps s s' \<or> dev_step compute s s'"
  using packing.inv_progress [of snaps T E lis s bs lis' compute] assms
  by (auto simp: host_step_pipe packing_inv)

lemma run_can_halt:
  assumes "hw_inv T E lis s bs lis'" "snaps_grow snaps T E" "enq_ok s"
  shows "\<exists>n s'. hw_reach snaps compute s n s' \<and> h_pc s' = Halt \<and> enq_ok s'"
  using packing.can_halt [of snaps T E lis s bs lis'] assms by (auto simp: hw_reach_pipe packing_inv)

end

lemma run_init:
  assumes "length inp = 10" "list_all (\<lambda>b. length b = XQL6_BLK_SZ) inp" "length out = 10"
    and "growing T E" "live (concat E) = map enc_tuple lis" "list_all wf_lineitem lis"
  shows "hw_inv T E lis (hw_init (length E) inp out) [] lis"
  using assms(5,6) grows_length [OF growingD(1) [OF assms(4)], of 0]
  by (intro buf_inv_init [OF assms(1-3)]) (simp add: rows_src_def fill_ok_def pending_def tups_from_0)

text \<open>
  At the end of a run without an enqueue failure the sum is that of a list of rows between those stored at
  first and those stored at last.
\<close>

lemma run_halt_rows:
  assumes "hw_inv T E lis s bs lis'" "h_pc s = Halt" "enq_ok s"
  shows "\<exists>rows. h_sum s = word_of_int (q6_spec rows) \<and> h_nTups s = length rows
    \<and> subseq (live (concat (T 0))) (map enc_tuple rows) \<and> subseq rows lis"
proof -
  have R: "h_sum s = sum_list (map blk_sum bs)" "subseq (concat (map rows_of bs) @ lis') lis"
    "h_nTups s = length (concat (map rows_of bs))" "subseq (live (concat (T 0))) (map enc_tuple (concat (map rows_of bs)))"
    using buf_halt [OF assms] by (auto simp: rows_src_def)
  have "sum_list (map blk_sum bs) = word_of_int (q6_spec (concat (map rows_of bs)))"
    by (induction bs) (simp_all add: blk_sum_def)
  moreover have "subseq (concat (map rows_of bs)) lis"
    by (rule subseq_order.trans [OF _ R(2)]) (rule subseq_rev_drop_many, simp)
  ultimately show ?thesis using R by metis
qed

lemma run_halt_sum:
  assumes "hw_inv (\<lambda>_. tupss) tupss lis s bs lis'" "live (concat tupss) = map enc_tuple lis" "h_pc s = Halt" "enq_ok s"
  shows "h_sum s = word_of_int (q6_spec lis) \<and> h_nTups s = length lis"
proof -
  obtain rows where R: "h_sum s = word_of_int (q6_spec rows)" "h_nTups s = length rows"
    "subseq (map enc_tuple lis) (map enc_tuple rows)" "subseq rows lis"
    using run_halt_rows [OF assms(1,3,4)] assms(2) by auto
  have "rows = lis"
    using R(4) list_emb_length [OF R(3)] list_emb_length [OF R(4)] by (simp add: subseq_same_length)
  with R(1,2) show ?thesis by simp
qed

end
