(* ===== verification/FPGA_Host.thy ===== *)
theory FPGA_Host
  imports Prelude
begin

text \<open>
  The host's OpenCL session, \<^verbatim>\<open>xql6/host/fpga_q6.c\<close>: loading the kernel binary, opening and
  closing the device, the ten pairs of mapped buffers, and enqueueing one computation.

  The OpenCL runtime is outside the repository. Its answers are the argument \<open>orc\<close>: call
  number \<open>n\<close> of the session returns the status and handle \<open>orc n\<close>. Every call is recorded
  with the objects it was given; an event is named by the number of the call that created it.
  The last row of calls is only used by the peer-to-peer variant.
\<close>

section \<open>Calls, events and the session\<close>

datatype clcall =
    GetPlatformIDs | GetPlatformVendor | GetPlatformName | GetDeviceIDs
  | CreateContext | CreateCommandQueue | CreateProgramWithBinary | BuildProgram
  | GetProgramBuildInfo | CreateKernel
  | ReleaseProgram int | ReleaseKernel int | ReleaseCommandQueue int | ReleaseContext int
  | CreateBuffer nat | MapBuffer int | UnmapMemObject int int | ReleaseMemObject int
  | MigrateToDevice int | SetKernelArg nat int | NDRangeKernel nat | MigrateToHost int nat
  | RetainEvent nat | ReleaseEvent nat
  | Fopen string | Fread nat | Fclose
  | GetDeviceCount | GetDeviceList nat | CreateContextOn int | CreateP2PBuffer nat | NDRangeKernelNow

type_synonym runtime = "nat \<Rightarrow> int \<times> int"

record session =
  gcontext :: int
  gcommands :: int
  gprogram :: int
  gkernel :: int
  devInp :: "int list"
  devOut :: "int list"
  pInp_ptr :: "int list"
  pOut_ptr :: "int list"
  wrEvent :: "nat list"
  ndEvent :: "nat list"
  rdEvent :: "nat list"
  calls :: "clcall list"

definition session0 :: session where
  "session0 = \<lparr>gcontext = 0, gcommands = 0, gprogram = 0, gkernel = 0,
     devInp = replicate 10 0, devOut = replicate 10 0,
     pInp_ptr = replicate 10 0, pOut_ptr = replicate 10 0,
     wrEvent = replicate 10 0, ndEvent = replicate 10 0, rdEvent = replicate 10 0, calls = []\<rparr>"

definition CL_SUCCESS :: int where "CL_SUCCESS = 0"
definition EXIT_SUCCESS :: int where "EXIT_SUCCESS = 0"
definition EXIT_FAILURE :: int where "EXIT_FAILURE = 1"

definition api :: "runtime \<Rightarrow> clcall \<Rightarrow> session \<Rightarrow> (int \<times> int) \<times> session" where
  "api orc c s = (orc (length (calls s)), s\<lparr>calls := calls s @ [c]\<rparr>)"

text \<open>The number the next call will have.\<close>

definition now :: "session \<Rightarrow> nat" where "now s = length (calls s)"

section \<open>Loading and opening\<close>

text \<open>
  \<open>file\<close> is what \<open>fopen\<close> finds (\<open>None\<close>: it fails), \<open>got\<close> how many bytes \<open>fread\<close> delivers. On
  a short read the stream is not closed.
\<close>

definition load_file_to_memory :: "(string \<Rightarrow> u8 list option) \<Rightarrow> nat \<Rightarrow> string \<Rightarrow> session \<Rightarrow> int \<times> session" where
  "load_file_to_memory file got filename s =
     (let s1 = s\<lparr>calls := calls s @ [Fopen filename]\<rparr> in
      case file filename of None \<Rightarrow> (-1, s1)
      | Some bytes \<Rightarrow>
        (let size = length bytes; s2 = s1\<lparr>calls := calls s1 @ [Fread size]\<rparr> in
         if size \<noteq> got then (-2, s2)
         else (int size, s2\<lparr>calls := calls s2 @ [Fclose]\<rparr>)))"

definition open_fpga :: "runtime \<Rightarrow> (string \<Rightarrow> u8 list option) \<Rightarrow> nat \<Rightarrow> string \<Rightarrow> session \<Rightarrow> int \<times> session" where
  "open_fpga orc file got xclbin s =
    (let (n_i, s) = load_file_to_memory file got xclbin s in
     if n_i < 0 then (EXIT_FAILURE, s) else
     let ((err, _), s) = api orc GetPlatformIDs s in
     if err \<noteq> CL_SUCCESS then (EXIT_FAILURE, s) else
     let ((err, _), s) = api orc GetPlatformVendor s in
     if err \<noteq> CL_SUCCESS then (EXIT_FAILURE, s) else
     let ((err, _), s) = api orc GetPlatformName s in
     if err \<noteq> CL_SUCCESS then (EXIT_FAILURE, s) else
     let ((err, _), s) = api orc GetDeviceIDs s in
     if err \<noteq> CL_SUCCESS then (EXIT_FAILURE, s) else
     let ((_, h), s) = api orc CreateContext s; s = s\<lparr>gcontext := h\<rparr> in
     if h = 0 then (EXIT_FAILURE, s) else
     let ((_, h), s) = api orc CreateCommandQueue s; s = s\<lparr>gcommands := h\<rparr> in
     if h = 0 then (EXIT_FAILURE, s) else
     let ((err, h), s) = api orc CreateProgramWithBinary s; s = s\<lparr>gprogram := h\<rparr> in
     if err \<noteq> CL_SUCCESS then (EXIT_FAILURE, s) else
     let ((err, _), s) = api orc BuildProgram s in
     if err \<noteq> CL_SUCCESS then (let (_, s) = api orc GetProgramBuildInfo s in (EXIT_FAILURE, s)) else
     let ((err, h), s) = api orc CreateKernel s; s = s\<lparr>gkernel := h\<rparr> in
     if h = 0 \<or> err \<noteq> CL_SUCCESS then (EXIT_FAILURE, s) else (EXIT_SUCCESS, s))"

definition close_fpga :: "runtime \<Rightarrow> session \<Rightarrow> int \<times> session" where
  "close_fpga orc s =
    (let (_, s) = api orc (ReleaseProgram (gprogram s)) s;
         (_, s) = api orc (ReleaseKernel (gkernel s)) s;
         (_, s) = api orc (ReleaseCommandQueue (gcommands s)) s;
         (_, s) = api orc (ReleaseContext (gcontext s)) s
     in (EXIT_SUCCESS, s))"

section \<open>Buffers\<close>

definition OCL_BLK_SZ :: nat where "OCL_BLK_SZ = 2 * 1024 * 1024"
definition RES_SZ :: nat where "RES_SZ = 8"

text \<open>The buffer loop of \<open>start_fpga\<close> from index \<open>i\<close>, \<open>n\<close> iterations to go.\<close>

fun alloc_loop :: "runtime \<Rightarrow> nat \<Rightarrow> nat \<Rightarrow> session \<Rightarrow> int \<times> session" where
  "alloc_loop orc 0 i s = (EXIT_SUCCESS, s)"
| "alloc_loop orc (Suc n) i s =
    (let ((_, hi), s) = api orc (CreateBuffer OCL_BLK_SZ) s; s = s\<lparr>devInp := (devInp s)[i := hi]\<rparr>;
         ((_, ho), s) = api orc (CreateBuffer RES_SZ) s; s = s\<lparr>devOut := (devOut s)[i := ho]\<rparr> in
     if hi = 0 \<or> ho = 0 then (EXIT_FAILURE, s) else
     let ((_, pi), s) = api orc (MapBuffer hi) s; s = s\<lparr>pInp_ptr := (pInp_ptr s)[i := pi]\<rparr>;
         ((_, po), s) = api orc (MapBuffer ho) s; s = s\<lparr>pOut_ptr := (pOut_ptr s)[i := po]\<rparr> in
     if pi = 0 \<or> po = 0 then (EXIT_FAILURE, s) else alloc_loop orc n (Suc i) s)"

definition start_fpga :: "runtime \<Rightarrow> (string \<Rightarrow> u8 list option) \<Rightarrow> nat \<Rightarrow> string \<Rightarrow> session \<Rightarrow> int \<times> session" where
  "start_fpga orc file got xclbin s =
    (let (status, s) = open_fpga orc file got xclbin s in
     if status \<noteq> EXIT_SUCCESS then (EXIT_FAILURE, s) else alloc_loop orc 10 0 s)"

fun free_loop :: "runtime \<Rightarrow> nat \<Rightarrow> nat \<Rightarrow> session \<Rightarrow> session" where
  "free_loop orc 0 i s = s"
| "free_loop orc (Suc n) i s =
    (let (_, s) = api orc (UnmapMemObject (devInp s ! i) (pInp_ptr s ! i)) s;
         (_, s) = api orc (UnmapMemObject (devOut s ! i) (pOut_ptr s ! i)) s;
         (_, s) = api orc (ReleaseMemObject (devInp s ! i)) s;
         (_, s) = api orc (ReleaseMemObject (devOut s ! i)) s
     in free_loop orc n (Suc i) (s\<lparr>devInp := (devInp s)[i := 0], devOut := (devOut s)[i := 0],
          pInp_ptr := (pInp_ptr s)[i := 0], pOut_ptr := (pOut_ptr s)[i := 0]\<rparr>))"

definition end_fpga :: "runtime \<Rightarrow> session \<Rightarrow> int \<times> session" where
  "end_fpga orc s =
    (let s = free_loop orc 10 0 s; (status, s) = close_fpga orc s in
     if status \<noteq> EXIT_SUCCESS then (EXIT_FAILURE, s) else (EXIT_SUCCESS, s))"

section \<open>Enqueueing\<close>

text \<open>The two results of \<open>clSetKernelArg\<close> are combined with a bitwise or.\<close>

definition fpga_q6_enq_compute :: "runtime \<Rightarrow> nat \<Rightarrow> session \<Rightarrow> int \<times> session" where
  "fpga_q6_enq_compute orc bufId s =
    (let wr = now s; ((err, _), s) = api orc (MigrateToDevice (devInp s ! bufId)) s;
         s = s\<lparr>wrEvent := (wrEvent s)[bufId := wr]\<rparr> in
     if err \<noteq> CL_SUCCESS then (EXIT_FAILURE, s) else
     let ((err1, _), s) = api orc (SetKernelArg 0 (devInp s ! bufId)) s;
         ((err2, _), s) = api orc (SetKernelArg 1 (devOut s ! bufId)) s in
     if \<not> (err1 = CL_SUCCESS \<and> err2 = CL_SUCCESS) then (EXIT_FAILURE, s) else
     let nd = now s; ((err, _), s) = api orc (NDRangeKernel (wrEvent s ! bufId)) s;
         s = s\<lparr>ndEvent := (ndEvent s)[bufId := nd]\<rparr> in
     if err \<noteq> 0 then (EXIT_FAILURE, s) else
     let rdv = now s; ((err, _), s) = api orc (MigrateToHost (devOut s ! bufId) (ndEvent s ! bufId)) s;
         s = s\<lparr>rdEvent := (rdEvent s)[bufId := rdv]\<rparr> in
     if err \<noteq> 0 then (EXIT_FAILURE, s) else
     let (_, s) = api orc (RetainEvent (rdEvent s ! bufId)) s;
         (_, s) = api orc (ReleaseEvent (wrEvent s ! bufId)) s;
         (_, s) = api orc (ReleaseEvent (ndEvent s ! bufId)) s;
         (_, s) = api orc (ReleaseEvent (rdEvent s ! bufId)) s
     in (EXIT_SUCCESS, s))"

section \<open>Every buffer of a session is unmapped and released\<close>

lemma api_simps [simp]:
  "fst (api orc c s) = orc (length (calls s))"
  "snd (api orc c s) = s\<lparr>calls := calls s @ [c]\<rparr>"
  by (simp_all add: api_def)

definition arrays_ok :: "session \<Rightarrow> bool" where
  "arrays_ok s \<longleftrightarrow> length (devInp s) = 10 \<and> length (devOut s) = 10 \<and> length (pInp_ptr s) = 10
     \<and> length (pOut_ptr s) = 10 \<and> length (wrEvent s) = 10 \<and> length (ndEvent s) = 10
     \<and> length (rdEvent s) = 10"

text \<open>What \<open>start_fpga\<close> and \<open>end_fpga\<close> do for buffer pair \<open>i\<close>, as calls.\<close>

definition alloc_calls :: "session \<Rightarrow> nat \<Rightarrow> clcall list" where
  "alloc_calls s i = [CreateBuffer OCL_BLK_SZ, CreateBuffer RES_SZ,
     MapBuffer (devInp s ! i), MapBuffer (devOut s ! i)]"

definition free_calls :: "session \<Rightarrow> nat \<Rightarrow> clcall list" where
  "free_calls s i = [UnmapMemObject (devInp s ! i) (pInp_ptr s ! i),
     UnmapMemObject (devOut s ! i) (pOut_ptr s ! i),
     ReleaseMemObject (devInp s ! i), ReleaseMemObject (devOut s ! i)]"

lemma free_loop_law:
  assumes "arrays_ok s" "i + n \<le> 10"
  shows "calls (free_loop orc n i s) = calls s @ concat (map (free_calls s) [i..<i + n])
    \<and> devInp (free_loop orc n i s) = take i (devInp s) @ replicate n 0 @ drop (i + n) (devInp s)
    \<and> devOut (free_loop orc n i s) = take i (devOut s) @ replicate n 0 @ drop (i + n) (devOut s)
    \<and> pInp_ptr (free_loop orc n i s) = take i (pInp_ptr s) @ replicate n 0 @ drop (i + n) (pInp_ptr s)
    \<and> pOut_ptr (free_loop orc n i s) = take i (pOut_ptr s) @ replicate n 0 @ drop (i + n) (pOut_ptr s)
    \<and> gcontext (free_loop orc n i s) = gcontext s \<and> gcommands (free_loop orc n i s) = gcommands s
    \<and> gprogram (free_loop orc n i s) = gprogram s \<and> gkernel (free_loop orc n i s) = gkernel s"
  using assms
proof (induction n arbitrary: i s)
  case 0
  then show ?case by simp
next
  case (Suc n)
  let ?s1 = "s\<lparr>calls := calls s @ free_calls s i, devInp := (devInp s)[i := 0],
    devOut := (devOut s)[i := 0], pInp_ptr := (pInp_ptr s)[i := 0], pOut_ptr := (pOut_ptr s)[i := 0]\<rparr>"
  have run: "free_loop orc (Suc n) i s = free_loop orc n (Suc i) ?s1"
    by (simp add: api_def free_calls_def Let_def)
  have ok: "arrays_ok ?s1" using Suc.prems(1) by (simp add: arrays_ok_def)
  have len: "i < 10" "length (devInp s) = 10" "length (devOut s) = 10" "length (pInp_ptr s) = 10"
    "length (pOut_ptr s) = 10"
    using Suc.prems by (auto simp: arrays_ok_def)
  have tk: "take (Suc i) (xs[i := 0]) = take i xs @ [0]" if "length xs = 10" for xs :: "int list"
    using that len(1) by (simp add: take_Suc_conv_app_nth)
  have eq: "map (free_calls ?s1) [Suc i..<j] = map (free_calls s) [Suc i..<j]" for j
    by (rule map_cong) (auto simp: free_calls_def)
  have "[i..<i + Suc n] = i # [Suc i..<Suc i + n]" by (simp add: upt_conv_Cons del: upt_Suc)
  with Suc.IH [OF ok] Suc.prems(2) len show ?case
    unfolding run by (simp add: tk eq del: upt_Suc)
qed

lemma alloc_loop_law:
  assumes "arrays_ok s" "i + n \<le> 10" "alloc_loop orc n i s = (EXIT_SUCCESS, s')"
  shows "arrays_ok s' \<and> calls s' = calls s @ concat (map (alloc_calls s') [i..<i + n])
    \<and> (\<forall>j. i \<le> j \<and> j < i + n \<longrightarrow> devInp s' ! j \<noteq> 0 \<and> devOut s' ! j \<noteq> 0
         \<and> pInp_ptr s' ! j \<noteq> 0 \<and> pOut_ptr s' ! j \<noteq> 0)
    \<and> (\<forall>j < i. devInp s' ! j = devInp s ! j \<and> devOut s' ! j = devOut s ! j
         \<and> pInp_ptr s' ! j = pInp_ptr s ! j \<and> pOut_ptr s' ! j = pOut_ptr s ! j)
    \<and> gcontext s' = gcontext s \<and> gcommands s' = gcommands s
    \<and> gprogram s' = gprogram s \<and> gkernel s' = gkernel s"
  using assms
proof (induction n arbitrary: i s)
  case 0
  then show ?case by simp
next
  case (Suc n)
  let ?t = "length (calls s)"
  define hi ho pi po where h: "hi = snd (orc ?t)" "ho = snd (orc (Suc ?t))"
    "pi = snd (orc (Suc (Suc ?t)))" "po = snd (orc (Suc (Suc (Suc ?t))))"
  let ?s1 = "s\<lparr>devInp := (devInp s)[i := hi], devOut := (devOut s)[i := ho],
    pInp_ptr := (pInp_ptr s)[i := pi],
    calls := calls s @ [CreateBuffer OCL_BLK_SZ, CreateBuffer RES_SZ, MapBuffer hi, MapBuffer ho],
    pOut_ptr := (pOut_ptr s)[i := po]\<rparr>"
  have nz: "hi \<noteq> 0" "ho \<noteq> 0" "pi \<noteq> 0" "po \<noteq> 0"
    and run: "alloc_loop orc n (Suc i) ?s1 = (EXIT_SUCCESS, s')"
    using Suc.prems(3)
    by (auto simp: api_def Let_def h split_beta EXIT_SUCCESS_def EXIT_FAILURE_def split: if_splits)
  have ok: "arrays_ok ?s1" using Suc.prems(1) by (simp add: arrays_ok_def)
  have len: "i < 10" "length (devInp s) = 10" "length (devOut s) = 10" "length (pInp_ptr s) = 10"
    "length (pOut_ptr s) = 10"
    using Suc.prems by (auto simp: arrays_ok_def)
  have IH: "arrays_ok s'" "calls s' = calls ?s1 @ concat (map (alloc_calls s') [Suc i..<Suc i + n])"
    "\<forall>j. Suc i \<le> j \<and> j < Suc i + n \<longrightarrow> devInp s' ! j \<noteq> 0 \<and> devOut s' ! j \<noteq> 0
         \<and> pInp_ptr s' ! j \<noteq> 0 \<and> pOut_ptr s' ! j \<noteq> 0"
    "\<forall>j < Suc i. devInp s' ! j = devInp ?s1 ! j \<and> devOut s' ! j = devOut ?s1 ! j
         \<and> pInp_ptr s' ! j = pInp_ptr ?s1 ! j \<and> pOut_ptr s' ! j = pOut_ptr ?s1 ! j"
    "gcontext s' = gcontext s" "gcommands s' = gcommands s" "gprogram s' = gprogram s"
    "gkernel s' = gkernel s"
    using Suc.IH [OF ok _ run] Suc.prems(2) by auto
  have at_i: "devInp s' ! i = hi" "devOut s' ! i = ho" "pInp_ptr s' ! i = pi" "pOut_ptr s' ! i = po"
    using IH(4) len by auto
  have "[i..<i + Suc n] = i # [Suc i..<Suc i + n]" by (simp add: upt_conv_Cons del: upt_Suc)
  then have "calls s' = calls s @ concat (map (alloc_calls s') [i..<i + Suc n])"
    using IH(2) at_i by (simp add: alloc_calls_def del: upt_Suc)
  moreover have "devInp s' ! j \<noteq> 0 \<and> devOut s' ! j \<noteq> 0 \<and> pInp_ptr s' ! j \<noteq> 0 \<and> pOut_ptr s' ! j \<noteq> 0"
    if "i \<le> j" "j < i + Suc n" for j
    using IH(3) at_i nz that by (cases "j = i") auto
  moreover have "devInp s' ! j = devInp s ! j \<and> devOut s' ! j = devOut s ! j
         \<and> pInp_ptr s' ! j = pInp_ptr s ! j \<and> pOut_ptr s' ! j = pOut_ptr s ! j" if "j < i" for j
    using IH(4) that by auto
  ultimately show ?case using IH(1,5-8) by blast
qed

text \<open>The calls of a successful \<open>open_fpga\<close> are a file read and the nine OpenCL calls in order.\<close>

definition open_calls :: "string \<Rightarrow> nat \<Rightarrow> clcall list" where
  "open_calls xclbin sz = [Fopen xclbin, Fread sz, Fclose, GetPlatformIDs, GetPlatformVendor,
     GetPlatformName, GetDeviceIDs, CreateContext, CreateCommandQueue, CreateProgramWithBinary,
     BuildProgram, CreateKernel]"

lemma open_fpga_law:
  assumes "open_fpga orc file got xclbin s = (EXIT_SUCCESS, s')"
  shows "file xclbin \<noteq> None \<and> calls s' = calls s @ open_calls xclbin got
    \<and> gcontext s' \<noteq> 0 \<and> gcommands s' \<noteq> 0 \<and> gkernel s' \<noteq> 0
    \<and> devInp s' = devInp s \<and> devOut s' = devOut s \<and> pInp_ptr s' = pInp_ptr s
    \<and> pOut_ptr s' = pOut_ptr s \<and> wrEvent s' = wrEvent s \<and> ndEvent s' = ndEvent s \<and> rdEvent s' = rdEvent s"
  using assms
  by (auto simp: open_fpga_def load_file_to_memory_def api_def Let_def split_beta open_calls_def
      EXIT_SUCCESS_def EXIT_FAILURE_def split: if_splits option.splits)

lemma close_fpga_law:
  "close_fpga orc s = (EXIT_SUCCESS, s\<lparr>calls := calls s @ [ReleaseProgram (gprogram s),
     ReleaseKernel (gkernel s), ReleaseCommandQueue (gcommands s), ReleaseContext (gcontext s)]\<rparr>)"
  by (simp add: close_fpga_def api_def)

section \<open>Reference counts of events\<close>

text \<open>
  An event is created with one reference by the enqueue call that bears its number; retain
  and release change the count.
\<close>

definition creates_event :: "clcall \<Rightarrow> bool" where
  "creates_event c = (case c of MigrateToDevice _ \<Rightarrow> True | NDRangeKernel _ \<Rightarrow> True
     | NDRangeKernelNow \<Rightarrow> True | MigrateToHost _ _ \<Rightarrow> True | _ \<Rightarrow> False)"

fun refs_from :: "nat \<Rightarrow> clcall list \<Rightarrow> nat \<Rightarrow> int" where
  "refs_from n [] e = 0"
| "refs_from n (c # cs) e =
     (if creates_event c \<and> n = e then 1 else 0) + (if c = RetainEvent e then 1 else 0)
     - (if c = ReleaseEvent e then 1 else 0) + refs_from (Suc n) cs e"

definition refs :: "session \<Rightarrow> nat \<Rightarrow> int" where
  "refs s e = refs_from 0 (calls s) e"

lemma refs_from_append:
  "refs_from n (xs @ ys) e = refs_from n xs e + refs_from (n + length xs) ys e"
  by (induction xs arbitrary: n) simp_all

text \<open>The calls of a successful enqueue, numbered from \<open>t\<close>.\<close>

definition enq_calls :: "session \<Rightarrow> nat \<Rightarrow> nat \<Rightarrow> clcall list" where
  "enq_calls s bufId t = [MigrateToDevice (devInp s ! bufId), SetKernelArg 0 (devInp s ! bufId),
     SetKernelArg 1 (devOut s ! bufId), NDRangeKernel t, MigrateToHost (devOut s ! bufId) (t + 3),
     RetainEvent (t + 4), ReleaseEvent t, ReleaseEvent (t + 3), ReleaseEvent (t + 4)]"

lemma enq_law:
  assumes "arrays_ok s" "bufId < 10" "fpga_q6_enq_compute orc bufId s = (EXIT_SUCCESS, s')"
  shows "calls s' = calls s @ enq_calls s bufId (length (calls s))
    \<and> wrEvent s' = (wrEvent s)[bufId := length (calls s)]
    \<and> ndEvent s' = (ndEvent s)[bufId := length (calls s) + 3]
    \<and> rdEvent s' = (rdEvent s)[bufId := length (calls s) + 4]
    \<and> devInp s' = devInp s \<and> devOut s' = devOut s"
  using assms
  by (auto simp: fpga_q6_enq_compute_def api_def Let_def split_beta now_def enq_calls_def arrays_ok_def
      EXIT_SUCCESS_def EXIT_FAILURE_def eval_nat_numeral split: if_splits)

text \<open>A session whose calls only name events that exist.\<close>

definition fresh :: "session \<Rightarrow> bool" where
  "fresh s \<longleftrightarrow> list_all (\<lambda>c. case c of RetainEvent e \<Rightarrow> e < length (calls s)
     | ReleaseEvent e \<Rightarrow> e < length (calls s) | _ \<Rightarrow> True) (calls s)"

lemma refs_from_fresh:
  assumes "list_all (\<lambda>c. case c of RetainEvent e \<Rightarrow> e < m | ReleaseEvent e \<Rightarrow> e < m | _ \<Rightarrow> True) cs"
    and "n + length cs \<le> e" "m \<le> e"
  shows "refs_from n cs e = 0"
  using assms by (induction cs arbitrary: n) (auto split: clcall.splits)

lemma refs_fresh: "fresh s \<Longrightarrow> length (calls s) \<le> e \<Longrightarrow> refs_from 0 (calls s) e = 0"
  unfolding fresh_def by (rule refs_from_fresh) auto

lemma enq_refs:
  assumes "arrays_ok s" "fresh s" "bufId < 10" "fpga_q6_enq_compute orc bufId s = (EXIT_SUCCESS, s')"
  shows "refs s' (wrEvent s' ! bufId) = 0 \<and> refs s' (ndEvent s' ! bufId) = 0
    \<and> refs s' (rdEvent s' ! bufId) = 1 \<and> fresh s'"
proof -
  let ?t = "length (calls s)"
  note E = enq_law [OF assms(1,3,4)]
  have ev: "wrEvent s' ! bufId = ?t" "ndEvent s' ! bufId = ?t + 3" "rdEvent s' ! bufId = ?t + 4"
    using E assms(1,3) by (auto simp: arrays_ok_def)
  have split: "refs s' e = refs_from ?t (enq_calls s bufId ?t) e" if "?t \<le> e" for e
    using E that assms(2) by (simp add: refs_def refs_from_append refs_fresh)
  have "fresh s'"
    using assms(2) E by (auto simp: fresh_def enq_calls_def list_all_iff split: clcall.splits)
  then show ?thesis
    unfolding ev by (simp add: split enq_calls_def creates_event_def eval_nat_numeral)
qed

lemma session_law:
  assumes "arrays_ok s" "start_fpga orc file got xclbin s = (EXIT_SUCCESS, s1)"
  shows "arrays_ok s1 \<and> calls s1 = calls s @ open_calls xclbin got @ concat (map (alloc_calls s1) [0..<10])
    \<and> end_fpga orc s1 = (EXIT_SUCCESS, snd (end_fpga orc s1))
    \<and> calls (snd (end_fpga orc s1)) = calls s1 @ concat (map (free_calls s1) [0..<10])
        @ [ReleaseProgram (gprogram s1), ReleaseKernel (gkernel s1),
           ReleaseCommandQueue (gcommands s1), ReleaseContext (gcontext s1)]
    \<and> devInp (snd (end_fpga orc s1)) = replicate 10 0 \<and> devOut (snd (end_fpga orc s1)) = replicate 10 0
    \<and> pInp_ptr (snd (end_fpga orc s1)) = replicate 10 0 \<and> pOut_ptr (snd (end_fpga orc s1)) = replicate 10 0
    \<and> list_all (\<lambda>j. devInp s1 ! j \<noteq> 0 \<and> devOut s1 ! j \<noteq> 0 \<and> pInp_ptr s1 ! j \<noteq> 0 \<and> pOut_ptr s1 ! j \<noteq> 0) [0..<10]"
proof -
  obtain s0 where s0: "open_fpga orc file got xclbin s = (EXIT_SUCCESS, s0)"
    "alloc_loop orc 10 0 s0 = (EXIT_SUCCESS, s1)"
    using assms(2) by (cases "open_fpga orc file got xclbin s")
      (auto simp: start_fpga_def EXIT_SUCCESS_def EXIT_FAILURE_def split: if_splits)
  note O = open_fpga_law [OF s0(1)]
  have ok0: "arrays_ok s0" using O assms(1) by (simp add: arrays_ok_def)
  have A: "arrays_ok s1" "calls s1 = calls s0 @ concat (map (alloc_calls s1) [0..<10])"
    "\<forall>j < 10. devInp s1 ! j \<noteq> 0 \<and> devOut s1 ! j \<noteq> 0 \<and> pInp_ptr s1 ! j \<noteq> 0 \<and> pOut_ptr s1 ! j \<noteq> 0"
    using alloc_loop_law [OF ok0 _ s0(2)] by simp_all
  have len: "length (devInp s1) = 10" "length (devOut s1) = 10" "length (pInp_ptr s1) = 10"
    "length (pOut_ptr s1) = 10"
    using A(1) by (auto simp: arrays_ok_def)
  let ?f = "free_loop orc 10 0 s1"
  have F: "calls ?f = calls s1 @ concat (map (free_calls s1) [0..<10])"
    "devInp ?f = replicate 10 0" "devOut ?f = replicate 10 0" "pInp_ptr ?f = replicate 10 0"
    "pOut_ptr ?f = replicate 10 0" "gcontext ?f = gcontext s1" "gcommands ?f = gcommands s1"
    "gprogram ?f = gprogram s1" "gkernel ?f = gkernel s1"
    using free_loop_law [OF A(1), of 0 10 orc] len by (auto simp del: upt_Suc)
  have e: "end_fpga orc s1 = (EXIT_SUCCESS, ?f\<lparr>calls := calls ?f @ [ReleaseProgram (gprogram ?f),
     ReleaseKernel (gkernel ?f), ReleaseCommandQueue (gcommands ?f), ReleaseContext (gcontext ?f)]\<rparr>)"
    by (simp only: end_fpga_def Let_def close_fpga_law) simp
  show ?thesis
    unfolding e using A F O by (simp add: list_all_iff del: upt_Suc)
qed

end
