(* ===== verification/Text_IO.thy ===== *)
theory Text_IO
  imports Prelude
begin

text \<open>
  Numbers in texts: the conversion \<open>%ld\<close> of \<open>printf\<close> and its inverse, and the conversions
  \<open>stoi\<close> and \<open>atoi\<close> of the C++ and C libraries.
\<close>

section \<open>Printing\<close>

text \<open>The conversion \<open>%ld\<close>.\<close>

fun dec :: "nat \<Rightarrow> string" where
  "dec n = (if n < 10 then [char_of (48 + n)] else dec (n div 10) @ [char_of (48 + n mod 10)])"

declare dec.simps [simp del]

definition ld :: "int \<Rightarrow> string" where
  "ld x = (if x < 0 then CHR ''-'' # dec (nat (- x)) else dec (nat x))"

section \<open>Reading\<close>

text \<open>The number that a sequence of digits denotes.\<close>

definition num :: "string \<Rightarrow> nat" where
  "num ds = foldl (\<lambda>acc c. 10 * acc + (of_char c - 48)) 0 ds"

lemma num_snoc: "num (ds @ [c]) = 10 * num ds + (of_char c - 48)"
  by (simp add: num_def)

lemma dec_digit: "n < 10 \<Longrightarrow> (of_char (char_of (48 + n) :: char) :: nat) = 48 + n"
  by simp

lemma num_dec: "num (dec n) = n"
proof (induction n rule: dec.induct)
  case (1 n)
  show ?case
  proof (cases "n < 10")
    case True
    then show ?thesis by (simp add: dec.simps [of n] num_def)
  next
    case False
    have "num (dec n) = 10 * num (dec (n div 10)) + n mod 10"
      using False num_snoc [of "dec (n div 10)" "char_of (48 + n mod 10)"] by (simp add: dec.simps [of n])
    then show ?thesis using 1 False by simp
  qed
qed

lemma dec_length: "n < 10 ^ Suc k \<Longrightarrow> length (dec n) \<le> Suc k"
proof (induction k arbitrary: n)
  case 0
  then show ?case by (simp add: dec.simps [of n])
next
  case (Suc k)
  then have "n div 10 < 10 ^ Suc k" by (simp add: less_mult_imp_div_less)
  with Suc.IH [of "n div 10"] show ?case by (simp add: dec.simps [of n])
qed

lemma dec_length_ge: "10 ^ k \<le> n \<Longrightarrow> Suc k \<le> length (dec n)"
proof (induction k arbitrary: n)
  case 0
  then show ?case by (simp add: dec.simps [of n])
next
  case (Suc k)
  then have "10 ^ k \<le> n div 10" by (simp add: less_eq_div_iff_mult_less_eq mult.commute)
  moreover have "\<not> n < 10" using Suc.prems by (metis le_trans linorder_not_less one_le_numeral power_Suc self_le_power zero_less_Suc)
  ultimately show ?case using Suc.IH [of "n div 10"] by (simp add: dec.simps [of n])
qed

lemma ld_length:
  assumes "- (2 ^ 63) \<le> x" "x < 2 ^ 63"
  shows "length (ld x) \<le> 20"
proof -
  have "nat \<bar>x\<bar> < 10 ^ Suc 18" using assms by simp
  from dec_length [OF this] show ?thesis by (auto simp: ld_def)
qed

lemma dec_no_point: "CHR ''.'' \<notin> set (dec n)"
proof (induction n rule: dec.induct)
  case (1 n)
  have "CHR ''.'' \<noteq> char_of (48 + d)" if "d < 10" for d :: nat
  proof
    assume "CHR ''.'' = (char_of (48 + d) :: char)"
    then have "(of_char (char_of (48 + d) :: char) :: nat) = of_char CHR ''.''" by metis
    then show False using dec_digit [OF that] by simp
  qed
  with 1 show ?case by (simp add: dec.simps [of n])
qed

section \<open>stoi, atoi and strcpy\<close>

definition is_digit :: "char \<Rightarrow> bool" where
  "is_digit c \<longleftrightarrow> 48 \<le> (of_char c :: nat) \<and> (of_char c :: nat) \<le> 57"

definition is_space :: "char \<Rightarrow> bool" where
  "is_space c \<longleftrightarrow> (of_char c :: nat) = 32 \<or> 9 \<le> (of_char c :: nat) \<and> (of_char c :: nat) \<le> 13"

text \<open>The subject sequence: white space, an optional sign, then the longest run of digits.\<close>

definition signed_digits :: "string \<Rightarrow> bool \<times> string" where
  "signed_digits s = (let t = dropWhile is_space s in
     case t of [] \<Rightarrow> (False, [])
     | c # u \<Rightarrow> if c = CHR ''-'' then (True, takeWhile is_digit u)
                else if c = CHR ''+'' then (False, takeWhile is_digit u)
                else (False, takeWhile is_digit t))"

definition signed_value :: "bool \<times> string \<Rightarrow> int" where
  "signed_value p = (if fst p then - int (num (snd p)) else int (num (snd p)))"

definition stoi :: "string \<Rightarrow> int res" where
  "stoi s = (let p = signed_digits s; v = signed_value p in
     if snd p = [] then Inl (Throw ''invalid_argument'')
     else if v < - (2 ^ 31) \<or> 2 ^ 31 \<le> v then Inl (Throw ''out_of_range'') else Inr v)"

text \<open>\<open>atoi\<close> is \<open>(int) strtol\<close>: clamped to the range of long, then truncated.\<close>

definition atoi :: "string \<Rightarrow> int" where
  "atoi s = sint (word_of_int (max (- (2 ^ 63)) (min (2 ^ 63 - 1) (signed_value (signed_digits s)))) :: u32)"

definition c_strcpy :: "nat \<Rightarrow> string \<Rightarrow> string res" where
  "c_strcpy n s = (if length s < n then Inr s else Inl OutOfBounds)"

lemma digits_of_dec: "list_all is_digit (dec n)"
proof (induction n rule: dec.induct)
  case (1 n)
  have "is_digit (char_of (48 + d))" if "d < 10" for d :: nat
    using that by (simp add: is_digit_def)
  with 1 show ?case by (simp add: dec.simps [of n])
qed

lemma digit_not_space: "is_digit c \<Longrightarrow> \<not> is_space c \<and> c \<noteq> CHR ''-'' \<and> c \<noteq> CHR ''+''"
  by (auto simp: is_digit_def is_space_def)

lemma signed_digits_dec: "signed_digits (dec n) = (False, dec n)"
proof -
  have ne: "dec n \<noteq> []" by (subst dec.simps) simp
  then obtain c u where cu: "dec n = c # u" by (cases "dec n") auto
  have d: "is_digit c" "takeWhile is_digit (c # u) = c # u"
    using digits_of_dec [of n] unfolding cu by (auto simp: list_all_iff)
  then show ?thesis
    unfolding cu using digit_not_space [OF d(1)] d by (simp add: signed_digits_def)
qed

text \<open>\<open>stoi\<close> reads back what \<open>%ld\<close> prints.\<close>

lemma stoi_dec: "n < 2 ^ 31 \<Longrightarrow> stoi (dec n) = Inr (int n)"
proof -
  assume "n < 2 ^ 31"
  then have "int n < 2 ^ 31" by (metis of_nat_less_iff of_nat_numeral of_nat_power)
  moreover have "dec n \<noteq> []" by (subst dec.simps) simp
  ultimately show ?thesis
    by (simp add: stoi_def signed_digits_dec signed_value_def num_dec)
qed

end
