(* ===== verification/Run_SW.thy ===== *)
theory Run_SW
  imports Text_IO Swemu Growing
begin

text \<open>
  The software run \<^verbatim>\<open>xql6_run_sw\<close> of \<^verbatim>\<open>xql6/host/xql6.c\<close>: fill a block, run the software
  query on it, add up, until a block ends in a page without tuples; and the text both runs
  print. Timings are arguments, since they only appear in the text.
\<close>

section \<open>The result text\<close>

text \<open>\<open>%ld.%ld\<close> applied to \<open>q6_sum/(100*100)\<close> and \<open>q6_sum%(100*100)\<close>.\<close>

definition result_text :: "i64 \<Rightarrow> string" where
  "result_text q6_sum = ld (sint q6_sum sdiv 10000) @ ''.'' @ ld (sint q6_sum smod 10000)"

lemma result_text_length: "length (result_text q6_sum) \<le> 41"
proof -
  let ?x = "sint q6_sum"
  have x: "- (2 ^ 63) \<le> ?x" "?x < 2 ^ 63"
    using sint_ge [of q6_sum] sint_lt [of q6_sum] by simp_all
  have "length (ld (?x sdiv 10000)) \<le> 20"
  proof (cases "?x = - (2 ^ 63)")
    case False
    with x sdiv_int_range [of ?x 10000] show ?thesis by (intro ld_length) auto
  qed (simp add: ld_length)
  moreover have "length (ld (?x smod 10000)) \<le> 20"
    using smod_int_range [of 10000 ?x] by (intro ld_length) auto
  ultimately show ?thesis by (simp add: result_text_def)
qed

section \<open>The loop\<close>

text \<open>
  \<open>while (bRealPages)\<close>. The result is the sum, the number of tuples, the number of blocks,
  the emulator's static state and the trace of buffer calls; \<open>None\<close> stands for a loop that
  never ends. \<open>lin0\<close> and \<open>junk\<close> give the indeterminate locals of the callees.
\<close>

partial_function (option) run_sw_loop :: "(nat \<Rightarrow> nat \<Rightarrow> nat \<Rightarrow> u8 list) \<Rightarrow> (nat \<Rightarrow> nat \<Rightarrow> nat)
    \<Rightarrow> (nat \<Rightarrow> nat \<Rightarrow> u8 list) \<Rightarrow> u8 list \<Rightarrow> nat \<Rightarrow> i64 \<Rightarrow> nat \<Rightarrow> Xql6FillState \<Rightarrow> rdr
    \<Rightarrow> buf_event list \<Rightarrow> (i64 \<times> nat \<times> nat \<times> rdr \<times> buf_event list) res option" where
  "run_sw_loop snaps lin0 junk blk nFB q6_sum nTups st s tr =
     (case xql6FillBlock (snaps nFB) (lin0 nFB) blk nTups st of Inl e \<Rightarrow> Some (Inl e)
      | Inr (bRealPages, blk', nTups', st', tr') \<Rightarrow>
        (case q6_swemu (junk nFB) blk' s of Inl e \<Rightarrow> Some (Inl e)
         | Inr (r, s') \<Rightarrow>
           if bRealPages
           then run_sw_loop snaps lin0 junk blk' (nFB + 1) (q6_sum + r) nTups' st' s' (tr @ tr')
           else Some (Inr (q6_sum + r, nTups', nFB + 1, s', tr @ tr'))))"

text \<open>
  \<open>snaps k i\<close> is the relation as the call for page \<open>i\<close> of block \<open>k\<close> finds it, \<open>blk\<close> the content of the block \<open>palloc\<close> returns, \<open>nBlks\<close> what
  \<open>RelationGetNumberOfBlocksInFork\<close> returns, \<open>us\<close> the two runtimes in microseconds.
\<close>

definition xql6_run_sw :: "(nat \<Rightarrow> nat \<Rightarrow> nat \<Rightarrow> u8 list) \<Rightarrow> nat \<Rightarrow> (nat \<Rightarrow> nat \<Rightarrow> nat) \<Rightarrow> (nat \<Rightarrow> nat \<Rightarrow> u8 list)
    \<Rightarrow> u8 list \<Rightarrow> int \<times> int \<Rightarrow> rdr \<Rightarrow> (string \<times> rdr \<times> buf_event list) res option" where
  "xql6_run_sw snaps nBlks lin0 junk blk us s =
     (case run_sw_loop snaps lin0 junk blk 0 0 0
             \<lparr>fs_blkNum = 0, fs_nBlks = nBlks, fs_linNum = 0\<rparr> s [] of None \<Rightarrow> None
      | Some (Inl e) \<Rightarrow> Some (Inl e)
      | Some (Inr (q6_sum, nTups, nFB, s', tr)) \<Rightarrow>
          Some (Inr (''xql6_run (sw) result '' @ result_text q6_sum @ CHR 0x0A # ''Runtimes (us) Fill ''
             @ ld (fst us) @ '', Comp '' @ ld (snd us) @ ''. #Tups '' @ ld (int nTups), s', tr)))"

section \<open>The run returns the query over the relation\<close>

text \<open>All tuples of the relation are rows of lineitem; \<open>lis\<close> lists them in storage order.\<close>

definition table :: "u8 list list list \<Rightarrow> lineitem list \<Rightarrow> bool" where
  "table tupss lis \<longleftrightarrow> live (concat tupss) = map enc_tuple lis \<and> list_all wf_lineitem lis"

lemma block_of_length: "wf_block pgs \<Longrightarrow> length (block_of pgs) = XQL6_BLK_SZ"
  by (simp add: wf_block_def block_length XQL6_BLK_SZ_def PAGE_SZ_def)

lemma q6_swemu_law_word:
  assumes "wf_block pgs" "\<forall>i. length (junk i) = FIELD_SZ" "length (p_word s) = WORD_SZ"
  shows "\<exists>s'. q6_swemu junk (block_of pgs) s = Inr (word_of_int (q6_spec (rows_of pgs)), s')
    \<and> length (p_word s') = WORD_SZ"
proof -
  have "list_all (\<lambda>(lis, dead). wf_page lis dead) pgs" "0 + PAGES_PER_BLK = length pgs"
    using assms(1) by (simp_all add: wf_block_def PAGES_PER_BLK_def BLK_SZ_def PAGE_SZ_def)
  from swemu_pages_law [where acc = 0, OF this(1) assms(2,3) this(2)] show ?thesis
    by (auto simp: q6_swemu_def)
qed

lemma run_sw_loop_grows:
  assumes "snaps_grow snaps T E" "\<forall>k i. length (junk k i) = FIELD_SZ"
    and "fill_ok (T (XQL6_PAGES_PER_BLK * nFB)) st" "length blk = XQL6_BLK_SZ" "length (p_word s) = WORD_SZ"
    and "pending E st = map enc_tuple lis" "list_all wf_lineitem lis"
  shows "\<exists>lis' nFB' s' bs. run_sw_loop snaps lin0 junk blk nFB q6_sum nTups st s tr
    = Some (Inr (q6_sum + word_of_int (q6_spec lis'), nTups + length lis', nFB', s',
        tr @ concat (map buf_cycle bs)))
    \<and> subseq lis' lis \<and> subseq (pending (T (XQL6_PAGES_PER_BLK * nFB)) st) (map enc_tuple lis')"
  using assms(3-7)
proof (induction "length lis" arbitrary: lis blk nFB q6_sum nTups st s tr rule: less_induct)
  case less
  let ?T = "\<lambda>i. T (XQL6_PAGES_PER_BLK * nFB + i)"
  have T: "\<forall>i. relation_ok (snaps nFB i) (?T i)" "growing ?T E" "fill_ok (?T 0) st"
    using assms(1) less.prems(1) by (auto simp: snaps_grow_def intro: growing_shift)
  have nx: "?T XQL6_PAGES_PER_BLK = T (XQL6_PAGES_PER_BLK * (nFB + 1))" by (simp add: algebra_simps)
  obtain pgs lisE b st' bs where F: "xql6FillBlock (snaps nFB) (lin0 nFB) blk nTups st
      = Inr (b, block_of pgs, nTups + length (rows_of pgs), st', concat (map buf_cycle bs))"
    "wf_block pgs" "subseq (rows_of pgs @ lisE) lis" "fill_ok (?T XQL6_PAGES_PER_BLK) st'"
    "pending E st' = map enc_tuple lisE"
    "subseq (pending (?T 0) st) (map enc_tuple (rows_of pgs) @ pending (?T XQL6_PAGES_PER_BLK) st')"
    "\<not> b \<longrightarrow> subseq (pending (?T 0) st) (map enc_tuple (rows_of pgs))" "b \<longrightarrow> rows_of pgs \<noteq> []"
    using xql6FillBlock_grows [OF T less.prems(2,4,5)] by blast
  have wf: "list_all wf_lineitem lisE"
    using less.prems(5) F(3) by (auto simp: list_all_iff elim: list_emb_set)
  obtain s' where s': "q6_swemu (junk nFB) (block_of pgs) s = Inr (word_of_int (q6_spec (rows_of pgs)), s')"
    "length (p_word s') = WORD_SZ"
    using q6_swemu_law_word [OF F(2) _ less.prems(3)] assms(2) by blast
  let ?sum = "q6_sum + word_of_int (q6_spec (rows_of pgs))"
  show ?case
  proof (cases b)
    case True
    then have "length lisE < length lis" using F(8) list_emb_length [OF F(3)] by (cases "rows_of pgs") auto
    from less.hyps [OF this F(4) [unfolded nx] block_of_length [OF F(2)] s'(2) F(5) wf]
    obtain lis' nFB' s'' bs' where IH: "run_sw_loop snaps lin0 junk (block_of pgs) (nFB + 1) ?sum
        (nTups + length (rows_of pgs)) st' s' (tr @ concat (map buf_cycle bs))
      = Some (Inr (?sum + word_of_int (q6_spec lis'), nTups + length (rows_of pgs) + length lis',
          nFB', s'', (tr @ concat (map buf_cycle bs)) @ concat (map buf_cycle bs')))"
      "subseq lis' lisE" "subseq (pending (?T XQL6_PAGES_PER_BLK) st') (map enc_tuple lis')"
      unfolding nx by blast
    have "subseq (rows_of pgs @ lis') lis"
      by (rule subseq_order.trans [OF _ F(3)]) (simp add: subseq_append' IH(2))
    moreover have "subseq (pending (?T 0) st) (map enc_tuple (rows_of pgs @ lis'))"
      by (rule subseq_order.trans [OF F(6)]) (simp add: subseq_append' IH(3))
    ultimately show ?thesis
      using True F(1) s'(1) IH(1)
      by (subst run_sw_loop.simps, intro exI [of _ "rows_of pgs @ lis'"] exI [of _ nFB'] exI [of _ s''] exI [of _ "bs @ bs'"])
        (simp add: add.assoc)
  next
    case False
    have "subseq (rows_of pgs) lis" using F(3) by (metis list_emb_append2 subseq_append_iff subseq_order.trans subseq_rev_drop_many subseq_order.refl)
    then show ?thesis
      using False F(1,7) s'(1) by (subst run_sw_loop.simps, intro exI [of _ "rows_of pgs"]) auto
  qed
qed

lemma xql6_run_sw_grows:
  assumes "snaps_grow snaps T E" and "table E lisE"
    and "length blk = XQL6_BLK_SZ" and "length (p_word s) = WORD_SZ"
    and "\<forall>k i. length (junk k i) = FIELD_SZ"
  shows "\<exists>lis s' tr. xql6_run_sw snaps (length E) lin0 junk blk us s
    = Some (Inr (''xql6_run (sw) result '' @ result_text (word_of_int (q6_spec lis))
        @ CHR 0x0A # ''Runtimes (us) Fill '' @ ld (fst us) @ '', Comp '' @ ld (snd us)
        @ ''. #Tups '' @ ld (int (length lis)), s', tr))
    \<and> subseq (live (concat (T 0))) (map enc_tuple lis) \<and> subseq lis lisE"
proof -
  let ?st = "\<lparr>fs_blkNum = 0, fs_nBlks = length E, fs_linNum = 0\<rparr>"
  have len: "length (T 0) = length E"
    using assms(1) growingD(1) grows_length unfolding snaps_grow_def by blast
  have "pending E ?st = map enc_tuple lisE" "pending (T 0) ?st = live (concat (T 0))" "list_all wf_lineitem lisE"
    using assms(2) by (simp_all add: pending_def tups_from_0 table_def)
  moreover have "fill_ok (T (XQL6_PAGES_PER_BLK * 0)) ?st" using len by (simp add: fill_ok_def)
  ultimately obtain lis nFB' s' bs where "run_sw_loop snaps lin0 junk blk 0 0 0 ?st s []
      = Some (Inr (0 + word_of_int (q6_spec lis), 0 + length lis, nFB', s', [] @ concat (map buf_cycle bs)))"
    "subseq lis lisE" "subseq (live (concat (T 0))) (map enc_tuple lis)"
    using run_sw_loop_grows [OF assms(1,5) _ assms(3,4), of 0 ?st lisE lin0 0 0 "[]"] by auto
  then show ?thesis by (intro exI [of _ lis] exI [of _ s'] exI [of _ "concat (map buf_cycle bs)"]) (simp add: xql6_run_sw_def)
qed

text \<open>A relation that only changes in place: every row is counted once.\<close>

lemma xql6_run_sw_law:
  assumes "always_stored snaps tupss" and "table tupss lis"
    and "length blk = XQL6_BLK_SZ" and "length (p_word s) = WORD_SZ"
    and "\<forall>k i. length (junk k i) = FIELD_SZ"
  shows "\<exists>s' tr. xql6_run_sw snaps (length tupss) lin0 junk blk us s
    = Some (Inr (''xql6_run (sw) result '' @ result_text (word_of_int (q6_spec lis))
        @ CHR 0x0A # ''Runtimes (us) Fill '' @ ld (fst us) @ '', Comp '' @ ld (snd us)
        @ ''. #Tups '' @ ld (int (length lis)), s', tr))"
proof -
  have "live (concat tupss) = map enc_tuple lis" using assms(2) by (simp add: table_def)
  moreover from xql6_run_sw_grows [OF snaps_grow_const [OF assms(1)] assms(2-5), of lin0 us]
  obtain lis' s' tr where R: "xql6_run_sw snaps (length tupss) lin0 junk blk us s
    = Some (Inr (''xql6_run (sw) result '' @ result_text (word_of_int (q6_spec lis'))
        @ CHR 0x0A # ''Runtimes (us) Fill '' @ ld (fst us) @ '', Comp '' @ ld (snd us)
        @ ''. #Tups '' @ ld (int (length lis')), s', tr))"
    "subseq (live (concat tupss)) (map enc_tuple lis')" "subseq lis' lis"
    by blast
  ultimately have "lis' = lis"
    using list_emb_length [OF R(2)] list_emb_length [OF R(3)] by (simp add: subseq_same_length)
  with R(1) show ?thesis by blast
qed

section \<open>What the printed result means\<close>

text \<open>Reading a decimal numeral with a point.\<close>

definition text_value :: "string \<Rightarrow> real" where
  "text_value t = (let whole = takeWhile (\<lambda>c. c \<noteq> CHR ''.'') t; frac = drop (Suc (length whole)) t in
     real (num whole) + real (num frac) / 10 ^ length frac)"

lemma text_value_dec: "text_value (dec q @ CHR ''.'' # dec r) = real q + real r / 10 ^ length (dec r)"
proof -
  have "takeWhile (\<lambda>c. c \<noteq> CHR ''.'') (dec q @ CHR ''.'' # dec r) = dec q"
    using dec_no_point [of q] by (simp add: takeWhile_tail) (metis (mono_tags) takeWhile_eq_all_conv)
  then show ?thesis by (simp add: text_value_def Let_def num_dec)
qed

lemma result_text_value:
  assumes "0 \<le> sint q6_sum"
  shows "text_value (result_text q6_sum) = of_int (sint q6_sum) / 10000
    \<longleftrightarrow> sint q6_sum mod 10000 = 0 \<or> 1000 \<le> sint q6_sum mod 10000"
proof -
  define q r where "q = nat (sint q6_sum div 10000)" and "r = nat (sint q6_sum mod 10000)"
  have r: "r < 10000" by (simp add: r_def nat_less_iff)
  have dm: "sint q6_sum sdiv 10000 = int q" "sint q6_sum smod 10000 = int r"
    using assms by (cases "sint q6_sum = 0"; simp add: q_def r_def signed_divide_int_def
        signed_modulo_int_def pos_imp_zdiv_nonneg_iff minus_div_mult_eq_mod)+
  have v: "of_int (sint q6_sum) / (10000 :: real) = real q + real r / 10000"
  proof -
    have "sint q6_sum = 10000 * int q + int r"
      using assms by (simp add: q_def r_def pos_imp_zdiv_nonneg_iff)
    then have "real_of_int (sint q6_sum) = 10000 * real q + real r" by simp
    then show ?thesis by simp
  qed
  have t: "text_value (result_text q6_sum) = real q + real r / 10 ^ length (dec r)"
    by (simp add: result_text_def dm ld_def text_value_dec)
  have "sint q6_sum mod 10000 = int r" by (simp add: r_def)
  moreover have "real r / 10 ^ length (dec r) = real r / 10000 \<longleftrightarrow> r = 0 \<or> 1000 \<le> r"
  proof (cases "r = 0 \<or> r \<ge> 1000")
    case True
    then show ?thesis
      using dec_length [of r 3] dec_length_ge [of 3 r] r by auto
  next
    case False
    then have "length (dec r) \<le> 3" using dec_length [of r 2] by simp
    then have "(10 :: real) ^ length (dec r) \<le> 10 ^ 3" by (intro power_increasing) auto
    then have "(10 :: real) ^ length (dec r) \<noteq> 10000" by simp
    then have "real r * 10000 \<noteq> real r * 10 ^ length (dec r)" using False by simp
    then show ?thesis using False by (subst frac_eq_eq) auto
  qed
  ultimately show ?thesis unfolding t v by simp
qed

end
