(* ===== verification/Entry.thy ===== *)
theory Entry
  imports FPGA_Host Run_SW
begin

text \<open>
  The entry point of the user-defined function and the kernel management of
  \<^verbatim>\<open>xql6/host/xql6.c\<close>: the dispatch on the second argument, the check of the relation, and the
  one static variable that survives between calls, the name of the kernel that is running.
\<close>

section \<open>Text buffers\<close>

text \<open>
  \<open>sBuf\<close> and every \<open>sTmp\<close> are arrays of 1024 bytes. \<open>sprintf\<close> and \<open>strcat\<close> write the
  terminating NUL as well and check nothing.
\<close>

definition SBUF_SZ :: nat where "SBUF_SZ = 1024"

definition c_sprintf :: "string \<Rightarrow> string res" where
  "c_sprintf txt = (if length txt < SBUF_SZ then Inr txt else Inl OutOfBounds)"

definition c_strcat :: "string \<Rightarrow> string \<Rightarrow> string res" where
  "c_strcat sBuf txt = (if length sBuf + length txt < SBUF_SZ then Inr (sBuf @ txt) else Inl OutOfBounds)"

definition append_text :: "string \<Rightarrow> string \<Rightarrow> string res" where
  "append_text sBuf txt = rbind (c_sprintf txt) (c_strcat sBuf)"

text \<open>\<open>strncmp (s, t, n) == 0\<close>, on strings without their terminating NUL.\<close>

definition strncmp_eq :: "string \<Rightarrow> string \<Rightarrow> nat \<Rightarrow> bool" where
  "strncmp_eq s t n \<longleftrightarrow> take n (s @ [CHR 0x00]) = take n (t @ [CHR 0x00])"

section \<open>State and environment\<close>

record backend =
  p_fpgaKernelName :: "string option"
  b_session :: session

text \<open>What the environment supplies: the OpenCL runtime, the files, elapsed times.\<close>

record env =
  e_orc :: runtime
  e_file :: "string \<Rightarrow> u8 list option"
  e_got :: nat
  e_us :: int

definition backend0 :: backend where
  "backend0 = \<lparr>p_fpgaKernelName = None, b_session = session0\<rparr>"

section \<open>Kernel management\<close>

definition xql6_init_kernel :: "env \<Rightarrow> string \<Rightarrow> backend \<Rightarrow> string \<Rightarrow> (bool \<times> backend \<times> string) res" where
  "xql6_init_kernel e p_krnlName b p_sBuf =
     (if p_fpgaKernelName b \<noteq> None then Inr (False, b, p_sBuf) else
      let (status, s) = start_fpga (e_orc e) (e_file e) (e_got e) p_krnlName (b_session b);
          b' = b\<lparr>b_session := s\<rparr> in
      if status \<noteq> EXIT_SUCCESS then
        rbind (append_text p_sBuf (''Failed to start kernel '' @ p_krnlName @ '', Status '' @ ld status
            @ '', Time '' @ ld (e_us e) @ '' us'' @ [CHR 0x0A])) (\<lambda>t. Inr (False, b', t))
      else
        rbind (append_text p_sBuf (''xql6 init (fpga config) '' @ ld (e_us e) @ '' us'' @ [CHR 0x0A]))
          (\<lambda>t. Inr (True, b'\<lparr>p_fpgaKernelName := Some p_krnlName\<rparr>, t)))"

definition xql6_stop_kernel :: "env \<Rightarrow> backend \<Rightarrow> string \<Rightarrow> (bool \<times> backend \<times> string) res" where
  "xql6_stop_kernel e b p_sBuf =
     (case p_fpgaKernelName b of
        None \<Rightarrow> rbind (append_text p_sBuf ''No running kernel. '') (\<lambda>t. Inr (True, b, t))
      | Some nm \<Rightarrow>
        (let (status, s) = end_fpga (e_orc e) (b_session b);
             b' = \<lparr>p_fpgaKernelName = None, b_session = s\<rparr> in
         rbind (append_text p_sBuf
             (if status = EXIT_SUCCESS then ''Stopped kernel '' @ nm @ [CHR 0x0A]
              else ''Failed to stop kernel '' @ nm @ '' status '' @ ld status @ [CHR 0x0A]))
           (\<lambda>t. Inr (status = EXIT_SUCCESS, b', t))))"

text \<open>The first part of \<open>xql6_run_hw\<close>: make \<open>p_krnName\<close> the running kernel.\<close>

definition hw_ready :: "env \<Rightarrow> string \<Rightarrow> backend \<Rightarrow> string \<Rightarrow> (bool \<times> backend \<times> string) res" where
  "hw_ready e p_krnName b p_sBuf =
     rbind (if p_fpgaKernelName b \<noteq> None \<and> p_fpgaKernelName b \<noteq> Some p_krnName
            then xql6_stop_kernel e b p_sBuf else Inr (True, b, p_sBuf)) (\<lambda>(ok, b1, t1).
     if \<not> ok then Inr (False, b1, t1)
     else if p_fpgaKernelName b1 = None then xql6_init_kernel e p_krnName b1 t1
     else Inr (True, b1, t1))"

text \<open>
  What the block loop does to the session: it enqueues the blocks \<open>blkId\<close>, \<open>blkId + 1\<close> and so
  on, \<open>n\<close> of them, on the ten buffers in turn, and stops at the first failure. The result
  says whether all were enqueued. How many there are and what the device returns for them is
  the pipeline's business.
\<close>

fun enq_blocks :: "runtime \<Rightarrow> nat \<Rightarrow> nat \<Rightarrow> session \<Rightarrow> bool \<times> session" where
  "enq_blocks orc 0 blkId s = (True, s)"
| "enq_blocks orc (Suc n) blkId s =
    (let (status, s) = fpga_q6_enq_compute orc (blkId mod 10) s in
     if status \<noteq> EXIT_SUCCESS then (False, s) else enq_blocks orc n (Suc blkId) s)"

text \<open>
  What the block loop ends with: the number of blocks it enqueues, the sum it has read
  back, the number of tuples it has filled; and the runtimes in microseconds.
\<close>

record hw_result =
  r_blks :: nat
  r_sum :: i64
  r_nTups :: nat
  r_us :: "int \<times> int \<times> int \<times> int"

definition hw_report :: "env \<Rightarrow> hw_result \<Rightarrow> backend \<Rightarrow> string \<Rightarrow> (bool \<times> backend \<times> string) res" where
  "hw_report e r b p_sBuf =
     (let (enq_ok, s) = enq_blocks (e_orc e) (r_blks r) 0 (b_session b); (tF, tC, tR, tT) = r_us r in
     rbind (append_text p_sBuf (if enq_ok then
         ''xql6_run (hw) result '' @ result_text (r_sum r) @ CHR 0x0A # ''Runtimes (us) Fill '' @ ld tF
         @ '', W+Comp '' @ ld tC @ '', Rd '' @ ld tR @ '', Tot '' @ ld tT @ ''. #Tups ''
         @ ld (int (r_nTups r)) @ [CHR 0x0A]
         else ''xql6_run failed enque-compute'' @ [CHR 0x0A]))
       (\<lambda>t. Inr (enq_ok, b\<lparr>b_session := s\<rparr>, t)))"

definition xql6_run_hw :: "env \<Rightarrow> hw_result \<Rightarrow> string \<Rightarrow> backend \<Rightarrow> string \<Rightarrow> (bool \<times> backend \<times> string) res" where
  "xql6_run_hw e r p_krnName b p_sBuf =
     rbind (hw_ready e p_krnName b p_sBuf) (\<lambda>(ok, b2, t2).
       if \<not> ok then Inr (False, b2, t2) else hw_report e r b2 t2)"

section \<open>The entry point\<close>

definition RELKIND_VIEW :: char where "RELKIND_VIEW = CHR ''v''"
definition RELKIND_COMPOSITE_TYPE :: char where "RELKIND_COMPOSITE_TYPE = CHR ''c''"
definition RELKIND_FOREIGN_TABLE :: char where "RELKIND_FOREIGN_TABLE = CHR ''f''"

text \<open>\<open>ereport (ERROR, ...)\<close> does not return. The relation's name stands in double quotes.\<close>

definition quoted :: "string \<Rightarrow> string" where
  "quoted nm = CHR 0x22 # nm @ [CHR 0x22]"

definition xql6_check_relation :: "char \<Rightarrow> string \<Rightarrow> bool res" where
  "xql6_check_relation relkind relname =
     (if relkind = RELKIND_VIEW then Inl (Ereport (''cannot get raw page from view '' @ quoted relname))
      else if relkind = RELKIND_COMPOSITE_TYPE
        then Inl (Ereport (''cannot get raw page from composite type '' @ quoted relname))
      else if relkind = RELKIND_FOREIGN_TABLE
        then Inl (Ereport (''cannot get raw page from foreign table '' @ quoted relname))
      else Inr True)"

text \<open>
  The two runs as arguments: \<open>sw\<close> is the software run on the relation (the text it
  prints), \<open>hw\<close> the hardware run. The result is the new static state and the text returned.
\<close>

definition xql6 :: "env \<Rightarrow> char \<Rightarrow> string \<Rightarrow> string \<Rightarrow> string res
    \<Rightarrow> (string \<Rightarrow> backend \<Rightarrow> string \<Rightarrow> (bool \<times> backend \<times> string) res) \<Rightarrow> backend
    \<Rightarrow> (backend \<times> string) res" where
  "xql6 e relkind p_relName p_krnName sw hw b =
     rbind (xql6_check_relation relkind p_relName) (\<lambda>ok.
       if \<not> ok then
         rbind (c_sprintf (''xql6 cannot use the relation '' @ p_relName @ [CHR 0x0A])) (\<lambda>t. Inr (b, t))
       else if strncmp_eq p_krnName ''stop'' 4 then
         rbind (xql6_stop_kernel e b []) (\<lambda>(_, b', t). Inr (b', t))
       else if strncmp_eq p_krnName ''swemu'' 5 then
         rbind sw (\<lambda>txt. rbind (c_sprintf txt) (\<lambda>t. Inr (b, t)))
       else rbind (hw p_krnName b []) (\<lambda>(_, b', t). Inr (b', t)))"

section \<open>The kernel name is set exactly while buffers are mapped\<close>

definition mapped :: "session \<Rightarrow> bool" where
  "mapped s \<longleftrightarrow> arrays_ok s
     \<and> list_all (\<lambda>j. devInp s ! j \<noteq> 0 \<and> devOut s ! j \<noteq> 0 \<and> pInp_ptr s ! j \<noteq> 0 \<and> pOut_ptr s ! j \<noteq> 0) [0..<10]"

definition backend_inv :: "backend \<Rightarrow> bool" where
  "backend_inv b \<longleftrightarrow> arrays_ok (b_session b) \<and> (p_fpgaKernelName b \<noteq> None \<longrightarrow> mapped (b_session b))"

lemma arrays_if: "arrays_ok (snd p) \<Longrightarrow> arrays_ok (snd q) \<Longrightarrow> arrays_ok (snd (if c then p else q))"
  by simp

lemma load_file_arrays: "arrays_ok s \<Longrightarrow> arrays_ok (snd (load_file_to_memory fs got xclbin s))"
  by (simp add: load_file_to_memory_def Let_def arrays_ok_def split: option.split)

lemma open_fpga_arrays:
  assumes "arrays_ok s"
  shows "arrays_ok (snd (open_fpga orc fs got xclbin s))"
proof -
  let ?s = "snd (load_file_to_memory fs got xclbin s)"
  have "arrays_ok ?s" by (rule load_file_arrays [OF assms])
  then have len: "length (devInp ?s) = 10" "length (devOut ?s) = 10" "length (pInp_ptr ?s) = 10"
    "length (pOut_ptr ?s) = 10" "length (wrEvent ?s) = 10" "length (ndEvent ?s) = 10"
    "length (rdEvent ?s) = 10"
    by (auto simp: arrays_ok_def)
  show ?thesis
    unfolding open_fpga_def Let_def split_beta api_simps fst_conv snd_conv
    by (intro arrays_if) (simp_all add: arrays_ok_def len)
qed

lemma alloc_loop_arrays: "arrays_ok s \<Longrightarrow> arrays_ok (snd (alloc_loop orc n i s))"
proof (induction n arbitrary: i s)
  case 0
  then show ?case by simp
next
  case (Suc n)
  then show ?case by (simp add: api_def Let_def split_beta arrays_ok_def)
qed

lemma start_fpga_arrays: "arrays_ok s \<Longrightarrow> arrays_ok (snd (start_fpga orc file got xclbin s))"
  using open_fpga_arrays [of s orc "file" got xclbin] alloc_loop_arrays
  by (simp add: start_fpga_def split_beta)

lemma free_loop_arrays: "arrays_ok s \<Longrightarrow> arrays_ok (free_loop orc n i s)"
proof (induction n arbitrary: i s)
  case 0
  then show ?case by simp
next
  case (Suc n)
  then show ?case by (simp add: api_def Let_def split_beta arrays_ok_def)
qed

lemma end_fpga_arrays: "arrays_ok s \<Longrightarrow> arrays_ok (snd (end_fpga orc s))"
  using free_loop_arrays [of s orc 10 0]
  by (simp add: end_fpga_def Let_def close_fpga_law arrays_ok_def EXIT_SUCCESS_def)

lemma start_fpga_mapped:
  "arrays_ok s \<Longrightarrow> start_fpga orc file got xclbin s = (EXIT_SUCCESS, s1) \<Longrightarrow> mapped s1"
  using session_law [of s orc "file" got xclbin s1] by (simp add: mapped_def)

lemma init_kernel_inv:
  assumes "backend_inv b" "xql6_init_kernel e nm b t = Inr (ok, b', t')"
  shows "backend_inv b' \<and> (ok \<longrightarrow> p_fpgaKernelName b = None \<and> p_fpgaKernelName b' = Some nm)
    \<and> (\<not> ok \<longrightarrow> p_fpgaKernelName b' = p_fpgaKernelName b)"
proof -
  obtain st s where st: "start_fpga (e_orc e) (e_file e) (e_got e) nm (b_session b) = (st, s)" by force
  have "arrays_ok s" "st = EXIT_SUCCESS \<Longrightarrow> mapped s"
    using start_fpga_arrays [of "b_session b" "e_orc e" "e_file e" "e_got e" nm]
      start_fpga_mapped [of "b_session b" "e_orc e" "e_file e" "e_got e" nm s] assms(1) st
    by (auto simp: backend_inv_def)
  then show ?thesis
    using assms st
    by (auto simp: xql6_init_kernel_def backend_inv_def Let_def rbind_eq_Inr split: if_splits)
qed

lemma stop_kernel_inv:
  assumes "backend_inv b" "xql6_stop_kernel e b t = Inr (ok, b', t')"
  shows "backend_inv b' \<and> p_fpgaKernelName b' = None \<and> ok"
proof (cases "p_fpgaKernelName b")
  case None
  then show ?thesis using assms by (auto simp: xql6_stop_kernel_def rbind_eq_Inr)
next
  case (Some nm)
  have "fst (end_fpga (e_orc e) (b_session b)) = EXIT_SUCCESS"
    by (simp add: end_fpga_def Let_def close_fpga_law)
  moreover have "arrays_ok (snd (end_fpga (e_orc e) (b_session b)))"
    using assms(1) by (intro end_fpga_arrays) (simp add: backend_inv_def)
  ultimately show ?thesis
    using assms(2) Some
    by (auto simp: xql6_stop_kernel_def backend_inv_def rbind_eq_Inr split_beta Let_def)
qed

lemma hw_ready_inv:
  assumes "backend_inv b" "hw_ready e nm b t = Inr (ok, b', t')"
  shows "backend_inv b' \<and> (ok \<longrightarrow> p_fpgaKernelName b' = Some nm)"
proof -
  obtain ok1 b1 t1 where 1: "(if p_fpgaKernelName b \<noteq> None \<and> p_fpgaKernelName b \<noteq> Some nm
      then xql6_stop_kernel e b t else Inr (True, b, t)) = Inr (ok1, b1, t1)"
    and 2: "(if \<not> ok1 then Inr (False, b1, t1)
      else if p_fpgaKernelName b1 = None then xql6_init_kernel e nm b1 t1 else Inr (True, b1, t1))
      = Inr (ok, b', t')"
    using assms(2) unfolding hw_ready_def rbind_eq_Inr by auto
  have b1: "backend_inv b1" "ok1" "p_fpgaKernelName b1 = None \<or> p_fpgaKernelName b1 = Some nm"
    using stop_kernel_inv [OF assms(1), of e t ok1 b1 t1] 1 assms(1) by (auto split: if_splits)
  show ?thesis
    using init_kernel_inv [OF b1(1), of e nm t1 ok b' t'] 2 b1 by (auto split: if_splits)
qed

lemma enq_mapped:
  assumes "mapped s" shows "mapped (snd (fpga_q6_enq_compute orc bufId s))"
proof -
  have ev: "mapped (t\<lparr>calls := cs\<rparr>) = mapped t" "mapped (t\<lparr>wrEvent := (wrEvent t)[i := x]\<rparr>) = mapped t"
    "mapped (t\<lparr>ndEvent := (ndEvent t)[i := x]\<rparr>) = mapped t"
    "mapped (t\<lparr>rdEvent := (rdEvent t)[i := x]\<rparr>) = mapped t" for t :: session and cs i x
    by (simp_all add: mapped_def arrays_ok_def)
  have "api orc c t = (x, t') \<Longrightarrow> mapped t' = mapped t" for c t x t'
    by (auto simp: api_def ev)
  then show ?thesis
    unfolding fpga_q6_enq_compute_def
    using assms by (auto simp: Let_def ev split: prod.split simp del: api_simps)
qed

lemma enq_blocks_mapped: "mapped s \<Longrightarrow> mapped (snd (enq_blocks orc n blkId s))"
proof (induction n arbitrary: blkId s)
  case 0
  then show ?case by simp
next
  case (Suc n)
  then show ?case using enq_mapped [OF Suc.prems] by (simp add: split_beta)
qed

lemma run_hw_inv:
  assumes "backend_inv b" "xql6_run_hw e r nm b t = Inr (ok, b', t')"
  shows "backend_inv b' \<and> (ok \<longrightarrow> p_fpgaKernelName b' = Some nm)"
proof -
  obtain ok2 b2 t2 where 1: "hw_ready e nm b t = Inr (ok2, b2, t2)"
    and 2: "(if \<not> ok2 then Inr (False, b2, t2) else hw_report e r b2 t2) = Inr (ok, b', t')"
    using assms(2) unfolding xql6_run_hw_def rbind_eq_Inr by auto
  have b2: "backend_inv b2" "ok2 \<longrightarrow> p_fpgaKernelName b2 = Some nm"
    using hw_ready_inv [OF assms(1) 1] by auto
  obtain eo s where l: "enq_blocks (e_orc e) (r_blks r) 0 (b_session b2) = (eo, s)" by force
  show ?thesis
  proof (cases ok2)
    case False
    then show ?thesis using 2 b2(1) by simp
  next
    case True
    then have m: "mapped (b_session b2)" using b2 by (simp add: backend_inv_def)
    have "mapped s" using enq_blocks_mapped [OF m, of "e_orc e" "r_blks r" 0] l by simp
    then have "backend_inv (b2\<lparr>b_session := s\<rparr>)" by (simp add: backend_inv_def mapped_def)
    then show ?thesis
      using 2 b2 True by (auto simp: hw_report_def l rbind_eq_Inr split_beta Let_def)
  qed
qed

text \<open>
  Making a kernel the running one writes two short texts at most, so the report of a run with it fits
  the buffer when the name of the kernel that ran before does. \<open>init\<close> is the start of the kernel.
\<close>

abbreviation fits64 :: "int \<Rightarrow> bool" where "fits64 x \<equiv> - (2 ^ 63) \<le> x \<and> x < 2 ^ 63"

abbreviation run_text :: "i64 \<Rightarrow> int \<Rightarrow> int \<Rightarrow> int \<Rightarrow> int \<Rightarrow> int \<Rightarrow> string" where
  "run_text q6_sum tF tC tR tT nTups \<equiv> ''xql6_run (hw) result '' @ result_text q6_sum @ CHR 0x0A # ''Runtimes (us) Fill ''
     @ ld tF @ '', W+Comp '' @ ld tC @ '', Rd '' @ ld tR @ '', Tot '' @ ld tT @ ''. #Tups '' @ ld nTups @ [CHR 0x0A]"

lemma run_text_fits:
  assumes "length t \<le> 800" "\<forall>x \<in> {tF, tC, tR, tT, n}. fits64 x"
  shows "append_text t (run_text q6_sum tF tC tR tT n) = Inr (t @ run_text q6_sum tF tC tR tT n)"
  using assms result_text_length [of q6_sum] ld_length [of tF] ld_length [of tC] ld_length [of tR] ld_length [of tT]
    ld_length [of n]
  by (simp add: append_text_def c_sprintf_def c_strcat_def SBUF_SZ_def)

lemma stop_kernel_text:
  assumes "xql6_stop_kernel e b [] = Inr (ok, b', t)"
    and "\<forall>nm. p_fpgaKernelName b = Some nm \<longrightarrow> length nm \<le> 700"
  shows "length t \<le> 716"
  using assms close_fpga_law
  by (auto simp: xql6_stop_kernel_def append_text_def c_sprintf_def c_strcat_def end_fpga_def Let_def rbind_eq_Inr
      split: option.splits if_splits prod.splits)

lemma ready_text:
  assumes "rbind (if p_fpgaKernelName b \<noteq> None \<and> p_fpgaKernelName b \<noteq> Some nm
      then xql6_stop_kernel e b [] else Inr (True, b, [])) (\<lambda>(ok, b1, t1).
      if \<not> ok then Inr (False, b1, t1) else if p_fpgaKernelName b1 = None then init b1 t1 else Inr (True, b1, t1))
      = Inr (True, b', t)"
    and "\<And>b1 t1. init b1 t1 = Inr (True, b', t) \<Longrightarrow> length t \<le> length t1 + 76"
    and "\<forall>nm. p_fpgaKernelName b = Some nm \<longrightarrow> length nm \<le> 700"
  shows "length t \<le> 800"
proof -
  obtain ok1 b1 t1 where 1: "(if p_fpgaKernelName b \<noteq> None \<and> p_fpgaKernelName b \<noteq> Some nm
      then xql6_stop_kernel e b [] else Inr (True, b, [])) = Inr (ok1, b1, t1)"
    and 2: "(if \<not> ok1 then Inr (False, b1, t1)
      else if p_fpgaKernelName b1 = None then init b1 t1 else Inr (True, b1, t1)) = Inr (True, b', t)"
    using assms(1) unfolding rbind_eq_Inr by auto
  have "length t1 \<le> 716" using 1 stop_kernel_text [OF _ assms(3), of e ok1 b1 t1] by (auto split: if_splits)
  then show ?thesis using 2 assms(2) [of b1 t1] by (auto split: if_splits)
qed

lemma hw_ready_text:
  assumes "hw_ready e nm b [] = Inr (True, b', t)" "fits64 (e_us e)"
    and "\<forall>nm. p_fpgaKernelName b = Some nm \<longrightarrow> length nm \<le> 700"
  shows "length t \<le> 800"
proof (rule ready_text [OF assms(1) [unfolded hw_ready_def] _ assms(3)])
  show "length t \<le> length t1 + 76" if "xql6_init_kernel e nm b1 t1 = Inr (True, b', t)" for b1 t1
    using that assms(2) ld_length [of "e_us e"]
    by (auto simp: xql6_init_kernel_def append_text_def c_sprintf_def c_strcat_def Let_def rbind_eq_Inr split_beta
        split: if_splits)
qed

text \<open>A call with the name of a kernel returns the text of the hardware run.\<close>

lemma xql6_runs_hw:
  assumes "hw krn b [] = Inr (ok, b', t)" "relkind \<notin> {RELKIND_VIEW, RELKIND_COMPOSITE_TYPE, RELKIND_FOREIGN_TABLE}"
    and "\<not> strncmp_eq krn ''stop'' 4" "\<not> strncmp_eq krn ''swemu'' 5"
  shows "xql6 e relkind rel krn sw hw b = Inr (b', t)"
  using assms by (simp add: xql6_def xql6_check_relation_def)

text \<open>
  When the kernel is made ready and every block is enqueued, the run reports its result and
  leaves that kernel running.
\<close>

lemma run_hw_text:
  assumes "backend_inv b" "hw_ready e krn b [] = Inr (True, b1, t1)" "fst (enq_blocks (e_orc e) (r_blks r) 0 (b_session b1))"
    and "\<forall>nm. p_fpgaKernelName b = Some nm \<longrightarrow> length nm \<le> 700"
    and "r_us r = (tF, tC, tR, tT)" "\<forall>x \<in> {e_us e, tF, tC, tR, tT, int (r_nTups r)}. fits64 x"
  shows "\<exists>b'. xql6_run_hw e r krn b [] = Inr (True, b', t1 @ run_text (r_sum r) tF tC tR tT (int (r_nTups r)))
    \<and> p_fpgaKernelName b' = Some krn \<and> backend_inv b'"
proof -
  have "length t1 \<le> 800" using hw_ready_text [OF assms(2) _ assms(4)] assms(6) by simp
  from run_text_fits [OF this, of tF tC tR tT "int (r_nTups r)"] assms(6)
  obtain b' where run: "xql6_run_hw e r krn b [] = Inr (True, b', t1 @ run_text (r_sum r) tF tC tR tT (int (r_nTups r)))"
    using assms(2,3) by (simp add: xql6_run_hw_def hw_report_def assms(5) split_beta)
  then show ?thesis using run_hw_inv [OF assms(1) run] by blast
qed

text \<open>Any sequence of calls of the function, each with its own environment and relation.\<close>

inductive called :: "backend \<Rightarrow> bool" where
  start: "called backend0"
| call: "called b \<Longrightarrow> xql6 e relkind p_relName p_krnName sw (xql6_run_hw e r) b = Inr (b', t)
    \<Longrightarrow> called b'"

lemma called_inv:
  assumes "called b"
  shows "backend_inv b"
  using assms(1)
proof induction
  case start
  show ?case by (simp add: backend_inv_def backend0_def session0_def arrays_ok_def)
next
  case (call b e relkind p_relName p_krnName sw r b' t)
  then consider ok where "xql6_stop_kernel e b [] = Inr (ok, b', t)" | "b' = b"
    | ok where "xql6_run_hw e r p_krnName b [] = Inr (ok, b', t)"
    by (auto simp: xql6_def xql6_check_relation_def rbind_eq_Inr split: if_splits)
  then show ?case
  proof cases
    case 1
    then show ?thesis using stop_kernel_inv [OF call.IH] by blast
  next
    case 2
    then show ?thesis using call.IH by simp
  next
    case 3
    then show ?thesis using run_hw_inv [OF call.IH 3] by blast
  qed
qed

end
