(* ===== verification/Gather.thy ===== *)
theory Gather
  imports Prelude
begin

unbundle bit_operations_syntax

text \<open>
  The gather accelerator, \<^verbatim>\<open>omxgather/kernel/omx.h\<close>, \<^verbatim>\<open>omx.cpp\<close> and \<^verbatim>\<open>gather.cpp\<close>: a kernel that
  looks up 262144 indices of a block in a table of (measure, group) pairs held in device
  memory, with 1, 2, 4, 8 or 16 parallel streams.

  A burst is the list of its eight 32-bit words. Streams are lists as in the query kernel, an
  array of streams is a list of them, and reading an empty stream is an error; the depth
  of the FIFOs is not modelled. The table is reached through a pointer and is a function
  from burst indices to bursts.
\<close>

section \<open>Constants\<close>

definition TOTAL_WORK_SIZE :: nat where "TOTAL_WORK_SIZE = 1 * 1024 * 1024"
definition BURST_WIDTH :: nat where "BURST_WIDTH = 32"
definition BYTES_PER_IN_ENTRY :: nat where "BYTES_PER_IN_ENTRY = 4"
definition BYTES_PER_OUT_ENTRY :: nat where "BYTES_PER_OUT_ENTRY = 8"
definition IN_ENTRIES_PER_BURST :: nat where
  "IN_ENTRIES_PER_BURST = BURST_WIDTH div BYTES_PER_IN_ENTRY"
definition OUT_ENTRIES_PER_BURST :: nat where
  "OUT_ENTRIES_PER_BURST = BURST_WIDTH div BYTES_PER_OUT_ENTRY"
definition OUT_IN_RATIO :: nat where "OUT_IN_RATIO = BYTES_PER_OUT_ENTRY div BYTES_PER_IN_ENTRY"
definition g_NUM_PU :: nat where "g_NUM_PU = 16"
definition MAX_STREAM :: nat where "MAX_STREAM = g_NUM_PU"
definition totalInBurst :: nat where "totalInBurst = TOTAL_WORK_SIZE div BURST_WIDTH"
definition totalInWork :: nat where "totalInWork = TOTAL_WORK_SIZE div BYTES_PER_IN_ENTRY"
definition totalOutBurst :: nat where "totalOutBurst = OUT_IN_RATIO * TOTAL_WORK_SIZE div BURST_WIDTH"

lemmas [sizes] = TOTAL_WORK_SIZE_def BURST_WIDTH_def BYTES_PER_IN_ENTRY_def BYTES_PER_OUT_ENTRY_def
  IN_ENTRIES_PER_BURST_def OUT_ENTRIES_PER_BURST_def OUT_IN_RATIO_def g_NUM_PU_def MAX_STREAM_def
  totalInBurst_def totalInWork_def totalOutBurst_def

text \<open>The bits of \<open>opmode\<close>: two select the buffers, five select the number of streams.\<close>

definition BIT_MASK :: "nat \<Rightarrow> u32" where "BIT_MASK x = push_bit x 1"
definition BIT_OFFSET :: "u32 \<Rightarrow> nat \<Rightarrow> u32" where "BIT_OFFSET x y = push_bit y x"
definition BIT_ENABLE_ENC :: "nat \<Rightarrow> u32" where "BIT_ENABLE_ENC x = BIT_MASK x - 1"
definition PING_PONG_IN_MASK_OFFSET :: nat where "PING_PONG_IN_MASK_OFFSET = 0"
definition PING_PONG_IN_MASK :: u32 where
  "PING_PONG_IN_MASK = BIT_OFFSET (BIT_ENABLE_ENC 1) PING_PONG_IN_MASK_OFFSET"
definition PING_PONG_OUT_MASK_OFFSET :: nat where
  "PING_PONG_OUT_MASK_OFFSET = PING_PONG_IN_MASK_OFFSET + 1"
definition PING_PONG_OUT_MASK :: u32 where
  "PING_PONG_OUT_MASK = BIT_OFFSET (BIT_ENABLE_ENC 1) PING_PONG_OUT_MASK_OFFSET"
definition STREAM_MASK_OFFSET :: nat where "STREAM_MASK_OFFSET = PING_PONG_OUT_MASK_OFFSET + 1"
definition STREAM_MASK_1 :: u32 where "STREAM_MASK_1 = BIT_OFFSET (BIT_MASK 0) STREAM_MASK_OFFSET"
definition STREAM_MASK_2 :: u32 where "STREAM_MASK_2 = BIT_OFFSET (BIT_MASK 1) STREAM_MASK_OFFSET"
definition STREAM_MASK_4 :: u32 where "STREAM_MASK_4 = BIT_OFFSET (BIT_MASK 2) STREAM_MASK_OFFSET"
definition STREAM_MASK_8 :: u32 where "STREAM_MASK_8 = BIT_OFFSET (BIT_MASK 3) STREAM_MASK_OFFSET"
definition STREAM_MASK_16 :: u32 where "STREAM_MASK_16 = BIT_OFFSET (BIT_MASK 4) STREAM_MASK_OFFSET"
definition STREAM_MASK :: u32 where "STREAM_MASK = BIT_OFFSET (BIT_ENABLE_ENC 5) STREAM_MASK_OFFSET"

text \<open>
  \<open>if (false) {} else if (opmode & STREAM_MASK_1) ...\<close>: the number of streams the chains of
  the code select, \<open>None\<close> when no branch is taken.
\<close>

definition stream_sel :: "u32 \<Rightarrow> nat option" where
  "stream_sel opmode =
     (if opmode AND STREAM_MASK_1 \<noteq> 0 then Some 1
      else if opmode AND STREAM_MASK_2 \<noteq> 0 then Some 2
      else if opmode AND STREAM_MASK_4 \<noteq> 0 then Some 4
      else if opmode AND STREAM_MASK_8 \<noteq> 0 then Some 8
      else if opmode AND STREAM_MASK_16 \<noteq> 0 then Some 16 else None)"

section \<open>Arrays of streams\<close>

definition swrite :: "'a list list \<Rightarrow> nat \<Rightarrow> 'a \<Rightarrow> 'a list list res" where
  "swrite ss k x = rbind (rd ss k) (\<lambda>s. wr ss k (s @ [x]))"

definition sread_at :: "'a list list \<Rightarrow> nat \<Rightarrow> ('a \<times> 'a list list) res" where
  "sread_at ss k = rbind (rd ss k) (\<lambda>s. rbind (sread s) (\<lambda>(x, s').
     rbind (wr ss k s') (\<lambda>ss'. Inr (x, ss'))))"

section \<open>Reading and distributing the indices\<close>

type_synonym burst = "u32 list"

definition gatherReadInBurstOnly :: "burst list \<Rightarrow> burst list \<Rightarrow> burst list res" where
  "gatherReadInBurstOnly inBufSel inBurstStream =
     rloop totalInBurst (\<lambda>burst_count s. rbind (rd inBufSel burst_count) (\<lambda>b. Inr (s @ [b]))) 0
       inBurstStream"

definition gatherReadInBurst :: "u32 \<Rightarrow> burst list \<Rightarrow> burst list \<Rightarrow> burst list \<Rightarrow> burst list res" where
  "gatherReadInBurst opmode inBuf0 inBuf1 inBurstStream =
     (if opmode AND PING_PONG_IN_MASK = 0 then gatherReadInBurstOnly inBuf0 inBurstStream
      else gatherReadInBurstOnly inBuf1 inBurstStream)"

text \<open>\<open>dinstream[idx].write (burst.data[(i * STREAM) + idx])\<close>\<close>

definition in_lt_body :: "nat \<Rightarrow> burst \<Rightarrow> nat \<Rightarrow> nat \<Rightarrow> u32 list list \<Rightarrow> u32 list list res" where
  "in_lt_body S brst i idx dins = rbind (rd brst (i * S + idx)) (swrite dins idx)"

text \<open>The other branch, for more streams than entries of a burst.\<close>

definition in_gt_body :: "nat \<Rightarrow> burst \<Rightarrow> nat \<Rightarrow> nat \<Rightarrow> u32 list list \<Rightarrow> u32 list list res" where
  "in_gt_body S brst burst_count idx dins = rbind (rd brst idx)
     (swrite dins (burst_count mod (S div IN_ENTRIES_PER_BURST) * IN_ENTRIES_PER_BURST + idx))"

definition in_burst_body :: "nat \<Rightarrow> nat \<Rightarrow> burst list \<times> u32 list list \<Rightarrow> (burst list \<times> u32 list list) res" where
  "in_burst_body S burst_count = (\<lambda>(inBurstStream, dins).
     rbind (sread inBurstStream) (\<lambda>(brst, inBurstStream').
     rbind (if S \<le> IN_ENTRIES_PER_BURST
            then rloop (IN_ENTRIES_PER_BURST div S) (\<lambda>i. rloop S (in_lt_body S brst i) 0) 0 dins
            else rloop IN_ENTRIES_PER_BURST (in_gt_body S brst burst_count) 0 dins)
       (\<lambda>dins'. Inr (inBurstStream', dins'))))"

definition gatherReadIn_Template :: "nat \<Rightarrow> burst list \<Rightarrow> u32 list list \<Rightarrow> (burst list \<times> u32 list list) res" where
  "gatherReadIn_Template S inBurstStream dins =
     rloop totalInBurst (in_burst_body S) 0 (inBurstStream, dins)"

definition gatherReadWorkDistribution :: "u32 \<Rightarrow> burst list \<Rightarrow> u32 list list \<Rightarrow> (burst list \<times> u32 list list) res" where
  "gatherReadWorkDistribution opmode inBurstStream dins =
     (case stream_sel opmode of None \<Rightarrow> Inr (inBurstStream, dins)
      | Some S \<Rightarrow> gatherReadIn_Template S inBurstStream dins)"

section \<open>The lookups\<close>

type_synonym table_mem = "nat \<Rightarrow> burst"

text \<open>One lookup; \<open>unsigned\<close> arithmetic, none of which can wrap.\<close>

definition lookup_body :: "table_mem \<Rightarrow> nat \<Rightarrow> u32 list \<times> u32 list \<times> u32 list \<Rightarrow> (u32 list \<times> u32 list \<times> u32 list) res" where
  "lookup_body ddr i = (\<lambda>(din, dm, dg).
     rbind (sread din) (\<lambda>(addr, din').
     let addrA = unat addr; burstAddrA = addrA div OUT_ENTRIES_PER_BURST;
         offsetA0 = 2 * (addrA mod OUT_ENTRIES_PER_BURST);
         offsetA1 = 2 * (addrA mod OUT_ENTRIES_PER_BURST) + 1;
         dout = ddr burstAddrA in
     rbind (rd dout offsetA0) (\<lambda>m. rbind (rd dout offsetA1) (\<lambda>g.
       Inr (din', dm @ [m], dg @ [g])))))"

definition readAWork :: "bool \<Rightarrow> nat \<Rightarrow> table_mem \<Rightarrow> u32 list \<times> u32 list \<times> u32 list \<Rightarrow> (u32 list \<times> u32 list \<times> u32 list) res" where
  "readAWork go totalWork ddr strms =
     rloop totalWork (\<lambda>i s. if go then lookup_body ddr i s else Inr s) 0 strms"

definition readA :: "u32 \<Rightarrow> nat \<Rightarrow> table_mem \<Rightarrow> u32 list \<times> u32 list \<times> u32 list \<Rightarrow> (u32 list \<times> u32 list \<times> u32 list) res" where
  "readA opmode ident ddr strms =
     (let opmode_stream = drop_bit STREAM_MASK_OFFSET (opmode AND STREAM_MASK);
          go = int ident < sint opmode_stream;
          totalWork = (case stream_sel opmode of None \<Rightarrow> 0 | Some x \<Rightarrow> totalInWork div x)
      in readAWork go totalWork ddr strms)"

text \<open>The sixteen calls \<open>READAFUNC (0)\<close> to \<open>READAFUNC (15)\<close>, each on its own streams and pointer.\<close>

definition readA_call :: "u32 \<Rightarrow> table_mem list \<Rightarrow> nat \<Rightarrow> u32 list list \<times> u32 list list \<times> u32 list list
    \<Rightarrow> (u32 list list \<times> u32 list list \<times> u32 list list) res" where
  "readA_call opmode ddrs x = (\<lambda>(dins, dms, dgs).
     rbind (rd dins x) (\<lambda>din. rbind (rd dms x) (\<lambda>dm. rbind (rd dgs x) (\<lambda>dg.
     rbind (rd ddrs x) (\<lambda>ddr.
     rbind (readA opmode x ddr (din, dm, dg)) (\<lambda>(din', dm', dg').
       Inr (dins[x := din'], dms[x := dm'], dgs[x := dg'])))))))"

definition gatherReadAll :: "u32 \<Rightarrow> table_mem list \<Rightarrow> u32 list list \<times> u32 list list \<times> u32 list list
    \<Rightarrow> (u32 list list \<times> u32 list list \<times> u32 list list) res" where
  "gatherReadAll opmode ddrs strms = rloop 16 (readA_call opmode ddrs) 0 strms"

section \<open>Collecting the results\<close>

text \<open>Read the pair of stream \<open>k\<close> into positions \<open>pos\<close> and \<open>pos + 1\<close> of the burst being built.\<close>

definition out_pair :: "nat \<Rightarrow> nat \<Rightarrow> u32 list list \<times> u32 list list \<times> burst
    \<Rightarrow> (u32 list list \<times> u32 list list \<times> burst) res" where
  "out_pair k pos = (\<lambda>(dms, dgs, dout).
     rbind (sread_at dms k) (\<lambda>(m, dms'). rbind (wr dout pos m) (\<lambda>d1.
     rbind (sread_at dgs k) (\<lambda>(g, dgs'). rbind (wr d1 (pos + 1) g) (\<lambda>d2.
       Inr (dms', dgs', d2))))))"

definition out_burst_body :: "nat \<Rightarrow> nat \<Rightarrow> (u32 list list \<times> u32 list list \<times> burst) \<times> burst list
    \<Rightarrow> ((u32 list list \<times> u32 list list \<times> burst) \<times> burst list) res" where
  "out_burst_body S burst_count = (\<lambda>(st, outBurstStream).
     rbind (if S \<le> OUT_ENTRIES_PER_BURST
            then rloop (OUT_ENTRIES_PER_BURST div S) (\<lambda>cycle_count. rloop S (\<lambda>idx.
                   out_pair idx (OUT_IN_RATIO * (S * cycle_count + idx))) 0) 0 st
            else rloop OUT_ENTRIES_PER_BURST (\<lambda>entry.
                   out_pair (burst_count mod (S div OUT_ENTRIES_PER_BURST) * OUT_ENTRIES_PER_BURST + entry)
                     (2 * entry)) 0 st)
       (\<lambda>st'. Inr (st', outBurstStream @ [snd (snd st')])))"

text \<open>\<open>dout0\<close> is the indeterminate content of the local burst.\<close>

definition gatherWriteOut_Template :: "nat \<Rightarrow> burst \<Rightarrow> u32 list list \<Rightarrow> u32 list list \<Rightarrow> burst list \<Rightarrow> burst list res" where
  "gatherWriteOut_Template S dout0 dms dgs outBurstStream =
     rbind (rloop totalOutBurst (out_burst_body S) 0 ((dms, dgs, dout0), outBurstStream))
       (\<lambda>(_, outBurstStream'). Inr outBurstStream')"

definition gatherWriteBurstResult :: "u32 \<Rightarrow> burst \<Rightarrow> u32 list list \<Rightarrow> u32 list list \<Rightarrow> burst list \<Rightarrow> burst list res" where
  "gatherWriteBurstResult opmode dout0 dms dgs outBurstStream =
     (case stream_sel opmode of None \<Rightarrow> Inr outBurstStream
      | Some S \<Rightarrow> gatherWriteOut_Template S dout0 dms dgs outBurstStream)"

definition gatherWriteOutResultOnly :: "burst list \<Rightarrow> burst list \<Rightarrow> burst list res" where
  "gatherWriteOutResultOnly outBurstStream outBufSel =
     rbind (rloop totalOutBurst (\<lambda>burst_count (strm, buf).
         rbind (sread strm) (\<lambda>(b, strm'). rbind (wr buf burst_count b) (\<lambda>buf'. Inr (strm', buf'))))
       0 (outBurstStream, outBufSel)) (\<lambda>(_, buf). Inr buf)"

definition gatherWriteOutResult :: "u32 \<Rightarrow> burst list \<Rightarrow> burst list \<Rightarrow> burst list \<Rightarrow> (burst list \<times> burst list) res" where
  "gatherWriteOutResult opmode outBurstStream outBuf0 outBuf1 =
     (if opmode AND PING_PONG_OUT_MASK = 0
      then rbind (gatherWriteOutResultOnly outBurstStream outBuf0) (\<lambda>b. Inr (b, outBuf1))
      else rbind (gatherWriteOutResultOnly outBurstStream outBuf1) (\<lambda>b. Inr (outBuf0, b)))"

section \<open>The top level\<close>

definition gather :: "burst \<Rightarrow> u32 \<Rightarrow> burst list \<Rightarrow> burst list \<Rightarrow> burst list \<Rightarrow> burst list \<Rightarrow> table_mem list
    \<Rightarrow> (burst list \<times> burst list) res" where
  "gather dout0 opmode inbuf0 inbuf1 outbuf0 outbuf1 ddrs =
     (let none = replicate MAX_STREAM [] in
      rbind (gatherReadInBurst opmode inbuf0 inbuf1 []) (\<lambda>inBurstStream.
      rbind (gatherReadWorkDistribution opmode inBurstStream none) (\<lambda>(_, dinstream).
      rbind (gatherReadAll opmode ddrs (dinstream, none, none)) (\<lambda>(_, doutmeasurestream, doutgroupstream).
      rbind (gatherWriteBurstResult opmode dout0 doutmeasurestream doutgroupstream []) (\<lambda>outBurstStream.
        gatherWriteOutResult opmode outBurstStream outbuf0 outbuf1)))))"

text \<open>The kernel entry point: the control interface adds nothing to the call.\<close>

definition omx :: "burst \<Rightarrow> u32 \<Rightarrow> burst list \<Rightarrow> burst list \<Rightarrow> burst list \<Rightarrow> burst list \<Rightarrow> table_mem list
    \<Rightarrow> (burst list \<times> burst list) res" where
  "omx dout0 opmode inbuf0 inbuf1 outbuf0 outbuf1 ddrs =
     gather dout0 opmode inbuf0 inbuf1 outbuf0 outbuf1 ddrs"

section \<open>Round-robin lanes\<close>

text \<open>The entries that stream \<open>k\<close> of \<open>S\<close> carries, and the streams after \<open>m\<close> entries.\<close>

definition lane :: "nat \<Rightarrow> nat \<Rightarrow> nat list \<Rightarrow> nat list" where
  "lane S k es = filter (\<lambda>e. e mod S = k) es"

definition dealt :: "nat \<Rightarrow> (nat \<Rightarrow> 'a) \<Rightarrow> nat list \<Rightarrow> 'a list list" where
  "dealt S w es = map (\<lambda>k. map w (lane S k es)) [0..<16]"

lemma dealt_nth: "k < 16 \<Longrightarrow> dealt S w es ! k = map w (lane S k es)"
  by (simp add: dealt_def)

lemma dealt_length [simp]: "length (dealt S w es) = 16"
  by (simp add: dealt_def)

lemma dealt_Nil: "dealt S w [] = replicate 16 []"
  by (simp add: dealt_def lane_def map_replicate_const)

lemma swrite_dealt:
  assumes "0 < S" "S \<le> 16"
  shows "swrite (dealt S w [0..<m]) (m mod S) (w m) = Inr (dealt S w [0..<Suc m])"
proof -
  have lt: "m mod S < 16" using assms by (meson mod_less_divisor order_less_le_trans)
  have "(dealt S w [0..<m])[m mod S := dealt S w [0..<m] ! (m mod S) @ [w m]] = dealt S w [0..<Suc m]"
  proof (rule nth_equalityI)
    fix k assume "k < length ((dealt S w [0..<m])[m mod S := dealt S w [0..<m] ! (m mod S) @ [w m]])"
    then have k: "k < 16" by simp
    then show "(dealt S w [0..<m])[m mod S := dealt S w [0..<m] ! (m mod S) @ [w m]] ! k
        = dealt S w [0..<Suc m] ! k"
      using lt by (cases "k = m mod S") (simp_all add: dealt_nth lane_def)
  qed simp
  with lt show ?thesis by (simp add: swrite_def)
qed

lemma sread_dealt:
  assumes "0 < S" "S \<le> 16" "m < n"
  shows "sread_at (dealt S w [m..<n]) (m mod S) = Inr (w m, dealt S w [Suc m..<n])"
proof -
  have lt: "m mod S < 16" using assms by (meson mod_less_divisor order_less_le_trans)
  have r: "dealt S w [m..<n] ! (m mod S) = w m # dealt S w [Suc m..<n] ! (m mod S)"
    using lt assms(3) by (simp add: dealt_nth lane_def upt_conv_Cons)
  have "(dealt S w [m..<n])[m mod S := dealt S w [Suc m..<n] ! (m mod S)] = dealt S w [Suc m..<n]"
  proof (rule nth_equalityI)
    fix k assume "k < length ((dealt S w [m..<n])[m mod S := dealt S w [Suc m..<n] ! (m mod S)])"
    then have k: "k < 16" by simp
    then show "(dealt S w [m..<n])[m mod S := dealt S w [Suc m..<n] ! (m mod S)] ! k
        = dealt S w [Suc m..<n] ! k"
      using lt assms(3) by (cases "k = m mod S") (simp_all add: dealt_nth lane_def upt_conv_Cons)
  qed simp
  with lt r show ?thesis by (simp add: sread_at_def)
qed

lemma lane_length: "k < S \<Longrightarrow> length (lane S k [0..<S * q]) = q"
proof (induction q)
  case 0
  then show ?case by (simp add: lane_def)
next
  case (Suc q)
  have "lane S k [S * q..<S * q + S] = [S * q + k]"
  proof -
    have "filter (\<lambda>e. e mod S = k) [S * q..<S * q + S] = filter (\<lambda>e. e = S * q + k) [S * q..<S * q + S]"
    proof (rule filter_cong [OF refl])
      fix e assume "e \<in> set [S * q..<S * q + S]"
      then obtain j where "e = S * q + j" "j < S" by (auto simp: le_iff_add)
      then show "(e mod S = k) = (e = S * q + k)" by simp
    qed
    moreover have "[S * q..<S * q + S] = [S * q..<S * q + k] @ (S * q + k) # [Suc (S * q + k)..<S * q + S]"
      using Suc.prems upt_add_eq_append [of "S * q" "S * q + k" "S - k"]
      by (simp add: upt_conv_Cons)
    ultimately show ?thesis by (simp add: lane_def filter_empty_conv)
  qed
  then show ?case
    using Suc upt_add_eq_append [of 0 "S * q" S] by (simp add: lane_def add.commute)
qed

lemma lane_out: "0 < S \<Longrightarrow> S \<le> k \<Longrightarrow> lane S k es = []"
  by (auto simp: lane_def filter_empty_conv) (metis mod_less_divisor leD)

text \<open>The numbers of streams the kernel is instantiated for.\<close>

definition stream_count :: "nat \<Rightarrow> bool" where
  "stream_count S \<longleftrightarrow> S \<in> {1, 2, 4, 8, 16}"

lemma stream_countE:
  assumes "stream_count S"
  obtains "S = 1" | "S = 2" | "S = 4" | "S = 8" | "S = 16"
  using assms by (auto simp: stream_count_def)

lemma stream_count_bounds: "stream_count S \<Longrightarrow> 0 < S \<and> S \<le> 16"
  by (auto simp: stream_count_def)

section \<open>The phases\<close>

lemma read_in_law:
  assumes "length buf = totalInBurst"
  shows "gatherReadInBurstOnly buf strm = Inr (strm @ buf)"
proof -
  have "rloop totalInBurst (\<lambda>burst_count s. rbind (rd buf burst_count) (\<lambda>b. Inr (s @ [b]))) 0 (strm @ take 0 buf)
      = Inr (strm @ take (0 + totalInBurst) buf)"
    by (rule rloop_det) (use assms in \<open>simp add: take_Suc_conv_app_nth\<close>)
  then show ?thesis using assms by (simp add: gatherReadInBurstOnly_def)
qed

text \<open>Entry \<open>e\<close> of a buffer of bursts.\<close>

definition in_word :: "burst list \<Rightarrow> nat \<Rightarrow> u32" where
  "in_word buf e = buf ! (e div 8) ! (e mod 8)"

lemma in_lt_law:
  assumes "S * q = 8" "length brst = 8" "S dvd m" "\<And>j. j < 8 \<Longrightarrow> w (m + j) = brst ! j"
  shows "rloop q (\<lambda>i. rloop S (in_lt_body S brst i) 0) 0 (dealt S w [0..<m]) = Inr (dealt S w [0..<m + 8])"
proof -
  have S: "0 < S" "S \<le> 8" using assms(1) by (cases S; auto) (metis One_nat_def assms(1) dvd_imp_le dvd_triv_left zero_less_numeral)
  have inner: "rloop S (in_lt_body S brst i) 0 (dealt S w [0..<m + i * S + 0])
      = Inr (dealt S w [0..<m + i * S + (0 + S)])" if "i < q" for i
  proof (rule rloop_det)
    fix idx assume "idx < 0 + S"
    moreover have "i * S + S \<le> 8" using \<open>i < q\<close> assms(1) by (metis Suc_leI add.commute mult.commute mult_Suc mult_le_mono2)
    moreover have "m + i * S + idx = idx + (m div S + i) * S" using assms(3) by (simp add: algebra_simps)
    ultimately have "i * S + idx < 8" "(m + i * S + idx) mod S = idx"
      by (simp_all only: mod_mult_self1) simp_all
    then show "in_lt_body S brst i idx (dealt S w [0..<m + i * S + idx])
        = Inr (dealt S w [0..<m + i * S + Suc idx])"
      using swrite_dealt [of S w "m + i * S + idx"] S assms(2) assms(4) [of "i * S + idx"]
      by (simp add: in_lt_body_def add.assoc)
  qed
  have "rloop q (\<lambda>i. rloop S (in_lt_body S brst i) 0) 0 (dealt S w [0..<m + 0 * S])
      = Inr (dealt S w [0..<m + (0 + q) * S])"
    by (rule rloop_det) (use inner in \<open>simp add: algebra_simps\<close>)
  then show ?thesis using assms(1) by (simp add: mult.commute)
qed

lemma in_gt_law:
  assumes "length brst = 8" "\<And>j. j < 8 \<Longrightarrow> w (8 * bc + j) = brst ! j"
  shows "rloop 8 (in_gt_body 16 brst bc) 0 (dealt 16 w [0..<8 * bc]) = Inr (dealt 16 w [0..<8 * bc + 8])"
proof -
  have "rloop 8 (in_gt_body 16 brst bc) 0 (dealt 16 w [0..<8 * bc + 0]) = Inr (dealt 16 w [0..<8 * bc + (0 + 8)])"
  proof (rule rloop_det)
    fix idx :: nat assume "idx < 0 + 8"
    moreover have "8 * bc = 8 * (bc mod 2) + 16 * (bc div 2)"
      using mod_mult_div_eq [of bc 2] by linarith
    then have "(8 * bc + idx) mod 16 = (8 * (bc mod 2) + idx) mod 16"
      by (metis (no_types) add.assoc add.commute mod_mult_self2)
    moreover have "bc mod 2 < 2" by simp
    ultimately have "idx < 8" "(8 * bc + idx) mod 16 = bc mod 2 * 8 + idx" by auto
    then show "in_gt_body 16 brst bc idx (dealt 16 w [0..<8 * bc + idx])
        = Inr (dealt 16 w [0..<8 * bc + Suc idx])"
      using swrite_dealt [of 16 w "8 * bc + idx"] assms by (simp add: in_gt_body_def sizes)
  qed
  then show ?thesis by simp
qed

lemma distribution_law:
  assumes "stream_count S" "length bursts = totalInBurst" "list_all (\<lambda>b. length b = 8) bursts"
  shows "gatherReadIn_Template S bursts (replicate MAX_STREAM [])
    = Inr ([], dealt S (in_word bursts) [0..<totalInWork])"
proof -
  let ?f = "\<lambda>bc. (drop bc bursts, dealt S (in_word bursts) [0..<8 * bc])"
  have "rloop totalInBurst (in_burst_body S) 0 (?f 0) = Inr (?f (0 + totalInBurst))"
  proof (rule rloop_det)
    fix bc assume "bc < 0 + totalInBurst"
    then have bc: "bc < length bursts" using assms(2) by simp
    then have b: "length (bursts ! bc) = 8" using assms(3) by (simp add: list_all_length)
    have w: "in_word bursts (8 * bc + j) = bursts ! bc ! j" if "j < 8" for j
      using that by (simp add: in_word_def)
    have "(if S \<le> IN_ENTRIES_PER_BURST
            then rloop (IN_ENTRIES_PER_BURST div S) (\<lambda>i. rloop S (in_lt_body S (bursts ! bc) i) 0) 0
              (dealt S (in_word bursts) [0..<8 * bc])
            else rloop IN_ENTRIES_PER_BURST (in_gt_body S (bursts ! bc) bc) 0 (dealt S (in_word bursts) [0..<8 * bc]))
        = Inr (dealt S (in_word bursts) [0..<8 * bc + 8])"
    proof (cases "S = 16")
      case True
      then show ?thesis using in_gt_law [where brst = "bursts ! bc", OF b w] by (simp add: sizes)
    next
      case False
      then have S: "S * (8 div S) = 8" "S dvd 8 * bc" "S \<le> 8" using assms(1) by (auto simp: stream_count_def)
      from in_lt_law [OF S(1) b S(2) w] S(3) show ?thesis by (simp add: sizes)
    qed
    then show "in_burst_body S bc (?f bc) = Inr (?f (Suc bc))"
      using bc by (simp add: in_burst_body_def drop_eq_Cons_nth add.commute del: upt_Suc)
  qed
  then show ?thesis
    using assms(2) by (simp add: gatherReadIn_Template_def dealt_Nil sizes)
qed

text \<open>The two words of an entry of the table.\<close>

definition measure_at :: "table_mem \<Rightarrow> u32 \<Rightarrow> u32" where
  "measure_at ddr a = ddr (unat a div 4) ! (2 * (unat a mod 4))"

definition group_at :: "table_mem \<Rightarrow> u32 \<Rightarrow> u32" where
  "group_at ddr a = ddr (unat a div 4) ! (2 * (unat a mod 4) + 1)"

definition wf_table :: "table_mem \<Rightarrow> bool" where
  "wf_table ddr \<longleftrightarrow> (\<forall>b. length (ddr b) = 8)"

lemma lookup_loop:
  assumes "wf_table ddr"
  shows "rloop (length din) (\<lambda>i s. if True then lookup_body ddr i s else Inr s) i (din, dm, dg)
    = Inr ([], dm @ map (measure_at ddr) din, dg @ map (group_at ddr) din)"
proof (induction din arbitrary: i dm dg)
  case Nil
  then show ?case by simp
next
  case (Cons a din)
  have "2 * (unat a mod 4) + 1 < 8" by (simp add: mult_2 [symmetric])
  then have "lookup_body ddr i (a # din, dm, dg) = Inr (din, dm @ [measure_at ddr a], dg @ [group_at ddr a])"
    using assms by (simp add: lookup_body_def sizes measure_at_def group_at_def wf_table_def Let_def)
  then show ?case using Cons.IH by simp
qed

text \<open>The one-hot stream selection, which is also the number of streams.\<close>

definition selects :: "u32 \<Rightarrow> nat \<Rightarrow> bool" where
  "selects opmode S \<longleftrightarrow> stream_count S \<and> opmode AND STREAM_MASK = push_bit STREAM_MASK_OFFSET (of_nat S)"

lemma mask_values [sizes]:
  "PING_PONG_IN_MASK = 1" "PING_PONG_OUT_MASK = 2" "STREAM_MASK_OFFSET = 2"
  "STREAM_MASK_1 = 4" "STREAM_MASK_2 = 8" "STREAM_MASK_4 = 16" "STREAM_MASK_8 = 32" "STREAM_MASK_16 = 64"
  "STREAM_MASK = 124"
  by code_simp+

lemma selects_stream_sel:
  assumes "selects opmode S"
  shows "stream_sel opmode = Some S" "sint (drop_bit STREAM_MASK_OFFSET (opmode AND STREAM_MASK)) = int S"
proof -
  have a: "opmode AND 124 = 4 * of_nat S" "stream_count S"
    using assms by (auto simp: selects_def sizes push_bit_eq_mult)
  have "opmode AND x = (4 * of_nat S) AND x" if "124 AND x = x" for x
    using a(1) that by (metis and.assoc)
  then have v: "opmode AND 4 = (4 * of_nat S) AND 4" "opmode AND 8 = (4 * of_nat S) AND 8"
    "opmode AND 16 = (4 * of_nat S) AND 16" "opmode AND 32 = (4 * of_nat S) AND 32"
    "opmode AND 64 = (4 * of_nat S) AND 64"
    by simp_all
  show "stream_sel opmode = Some S"
    using a(2) by (elim stream_countE) (simp_all add: stream_sel_def sizes v)
  show "sint (drop_bit STREAM_MASK_OFFSET (opmode AND STREAM_MASK)) = int S"
    using a(2) by (elim stream_countE) (simp_all add: sizes a(1))
qed

lemma readA_law:
  assumes "selects opmode S" "wf_table ddr" "k < 16" "din = dealt S w [0..<totalInWork] ! k"
  shows "readA opmode k ddr (din, [], []) = Inr ([], map (measure_at ddr) din, map (group_at ddr) din)"
proof (cases "k < S")
  case True
  have "S dvd totalInWork" using assms(1) by (auto simp: selects_def stream_count_def sizes)
  then have "length din = totalInWork div S"
    using assms(3,4) lane_length [OF True, of "totalInWork div S"] by (simp add: dealt_nth)
  then show ?thesis
    using lookup_loop [OF assms(2), of din 0 "[]" "[]"] True selects_stream_sel [OF assms(1)]
    by (simp add: readA_def readAWork_def)
next
  case False
  have "rloop n (\<lambda>i s. if False then lookup_body ddr i s else Inr s) i ([], [], []) = Inr ([], [], [])" for n i
    by (induction n arbitrary: i) simp_all
  moreover have "din = []"
    using False assms stream_count_bounds [of S] by (simp add: dealt_nth lane_out selects_def)
  ultimately show ?thesis
    using False selects_stream_sel [OF assms(1)] by (simp add: readA_def readAWork_def)
qed

lemma upd_map_prefix:
  assumes "k < n"
  shows "(map (\<lambda>j. if j < k then f j else g j) [0..<n])[k := f k] = map (\<lambda>j. if j < Suc k then f j else g j) [0..<n]"
  by (rule nth_equalityI) (use assms in \<open>auto simp: nth_list_update\<close>)

text \<open>What entry \<open>e\<close> comes out as: stream \<open>e mod S\<close> looks it up through its own pointer.\<close>

definition out_measure :: "nat \<Rightarrow> table_mem list \<Rightarrow> burst list \<Rightarrow> nat \<Rightarrow> u32" where
  "out_measure S ddrs bursts e = measure_at (ddrs ! (e mod S)) (in_word bursts e)"

definition out_group :: "nat \<Rightarrow> table_mem list \<Rightarrow> burst list \<Rightarrow> nat \<Rightarrow> u32" where
  "out_group S ddrs bursts e = group_at (ddrs ! (e mod S)) (in_word bursts e)"

lemma read_all_law:
  assumes "selects opmode S" "length ddrs = 16" "list_all wf_table ddrs"
  shows "gatherReadAll opmode ddrs (dealt S (in_word bursts) [0..<totalInWork], replicate MAX_STREAM [], replicate MAX_STREAM [])
    = Inr (replicate 16 [], dealt S (out_measure S ddrs bursts) [0..<totalInWork],
        dealt S (out_group S ddrs bursts) [0..<totalInWork])"
proof -
  let ?N = "[0..<totalInWork]"
  let ?D = "dealt S (in_word bursts) ?N"
  let ?f = "\<lambda>x. (map (\<lambda>j. if j < x then [] else ?D ! j) [0..<16],
      map (\<lambda>j. if j < x then map (measure_at (ddrs ! j)) (?D ! j) else []) [0..<16],
      map (\<lambda>j. if j < x then map (group_at (ddrs ! j)) (?D ! j) else []) [0..<16])"
  have "rloop 16 (readA_call opmode ddrs) 0 (?f 0) = Inr (?f (0 + 16))"
  proof (rule rloop_det)
    fix x :: nat assume "x < 0 + 16"
    then have x: "x < 16" by simp
    then have "wf_table (ddrs ! x)" using assms(2,3) by (simp add: list_all_length)
    note r = readA_law [OF assms(1) this x refl, of "in_word bursts"]
    note u = upd_map_prefix [OF x, of "\<lambda>_. []" "\<lambda>j. ?D ! j"]
      upd_map_prefix [OF x, of "\<lambda>j. map (measure_at (ddrs ! j)) (?D ! j)" "\<lambda>_. []"]
      upd_map_prefix [OF x, of "\<lambda>j. map (group_at (ddrs ! j)) (?D ! j)" "\<lambda>_. []"]
    show "readA_call opmode ddrs x (?f x) = Inr (?f (Suc x))"
      using assms(2) r x u by (simp add: readA_call_def del: upt_Suc)
  qed
  moreover have "?f 0 = (?D, replicate 16 [], replicate 16 [])"
    by (simp add: list_eq_iff_nth_eq)
  moreover have "map (\<lambda>j. if j < 0 + 16 then [] else ?D ! j) [0..<16] = replicate 16 []"
    by (rule nth_equalityI) simp_all
  moreover have "snd (?f (0 + 16)) = (dealt S (out_measure S ddrs bursts) ?N,
      dealt S (out_group S ddrs bursts) ?N)"
    by (auto simp: dealt_nth dealt_def [of S "out_measure S ddrs bursts"] dealt_def [of S "out_group S ddrs bursts"]
        lane_def out_measure_def out_group_def simp del: upt_Suc)
  ultimately show ?thesis
    by (simp add: gatherReadAll_def MAX_STREAM_def g_NUM_PU_def del: upt_Suc)
qed

section \<open>Writing the results\<close>

text \<open>The two words entry \<open>e\<close> comes out as, and the burst of entries \<open>4 * b\<close> to \<open>4 * b + 3\<close>.\<close>

definition pair :: "(nat \<Rightarrow> u32) \<Rightarrow> (nat \<Rightarrow> u32) \<Rightarrow> nat \<Rightarrow> u32 list" where
  "pair f g e = [f e, g e]"

definition out_burst :: "(nat \<Rightarrow> u32) \<Rightarrow> (nat \<Rightarrow> u32) \<Rightarrow> nat \<Rightarrow> burst" where
  "out_burst f g b = concat (map (pair f g) [4 * b..<4 * b + 4])"

text \<open>The burst under construction after \<open>j\<close> of its entries.\<close>

definition partial :: "(nat \<Rightarrow> u32) \<Rightarrow> (nat \<Rightarrow> u32) \<Rightarrow> nat \<Rightarrow> nat \<Rightarrow> burst \<Rightarrow> burst" where
  "partial f g m j d = concat (map (pair f g) [m..<m + j]) @ drop (2 * j) d"

lemma pairs_length: "length (concat (map (pair f g) es)) = 2 * length es"
  by (induction es) (simp_all add: pair_def)

lemma partial_length: "2 * j \<le> length d \<Longrightarrow> length (partial f g m j d) = length d"
  by (simp add: partial_def pairs_length)

lemma partial_step:
  assumes "2 * j + 2 \<le> length d"
  shows "(partial f g m j d)[2 * j := f (m + j), 2 * j + 1 := g (m + j)] = partial f g m (Suc j) d"
proof -
  have "drop (2 * j) d = d ! (2 * j) # d ! (2 * j + 1) # drop (2 * Suc j) d"
    using assms by (simp add: drop_eq_Cons_nth)
  then show ?thesis
    by (simp add: partial_def list_update_append pairs_length pair_def)
qed

lemma out_pair_law:
  assumes "0 < S" "S \<le> 16" "m + j < n" "2 * j + 2 \<le> length d" "k = (m + j) mod S"
  shows "out_pair k (2 * j) (dealt S f [m + j..<n], dealt S g [m + j..<n], partial f g m j d)
    = Inr (dealt S f [m + Suc j..<n], dealt S g [m + Suc j..<n], partial f g m (Suc j) d)"
  using assms sread_dealt [OF assms(1-3), of f] sread_dealt [OF assms(1-3), of g]
    partial_step [OF assms(4), of f g m] partial_length [of j d f g m]
  by (simp add: out_pair_def del: upt_Suc)

lemma out_lt_law:
  assumes "S * q = 4" "S dvd m" "m + 4 \<le> n" "length d = 8"
  shows "rloop q (\<lambda>c. rloop S (\<lambda>idx. out_pair idx (2 * (S * c + idx))) 0) 0
      (dealt S f [m..<n], dealt S g [m..<n], d)
    = Inr (dealt S f [m + 4..<n], dealt S g [m + 4..<n], partial f g m 4 d)"
proof -
  have S: "0 < S" "S \<le> 16" using assms(1) by (cases S; auto) (metis dvd_triv_left dvd_imp_le zero_less_numeral le_trans numeral_le_iff semiring_norm(69,71,68) assms(1))
  let ?s = "\<lambda>j. (dealt S f [m + j..<n], dealt S g [m + j..<n], partial f g m j d)"
  have inner: "rloop S (\<lambda>idx. out_pair idx (2 * (S * c + idx))) 0 (?s (S * c + 0)) = Inr (?s (S * c + (0 + S)))"
    if "c < q" for c
  proof (rule rloop_det)
    fix idx assume "idx < 0 + S"
    moreover have "S * c + S \<le> 4" using \<open>c < q\<close> assms(1) by (metis Suc_leI mult_Suc_right add.commute mult_le_mono2)
    moreover have "m + (S * c + idx) = idx + (m div S + c) * S" using assms(2) by (simp add: algebra_simps)
    ultimately have "S * c + idx < 4" "(m + (S * c + idx)) mod S = idx"
      by (simp_all only: mod_mult_self1) simp_all
    then show "out_pair idx (2 * (S * c + idx)) (?s (S * c + idx)) = Inr (?s (S * c + Suc idx))"
      using out_pair_law [OF S, of m "S * c + idx" n d idx f g] assms(3,4) by simp
  qed
  have "rloop q (\<lambda>c. rloop S (\<lambda>idx. out_pair idx (2 * (S * c + idx))) 0) 0 (?s (S * 0)) = Inr (?s (S * (0 + q)))"
    by (rule rloop_det) (use inner in \<open>simp add: algebra_simps\<close>)
  then show ?thesis using assms(1) by (simp add: partial_def)
qed

lemma div_eqs: "8 div 4 = (2 :: nat)" "16 div 4 = (4 :: nat)"
  by simp_all

lemma out_gt_law:
  assumes "S = 8 \<or> S = 16" "4 * b + 4 \<le> n" "length d = 8"
  shows "rloop 4 (\<lambda>entry. out_pair (b mod (S div 4) * 4 + entry) (2 * entry)) 0
      (dealt S f [4 * b..<n], dealt S g [4 * b..<n], d)
    = Inr (dealt S f [4 * b + 4..<n], dealt S g [4 * b + 4..<n], partial f g (4 * b) 4 d)"
proof -
  let ?s = "\<lambda>j. (dealt S f [4 * b + j..<n], dealt S g [4 * b + j..<n], partial f g (4 * b) j d)"
  have "rloop 4 (\<lambda>entry. out_pair (b mod (S div 4) * 4 + entry) (2 * entry)) 0 (?s 0) = Inr (?s (0 + 4))"
  proof (rule rloop_det)
    fix entry :: nat assume e: "entry < 0 + 4"
    have k: "b mod (S div 4) * 4 + entry = (4 * b + entry) mod S"
    proof -
      have split: "4 * b + entry = (b mod (S div 4) * 4 + entry) + S * (b div (S div 4))"
        using mod_mult_div_eq [of b 2] mod_mult_div_eq [of b 4] assms(1)
        by (elim disjE; simp only: div_eqs; linarith)
      have "b mod (S div 4) < S div 4" using assms(1) by auto
      then have "b mod (S div 4) * 4 + entry < S" using e assms(1) by linarith
      then show ?thesis unfolding split mod_mult_self2 by simp
    qed
    have "0 < S" "S \<le> 16" "4 * b + entry < n" "2 * entry + 2 \<le> length d" using assms e by auto
    from out_pair_law [OF this k]
    show "out_pair (b mod (S div 4) * 4 + entry) (2 * entry) (?s entry) = Inr (?s (Suc entry))" by simp
  qed
  then show ?thesis by (simp add: partial_def)
qed

lemma partial_4: "length d = 8 \<Longrightarrow> partial f g (4 * b) 4 d = out_burst f g b"
  by (simp add: partial_def out_burst_def)

lemma write_out_law:
  assumes "stream_count S" "length dout0 = 8"
  shows "gatherWriteOut_Template S dout0 (dealt S f [0..<totalInWork]) (dealt S g [0..<totalInWork]) pre
    = Inr (pre @ map (out_burst f g) [0..<totalOutBurst])"
proof -
  let ?n = totalInWork
  let ?P = "\<lambda>b st. \<exists>d. length d = 8 \<and> st = ((dealt S f [4 * b..<?n], dealt S g [4 * b..<?n], d),
    pre @ map (out_burst f g) [0..<b])"
  have "\<exists>st. rloop totalOutBurst (out_burst_body S) 0 ((dealt S f [0..<?n], dealt S g [0..<?n], dout0), pre) = Inr st
      \<and> ?P (0 + totalOutBurst) st"
  proof (rule rloop_inv)
    fix b and st :: "(u32 list list \<times> u32 list list \<times> burst) \<times> burst list"
    assume b: "b < 0 + totalOutBurst" and "?P b st"
    then obtain d where d: "length d = 8"
      and st: "st = ((dealt S f [4 * b..<?n], dealt S g [4 * b..<?n], d), pre @ map (out_burst f g) [0..<b])" by blast
    have n: "4 * b + 4 \<le> ?n" using b by (simp add: sizes)
    have "(if S \<le> OUT_ENTRIES_PER_BURST
        then rloop (OUT_ENTRIES_PER_BURST div S) (\<lambda>cycle_count. rloop S (\<lambda>idx.
               out_pair idx (OUT_IN_RATIO * (S * cycle_count + idx))) 0) 0 (fst st)
        else rloop OUT_ENTRIES_PER_BURST (\<lambda>entry.
               out_pair (b mod (S div OUT_ENTRIES_PER_BURST) * OUT_ENTRIES_PER_BURST + entry) (2 * entry)) 0 (fst st))
      = Inr (dealt S f [4 * b + 4..<?n], dealt S g [4 * b + 4..<?n], out_burst f g b)"
    proof (cases "S = 8 \<or> S = 16")
      case True
      with out_gt_law [OF True n d, of f g] partial_4 [OF d, of f g b] show ?thesis
        by (auto simp: st OUT_ENTRIES_PER_BURST_def BURST_WIDTH_def BYTES_PER_OUT_ENTRY_def)
    next
      case False
      then have S: "S * (4 div S) = 4" "S dvd 4 * b" "S \<le> 4" using assms(1) by (auto simp: stream_count_def)
      from out_lt_law [OF S(1,2) n d, of f g] S(3) partial_4 [OF d, of f g b] show ?thesis
        by (simp add: st OUT_ENTRIES_PER_BURST_def BURST_WIDTH_def BYTES_PER_OUT_ENTRY_def OUT_IN_RATIO_def
            BYTES_PER_IN_ENTRY_def)
    qed
    moreover have "length (out_burst f g b) = 8" by (simp add: out_burst_def pairs_length)
    ultimately show "\<exists>st'. out_burst_body S b st = Inr st' \<and> ?P (Suc b) st'"
      by (auto simp: out_burst_body_def st add.commute)
  qed (use assms(2) in auto)
  then show ?thesis by (auto simp: gatherWriteOut_Template_def)
qed

lemma write_result_law:
  assumes "length xs = totalOutBurst" "length buf = totalOutBurst"
  shows "gatherWriteOutResultOnly xs buf = Inr xs"
proof -
  let ?f = "\<lambda>b. (drop b xs, take b xs @ drop b buf)"
  have "rloop totalOutBurst (\<lambda>burst_count (strm, buf).
         rbind (sread strm) (\<lambda>(b, strm'). rbind (wr buf burst_count b) (\<lambda>buf'. Inr (strm', buf')))) 0 (?f 0)
      = Inr (?f (0 + totalOutBurst))"
    by (rule rloop_det)
      (use assms in \<open>simp add: drop_eq_Cons_nth list_update_append take_Suc_conv_app_nth\<close>)
  then show ?thesis using assms by (simp add: gatherWriteOutResultOnly_def)
qed

text \<open>The kernel on any of its five numbers of streams.\<close>

definition gather_out :: "nat \<Rightarrow> table_mem list \<Rightarrow> burst list \<Rightarrow> burst list" where
  "gather_out S ddrs bursts = map (out_burst (out_measure S ddrs bursts) (out_group S ddrs bursts)) [0..<totalOutBurst]"

lemma gather_law:
  assumes "selects opmode S" "length ddrs = 16" "list_all wf_table ddrs" "length dout0 = 8"
    and "length inbuf0 = totalInBurst" "length inbuf1 = totalInBurst"
    and "list_all (\<lambda>b. length b = 8) inbuf0" "list_all (\<lambda>b. length b = 8) inbuf1"
    and "length outbuf0 = totalOutBurst" "length outbuf1 = totalOutBurst"
  shows "gather dout0 opmode inbuf0 inbuf1 outbuf0 outbuf1 ddrs =
    (let res = gather_out S ddrs (if opmode AND PING_PONG_IN_MASK = 0 then inbuf0 else inbuf1)
     in Inr (if opmode AND PING_PONG_OUT_MASK = 0 then (res, outbuf1) else (outbuf0, res)))"
proof -
  let ?in = "if opmode AND PING_PONG_IN_MASK = 0 then inbuf0 else inbuf1"
  have i: "length ?in = totalInBurst" "list_all (\<lambda>b. length b = 8) ?in" using assms by auto
  have S: "stream_count S" using assms(1) by (simp add: selects_def)
  have 1: "gatherReadInBurst opmode inbuf0 inbuf1 [] = Inr ?in"
    using assms by (simp add: gatherReadInBurst_def read_in_law)
  have 2: "gatherReadWorkDistribution opmode ?in (replicate MAX_STREAM [])
      = Inr ([], dealt S (in_word ?in) [0..<totalInWork])"
    using distribution_law [OF S i] selects_stream_sel(1) [OF assms(1)]
    by (simp add: gatherReadWorkDistribution_def)
  note 3 = read_all_law [OF assms(1-3), of ?in]
  have 4: "gatherWriteBurstResult opmode dout0 (dealt S (out_measure S ddrs ?in) [0..<totalInWork])
      (dealt S (out_group S ddrs ?in) [0..<totalInWork]) [] = Inr (gather_out S ddrs ?in)"
    using write_out_law [OF S assms(4)] selects_stream_sel(1) [OF assms(1)]
    by (simp add: gatherWriteBurstResult_def gather_out_def)
  have 5: "length (gather_out S ddrs ?in) = totalOutBurst" by (simp add: gather_out_def)
  show ?thesis
    unfolding gather_def Let_def 1 rbind_simps 2 prod.case 3 4
    using write_result_law [OF 5] assms(9,10) by (simp add: gatherWriteOutResult_def)
qed

text \<open>Words of the result.\<close>

lemma gather_out_nth:
  assumes "e < totalInWork"
  shows "gather_out S ddrs bursts ! (e div 4) ! (2 * (e mod 4)) = out_measure S ddrs bursts e"
    and "gather_out S ddrs bursts ! (e div 4) ! (2 * (e mod 4) + 1) = out_group S ddrs bursts e"
proof -
  have b: "e div 4 < totalOutBurst" using assms by (simp add: sizes)
  obtain b r where e: "e = 4 * b + r" "r < 4" "e div 4 = b" "e mod 4 = r"
    by (metis mult_div_mod_eq mod_less_divisor zero_less_numeral)
  have "[4 * b..<4 * b + 4] = [4 * b, 4 * b + 1, 4 * b + 2, 4 * b + 3]" by (simp add: upt_conv_Cons)
  then have "gather_out S ddrs bursts ! b = concat (map (pair (out_measure S ddrs bursts) (out_group S ddrs bursts))
      [4 * b, 4 * b + 1, 4 * b + 2, 4 * b + 3])"
    using b e by (simp add: gather_out_def out_burst_def del: upt_Suc)
  moreover have "r = 0 \<or> r = 1 \<or> r = 2 \<or> r = 3" using e(2) by auto
  ultimately show "gather_out S ddrs bursts ! (e div 4) ! (2 * (e mod 4)) = out_measure S ddrs bursts e"
    "gather_out S ddrs bursts ! (e div 4) ! (2 * (e mod 4) + 1) = out_group S ddrs bursts e"
    unfolding e(3,4) by (elim disjE; simp add: e(1) pair_def)+
qed

text \<open>
  C10. For every op word that selects a number of streams, every table and every block of
  indices, the kernel writes for each index the measure and the group of the table row it names,
  in order, into the output buffer of the ping-pong bit, and leaves the other buffer alone.
\<close>

theorem omx_gathers:
  assumes "selects opmode S" "length ddrs = 16" "list_all wf_table ddrs" "length dout0 = 8"
    and "length inbuf0 = totalInBurst" "length inbuf1 = totalInBurst"
    and "list_all (\<lambda>b. length b = 8) inbuf0" "list_all (\<lambda>b. length b = 8) inbuf1"
    and "length outbuf0 = totalOutBurst" "length outbuf1 = totalOutBurst"
    and "inbuf = (if opmode AND PING_PONG_IN_MASK = 0 then inbuf0 else inbuf1)"
  shows "\<exists>res. omx dout0 opmode inbuf0 inbuf1 outbuf0 outbuf1 ddrs
      = Inr (if opmode AND PING_PONG_OUT_MASK = 0 then (res, outbuf1) else (outbuf0, res))
    \<and> length res = totalOutBurst
    \<and> (\<forall>e < totalInWork. res ! (e div 4) ! (2 * (e mod 4)) = measure_at (ddrs ! (e mod S)) (in_word inbuf e)
        \<and> res ! (e div 4) ! (2 * (e mod 4) + 1) = group_at (ddrs ! (e mod S)) (in_word inbuf e))"
  using gather_law [OF assms(1-10)] gather_out_nth [of _ S ddrs inbuf] assms(11)
  by (intro exI [of _ "gather_out S ddrs inbuf"])
    (auto simp: omx_def Let_def out_measure_def out_group_def gather_out_def)

theorem omx_gathers_witness:
  "\<exists>res. omx (replicate 8 0) 66 (replicate totalInBurst (replicate 8 0)) (replicate totalInBurst (replicate 8 5))
       (replicate totalOutBurst []) (replicate totalOutBurst []) (replicate 16 (\<lambda>b. replicate 8 (of_nat b)))
      = Inr (replicate totalOutBurst [], res) \<and> length res = totalOutBurst"
  using omx_gathers [of 66 16 "replicate 16 (\<lambda>b. replicate 8 (of_nat b))" "replicate 8 0"
      "replicate totalInBurst (replicate 8 0)" "replicate totalInBurst (replicate 8 5)"
      "replicate totalOutBurst []" "replicate totalOutBurst []", OF _ _ _ _ _ _ _ _ _ _ refl]
  by (simp add: selects_def stream_count_def wf_table_def list_all_iff sizes) blast

end
