(* ===== verification/Gather_Host.thy ===== *)
theory Gather_Host
  imports Gather Text_IO
begin

unbundle bit_operations_syntax

text \<open>
  The host program of the gather accelerator, \<^verbatim>\<open>omxgather/src/main.cpp\<close>, as far as it works on
  its own data: the random table and indices, the reference gather, the index mapping for a
  table spread over memory banks, the command line, the bank flags and the final check.
  The OpenCL side is in the theories after this one.
\<close>

section \<open>Data\<close>

definition inBlockSize :: nat where "inBlockSize = 1024 * 1024"
definition outBlockSize :: nat where "outBlockSize = 2 * 1024 * 1024"
definition mNoDdrA :: nat where "mNoDdrA = 16"
definition mDdrSize :: nat where "mDdrSize = 2 ^ 29"
definition rows :: nat where "rows = 2 ^ 26"
definition arrayu :: nat where "arrayu = 2 ^ 26"
definition totalBlocks :: nat where "totalBlocks = 4 * rows div inBlockSize"

record row =
  r_measure :: u32
  r_group :: u32

definition sizeof_Row :: nat where "sizeof_Row = 8"
definition DBSize :: nat where "DBSize = arrayu * sizeof_Row"

lemmas [sizes] = inBlockSize_def outBlockSize_def mNoDdrA_def mDdrSize_def totalBlocks_def
  sizeof_Row_def DBSize_def

text \<open>\<open>rnd k\<close> is the result of the \<open>k\<close>-th call of \<open>rand_r (&seed)\<close>, a non-negative int.\<close>

definition initData :: "(nat \<Rightarrow> u32) \<Rightarrow> row list \<times> u32 list" where
  "initData rnd =
     (map (\<lambda>i. \<lparr>r_measure = of_nat (unat (rnd (2 * i)) mod arrayu), r_group = rnd (2 * i + 1)\<rparr>) [0..<arrayu],
      map (\<lambda>i. of_nat (unat (rnd (2 * arrayu + i)) mod arrayu)) [0..<rows])"

text \<open>The gather loop of \<open>cIndirect\<close> on the arrays.\<close>

definition cIndirect :: "row list \<Rightarrow> u32 list \<Rightarrow> row list \<Rightarrow> row list res" where
  "cIndirect A inn out =
     rloop rows (\<lambda>i out. rbind (rd inn i) (\<lambda>k. rbind (rd A (unat k)) (\<lambda>r. wr out i r))) 0 out"

section \<open>The index mapping\<close>

text \<open>
  The second component counts the messages about lookups beyond the last row. The
  arithmetic is that of unsigned int.
\<close>

definition map_index :: "nat \<Rightarrow> nat \<Rightarrow> u32 \<Rightarrow> u32 \<times> nat" where
  "map_index hbmNum hbmIndx k =
     (let perInterDbIndx = rows div hbmNum;
          flag = unat k div perInterDbIndx
      in (k + of_nat flag * (of_nat hbmIndx - of_nat perInterDbIndx), if hbmNum \<le> flag then 1 else 0))"

definition hbm_index :: "bool \<Rightarrow> nat" where
  "hbm_index p_ch = (if p_ch then 0x20000000 div 2 else 0x20000000) div 8"

definition in_mapp :: "bool \<Rightarrow> nat \<Rightarrow> bool \<Rightarrow> u32 list \<Rightarrow> u32 list \<Rightarrow> (u32 list \<times> nat) res" where
  "in_mapp sw_emu hbmNum p_ch inn in_mapped =
     rloop rows (\<lambda>i (m, errs). rbind (rd inn i) (\<lambda>k.
       if sw_emu then rbind (wr m i k) (\<lambda>m'. Inr (m', errs))
       else (let (v, e) = map_index hbmNum (hbm_index p_ch) k in
             rbind (wr m i v) (\<lambda>m'. Inr (m', errs + e))))) 0 (in_mapped, 0)"

section \<open>The command line\<close>

text \<open>\<open>tokens\<close> are the arguments after the program name.\<close>

definition getCmdOption :: "string list \<Rightarrow> string \<Rightarrow> string option" where
  "getCmdOption tokens opt =
     (case dropWhile (\<lambda>t. t \<noteq> opt) tokens of _ # v # _ \<Rightarrow> Some v | _ \<Rightarrow> None)"

definition is_digits :: "string \<Rightarrow> bool" where
  "is_digits str = list_all is_digit str"

definition MAX_HBM_BANKCOUNT :: int where "MAX_HBM_BANKCOUNT = 32"
definition IN_HBM_BANKCOUNT_IDX :: int where "IN_HBM_BANKCOUNT_IDX = 8"
definition MAX_DDR_SIZE :: int where "MAX_DDR_SIZE = 256 * 1024 * 1024"
definition ARG_SZ :: nat where "ARG_SZ = 1001"

text \<open>The range, power-of-two and capacity tests on the number of banks.\<close>

definition hbm_count_ok :: "int \<Rightarrow> bool" where
  "hbm_count_ok n \<longleftrightarrow> 0 < n \<and> n \<le> MAX_HBM_BANKCOUNT \<and> n AND (n - 1) = 0
     \<and> int DBSize \<le> n * (if IN_HBM_BANKCOUNT_IDX < n then drop_bit 1 MAX_DDR_SIZE else MAX_DDR_SIZE)"

definition parse_hbm :: "string list \<Rightarrow> nat option res" where
  "parse_hbm tokens =
     rbind (case getCmdOption tokens ''-hbm'' of None \<Rightarrow> Inr ''16'' | Some v \<Rightarrow> c_strcpy ARG_SZ v) (\<lambda>str.
     rbind (stoi str) (\<lambda>n.
       Inr (if is_digits str \<and> hbm_count_ok n then Some (nat n) else None)))"

text \<open>\<open>streamBit (1)\<close> to \<open>streamBit (16)\<close> on the text of the option.\<close>

definition stream_bits :: "string \<Rightarrow> u32 \<times> nat" where
  "stream_bits s = fold (\<lambda>(txt, bit, n) (op, v). if s = txt then (op OR bit, n) else (op, v))
     [(''1'', STREAM_MASK_1, 1), (''2'', STREAM_MASK_2, 2), (''4'', STREAM_MASK_4, 4),
      (''8'', STREAM_MASK_8, 8), (''16'', STREAM_MASK_16, 16)] (0, 16)"

definition parse_pu :: "string list \<Rightarrow> (u32 \<times> nat) option res" where
  "parse_pu tokens =
     rbind (case getCmdOption tokens ''-pu'' of None \<Rightarrow> Inr ''16'' | Some v \<Rightarrow> c_strcpy ARG_SZ v) (\<lambda>s.
     let (op, v) = stream_bits s in Inr (if op AND STREAM_MASK = 0 then None else Some (op, v)))"

text \<open>\<open>run[stoi (optValue) % 3] = true\<close> on an array of five; only \<open>run[Gather]\<close> is ever read.\<close>

definition parse_run :: "string list \<Rightarrow> bool res" where
  "parse_run tokens =
     (case getCmdOption tokens ''-run'' of None \<Rightarrow> Inr True
      | Some v \<Rightarrow> rbind (stoi v) (\<lambda>n. if n smod 3 < 0 then Inl OutOfBounds else Inr (n smod 3 = 0)))"

definition parse_name :: "string list \<Rightarrow> string \<Rightarrow> string \<Rightarrow> string res" where
  "parse_name tokens opt dflt =
     (case getCmdOption tokens opt of None \<Rightarrow> Inr dflt | Some v \<Rightarrow> c_strcpy ARG_SZ v)"

record config =
  sw_emu :: bool
  p_ch :: bool
  hbmNum :: nat
  op :: u32
  streamValue :: nat
  callback :: int
  deviceName :: string
  kernelName :: string
  xclbinName :: string
  run_gather :: bool

text \<open>
  The first part of \<open>main\<close>, after the reference gather: \<open>Inl n\<close> is \<open>return n\<close>.
\<close>

definition main_args :: "string list \<Rightarrow> (int + config) res" where
  "main_args tokens =
    (let mode = getCmdOption tokens ''-mode'' in
     if mode = Some ''cpu'' then Inr (Inl 0) else
     let pc = (case getCmdOption tokens ''-pc'' of None \<Rightarrow> True | Some v \<Rightarrow> atoi v \<noteq> 0) in
     rbind (parse_hbm tokens) (\<lambda>hbm. case hbm of None \<Rightarrow> Inr (Inl (-1)) | Some n \<Rightarrow>
     rbind (parse_pu tokens) (\<lambda>pu. case pu of None \<Rightarrow> Inr (Inl (-1)) | Some (o1, v) \<Rightarrow>
     let cb = (case getCmdOption tokens ''-cb'' of None \<Rightarrow> 0 | Some t \<Rightarrow> atoi t) in
     rbind (parse_name tokens ''-dsa'' ''xilinx:vcu1550:dynamic'') (\<lambda>dev.
     rbind (parse_name tokens ''-kernel'' ''omx'') (\<lambda>krn.
     rbind (parse_name tokens ''-xclbin'' ''omx_VCU1525_hw.xclbin'') (\<lambda>xcl.
     rbind (parse_run tokens) (\<lambda>rg.
       Inr (Inr \<lparr>sw_emu = (mode = Some ''sw_emu''), p_ch = pc, hbmNum = n, op = o1, streamValue = v,
         callback = cb, deviceName = dev, kernelName = krn, xclbinName = xcl, run_gather = rg\<rparr>))))))))"

section \<open>Bank flags and the copy of the table\<close>

text \<open>
  \<open>banks\<close> has 32 entries of which 20 are given; \<open>topo\<close> is \<open>XCL_MEM_TOPOLOGY\<close> of the vendor's
  header. \<open>mBankMem\<close> has 16 entries, indeterminate at first.
\<close>

definition banks :: "u32 \<Rightarrow> u32 list" where
  "banks topo = map (\<lambda>n. of_nat n OR topo) [0..<20] @ replicate 12 0"

definition bank_flags :: "u32 \<Rightarrow> nat \<Rightarrow> bool \<Rightarrow> u32 list \<Rightarrow> u32 list res" where
  "bank_flags topo n pc mBankMem =
     rloop n (\<lambda>i fl. rbind (rd (banks topo) (if pc then i else 2 * i)) (\<lambda>b. wr fl i b)) 0 mBankMem"

text \<open>The \<open>memcpy\<close> of \<open>rows / num_buffer\<close> rows from row \<open>i * rows / num_buffer\<close> into each buffer.\<close>

definition ddr_copies :: "row list \<Rightarrow> nat \<Rightarrow> row list list res" where
  "ddr_copies A num_buffer =
     rloop num_buffer (\<lambda>i bufs. rbind (subarr A (i * rows div num_buffer) (rows div num_buffer))
       (\<lambda>rs. Inr (bufs @ [rs]))) 0 []"

section \<open>The check\<close>

datatype msg =
    Mismatch nat row row | Row_in_A nat u32 nat u32 | Test_failed string | Test_passed string

fun find_row :: "row list \<Rightarrow> u32 list \<Rightarrow> row \<Rightarrow> nat \<Rightarrow> nat \<Rightarrow> nat option res" where
  "find_row A inn r2 0 j = Inr None"
| "find_row A inn r2 (Suc n) j = rbind (rd inn j) (\<lambda>k. rbind (rd A (unat k)) (\<lambda>tr.
     if tr = r2 then Inr (Some j) else find_row A inn r2 n (Suc j)))"

definition isAEqual :: "row list \<Rightarrow> u32 list \<Rightarrow> nat \<Rightarrow> row \<Rightarrow> row \<Rightarrow> (nat \<times> msg list) res" where
  "isAEqual A inn i r1 r2 =
     (if r1 \<noteq> r2 then
        rbind (find_row A inn r2 rows 0) (\<lambda>f. case f of
           None \<Rightarrow> Inr (1, [Mismatch i r1 r2])
         | Some j \<Rightarrow> rbind (rd inn j) (\<lambda>kj. rbind (rd inn i) (\<lambda>ki.
             Inr (1, [Mismatch i r1 r2, Row_in_A j kj i ki]))))
      else Inr (0, []))"

fun check_loop :: "row list \<Rightarrow> u32 list \<Rightarrow> row list \<Rightarrow> row list \<Rightarrow> bool \<Rightarrow> nat \<Rightarrow> nat \<Rightarrow> nat \<Rightarrow> msg list
    \<Rightarrow> (nat \<times> msg list) res" where
  "check_loop A inn r1 r2 g 0 i errCnt out = Inr (errCnt, out)"
| "check_loop A inn r1 r2 g (Suc n) i errCnt out =
     rbind (if g then rbind (rd inn i) (\<lambda>k. rd A (unat k)) else rd r1 i) (\<lambda>x.
     rbind (rd r2 i) (\<lambda>y.
     rbind (isAEqual A inn i x y) (\<lambda>(e, ms).
       if errCnt + e \<ge> 10 then Inr (errCnt + e, out @ ms)
       else check_loop A inn r1 r2 g n (Suc i) (errCnt + e) (out @ ms))))"

definition testMsg :: "string \<Rightarrow> nat \<Rightarrow> msg list \<times> nat" where
  "testMsg test errCnt = (if errCnt \<noteq> 0 then ([Test_failed test], 0) else ([Test_passed test], errCnt))"

definition checkOp :: "row list \<Rightarrow> u32 list \<Rightarrow> string \<Rightarrow> row list \<Rightarrow> row list \<Rightarrow> bool \<Rightarrow> msg list res" where
  "checkOp A inn test r1 r2 g =
     rbind (check_loop A inn r1 r2 g rows 0 0 []) (\<lambda>(errCnt, out). Inr (out @ fst (testMsg test errCnt)))"

section \<open>The mapped index finds the row\<close>

text \<open>
  Bank \<open>n\<close> of the high-bandwidth memory starts \<open>n * 256\<close> MB after bank 0 and a buffer lies at
  the start of its bank; this is documented behaviour of the board. The kernel addresses all of
  it through the pointer to the first buffer. A bank holds \<open>2 ^ 25\<close> rows.
\<close>

definition BANK_ROWS :: nat where "BANK_ROWS = 2 ^ 25"

definition device_row :: "(nat \<times> row list) list \<Rightarrow> (nat \<Rightarrow> row) \<Rightarrow> nat \<Rightarrow> row" where
  "device_row bufs junk x =
     (case find (\<lambda>(bank, rs). bank * BANK_ROWS \<le> x \<and> x < bank * BANK_ROWS + length rs) bufs of
        None \<Rightarrow> junk x | Some (bank, rs) \<Rightarrow> rs ! (x - bank * BANK_ROWS))"

definition table_of :: "(nat \<Rightarrow> row) \<Rightarrow> table_mem" where
  "table_of mem b = concat (map (\<lambda>x. [r_measure (mem x), r_group (mem x)]) [4 * b..<4 * b + 4])"

lemma table_of_at:
  "measure_at (table_of mem) a = r_measure (mem (unat a))"
  "group_at (table_of mem) a = r_group (mem (unat a))"
proof -
  obtain b r where e: "unat a = 4 * b + r" "r < 4" "unat a div 4 = b" "unat a mod 4 = r"
    by (metis mult_div_mod_eq mod_less_divisor zero_less_numeral)
  have "[4 * b..<4 * b + 4] = [4 * b, 4 * b + 1, 4 * b + 2, 4 * b + 3]" by (simp add: upt_conv_Cons)
  then have t: "table_of mem b = concat (map (\<lambda>x. [r_measure (mem x), r_group (mem x)])
      [4 * b, 4 * b + 1, 4 * b + 2, 4 * b + 3])"
    unfolding table_of_def by (rule arg_cong)
  have "r = 0 \<or> r = 1 \<or> r = 2 \<or> r = 3" using e(2) by auto
  then show "measure_at (table_of mem) a = r_measure (mem (unat a))"
    "group_at (table_of mem) a = r_group (mem (unat a))"
    unfolding measure_at_def group_at_def e(3,4) t by (elim disjE; simp add: e(1))+
qed

lemma wf_table_of: "wf_table (table_of mem)"
proof -
  have "[4 * b..<4 * b + 4] = [4 * b, 4 * b + 1, 4 * b + 2, 4 * b + 3]" for b by (simp add: upt_conv_Cons)
  then show ?thesis by (simp add: wf_table_def table_of_def del: upt_Suc)
qed

text \<open>The numbers of banks the mapping is right for, with the bank of buffer \<open>i\<close>.\<close>

definition bank_of :: "bool \<Rightarrow> nat \<Rightarrow> nat" where
  "bank_of pc i = (if pc then i else 2 * i)"

definition hbm_ok :: "nat \<Rightarrow> bool" where
  "hbm_ok n \<longleftrightarrow> n \<in> {2, 4, 8, 16}"

definition slices :: "row list \<Rightarrow> nat \<Rightarrow> row list list" where
  "slices A n = map (\<lambda>i. take (rows div n) (drop (i * (rows div n)) A)) [0..<n]"

definition placed :: "row list \<Rightarrow> nat \<Rightarrow> bool \<Rightarrow> (nat \<times> row list) list" where
  "placed A n pc = map (\<lambda>i. (bank_of pc i, slices A n ! i)) [0..<n]"

definition mapped_index :: "nat \<Rightarrow> bool \<Rightarrow> nat \<Rightarrow> nat" where
  "mapped_index n pc a = a div (rows div n) * hbm_index pc + a mod (rows div n)"

lemma per_facts:
  assumes "hbm_ok n"
  shows "0 < rows div n" "n * (rows div n) = rows" "rows div n \<le> BANK_ROWS" "0 < n" "n \<le> 16"
  using assms by (auto simp: hbm_ok_def rows_def BANK_ROWS_def)

lemma hbm_index_bank: "hbm_index pc = bank_of pc 1 * BANK_ROWS" "i * hbm_index pc = bank_of pc i * BANK_ROWS"
  by (simp_all add: hbm_index_def bank_of_def BANK_ROWS_def)

lemma div_lt_banks:
  assumes "hbm_ok n" "a < rows"
  shows "a div (rows div n) < n"
  using per_facts [OF assms(1)] assms(2) by (simp add: less_mult_imp_div_less mult.commute)

lemma mapped_index_bound:
  assumes "hbm_ok n" "a < rows"
  shows "mapped_index n pc a < 2 ^ 30"
proof -
  have "a div (rows div n) \<le> 15" using div_lt_banks [OF assms] per_facts(5) [OF assms(1)] by linarith
  then have "a div (rows div n) * hbm_index pc \<le> 15 * hbm_index pc" by (rule mult_le_mono1)
  moreover have "hbm_index pc \<le> 67108864" by (simp add: hbm_index_def)
  moreover have "a mod (rows div n) < 33554432"
    using per_facts(1,3) [OF assms(1)] mod_less_divisor [of "rows div n" a] by (simp add: BANK_ROWS_def del: mod_less_divisor)
  ultimately have "mapped_index n pc a < 1073741824" unfolding mapped_index_def by linarith
  then show ?thesis by simp
qed

lemma map_index_law:
  assumes "hbm_ok n" "unat k < rows"
  shows "map_index n (hbm_index pc) k = (of_nat (mapped_index n pc (unat k)), 0)"
proof -
  let ?per = "rows div n" and ?f = "unat k div (rows div n)"
  have "of_nat (unat k) = (of_nat (?f * ?per + unat k mod ?per) :: u32)" by (simp only: div_mult_mod_eq)
  then have "k = of_nat ?f * of_nat ?per + of_nat (unat k mod ?per)" by simp
  moreover have "k = x * q + r \<Longrightarrow> k + x * (y - q) = x * y + r" for x y q r :: u32
    by (simp add: algebra_simps)
  ultimately have "k + of_nat ?f * (of_nat (hbm_index pc) - of_nat ?per)
      = of_nat ?f * of_nat (hbm_index pc) + of_nat (unat k mod ?per)" by blast
  then show ?thesis
    using div_lt_banks [OF assms] by (simp add: map_index_def mapped_index_def Let_def)
qed

lemma device_row_mapped:
  assumes "hbm_ok n" "a < rows" "length A = rows"
  shows "device_row (placed A n pc) junk (mapped_index n pc a) = A ! a"
proof -
  let ?per = "rows div n" and ?i = "a div (rows div n)"
  note f = per_facts [OF assms(1)]
  have i: "?i < n" by (rule div_lt_banks [OF assms(1,2)])
  have len: "length (slices A n ! j) = ?per" if "j < n" for j
  proof -
    have "Suc j * ?per \<le> rows" using that f(2) by (metis Suc_leI mult_le_mono1)
    then show ?thesis using that assms(3) by (simp add: slices_def)
  qed
  have x: "mapped_index n pc a = bank_of pc ?i * BANK_ROWS + a mod ?per"
    by (simp add: mapped_index_def hbm_index_bank(2))
  have m: "a mod ?per < ?per" using f(1) by simp
  have other: "\<not> (bank_of pc j * BANK_ROWS \<le> mapped_index n pc a
      \<and> mapped_index n pc a < bank_of pc j * BANK_ROWS + length (slices A n ! j))" if "j < ?i" for j
  proof -
    have "Suc (bank_of pc j) \<le> bank_of pc ?i" using that by (simp add: bank_of_def)
    then have "Suc (bank_of pc j) * BANK_ROWS \<le> bank_of pc ?i * BANK_ROWS" by (rule mult_le_mono1)
    then show ?thesis using x len [of j] that i f(3) by simp
  qed
  have "find (\<lambda>(bank, rs). bank * BANK_ROWS \<le> mapped_index n pc a
      \<and> mapped_index n pc a < bank * BANK_ROWS + length rs) (placed A n pc) = Some (bank_of pc ?i, slices A n ! ?i)"
    unfolding find_Some_iff using i m other len [OF i] x by (intro exI [of _ ?i]) (auto simp: placed_def)
  moreover have "slices A n ! ?i ! (a mod ?per) = A ! a"
  proof -
    have "?i * ?per \<le> length A" using div_times_less_eq_dividend [of a ?per] assms(2,3) by linarith
    then have "drop (?i * ?per) A ! (a mod ?per) = A ! (?i * ?per + a mod ?per)" by (rule nth_drop)
    then have "drop (?i * ?per) A ! (a mod ?per) = A ! a" by (simp only: div_mult_mod_eq)
    then show ?thesis using i m by (simp add: slices_def)
  qed
  ultimately show ?thesis by (simp add: device_row_def x)
qed

lemma in_mapp_emu:
  assumes "length inn = rows" "length m0 = rows"
  shows "in_mapp True n pc inn m0 = Inr (inn, 0)"
proof -
  let ?f = "\<lambda>i. (take i inn @ drop i m0, 0 :: nat)"
  have "in_mapp True n pc inn (take 0 inn @ drop 0 m0) = Inr (?f (0 + rows))"
    unfolding in_mapp_def
    by (rule rloop_det) (use assms in \<open>simp add: list_update_append drop_eq_Cons_nth take_Suc_conv_app_nth\<close>)
  then show ?thesis using assms by simp
qed

lemma in_mapp_law:
  assumes "length inn = rows" "length m0 = rows" "\<And>i. i < rows \<Longrightarrow> unat (inn ! i) < rows"
    and "hbm_ok n"
  shows "in_mapp False n pc inn m0 = Inr (map (\<lambda>k. of_nat (mapped_index n pc (unat k))) inn, 0)"
proof -
  let ?xs = "map (\<lambda>k. of_nat (mapped_index n pc (unat k))) inn :: u32 list"
  let ?f = "\<lambda>i. (take i ?xs @ drop i m0, 0 :: nat)"
  have "in_mapp False n pc inn (take 0 ?xs @ drop 0 m0) = Inr (?f (0 + rows))"
    unfolding in_mapp_def
    by (rule rloop_det)
      (use assms in \<open>simp add: map_index_law list_update_append drop_eq_Cons_nth take_Suc_conv_app_nth\<close>)
  then show ?thesis using assms(1,2) by simp
qed

lemma ddr_copies_law:
  assumes "hbm_ok n" "length A = rows"
  shows "ddr_copies A n = Inr (slices A n)"
proof -
  note f = per_facts [OF assms(1)]
  have "rloop n (\<lambda>i bufs. rbind (subarr A (i * rows div n) (rows div n)) (\<lambda>rs. Inr (bufs @ [rs]))) 0
      (map (\<lambda>i. take (rows div n) (drop (i * (rows div n)) A)) [0..<0])
    = Inr (map (\<lambda>i. take (rows div n) (drop (i * (rows div n)) A)) [0..<0 + n])"
  proof (rule rloop_det)
    fix i assume "i < 0 + n"
    have e: "i * rows div n = i * (rows div n)"
      by (metis f(2) f(4) div_mult_swap dvd_triv_left)
    have "Suc i * (rows div n) \<le> rows" using \<open>i < 0 + n\<close> f(2) by (metis Suc_leI add_0 mult_le_mono1)
    then show "rbind (subarr A (i * rows div n) (rows div n))
        (\<lambda>rs. Inr (map (\<lambda>i. take (rows div n) (drop (i * (rows div n)) A)) [0..<i] @ [rs]))
      = Inr (map (\<lambda>i. take (rows div n) (drop (i * (rows div n)) A)) [0..<Suc i])"
      using assms(2) by (simp add: e)
  qed
  then show ?thesis by (simp add: ddr_copies_def slices_def)
qed

section \<open>The reference gather and the check\<close>

definition data_ok :: "row list \<Rightarrow> u32 list \<Rightarrow> bool" where
  "data_ok A inn \<longleftrightarrow> length A = rows \<and> length inn = rows \<and> (\<forall>i < rows. unat (inn ! i) < rows)"

definition reference :: "row list \<Rightarrow> u32 list \<Rightarrow> row list" where
  "reference A inn = map (\<lambda>k. A ! unat k) inn"

lemma initData_ok: "data_ok (fst (initData rnd)) (snd (initData rnd))"
proof -
  have "unat (of_nat (unat r mod arrayu) :: u32) < rows" for r :: u32
  proof -
    have "unat r mod arrayu < arrayu" by (simp add: arrayu_def)
    then show ?thesis by (simp add: unat_of_nat take_bit_eq_mod arrayu_def rows_def)
  qed
  moreover have "arrayu = rows" by (simp add: arrayu_def rows_def)
  ultimately show ?thesis by (simp add: data_ok_def initData_def)
qed

lemma cIndirect_law:
  assumes "data_ok A inn" "length out = rows"
  shows "cIndirect A inn out = Inr (reference A inn)"
proof -
  let ?xs = "reference A inn"
  have "cIndirect A inn (take 0 ?xs @ drop 0 out) = Inr (take (0 + rows) ?xs @ drop (0 + rows) out)"
    unfolding cIndirect_def
    by (rule rloop_det)
      (use assms in \<open>simp add: data_ok_def reference_def list_update_append drop_eq_Cons_nth take_Suc_conv_app_nth\<close>)
  then show ?thesis using assms by (simp add: reference_def data_ok_def)
qed

text \<open>Searching for the wrong row never fails, so a mismatch counts one and is reported.\<close>

lemma find_row_returns:
  assumes "data_ok A inn" "j + n = rows"
  shows "\<exists>f. find_row A inn r n j = Inr f \<and> (\<forall>k. f = Some k \<longrightarrow> k < rows)"
  using assms(2)
proof (induction n arbitrary: j)
  case 0
  then show ?case by simp
next
  case (Suc n)
  have "rd inn j = Inr (inn ! j)" "rd A (unat (inn ! j)) = Inr (A ! unat (inn ! j))"
    using assms(1) Suc.prems by (simp_all add: data_ok_def)
  then show ?case using Suc.IH [of "Suc j"] Suc.prems by auto
qed

lemma isAEqual_law:
  assumes "data_ok A inn" "i < rows"
  shows "\<exists>ms. isAEqual A inn i x y = Inr (if x = y then 0 else 1, ms) \<and> (ms = [] \<longleftrightarrow> x = y)
    \<and> (\<forall>m \<in> set ms. \<not> (\<exists>t. m = Test_passed t))"
proof -
  obtain f where f: "find_row A inn y rows 0 = Inr f" "\<And>k. f = Some k \<Longrightarrow> k < rows"
    using find_row_returns [OF assms(1), of 0 rows y] by auto
  then show ?thesis
    using assms by (cases f) (auto simp: isAEqual_def data_ok_def)
qed

lemma check_loop_law:
  assumes "data_ok A inn" "length r2 = rows" "i + n = rows" "errCnt < 10"
  shows "\<exists>e ms. check_loop A inn r1 r2 True n i errCnt out = Inr (e, out @ ms)
    \<and> (e = 0 \<longleftrightarrow> errCnt = 0 \<and> (\<forall>k. i \<le> k \<and> k < rows \<longrightarrow> r2 ! k = reference A inn ! k))
    \<and> (\<forall>m \<in> set ms. \<not> (\<exists>t. m = Test_passed t))"
  using assms(3,4)
proof (induction n arbitrary: i errCnt out)
  case 0
  then show ?case by auto
next
  case (Suc n)
  let ?x = "reference A inn ! i" and ?y = "r2 ! i"
  have i: "i < rows" using Suc.prems by simp
  then have r: "rbind (rd inn i) (\<lambda>k. rd A (unat k)) = Inr ?x" "rd r2 i = Inr ?y"
    using assms(1,2) by (simp_all add: data_ok_def reference_def)
  obtain ms where ms: "isAEqual A inn i ?x ?y = Inr (if ?x = ?y then 0 else 1, ms)"
    "\<forall>m \<in> set ms. \<not> (\<exists>t. m = Test_passed t)"
    using isAEqual_law [OF assms(1) i] by blast
  let ?e = "errCnt + (if ?x = ?y then 0 else 1)"
  have step: "(\<forall>k. i \<le> k \<and> k < rows \<longrightarrow> r2 ! k = reference A inn ! k)
      \<longleftrightarrow> ?x = ?y \<and> (\<forall>k. Suc i \<le> k \<and> k < rows \<longrightarrow> r2 ! k = reference A inn ! k)"
    using i by (auto simp: Suc_le_eq) (metis le_neq_implies_less)
  show ?case
  proof (cases "10 \<le> ?e")
    case True
    then have "?x \<noteq> ?y" using Suc.prems(2) by (auto split: if_splits)
    then show ?thesis using r ms True step by auto
  next
    case False
    obtain e ms' where IH: "check_loop A inn r1 r2 True n (Suc i) ?e (out @ ms) = Inr (e, (out @ ms) @ ms')"
      "e = 0 \<longleftrightarrow> ?e = 0 \<and> (\<forall>k. Suc i \<le> k \<and> k < rows \<longrightarrow> r2 ! k = reference A inn ! k)"
      "\<forall>m \<in> set ms'. \<not> (\<exists>t. m = Test_passed t)"
      using Suc.IH [of "Suc i" ?e "out @ ms"] Suc.prems False by auto
    then have "check_loop A inn r1 r2 True (Suc n) i errCnt out = Inr (e, out @ ms @ ms')"
      using r ms(1) False by simp
    then show ?thesis using IH(2,3) ms(2) step by (intro exI [of _ e] exI [of _ "ms @ ms'"]) auto
  qed
qed

lemma checkOp_law:
  assumes "data_ok A inn" "length r2 = rows"
  shows "\<exists>ms. checkOp A inn test r1 r2 True = Inr ms
    \<and> (Test_passed test \<in> set ms \<longleftrightarrow> r2 = reference A inn)"
proof -
  obtain e ms where "check_loop A inn r1 r2 True rows 0 0 [] = Inr (e, ms)"
    "e = 0 \<longleftrightarrow> (\<forall>k < rows. r2 ! k = reference A inn ! k)" "\<forall>m \<in> set ms. \<not> (\<exists>t. m = Test_passed t)"
    using check_loop_law [OF assms, of 0 rows 0 r1 "[]"] by auto
  moreover have "r2 = reference A inn \<longleftrightarrow> (\<forall>k < rows. r2 ! k = reference A inn ! k)"
    using assms by (simp add: list_eq_iff_nth_eq data_ok_def reference_def)
  ultimately show ?thesis by (auto simp: checkOp_def testMsg_def)
qed

section \<open>What the command line can select\<close>

lemma hbm_count_iff: "hbm_count_ok n \<longleftrightarrow> n \<in> {2, 4, 8, 16, 32}"
proof
  assume a: "hbm_count_ok n"
  then have n: "n \<in> set [1..32]" by (auto simp: hbm_count_ok_def MAX_HBM_BANKCOUNT_def)
  have "list_all (\<lambda>n. hbm_count_ok n \<longrightarrow> n \<in> {2, 4, 8, 16, 32}) [1..32]"
    by (simp add: hbm_count_ok_def MAX_HBM_BANKCOUNT_def IN_HBM_BANKCOUNT_IDX_def MAX_DDR_SIZE_def
        sizes arrayu_def upto.simps)
  with n a show "n \<in> {2, 4, 8, 16, 32}" unfolding list_all_iff by blast
next
  assume "n \<in> {2, 4, 8, 16, 32}"
  then show "hbm_count_ok n"
    by (auto simp: hbm_count_ok_def MAX_HBM_BANKCOUNT_def IN_HBM_BANKCOUNT_IDX_def MAX_DDR_SIZE_def
        sizes arrayu_def)
qed

lemma stream_bits_law:
  "stream_bits s = (if s = ''1'' then (4, 1) else if s = ''2'' then (8, 2) else if s = ''4'' then (16, 4)
    else if s = ''8'' then (32, 8) else if s = ''16'' then (64, 16) else (0, 16))"
  by (simp add: stream_bits_def sizes)

lemma parse_pu_selects:
  assumes "parse_pu tokens = Inr (Some (op1, v))"
  shows "selects op1 v \<and> op1 AND 3 = 0"
  using assms
  by (auto simp: parse_pu_def rbind_eq_Inr stream_bits_law sizes selects_def stream_count_def Let_def
      split: if_splits)

lemma parse_hbm_count: "parse_hbm tokens = Inr (Some n) \<Longrightarrow> n \<in> {2, 4, 8, 16, 32}"
  by (auto simp: parse_hbm_def rbind_eq_Inr hbm_count_iff split: if_splits)

lemma main_args_law:
  assumes "main_args tokens = Inr (Inr c)"
  shows "hbmNum c \<in> {2, 4, 8, 16, 32} \<and> selects (op c) (streamValue c) \<and> op c AND 3 = 0"
  using assms parse_pu_selects [of tokens] parse_hbm_count [of tokens]
  by (auto simp: main_args_def rbind_eq_Inr Let_def split: if_splits option.splits prod.splits)

lemma main_args_hbm:
  assumes "main_args tokens = Inr (Inr c)"
  shows "parse_hbm tokens = Inr (Some (hbmNum c))"
  using assms by (auto simp: main_args_def rbind_eq_Inr Let_def split: if_splits option.splits prod.splits)

lemma parse_hbm_value:
  "parse_hbm tokens = Inr (Some n) \<Longrightarrow>
    case getCmdOption tokens ''-hbm'' of None \<Rightarrow> n = 16 | Some v \<Rightarrow> stoi v = Inr (int n)"
  by (auto simp: parse_hbm_def rbind_eq_Inr hbm_count_iff c_strcpy_def stoi_def signed_value_def signed_digits_def
      is_digit_def is_space_def num_def split: if_splits option.splits)

lemma stoi_one: "stoi ''1'' = Inr 1"
  by code_simp

text \<open>
  C35. What \<open>main\<close> goes on with after reading its arguments: the number of banks is the value
  given with \<open>-hbm\<close>, 16 without the option, and always one of 2, 4, 8, 16 and 32; so the 1 the README documents
  is rejected, while 32, which it does not list, is let through (and overruns an array later, see
  \<open>thirty_two_banks_overrun\<close>). The op word selects exactly the given number of
  streams with the ping-pong bits clear, and the names fit their arrays of 1001 characters.
\<close>

theorem main_args_config:
  assumes "main_args tokens = Inr (Inr c)"
  shows "hbmNum c \<in> {2, 4, 8, 16, 32}
    \<and> (case getCmdOption tokens ''-hbm'' of None \<Rightarrow> hbmNum c = 16 | Some v \<Rightarrow> stoi v = Inr (int (hbmNum c)))
    \<and> getCmdOption tokens ''-hbm'' \<noteq> Some ''1''
    \<and> selects (op c) (streamValue c) \<and> op c AND 3 = 0
    \<and> length (deviceName c) < ARG_SZ \<and> length (kernelName c) < ARG_SZ \<and> length (xclbinName c) < ARG_SZ"
proof -
  have n: "length v < ARG_SZ" if "parse_name tokens opt dflt = Inr v" "length dflt < ARG_SZ" for opt dflt v
    using that by (auto simp: parse_name_def c_strcpy_def split: option.splits if_splits)
  then have names: "length (deviceName c) < ARG_SZ \<and> length (kernelName c) < ARG_SZ \<and> length (xclbinName c) < ARG_SZ"
    using assms
    by (auto simp: main_args_def rbind_eq_Inr Let_def ARG_SZ_def split: if_splits option.splits prod.splits
        dest!: n [unfolded ARG_SZ_def])
  note l = main_args_law [OF assms] and h = parse_hbm_value [OF main_args_hbm [OF assms]]
  have "getCmdOption tokens ''-hbm'' \<noteq> Some ''1''"
  proof
    assume "getCmdOption tokens ''-hbm'' = Some ''1''"
    then have "hbmNum c = 1" using h stoi_one by simp
    then show False using l by simp
  qed
  with l h names show ?thesis by blast
qed

theorem main_args_config_witness:
  "\<exists>c. main_args [''-pu'', ''4''] = Inr (Inr c) \<and> selects (op c) 4"
proof -
  have "\<exists>c. main_args [''-pu'', ''4''] = Inr (Inr c) \<and> streamValue c = 4"
    by (simp add: main_args_def parse_hbm_def parse_pu_def parse_run_def parse_name_def getCmdOption_def c_strcpy_def
      stoi_def signed_value_def signed_digits_def is_digits_def is_digit_def is_space_def hbm_count_iff num_def
      stream_bits_law sizes ARG_SZ_def)
  then show ?thesis using main_args_config by metis
qed

lemma bank_flags_16:
  assumes "length fl = 16" "if pc then n \<le> 16 else n \<le> 10"
  shows "bank_flags topo n pc fl = Inr (map (\<lambda>i. of_nat (bank_of pc i) OR topo) [0..<n] @ drop n fl)"
proof -
  have "rloop n (\<lambda>i fl. rbind (rd (banks topo) (if pc then i else 2 * i)) (\<lambda>b. wr fl i b)) 0
      (map (\<lambda>i. of_nat (bank_of pc i) OR topo) [0..<0] @ drop 0 fl)
    = Inr (map (\<lambda>i. of_nat (bank_of pc i) OR topo) [0..<0 + n] @ drop (0 + n) fl)"
  proof (rule rloop_det)
    fix i assume i: "i < 0 + n"
    have b: "rd (banks topo) (if pc then i else 2 * i) = Inr (of_nat (bank_of pc i) OR topo)"
      using assms(2) i by (auto simp: banks_def nth_append bank_of_def)
    show "rbind (rd (banks topo) (if pc then i else 2 * i))
        (wr (map (\<lambda>i. of_nat (bank_of pc i) OR topo) [0..<i] @ drop i fl) i)
      = Inr (map (\<lambda>i. of_nat (bank_of pc i) OR topo) [0..<Suc i] @ drop (Suc i) fl)"
      using assms i by (auto simp: b list_update_append drop_eq_Cons_nth split: if_splits)
  qed
  then show ?thesis by (simp add: bank_flags_def)
qed

lemma bank_flags_32:
  assumes "length fl = 16"
  shows "bank_flags topo 32 pc fl = Inl OutOfBounds"
proof -
  let ?b = "\<lambda>i fl. rbind (rd (banks topo) (if pc then i else 2 * i)) (\<lambda>b. wr fl i b)"
  have "\<exists>fl'. rloop 16 ?b 0 fl = Inr fl' \<and> length fl' = 16"
  proof (rule rloop_inv [where P = "\<lambda>_ fl'. length fl' = 16"])
    fix k :: nat and s :: "u32 list" assume "k < 0 + 16" "length s = 16"
    then show "\<exists>s'. ?b k s = Inr s' \<and> length s' = 16" by (simp add: banks_def)
  qed (use assms in simp_all)
  then obtain fl' where fl': "rloop 16 ?b 0 fl = Inr fl'" "length fl' = 16" by blast
  have "?b 16 fl' = Inl OutOfBounds" using fl'(2) by (auto simp: rd_def banks_def wr_def)
  then have "rloop (Suc 15) ?b (0 + 16) fl' = Inl OutOfBounds" unfolding rloop.simps add_0 by simp
  then have "rloop (16 + Suc 15) ?b 0 fl = Inl OutOfBounds" unfolding rloop_add fl'(1) rbind_simps .
  moreover have "16 + Suc 15 = 32" by simp
  ultimately show ?thesis by (simp only: bank_flags_def)
qed

text \<open>With the banks taken two apart, the flags of the buffers from the tenth on are zero.\<close>

lemma bank_flags_pc0:
  assumes "length fl = 16" "i < 16"
  shows "\<exists>fl'. bank_flags topo 16 False fl = Inr fl'
    \<and> fl' ! i = (if i < 10 then of_nat (2 * i) OR topo else 0)"
proof -
  let ?v = "\<lambda>i. if i < 10 then of_nat (2 * i) OR topo else 0"
  have "rloop 16 (\<lambda>i fl. rbind (rd (banks topo) (if False then i else 2 * i)) (\<lambda>b. wr fl i b)) 0
      (map ?v [0..<0] @ drop 0 fl) = Inr (map ?v [0..<0 + 16] @ drop (0 + 16) fl)"
  proof (rule rloop_det)
    fix i :: nat assume i: "i < 0 + 16"
    have b: "rd (banks topo) (2 * i) = Inr (?v i)"
      using i by (auto simp: banks_def nth_append)
    show "rbind (rd (banks topo) (if False then i else 2 * i)) (wr (map ?v [0..<i] @ drop i fl) i)
      = Inr (map ?v [0..<Suc i] @ drop (Suc i) fl)"
      using assms i by (simp add: b list_update_append drop_eq_Cons_nth)
  qed
  then show ?thesis using assms(2) by (simp add: bank_flags_def assms(1) del: upt_Suc)
qed

section \<open>One block on the device\<close>

text \<open>
  Block \<open>i\<close> of the index array as the bursts of an input buffer, and the rows that the
  bursts of an output buffer hold: both views of the same bytes.
\<close>

definition block_words :: "nat" where "block_words = inBlockSize div 4"

definition in_block :: "u32 list \<Rightarrow> nat \<Rightarrow> burst list" where
  "in_block ws i = map (\<lambda>b. map (\<lambda>j. ws ! (i * block_words + 8 * b + j)) [0..<8]) [0..<totalInBurst]"

definition rows_in :: "burst list \<Rightarrow> row list" where
  "rows_in bs = map (\<lambda>e. \<lparr>r_measure = bs ! (e div 4) ! (2 * (e mod 4)),
     r_group = bs ! (e div 4) ! (2 * (e mod 4) + 1)\<rparr>) [0..<totalInWork]"

lemma in_block_word:
  assumes "e < totalInWork"
  shows "in_word (in_block ws i) e = ws ! (i * block_words + e)"
proof -
  have "e div 8 < totalInBurst" using assms by (simp add: sizes)
  moreover have "i * block_words + 8 * (e div 8) + e mod 8 = i * block_words + e" by simp
  moreover have "map f [0..<8] ! (e mod 8) = f (e mod 8)" for f :: "nat \<Rightarrow> u32" by (subst nth_map) simp_all
  ultimately show ?thesis
    unfolding in_word_def in_block_def by (simp add: add.commute)
qed

lemma in_block_wf: "length (in_block ws i) = totalInBurst" "list_all (\<lambda>b. length b = 8) (in_block ws i)"
  by (simp_all add: in_block_def list_all_iff)

text \<open>The device memory after the copies, and the lookup of one block of mapped indices.\<close>

definition device_mem :: "row list \<Rightarrow> nat \<Rightarrow> bool \<Rightarrow> bool \<Rightarrow> (nat \<Rightarrow> row) \<Rightarrow> nat \<Rightarrow> row" where
  "device_mem A n pc swemu junk =
     (if swemu then (\<lambda>x. if x < rows then A ! x else junk x) else device_row (placed A n pc) junk)"

definition device_index :: "nat \<Rightarrow> bool \<Rightarrow> bool \<Rightarrow> u32 \<Rightarrow> u32" where
  "device_index n pc swemu k = (if swemu then k else of_nat (mapped_index n pc (unat k)))"

lemma device_mem_index:
  assumes "hbm_ok n" "unat k < rows" "length A = rows"
  shows "device_mem A n pc swemu junk (unat (device_index n pc swemu k)) = A ! unat k"
proof (cases swemu)
  case True
  then show ?thesis using assms by (simp add: device_mem_def device_index_def)
next
  case False
  have "mapped_index n pc (unat k) < 2 ^ 32" using mapped_index_bound [OF assms(1,2), of pc] by simp
  then have "unat (of_nat (mapped_index n pc (unat k)) :: u32) = mapped_index n pc (unat k)"
    by (simp add: unat_of_nat take_bit_eq_mod)
  then show ?thesis
    using False device_row_mapped [OF assms] by (simp add: device_mem_def device_index_def)
qed

definition device_block :: "row list \<Rightarrow> u32 list \<Rightarrow> nat \<Rightarrow> row list" where
  "device_block A inn i = map (\<lambda>e. reference A inn ! (i * block_words + e)) [0..<block_words]"

lemma block_bounds: "block_words = totalInWork" "totalBlocks * block_words = rows"
  by (simp_all add: block_words_def sizes rows_def)

lemma gather_block:
  assumes "data_ok A inn" "hbm_ok n" "i < totalBlocks"
    and "ws = map (device_index n pc swemu) inn"
    and "ddrs = replicate 16 (table_of (device_mem A n pc swemu junk))"
    and "stream_count S"
  shows "rows_in (gather_out S ddrs (in_block ws i)) = device_block A inn i"
proof -
  let ?mem = "device_mem A n pc swemu junk"
  have "rows_in (gather_out S ddrs (in_block ws i)) ! e = device_block A inn i ! e"
    if e: "e < totalInWork" for e
  proof -
    have "Suc i * block_words \<le> rows" using assms(3) block_bounds(2) by (metis Suc_leI mult_le_mono1)
    then have x: "i * block_words + e < rows" using e block_bounds(1) by simp
    let ?k = "inn ! (i * block_words + e)"
    have k: "unat ?k < rows" "in_word (in_block ws i) e = device_index n pc swemu ?k"
      using assms(1,4) x in_block_word [OF e, of ws i] by (simp_all add: data_ok_def)
    have "e mod S < 16"
      using stream_count_bounds [OF assms(6)] by (meson mod_less_divisor order_less_le_trans)
    then have "out_measure S ddrs (in_block ws i) e = r_measure (?mem (unat (device_index n pc swemu ?k)))"
      "out_group S ddrs (in_block ws i) e = r_group (?mem (unat (device_index n pc swemu ?k)))"
      using assms(5) by (simp_all add: out_measure_def out_group_def k table_of_at)
    then have "rows_in (gather_out S ddrs (in_block ws i)) ! e = A ! unat ?k"
      using e gather_out_nth [OF e, of S ddrs "in_block ws i"] device_mem_index [OF assms(2) k(1), of A pc swemu junk] assms(1)
      by (simp add: rows_in_def data_ok_def)
    moreover have "device_block A inn i ! e = A ! unat ?k"
      using e x assms(1) block_bounds(1) by (simp add: device_block_def reference_def data_ok_def)
    ultimately show ?thesis by simp
  qed
  then show ?thesis
    by (intro nth_equalityI) (simp_all add: rows_in_def device_block_def block_bounds(1))
qed

lemma blocks_reference:
  assumes "data_ok A inn"
  shows "concat (map (device_block A inn) [0..<totalBlocks]) = reference A inn"
proof -
  have "concat (map (device_block A inn) [0..<b]) = take (b * block_words) (reference A inn)"
    if "b \<le> totalBlocks" for b
    using that
  proof (induction b)
    case (Suc b)
    have "Suc b * block_words \<le> rows" using Suc.prems block_bounds(2) by (metis mult_le_mono1)
    then have "map (\<lambda>e. reference A inn ! (b * block_words + e)) [0..<block_words]
        = take block_words (drop (b * block_words) (reference A inn))"
      using assms by (intro nth_equalityI) (simp_all add: reference_def data_ok_def)
    then show ?case
      using Suc by (simp add: device_block_def add.commute [of block_words] take_add)
  qed simp
  then show ?thesis using assms block_bounds(2) by (simp add: reference_def data_ok_def)
qed

end
