(* ===== verification/Ping_Pong.thy ===== *)
theory Ping_Pong
  imports Gather_Host
begin

unbundle bit_operations_syntax

text \<open>
  The two execution loops of the gather host, \<open>execFpgaOp\<close> and \<open>execFpgaOp_cb\<close> of
  \<^verbatim>\<open>omxgather/src/main.cpp\<close>, with the out-of-order command queue they fill: a step relation in
  which the host takes the calls of its loop in order and the device takes any enqueued
  command whose events are complete.

  The queue, events and callbacks are those of OpenCL 1.2: a command runs after the events of
  its wait list, \<open>clFinish\<close> waits for the commands of the queue and not for the callbacks, and
  host memory of a mapped buffer is read when the migration runs, not when it is enqueued.
\<close>

section \<open>The calls of the loops\<close>

text \<open>
  The events of iteration \<open>i\<close>: its write (migration to the device), kernel, read (migration to
  the host) and the user event its callback completes.
\<close>

datatype cmd = W nat | K nat | R nat | U nat

datatype call = Copy nat | Set_args nat | Enq cmd "cmd list" | Wait_for cmd | Set_callback nat | Finish_queue

definition iter_plain :: "nat \<Rightarrow> call list" where
  "iter_plain i =
     Copy i #
     (if i = 0 \<or> i = 1 then [Enq (W i) []] else [Enq (W i) [K (i - 2)], Wait_for (K (i - 2))])
     @ [Set_args i, Enq (K i) [W i], Enq (R i) [K i]]"

definition iter_cb :: "nat \<Rightarrow> call list" where
  "iter_cb i =
     Copy i #
     (if i = 0 \<or> i = 1 then [Enq (W i) []] else [Wait_for (K (i - 2)), Enq (W i) [K (i - 2)]])
     @ Set_args i
     # (if i = 0 \<or> i = 1 then [Enq (K i) [W i], Enq (R i) [K i]]
        else [Wait_for (R (i - 2)), Enq (K i) [W i, R (i - 2)], Enq (R i) [K i, U (i - 2)]])
     @ [Set_callback i]"

text \<open>
  \<open>execFpgaOp_cb\<close> for \<open>cb\<close>, else \<open>execFpgaOp\<close>, for \<open>n\<close> blocks. The order of the calls that set
  up iteration \<open>i\<close> is that of the source.
\<close>

definition iteration :: "bool \<Rightarrow> nat \<Rightarrow> call list" where
  "iteration cb i = (if cb then iter_cb i else iter_plain i)"

definition exec_calls :: "bool \<Rightarrow> nat \<Rightarrow> call list" where
  "exec_calls cb n = concat (map (iteration cb) [0..<n]) @ [Finish_queue]"

text \<open>
  The kernel arguments that change: the op word with the ping and pong bits of the iteration
  and the output buffers given as the fourth and the fifth argument.
\<close>

definition PING_PONG_IN_MASK_OFF :: u32 where "PING_PONG_IN_MASK_OFF = NOT PING_PONG_IN_MASK"
definition PING_PONG_OUT_MASK_OFF :: u32 where "PING_PONG_OUT_MASK_OFF = NOT PING_PONG_OUT_MASK"

definition kernel_args :: "bool \<Rightarrow> u32 \<Rightarrow> nat \<Rightarrow> u32 \<times> nat \<times> nat" where
  "kernel_args cb ops i =
     (let ping = i mod 2 \<noteq> 0;
          ops = ((ops AND PING_PONG_IN_MASK_OFF) AND PING_PONG_OUT_MASK_OFF) OR (if ping then 3 else 0)
      in if cb then (ops, 0, 1) else (ops, if ping then 0 else i, if ping then i else 1))"

section \<open>The state and the steps\<close>

text \<open>
  The arguments that the kernel object holds: the op word (argument 0), the output buffers
  (arguments 3 and 4) and, for those that get the same buffer in every iteration (the input
  buffers, 1 and 2, and the first table buffer, 5 to 20), whether they have been set.
\<close>

record kargs =
  k_op :: "u32 option"
  k_out0 :: "nat option"
  k_out1 :: "nat option"
  k_fixed :: "nat \<Rightarrow> bool"

text \<open>
  The calls of \<open>clSetKernelArg\<close> of an iteration; \<open>ok j\<close> says whether the one for argument \<open>j\<close>
  succeeds. A failing one leaves the argument as it was; the loop prints at most a message.
\<close>

definition set_args :: "(nat \<Rightarrow> bool) \<Rightarrow> u32 \<times> nat \<times> nat \<Rightarrow> kargs \<Rightarrow> kargs" where
  "set_args ok a ka = (case a of (ops, o0, o1) \<Rightarrow>
     \<lparr>k_op = (if ok 0 then Some ops else k_op ka),
      k_out0 = (if ok 3 then Some o0 else k_out0 ka),
      k_out1 = (if ok 4 then Some o1 else k_out1 ka),
      k_fixed = (\<lambda>j. ok j \<or> k_fixed ka j)\<rparr>)"

definition args_set :: "kargs \<Rightarrow> bool" where
  "args_set ka \<longleftrightarrow> k_op ka \<noteq> None \<and> k_out0 ka \<noteq> None \<and> k_out1 ka \<noteq> None
     \<and> (\<forall>j < mNoDdrA + 5. j \<in> {0, 3, 4} \<or> k_fixed ka j)"

definition held_args :: "kargs \<Rightarrow> u32 \<times> nat \<times> nat" where
  "held_args ka = (the (k_op ka), the (k_out0 ka), the (k_out1 ka))"

text \<open>
  What the runtime does that the loops cannot tell beforehand. With \<open>timely\<close> the device is so
  fast that the previous block of the same input buffer has left host memory before the next one
  is copied there; the loops wait for nothing that implies it. \<open>set_ok i j\<close>: in iteration \<open>i\<close>
  setting argument \<open>j\<close> succeeds. The loops are also given buffers that \<open>main\<close> may have failed to
  create or to map: \<open>in_made j\<close> and \<open>out_made j\<close> say that the buffer exists, \<open>in_map j\<close> and
  \<open>out_map j\<close> that the host pointer to it is usable.
\<close>

record setting =
  timely :: bool
  set_ok :: "nat \<Rightarrow> nat \<Rightarrow> bool"

record loop_env = setting +
  in_made :: "nat \<Rightarrow> bool"
  in_map :: "nat \<Rightarrow> bool"
  out_made :: "nat \<Rightarrow> bool"
  out_map :: "nat \<Rightarrow> bool"

record 'b pipe =
  todo :: "call list"
  exited :: bool
  h_ops :: u32
  k_args :: kargs
  t_args :: "nat \<Rightarrow> u32 \<times> nat \<times> nat"
  pend :: "(cmd \<times> cmd list) list"
  compl :: "cmd list"
  regd :: "nat list"
  hin :: "nat \<Rightarrow> 'b"
  din :: "nat \<Rightarrow> 'b"
  dout :: "nat \<Rightarrow> 'b"
  hout :: "nat \<Rightarrow> 'b"
  xil :: "nat \<Rightarrow> 'b"

definition slot :: "bool \<Rightarrow> nat \<Rightarrow> nat" where
  "slot cb i = (if cb then i mod 2 else i)"

text \<open>
  A call of the host that returns; \<open>B\<close> gives the blocks of the input array. The kernel takes
  the arguments it holds when it is enqueued.
\<close>

fun host :: "loop_env \<Rightarrow> bool \<Rightarrow> (nat \<Rightarrow> 'b) \<Rightarrow> call \<Rightarrow> 'b pipe \<Rightarrow> 'b pipe" where
  "host e cb B (Copy i) s = s\<lparr>hin := (hin s)(i mod 2 := B i)\<rparr>"
| "host e cb B (Set_args i) s = s\<lparr>h_ops := fst (kernel_args cb (h_ops s) i),
     k_args := set_args (set_ok e i) (kernel_args cb (h_ops s) i) (k_args s)\<rparr>"
| "host e cb B (Enq (K i) ds) s = s\<lparr>pend := pend s @ [(K i, ds)], t_args := (t_args s)(i := held_args (k_args s))\<rparr>"
| "host e cb B (Enq c ds) s = s\<lparr>pend := pend s @ [(c, ds)]\<rparr>"
| "host e cb B (Wait_for c) s = s"
| "host e cb B (Set_callback i) s = s\<lparr>regd := regd s @ [i]\<rparr>"
| "host e cb B Finish_queue s = s"

text \<open>
  When a call returns without an error. A copy needs the host pointer (without it the program
  strays, see below), enqueuing a migration needs its buffer, enqueuing the kernel needs every
  argument to have been set, waiting needs the events.
\<close>

fun host_ready :: "loop_env \<Rightarrow> bool \<Rightarrow> call \<Rightarrow> 'b pipe \<Rightarrow> bool" where
  "host_ready e cb (Copy i) s = in_map e (i mod 2)"
| "host_ready e cb (Set_args i) s = True"
| "host_ready e cb (Enq (W i) ds) s = in_made e (i mod 2)"
| "host_ready e cb (Enq (K i) ds) s = args_set (k_args s)"
| "host_ready e cb (Enq (R i) ds) s = out_made e (slot cb i)"
| "host_ready e cb (Enq (U i) ds) s = True"
| "host_ready e cb (Wait_for c) s = (c \<in> set (compl s))"
| "host_ready e cb (Set_callback i) s = True"
| "host_ready e cb Finish_queue s = (pend s = [])"

text \<open>
  A call with \<open>OCL_CHECK\<close> around it can end the process.
\<close>

definition checked :: "call \<Rightarrow> bool" where
  "checked a = (case a of Enq _ _ \<Rightarrow> True | Set_callback _ \<Rightarrow> True | _ \<Rightarrow> False)"

text \<open>A command of the device; the kernel itself is \<open>task\<close> of the device.\<close>

fun run_cmd :: "('d \<Rightarrow> u32 \<times> nat \<times> nat \<Rightarrow> (nat \<Rightarrow> 'b) \<Rightarrow> (nat \<Rightarrow> 'b) \<Rightarrow> (nat \<Rightarrow> 'b) res) \<Rightarrow> 'd
    \<Rightarrow> bool \<Rightarrow> cmd \<Rightarrow> 'b pipe \<Rightarrow> 'b pipe res" where
  "run_cmd task d cb (W i) s = Inr (s\<lparr>din := (din s)(i mod 2 := hin s (i mod 2))\<rparr>)"
| "run_cmd task d cb (K i) s = rbind (task d (t_args s i) (din s) (dout s)) (\<lambda>m. Inr (s\<lparr>dout := m\<rparr>))"
| "run_cmd task d cb (R i) s = Inr (s\<lparr>hout := (hout s)(slot cb i := dout s (slot cb i))\<rparr>)"
| "run_cmd task d cb (U i) s = Inr s"

text \<open>
  The steps. A call that is checked can end the process, whether or not it could succeed.
\<close>

inductive pipe_step :: "('d \<Rightarrow> u32 \<times> nat \<times> nat \<Rightarrow> (nat \<Rightarrow> 'b) \<Rightarrow> (nat \<Rightarrow> 'b) \<Rightarrow> (nat \<Rightarrow> 'b) res) \<Rightarrow> 'd
    \<Rightarrow> (nat \<Rightarrow> 'b) \<Rightarrow> bool \<Rightarrow> loop_env \<Rightarrow> 'b pipe \<Rightarrow> 'b pipe \<Rightarrow> bool"
  for task d B cb e where
  step_host: "pipe_step task d B cb e s (host e cb B a (s\<lparr>todo := as\<rparr>))"
    if "\<not> exited s" "todo s = a # as" "host_ready e cb a s"
      "\<And>i. timely e \<Longrightarrow> a = Copy i \<Longrightarrow> 2 \<le> i \<Longrightarrow> W (i - 2) \<in> set (compl s)"
| step_exit: "pipe_step task d B cb e s (s\<lparr>exited := True\<rparr>)"
    if "\<not> exited s" "todo s = a # as" "checked a"
| step_device: "pipe_step task d B cb e s (s'\<lparr>pend := xs @ ys, compl := compl s @ [c]\<rparr>)"
    if "\<not> exited s" "pend s = xs @ (c, ds) # ys" "set ds \<subseteq> set (compl s)" "run_cmd task d cb c s = Inr s'"
| step_callback: "pipe_step task d B cb e s
      (s\<lparr>xil := (xil s)(i := hout s (slot cb i)), regd := xs @ ys, compl := compl s @ [U i]\<rparr>)"
    if "\<not> exited s" "regd s = xs @ i # ys" "R i \<in> set (compl s)" "out_map e (slot cb i)"

inductive reach :: "('d \<Rightarrow> u32 \<times> nat \<times> nat \<Rightarrow> (nat \<Rightarrow> 'b) \<Rightarrow> (nat \<Rightarrow> 'b) \<Rightarrow> (nat \<Rightarrow> 'b) res) \<Rightarrow> 'd
    \<Rightarrow> (nat \<Rightarrow> 'b) \<Rightarrow> bool \<Rightarrow> loop_env \<Rightarrow> 'b pipe \<Rightarrow> 'b pipe \<Rightarrow> bool"
  for task d B cb e where
  reach_refl: "reach task d B cb e s s"
| reach_step: "reach task d B cb e s t \<Longrightarrow> pipe_step task d B cb e t u \<Longrightarrow> reach task d B cb e s u"

text \<open>
  The program strays when it is about to copy through a host pointer that is not usable: the
  loop into an input buffer, or a callback out of an output buffer.
\<close>

definition stray :: "loop_env \<Rightarrow> bool \<Rightarrow> 'b pipe \<Rightarrow> bool" where
  "stray e cb s \<longleftrightarrow> \<not> exited s \<and>
     ((case todo s of Copy i # _ \<Rightarrow> \<not> in_map e (i mod 2) | _ \<Rightarrow> False)
      \<or> (\<exists>i \<in> set (regd s). R i \<in> set (compl s) \<and> \<not> out_map e (slot cb i)))"

text \<open>An environment in which nothing that the calls need is missing, for \<open>n\<close> blocks.\<close>

definition sets_ok :: "('a setting_scheme) \<Rightarrow> bool" where
  "sets_ok e \<longleftrightarrow> (\<forall>i j. set_ok e i j)"

definition env_ok :: "bool \<Rightarrow> nat \<Rightarrow> loop_env \<Rightarrow> bool" where
  "env_ok cb n e \<longleftrightarrow> sets_ok e \<and> (\<forall>j < 2. in_made e j \<and> in_map e j)
     \<and> (\<forall>i < n. out_made e (slot cb i) \<and> out_map e (slot cb i))"

text \<open>The state at the call: a kernel without arguments and buffers of arbitrary content.\<close>

definition exec_start :: "bool \<Rightarrow> nat \<Rightarrow> u32 \<Rightarrow> (nat \<Rightarrow> 'b) \<Rightarrow> (nat \<Rightarrow> 'b) \<Rightarrow> (nat \<Rightarrow> 'b) \<Rightarrow> (nat \<Rightarrow> 'b) \<Rightarrow> (nat \<Rightarrow> 'b)
    \<Rightarrow> 'b pipe" where
  "exec_start cb n ops hi di dt ho xi = \<lparr>todo = exec_calls cb n, exited = False, h_ops = ops,
     k_args = \<lparr>k_op = None, k_out0 = None, k_out1 = None, k_fixed = (\<lambda>_. False)\<rparr>, t_args = (\<lambda>_. (ops, 0, 0)), pend = [], compl = [], regd = [], hin = hi, din = di, dout = dt, hout = ho, xil = xi\<rparr>"

section \<open>The order of the calls\<close>

text \<open>The position of a call in the program of a loop; the program is sorted by it.\<close>

fun pos :: "bool \<Rightarrow> nat \<Rightarrow> call \<Rightarrow> nat" where
  "pos cb n (Copy i) = 10 * i"
| "pos cb n (Set_args i) = 10 * i + 4"
| "pos cb n (Enq (W i) ds) = 10 * i + 2"
| "pos cb n (Enq (K i) ds) = 10 * i + 6"
| "pos cb n (Enq (R i) ds) = 10 * i + 7"
| "pos cb n (Wait_for (K i)) = 10 * (i + 2) + (if cb then 1 else 3)"
| "pos cb n (Wait_for (R i)) = 10 * (i + 2) + 5"
| "pos cb n (Set_callback i) = 10 * i + 8"
| "pos cb n Finish_queue = 10 * n"
| "pos cb n _ = 0"

text \<open>The wait list of a command; a user event is completed by the callback of its read.\<close>

fun deps :: "bool \<Rightarrow> cmd \<Rightarrow> cmd list" where
  "deps cb (W i) = (if i < 2 then [] else [K (i - 2)])"
| "deps cb (K i) = W i # (if cb \<and> 2 \<le> i then [R (i - 2)] else [])"
| "deps cb (R i) = K i # (if cb \<and> 2 \<le> i then [U (i - 2)] else [])"
| "deps cb (U i) = [R i]"

definition in_calls :: "bool \<Rightarrow> nat \<Rightarrow> call \<Rightarrow> bool" where
  "in_calls cb n a \<longleftrightarrow> (case a of
     Copy i \<Rightarrow> i < n | Set_args i \<Rightarrow> i < n | Set_callback i \<Rightarrow> cb \<and> i < n | Finish_queue \<Rightarrow> True
   | Enq c ds \<Rightarrow> ds = deps cb c \<and> (case c of W i \<Rightarrow> i < n | K i \<Rightarrow> i < n | R i \<Rightarrow> i < n | U i \<Rightarrow> False)
   | Wait_for c \<Rightarrow> (case c of K i \<Rightarrow> i + 2 < n | R i \<Rightarrow> cb \<and> i + 2 < n | _ \<Rightarrow> False))"

lemmas iteration_defs = iteration_def iter_plain_def iter_cb_def

lemma iteration_calls:
  "a \<in> set (iteration cb i) \<longleftrightarrow> a \<noteq> Finish_queue \<and> 10 * i \<le> pos cb n a \<and> pos cb n a < 10 * Suc i \<and> in_calls cb (Suc i) a"
  (is "?l = ?r")
proof
  show "?l \<Longrightarrow> ?r"
    by (auto simp: iteration_defs in_calls_def split: if_splits)
  show "?r \<Longrightarrow> ?l"
    by (cases a; (cases "case a of Enq c ds \<Rightarrow> c | Wait_for c \<Rightarrow> c | _ \<Rightarrow> W 0")?)
      (auto simp: iteration_defs in_calls_def split: if_splits)
qed

lemma iteration_sorted: "sorted_wrt (<) (map (pos cb n) (iteration cb i))"
  by (auto simp: iteration_defs)

lemma calls_sorted: "sorted_wrt (<) (map (pos cb n) (exec_calls cb n))"
proof -
  have "m \<le> n \<Longrightarrow> sorted_wrt (<) (map (pos cb n) (concat (map (iteration cb) [0..<m])))
     \<and> (\<forall>a \<in> set (concat (map (iteration cb) [0..<m])). pos cb n a < 10 * m)" for m
  proof (induction m)
    case (Suc m)
    have "10 * m \<le> pos cb n a \<and> pos cb n a < 10 * Suc m" if "a \<in> set (iteration cb m)" for a
      using that iteration_calls [of a cb m n] by blast
    then show ?case
      using Suc iteration_sorted [of cb n m] by (fastforce simp: sorted_wrt_append)
  qed simp
  from this [of n] show ?thesis by (auto simp: exec_calls_def sorted_wrt_append)
qed

lemma exec_calls_set: "a \<in> set (exec_calls cb n) \<longleftrightarrow> in_calls cb n a"
proof -
  have 1: "in_calls cb (Suc i) a \<Longrightarrow> i < n \<Longrightarrow> in_calls cb n a" for i
    by (auto simp: in_calls_def split: call.splits cmd.splits)
  have 2: "\<exists>i < n. 10 * i \<le> pos cb n a \<and> pos cb n a < 10 * Suc i \<and> in_calls cb (Suc i) a"
    if "in_calls cb n a" "a \<noteq> Finish_queue"
    using that
    by (cases a; (cases "case a of Enq c ds \<Rightarrow> c | Wait_for c \<Rightarrow> c | _ \<Rightarrow> W 0")?)
      (auto simp: in_calls_def intro!: exI [of _ "pos cb n a div 10"])
  have "a \<in> set (exec_calls cb n) \<longleftrightarrow> a = Finish_queue \<or> (\<exists>i < n. a \<in> set (iteration cb i))"
    by (auto simp: exec_calls_def)
  also have "\<dots> \<longleftrightarrow> in_calls cb n a"
  proof (cases "a = Finish_queue")
    case False
    with 1 2 show ?thesis unfolding iteration_calls [of a cb _ n] by blast
  qed (simp add: in_calls_def)
  finally show ?thesis .
qed

text \<open>The calls taken so far, when the rest is \<open>todo\<close>.\<close>

lemma taken_before:
  assumes "exec_calls cb n = pre @ a # rest"
  shows "b \<in> set pre \<longleftrightarrow> in_calls cb n b \<and> pos cb n b < pos cb n a"
proof -
  have "\<forall>x \<in> set pre. pos cb n x < pos cb n a" "\<forall>x \<in> set rest. pos cb n a < pos cb n x"
    using calls_sorted [of cb n] unfolding assms by (auto simp: sorted_wrt_append)
  then show ?thesis
    using exec_calls_set [of b cb n] unfolding assms by force
qed

lemma taken_closed:
  assumes "exec_calls cb n = pre @ rest" "a \<in> set pre" "in_calls cb n b" "pos cb n b < pos cb n a"
  shows "b \<in> set pre"
proof -
  obtain xs ys where "pre = xs @ a # ys" using assms(2) by (meson split_list)
  then show ?thesis using taken_before [of cb n xs a "ys @ rest" b] assms by simp
qed

lemma taken_in_calls: "exec_calls cb n = pre @ rest \<Longrightarrow> a \<in> set pre \<Longrightarrow> in_calls cb n a"
  using exec_calls_set [of a cb n] by simp

lemma taken_once: "exec_calls cb n = pre @ a # rest \<Longrightarrow> a \<notin> set pre"
  using taken_before by blast

end
