(* ===== verification/Ping_Pong_Runs.thy ===== *)
theory Ping_Pong_Runs
  imports Ping_Pong "HOL-Library.Multiset"
begin

text \<open>
  What the execution loops of the gather host guarantee: the invariants of the queue, of the
  events and of the kernel arguments, the path of each block through the buffers, and, over a
  locale for the device, the results of the runs that are timely and of those that are not.
\<close>

section \<open>Queue, events and arguments\<close>

text \<open>The commands a call brings into being, and those not yet complete.\<close>

fun brings :: "call \<Rightarrow> cmd list" where
  "brings (Enq c ds) = [c]"
| "brings (Set_callback i) = [U i]"
| "brings _ = []"

definition issued :: "call list \<Rightarrow> cmd list" where
  "issued pre = concat (map brings pre)"

definition outstanding :: "'b pipe \<Rightarrow> cmd list" where
  "outstanding s = map fst (pend s) @ map U (regd s)"

definition queue_inv :: "bool \<Rightarrow> nat \<Rightarrow> call list \<Rightarrow> 'b pipe \<Rightarrow> bool" where
  "queue_inv cb n pre s \<longleftrightarrow>
     exec_calls cb n = pre @ todo s
   \<and> (\<forall>(c, ds) \<in> set (pend s). ds = deps cb c \<and> (\<forall>i. c \<noteq> U i))
   \<and> mset (outstanding s) + mset (compl s) = mset (issued pre)"

text \<open>Completion respects the wait lists.\<close>

definition closed :: "bool \<Rightarrow> cmd list \<Rightarrow> bool" where
  "closed cb cs \<longleftrightarrow> (\<forall>c \<in> set cs. set (deps cb c) \<subseteq> set cs)"

text \<open>
  The kernel arguments. Whichever calls of \<open>clSetKernelArg\<close> have succeeded, the op word selects
  the streams of \<open>ops\<close> with both ping bits or none, and the fourth and fifth argument are output
  buffers of even and of odd number; if all succeed they are those of the iteration.
\<close>

definition op_like :: "u32 \<Rightarrow> u32 \<Rightarrow> bool" where
  "op_like ops w \<longleftrightarrow> w AND NOT 3 = ops AND NOT 3 \<and> (w AND 3 = 0 \<or> w AND 3 = 3)"

definition args_like :: "u32 \<Rightarrow> u32 \<times> nat \<times> nat \<Rightarrow> bool" where
  "args_like ops a = (case a of (w, o0, o1) \<Rightarrow> op_like ops w \<and> even o0 \<and> odd o1)"

definition all_args :: "u32 \<times> nat \<times> nat \<Rightarrow> kargs" where
  "all_args a = (case a of (w, o0, o1) \<Rightarrow>
     \<lparr>k_op = Some w, k_out0 = Some o0, k_out1 = Some o1, k_fixed = (\<lambda>_. True)\<rparr>)"

definition args_inv :: "u32 \<Rightarrow> call list \<Rightarrow> 'b pipe \<Rightarrow> bool" where
  "args_inv ops pre s \<longleftrightarrow>
     h_ops s AND NOT 3 = ops AND NOT 3
   \<and> (\<forall>w. k_op (k_args s) = Some w \<longrightarrow> op_like ops w)
   \<and> (\<forall>i. k_out0 (k_args s) = Some i \<longrightarrow> even i) \<and> (\<forall>i. k_out1 (k_args s) = Some i \<longrightarrow> odd i)
   \<and> (\<forall>i ds. Enq (K i) ds \<in> set pre \<longrightarrow> args_like ops (t_args s i))"

definition args_exact :: "bool \<Rightarrow> u32 \<Rightarrow> call list \<Rightarrow> 'b pipe \<Rightarrow> bool" where
  "args_exact cb ops pre s \<longleftrightarrow>
     (\<forall>i. kernel_args cb (h_ops s) i = kernel_args cb ops i)
   \<and> (\<forall>i. Set_args i \<in> set pre \<longrightarrow> Set_args (Suc i) \<notin> set pre \<longrightarrow> k_args s = all_args (kernel_args cb ops i))
   \<and> (\<forall>i ds. Enq (K i) ds \<in> set pre \<longrightarrow> t_args s i = kernel_args cb ops i)"

text \<open>The buffers that the kernel reads and writes when it runs with some arguments.\<close>

definition arg_in :: "u32 \<times> nat \<times> nat \<Rightarrow> nat" where
  "arg_in a = (if fst a AND 3 = 0 then 0 else 1)"

definition arg_out :: "u32 \<times> nat \<times> nat \<Rightarrow> nat" where
  "arg_out a = (case a of (w, o0, o1) \<Rightarrow> if w AND 3 = 0 then o0 else o1)"

lemma run_cmd_frame:
  assumes "run_cmd task d cb c s = Inr s'"
  shows "todo s' = todo s" "exited s' = exited s" "h_ops s' = h_ops s" "k_args s' = k_args s" "t_args s' = t_args s" "pend s' = pend s"
    "compl s' = compl s" "regd s' = regd s" "hin s' = hin s" "xil s' = xil s"
  using assms by (cases c; auto simp: rbind_eq_Inr)+

lemma host_frame:
  "todo (host e cb B a s) = todo s" "exited (host e cb B a s) = exited s" "compl (host e cb B a s) = compl s"
  "din (host e cb B a s) = din s" "dout (host e cb B a s) = dout s" "hout (host e cb B a s) = hout s"
  "xil (host e cb B a s) = xil s"
  by (induction e cb B a s rule: host.induct) simp_all

lemma host_queues:
  "pend (host e cb B a s) = pend s @ (case a of Enq c ds \<Rightarrow> [(c, ds)] | _ \<Rightarrow> [])"
  "regd (host e cb B a s) = regd s @ (case a of Set_callback i \<Rightarrow> [i] | _ \<Rightarrow> [])"
  "hin (host e cb B a s) = (case a of Copy i \<Rightarrow> (hin s)(i mod 2 := B i) | _ \<Rightarrow> hin s)"
  "h_ops (host e cb B a s) = (case a of Set_args i \<Rightarrow> fst (kernel_args cb (h_ops s) i) | _ \<Rightarrow> h_ops s)"
  "k_args (host e cb B a s) =
     (case a of Set_args i \<Rightarrow> set_args (set_ok e i) (kernel_args cb (h_ops s) i) (k_args s) | _ \<Rightarrow> k_args s)"
  "t_args (host e cb B a s) = (case a of Enq (K i) _ \<Rightarrow> (t_args s)(i := held_args (k_args s)) | _ \<Rightarrow> t_args s)"
  by (induction e cb B a s rule: host.induct) simp_all

lemma mask_off: "(ops AND PING_PONG_IN_MASK_OFF) AND PING_PONG_OUT_MASK_OFF = ops AND NOT 3"
proof -
  have "PING_PONG_IN_MASK_OFF AND PING_PONG_OUT_MASK_OFF = NOT (3 :: u32)"
    by (simp add: PING_PONG_IN_MASK_OFF_def PING_PONG_OUT_MASK_OFF_def sizes)
  then show ?thesis by (simp only: and.assoc)
qed

lemma kernel_args_again: "kernel_args cb (fst (kernel_args cb ops i)) j = kernel_args cb ops j"
proof -
  have "((ops AND NOT 3) OR x) AND NOT 3 = ops AND NOT 3" if "x = 0 \<or> x = 3" for x :: u32
    using that by (auto simp: and.assoc word_ao_dist)
  then show ?thesis by (auto simp: kernel_args_def Let_def mask_off)
qed

lemma three_and_not: "(x AND NOT 3) AND 3 = (0 :: u32)"
proof -
  have "NOT 3 AND 3 = (0 :: u32)" by simp
  then show ?thesis by (simp only: and.assoc and_zero_eq)
qed

lemma kernel_args_like:
  "fst (kernel_args cb w i) AND NOT 3 = w AND NOT 3"
  "fst (kernel_args cb w i) AND 3 = (if i mod 2 \<noteq> 0 then 3 else 0)"
  "args_like w (kernel_args cb w i)"
proof -
  have "((w AND NOT 3) OR x) AND NOT 3 = w AND NOT 3" "((w AND NOT 3) OR x) AND 3 = x" if "x = 0 \<or> x = 3" for x :: u32
    using that by (auto simp: and.assoc word_ao_dist three_and_not)
  then show "fst (kernel_args cb w i) AND NOT 3 = w AND NOT 3"
    "fst (kernel_args cb w i) AND 3 = (if i mod 2 \<noteq> 0 then 3 else 0)"
    by (simp_all add: kernel_args_def Let_def mask_off three_and_not [simplified])
  then show "args_like w (kernel_args cb w i)"
    by (auto simp: args_like_def op_like_def kernel_args_def Let_def mod_2_eq_odd split: if_splits)
qed

lemma args_like_cong: "w AND NOT 3 = w' AND NOT 3 \<Longrightarrow> args_like w a = args_like w' a"
  by (simp add: args_like_def op_like_def)

lemma kernel_args_slot: "arg_in (kernel_args cb w i) = i mod 2" "arg_out (kernel_args cb w i) = slot cb i"
  using kernel_args_like(2) [of cb w i]
  by (auto simp: arg_in_def arg_out_def kernel_args_def Let_def slot_def mod_2_eq_odd split: if_splits)

lemma issued_snoc: "issued (pre @ [a]) = issued pre @ brings a"
  by (simp add: issued_def)

lemma queue_host:
  assumes q: "queue_inv cb n pre s" and t: "todo s = a # as"
  shows "queue_inv cb n (pre @ [a]) (host e cb B a (s\<lparr>todo := as\<rparr>))"
proof -
  have p: "exec_calls cb n = pre @ a # as" using q t by (simp add: queue_inv_def)
  have "in_calls cb n a" using p exec_calls_set [of a cb n] by simp
  then show ?thesis
    using q p unfolding queue_inv_def issued_snoc outstanding_def
    by (cases a) (auto simp: host_frame host_queues in_calls_def split: cmd.splits)
qed

lemma queue_device:
  assumes q: "queue_inv cb n pre s" and t: "pend s = xs @ (c, ds) # ys"
    and u: "todo s' = todo s" "compl s' = compl s" "regd s' = regd s"
  shows "queue_inv cb n pre (s'\<lparr>pend := xs @ ys, compl := compl s @ [c]\<rparr>)"
  using assms by (auto simp: queue_inv_def outstanding_def)

lemma queue_callback:
  assumes q: "queue_inv cb n pre s" and t: "regd s = xs @ i # ys"
  shows "queue_inv cb n pre (s\<lparr>xil := xi, regd := xs @ ys, compl := compl s @ [U i]\<rparr>)"
  using q t by (auto simp: queue_inv_def outstanding_def)

text \<open>What has been issued, and that it is issued once.\<close>

definition sent :: "bool \<Rightarrow> cmd \<Rightarrow> call" where
  "sent cb c = (case c of U i \<Rightarrow> Set_callback i | _ \<Rightarrow> Enq c (deps cb c))"

lemma issued_iff:
  assumes "exec_calls cb n = pre @ rest"
  shows "c \<in> set (issued pre) \<longleftrightarrow> sent cb c \<in> set pre"
proof
  have "c \<in> set (brings (sent cb c))" by (cases c) (simp_all add: sent_def)
  then show "sent cb c \<in> set pre \<Longrightarrow> c \<in> set (issued pre)" by (auto simp: issued_def)
  assume "c \<in> set (issued pre)"
  then obtain a where a: "a \<in> set pre" "c \<in> set (brings a)" by (auto simp: issued_def)
  with taken_in_calls [OF assms a(1)] show "sent cb c \<in> set pre"
    by (cases a) (auto simp: in_calls_def sent_def split: cmd.splits)
qed

lemma issued_distinct:
  assumes "exec_calls cb n = pre @ rest"
  shows "distinct (issued pre)"
  using assms
proof (induction pre arbitrary: rest rule: rev_induct)
  case (snoc a pre)
  then have p: "exec_calls cb n = pre @ a # rest" by simp
  consider "brings a = []" | c where "brings a = [c]" "sent cb c = a"
    using exec_calls_set [of a cb n] p by (cases a) (auto simp: in_calls_def sent_def split: cmd.splits)
  then show ?case
  proof cases
    case 1
    then show ?thesis using snoc.IH [OF p] by (simp add: issued_snoc)
  next
    case 2
    have "c \<notin> set (issued pre)" unfolding issued_iff [OF p] 2(2) by (rule taken_once [OF p])
    then show ?thesis using snoc.IH [OF p] 2(1) by (simp add: issued_snoc)
  qed
qed (simp add: issued_def)

lemma queue_facts:
  assumes "queue_inv cb n pre s"
  shows "c \<in> set (outstanding s) \<or> c \<in> set (compl s) \<longleftrightarrow> sent cb c \<in> set pre"
    and "c \<in> set (outstanding s) \<Longrightarrow> c \<notin> set (compl s)"
    and "(c, ds) \<in> set (pend s) \<Longrightarrow> ds = deps cb c \<and> c \<in> set (outstanding s)"
    and "i \<in> set (regd s) \<Longrightarrow> U i \<in> set (outstanding s)"
proof -
  have p: "exec_calls cb n = pre @ todo s" and m: "mset (outstanding s @ compl s) = mset (issued pre)"
    using assms by (simp_all add: queue_inv_def)
  have "distinct (outstanding s @ compl s)"
    using issued_distinct [OF p] mset_eq_imp_distinct_iff [OF m] by simp
  moreover have "set (outstanding s @ compl s) = set (issued pre)" by (rule mset_eq_setD [OF m])
  ultimately show "c \<in> set (outstanding s) \<or> c \<in> set (compl s) \<longleftrightarrow> sent cb c \<in> set pre"
    "c \<in> set (outstanding s) \<Longrightarrow> c \<notin> set (compl s)"
    unfolding issued_iff [OF p, of c, symmetric] by (simp_all, blast+)
  show "(c, ds) \<in> set (pend s) \<Longrightarrow> ds = deps cb c \<and> c \<in> set (outstanding s)"
    "i \<in> set (regd s) \<Longrightarrow> U i \<in> set (outstanding s)"
    using assms unfolding queue_inv_def outstanding_def by (auto simp: image_iff) (metis fst_conv)+
qed

lemma closedD: "closed cb C \<Longrightarrow> c \<in> set C \<Longrightarrow> d \<in> set (deps cb c) \<Longrightarrow> d \<in> set C"
  by (auto simp: closed_def)

lemma closed_first:
  assumes "closed cb C"
  shows "K i \<in> set C \<Longrightarrow> W i \<in> set C" "R i \<in> set C \<Longrightarrow> K i \<in> set C" "U i \<in> set C \<Longrightarrow> R i \<in> set C"
  using closedD [OF assms, of "K i" "W i"] closedD [OF assms, of "R i" "K i"] closedD [OF assms, of "U i" "R i"]
  by simp_all

text \<open>The commands of earlier blocks of the same parity are complete.\<close>

lemma closed_earlier_all:
  assumes "closed cb C" "j < i" "j mod 2 = i mod 2"
  shows "(W i \<in> set C \<longrightarrow> K j \<in> set C) \<and> (cb \<longrightarrow> K i \<in> set C \<longrightarrow> R j \<in> set C)
    \<and> (cb \<longrightarrow> R i \<in> set C \<longrightarrow> U j \<in> set C)"
  using assms(2,3)
proof (induction i rule: less_induct)
  case (less i)
  have i: "2 \<le> i" "i - 2 < i" "j mod 2 = (i - 2) mod 2" "j = i - 2 \<or> j < i - 2"
  proof -
    have "i \<noteq> Suc j" using less.prems(2) by (auto simp: mod_Suc split: if_splits)
    with less.prems(1) have "j + 2 \<le> i" by simp
    then show "2 \<le> i" "i - 2 < i" "j = i - 2 \<or> j < i - 2" by auto
    then show "j mod 2 = (i - 2) mod 2" using less.prems(2) by (simp add: le_mod_geq)
  qed
  note c = closedD [OF assms(1)] and f = closed_first [OF assms(1)]
  have "W i \<in> set C \<Longrightarrow> K (i - 2) \<in> set C" "cb \<Longrightarrow> K i \<in> set C \<Longrightarrow> R (i - 2) \<in> set C"
    "cb \<Longrightarrow> R i \<in> set C \<Longrightarrow> U (i - 2) \<in> set C"
    using c [of "W i" "K (i - 2)"] c [of "K i" "R (i - 2)"] c [of "R i" "U (i - 2)"] i(1) by simp_all
  moreover have "?case" if "j < i - 2"
    using less.IH [OF i(2) that i(3)] f [of "i - 2"] calculation by blast
  ultimately show ?case using i(4) f(1) [of "i - 2"] by auto
qed

lemma closed_earlier:
  assumes "closed cb C" "j < i" "j mod 2 = i mod 2"
  shows "W i \<in> set C \<Longrightarrow> K j \<in> set C" "cb \<Longrightarrow> K i \<in> set C \<Longrightarrow> R j \<in> set C"
    "cb \<Longrightarrow> R i \<in> set C \<Longrightarrow> U j \<in> set C"
  using closed_earlier_all [OF assms] by blast+

lemma closed_more:
  "closed cb C \<Longrightarrow> set (deps cb c) \<subseteq> set C \<Longrightarrow> closed cb (C @ [c])"
  by (auto simp: closed_def)

lemma args_host:
  assumes q: "args_inv ops pre s" and r: "host_ready e cb a s"
  shows "args_inv ops (pre @ [a]) (host e cb B a (s\<lparr>todo := as\<rparr>))"
proof -
  have h: "h_ops s AND NOT 3 = ops AND NOT 3" using q by (simp add: args_inv_def)
  have l: "args_like ops (kernel_args cb (h_ops s) i)" for i
    using kernel_args_like(3) [of "h_ops s" cb i] args_like_cong [OF h] by simp
  show ?thesis
  proof (cases "\<exists>i. a = Set_args i")
    case True
    then obtain i where a: "a = Set_args i" by blast
    obtain w o0 o1 where k: "kernel_args cb (h_ops s) i = (w, o0, o1)" by (cases "kernel_args cb (h_ops s) i")
    have "w AND NOT 3 = ops AND NOT 3" using kernel_args_like(1) [of cb "h_ops s" i] h k by simp
    then show ?thesis
      using q l [of i] k a by (auto simp: args_inv_def host_queues set_args_def args_like_def split: if_splits)
  next
    case False
    then show ?thesis
      using q r by (cases a; (cases "case a of Enq c ds \<Rightarrow> c | _ \<Rightarrow> W 0")?)
        (auto simp: args_inv_def host_queues args_set_def held_args_def args_like_def)
  qed
qed

lemma args_exact_host:
  assumes q: "args_exact cb ops pre s" and p: "exec_calls cb n = pre @ a # as" and e: "sets_ok e"
  shows "args_exact cb ops (pre @ [a]) (host e cb B a (s\<lparr>todo := as\<rparr>))"
proof -
  have before: "b \<in> set pre \<longleftrightarrow> in_calls cb n b \<and> pos cb n b < pos cb n a" for b
    by (rule taken_before [OF p])
  have "in_calls cb n a" using exec_calls_set [of a cb n] p by simp
  moreover have "set_args (set_ok e i) x ka = all_args x" for i x ka
    using e by (cases x) (simp add: set_args_def all_args_def sets_ok_def)
  moreover have "held_args (k_args s) = kernel_args cb ops j" if "a = Enq (K j) ds" for j ds
  proof -
    have "Set_args j \<in> set pre" "Set_args (Suc j) \<notin> set pre"
      using \<open>in_calls cb n a\<close> that unfolding before by (simp_all add: in_calls_def)
    then have "k_args s = all_args (kernel_args cb ops j)" using q unfolding args_exact_def by blast
    then show ?thesis by (cases "kernel_args cb ops j") (simp add: held_args_def all_args_def)
  qed
  ultimately show ?thesis
    using q
    by (cases a; auto simp: args_exact_def host_frame host_queues kernel_args_again before in_calls_def split: cmd.splits)
qed

section \<open>The blocks\<close>

text \<open>Once its kernel is done, the result \<open>v\<close> of block \<open>i\<close> moves on and is never lost.\<close>

definition kept :: "bool \<Rightarrow> nat \<Rightarrow> 'b \<Rightarrow> 'b pipe \<Rightarrow> bool" where
  "kept cb i v s \<longleftrightarrow>
     K i \<in> set (compl s)
   \<and> (R i \<notin> set (compl s) \<longrightarrow> dout s (slot cb i) = v)
   \<and> (R i \<in> set (compl s) \<longrightarrow> (cb \<longrightarrow> U i \<notin> set (compl s)) \<longrightarrow> hout s (slot cb i) = v)
   \<and> (U i \<in> set (compl s) \<longrightarrow> xil s i = v)"

definition on_time :: "bool \<Rightarrow> (nat \<Rightarrow> 'b) \<Rightarrow> ('b \<Rightarrow> 'b) \<Rightarrow> call list \<Rightarrow> 'b pipe \<Rightarrow> bool" where
  "on_time cb B f pre s \<longleftrightarrow> (\<forall>i.
     (Copy i \<in> set pre \<longrightarrow> W i \<notin> set (compl s) \<longrightarrow> hin s (i mod 2) = B i)
   \<and> (W i \<in> set (compl s) \<longrightarrow> K i \<notin> set (compl s) \<longrightarrow> din s (i mod 2) = B i)
   \<and> (K i \<in> set (compl s) \<longrightarrow> kept cb i (f (B i)) s))"

text \<open>
  What is left to do, when a run has ended, and where the result of a block is found: callbacks
  copy it to the result array, otherwise it stays in the mapping of its output buffer.
\<close>

definition work :: "'b pipe \<Rightarrow> nat" where
  "work s = (if exited s then 0 else 1) + 2 * length (todo s) + length (pend s) + length (regd s)"

definition ended :: "'b pipe \<Rightarrow> bool" where
  "ended s \<longleftrightarrow> todo s = [] \<and> pend s = [] \<and> regd s = []"

definition result_of :: "bool \<Rightarrow> 'b pipe \<Rightarrow> nat \<Rightarrow> 'b" where
  "result_of cb t i = (if cb then xil t i else hout t i)"

text \<open>
  What the loops rely on of the device: the kernel, run with any arguments the loops can have
  set, computes one output buffer from one input buffer.
\<close>

locale device =
  fixes task :: "'d \<Rightarrow> u32 \<times> nat \<times> nat \<Rightarrow> (nat \<Rightarrow> 'b) \<Rightarrow> (nat \<Rightarrow> 'b) \<Rightarrow> (nat \<Rightarrow> 'b) res"
    and good :: "'d \<Rightarrow> u32 \<Rightarrow> bool"
    and ok_in :: "'b \<Rightarrow> bool" and ok_out :: "'b \<Rightarrow> bool"
    and f :: "'d \<Rightarrow> 'b \<Rightarrow> 'b"
  assumes task_law: "good d ops \<Longrightarrow> \<forall>j. ok_in (di j) \<Longrightarrow> \<forall>j. ok_out (dt j) \<Longrightarrow>
      args_like ops a \<Longrightarrow> task d a di dt = Inr (dt(arg_out a := f d (di (arg_in a))))"
    and f_ok: "ok_in b \<Longrightarrow> ok_out (f d b)"
begin

definition bufs_ok :: "'b pipe \<Rightarrow> bool" where
  "bufs_ok s \<longleftrightarrow> (\<forall>j. ok_in (hin s j)) \<and> (\<forall>j. ok_in (din s j)) \<and> (\<forall>j. ok_out (dout s j))"

definition pipe_inv :: "loop_env \<Rightarrow> bool \<Rightarrow> nat \<Rightarrow> u32 \<Rightarrow> call list \<Rightarrow> 'b pipe \<Rightarrow> bool" where
  "pipe_inv e cb n ops pre s \<longleftrightarrow>
     queue_inv cb n pre s \<and> closed cb (compl s) \<and> args_inv ops pre s \<and> bufs_ok s
   \<and> (sets_ok e \<longrightarrow> args_exact cb ops pre s)"

text \<open>The effect of a device command in a state of the invariant.\<close>

definition cmd_effect :: "'d \<Rightarrow> bool \<Rightarrow> cmd \<Rightarrow> 'b pipe \<Rightarrow> 'b pipe" where
  "cmd_effect d cb c s = (case c of
     W i \<Rightarrow> s\<lparr>din := (din s)(i mod 2 := hin s (i mod 2))\<rparr>
   | K i \<Rightarrow> s\<lparr>dout := (dout s)(arg_out (t_args s i) := f d (din s (arg_in (t_args s i))))\<rparr>
   | R i \<Rightarrow> s\<lparr>hout := (hout s)(slot cb i := dout s (slot cb i))\<rparr>
   | U i \<Rightarrow> s)"

lemma run_cmd_effect:
  assumes "pipe_inv e cb n ops pre s" "good d ops" "pend s = xs @ (c, ds) # ys"
  shows "run_cmd task d cb c s = Inr (cmd_effect d cb c s)"
proof (cases c)
  case (K i)
  have q: "queue_inv cb n pre s" using assms(1) by (simp add: pipe_inv_def)
  have "(K i, ds) \<in> set (pend s)" using assms(3) K by simp
  note o = queue_facts(3) [OF q this]
  then have "sent cb (K i) \<in> set pre" using queue_facts(1) [OF q, of "K i"] by blast
  then have "Enq (K i) (deps cb (K i)) \<in> set pre" by (simp add: sent_def)
  then have "args_like ops (t_args s i)"
    using assms(1) unfolding pipe_inv_def args_inv_def by blast
  then show ?thesis
    using task_law [OF assms(2), of "din s" "dout s" "t_args s i"] assms(1) K
    by (simp add: cmd_effect_def pipe_inv_def bufs_ok_def)
qed (simp_all add: cmd_effect_def)

lemma effect_K:
  assumes "pipe_inv e cb n ops pre s" "sets_ok e" "(K i, ds) \<in> set (pend s)"
  shows "cmd_effect d cb (K i) s = s\<lparr>dout := (dout s)(slot cb i := f d (din s (i mod 2)))\<rparr>"
proof -
  have q: "queue_inv cb n pre s" and x: "args_exact cb ops pre s" using assms(1,2) by (simp_all add: pipe_inv_def)
  have "sent cb (K i) \<in> set pre" using queue_facts(1,3) [OF q] assms(3) by blast
  then have "Enq (K i) (deps cb (K i)) \<in> set pre" by (simp add: sent_def)
  then have "t_args s i = kernel_args cb ops i" using x unfolding args_exact_def by blast
  then show ?thesis by (simp add: cmd_effect_def kernel_args_slot)
qed

lemma effect_frame:
  "todo (cmd_effect d cb c s) = todo s" "exited (cmd_effect d cb c s) = exited s" "pend (cmd_effect d cb c s) = pend s"
  "compl (cmd_effect d cb c s) = compl s" "regd (cmd_effect d cb c s) = regd s" "h_ops (cmd_effect d cb c s) = h_ops s"
  "k_args (cmd_effect d cb c s) = k_args s"
  "t_args (cmd_effect d cb c s) = t_args s" "hin (cmd_effect d cb c s) = hin s" "xil (cmd_effect d cb c s) = xil s"
  by (simp_all add: cmd_effect_def split: cmd.split)

text \<open>The invariant holds of every step; the calls taken grow only by steps of the host.\<close>

lemma inv_host:
  assumes "pipe_inv e cb n ops pre s" "todo s = a # as" "\<forall>i < n. ok_in (B i)" "host_ready e cb a s"
  shows "pipe_inv e cb n ops (pre @ [a]) (host e cb B a (s\<lparr>todo := as\<rparr>))"
proof -
  have p: "exec_calls cb n = pre @ a # as" using assms(1,2) by (simp add: pipe_inv_def queue_inv_def)
  have "in_calls cb n a" using p exec_calls_set [of a cb n] by simp
  then have "bufs_ok (host e cb B a (s\<lparr>todo := as\<rparr>))"
    using assms(1,3) by (cases a) (auto simp: pipe_inv_def bufs_ok_def host_frame host_queues in_calls_def)
  then show ?thesis
    using assms queue_host [of cb n pre s a as e B] args_host [of ops pre s e cb a B as]
      args_exact_host [OF _ p, of ops s e B]
    by (simp add: pipe_inv_def host_frame)
qed

lemma inv_device:
  assumes "pipe_inv e cb n ops pre s" "pend s = xs @ (c, ds) # ys" "set ds \<subseteq> set (compl s)"
  shows "pipe_inv e cb n ops pre ((cmd_effect d cb c s)\<lparr>pend := xs @ ys, compl := compl s @ [c]\<rparr>)"
proof -
  have q: "queue_inv cb n pre s" using assms(1) by (simp add: pipe_inv_def)
  have "ds = deps cb c" using queue_facts(3) [OF q, of c ds] assms(2) by simp
  then have "closed cb (compl s @ [c])" using assms(1,3) by (simp add: pipe_inv_def closed_more)
  moreover have "bufs_ok (cmd_effect d cb c s)"
    using assms(1) by (auto simp: pipe_inv_def bufs_ok_def cmd_effect_def f_ok split: cmd.split)
  ultimately show ?thesis
    using assms(1) queue_device [OF q assms(2), of "cmd_effect d cb c s"]
    by (simp add: pipe_inv_def effect_frame args_inv_def args_exact_def bufs_ok_def)
qed

lemma inv_callback:
  assumes "pipe_inv e cb n ops pre s" "regd s = xs @ i # ys" "R i \<in> set (compl s)"
  shows "pipe_inv e cb n ops pre (s\<lparr>xil := xi, regd := xs @ ys, compl := compl s @ [U i]\<rparr>)"
  using assms queue_callback [of cb n pre s xs i ys xi] closed_more [of cb "compl s" "U i"]
  by (simp add: pipe_inv_def args_inv_def args_exact_def bufs_ok_def)

lemma inv_step:
  assumes "pipe_step task d B cb e s s'" "pipe_inv e cb n ops pre s" "good d ops" "\<forall>i < n. ok_in (B i)"
  shows "\<exists>pre'. pipe_inv e cb n ops pre' s'"
  using assms(1)
proof cases
  case (step_host a as)
  then show ?thesis using inv_host [OF assms(2) _ assms(4), of a as] by blast
next
  case (step_exit a as)
  then show ?thesis
    using assms(2) by (auto simp: pipe_inv_def queue_inv_def args_inv_def args_exact_def bufs_ok_def outstanding_def intro!: exI [of _ pre])
next
  case (step_device xs c ds ys s1)
  then show ?thesis
    using inv_device [OF assms(2), of xs c ds ys d] run_cmd_effect [OF assms(2,3), of xs c ds ys] by auto
next
  case (step_callback xs i ys)
  then show ?thesis using inv_callback [OF assms(2), of xs i ys] by blast
qed


lemma kept_device:
  assumes i: "pipe_inv e cb n ops pre s" and p: "pend s = xs @ (c, ds) # ys" "set ds \<subseteq> set (compl s)"
    and k: "kept cb j v s" and so: "sets_ok e"
  shows "kept cb j v ((cmd_effect d cb c s)\<lparr>pend := xs @ ys, compl := compl s @ [c]\<rparr>)"
proof -
  have q: "queue_inv cb n pre s" and cl: "closed cb (compl s)" using i by (simp_all add: pipe_inv_def)
  have m: "(c, ds) \<in> set (pend s)" using p(1) by simp
  have o: "ds = deps cb c" "c \<in> set (outstanding s)" using queue_facts(3) [OF q m] by simp_all
  have nc: "c \<notin> set (compl s)" by (rule queue_facts(2) [OF q o(2)])
  have nU: "c \<noteq> U x" for x using q m by (auto simp: queue_inv_def)
  note e = closed_earlier [OF cl] and f = closed_first [OF cl]
  show ?thesis
  proof (cases c)
    case (W x)
    then show ?thesis using k by (simp add: kept_def cmd_effect_def)
  next
    case (U x)
    then show ?thesis using nU by simp
  next
    case (K x)
    have "slot cb x \<noteq> slot cb j" if r: "R j \<notin> set (compl s)"
    proof
      assume sl: "slot cb x = slot cb j"
      have kj: "K j \<in> set (compl s)" using k by (simp add: kept_def)
      then have "x \<noteq> j" using nc K by auto
      with sl have cb: cb "x mod 2 = j mod 2" by (auto simp: slot_def split: if_splits)
      show False
      proof (cases "j < x")
        case True
        then have "x \<noteq> Suc j" using cb(2) by (auto simp: mod_Suc split: if_splits)
        with True have x: "j = x - 2 \<or> j < x - 2" "2 \<le> x" by auto
        then have "R (x - 2) \<in> set (compl s)" using p(2) o(1) K cb(1) by simp
        then have "R j \<in> set (compl s)"
          using x e(2) [of j "x - 2"] cb f(2) by (auto simp: le_mod_geq)
        then show False using r by simp
      next
        case False
        then show False using e(1) [of x j] f(1) [OF kj] cb \<open>x \<noteq> j\<close> nc K by simp
      qed
    qed
    then show ?thesis using k K effect_K [OF i so, of x ds d] m by (auto simp: kept_def)
  next
    case (R x)
    have "slot cb x \<noteq> slot cb j" if r: "R j \<in> set (compl s)" "cb \<longrightarrow> U j \<notin> set (compl s)"
    proof
      assume sl: "slot cb x = slot cb j"
      have "x \<noteq> j" using nc R r(1) by auto
      with sl have cb: cb "x mod 2 = j mod 2" by (auto simp: slot_def split: if_splits)
      show False
      proof (cases "j < x")
        case True
        then have "x \<noteq> Suc j" using cb(2) by (auto simp: mod_Suc split: if_splits)
        with True have x: "j = x - 2 \<or> j < x - 2" "2 \<le> x" by auto
        then have "U (x - 2) \<in> set (compl s)" using p(2) o(1) R cb(1) by simp
        then have "U j \<in> set (compl s)"
          using x e(3) [of j "x - 2"] cb f(3) by (auto simp: le_mod_geq)
        then show False using r(2) cb(1) by simp
      next
        case False
        then show False using e(2) [of x j] f(2) [OF r(1)] cb \<open>x \<noteq> j\<close> nc R by simp
      qed
    qed
    then show ?thesis using k R f(3) [of j] by (auto simp: kept_def cmd_effect_def)
  qed
qed

lemma kept_callback:
  assumes i: "pipe_inv e cb n ops pre s" and p: "regd s = xs @ x # ys" "R x \<in> set (compl s)"
    and k: "kept cb j v s"
  shows "kept cb j v (s\<lparr>xil := (xil s)(x := hout s (slot cb x)), regd := xs @ ys, compl := compl s @ [U x]\<rparr>)"
proof -
  have q: "queue_inv cb n pre s" using i by (simp add: pipe_inv_def)
  have "U x \<notin> set (compl s)" using queue_facts(2,4) [OF q] p(1) by simp
  then show ?thesis using k p(2) by (auto simp: kept_def)
qed

lemma kept_step:
  assumes "pipe_step task d B cb e s s'" "pipe_inv e cb n ops pre s" "good d ops" "kept cb j v s" "sets_ok e"
  shows "kept cb j v s'"
  using assms(1)
proof cases
  case (step_host a as)
  then show ?thesis using assms(4) by (simp add: kept_def host_frame)
next
  case (step_exit a as)
  then show ?thesis using assms(4) by (simp add: kept_def)
next
  case (step_device xs c ds ys s1)
  then show ?thesis
    using kept_device [OF assms(2) _ _ assms(4,5), of xs c ds ys d] run_cmd_effect [OF assms(2,3), of xs c ds ys] by auto
next
  case (step_callback xs i ys)
  then show ?thesis using kept_callback [OF assms(2) _ _ assms(4)] by simp
qed


lemma on_time_host:
  assumes i: "pipe_inv e cb n ops pre s" and t: "todo s = a # as" and o: "on_time cb B g pre s"
    and w: "\<And>i. a = Copy i \<Longrightarrow> 2 \<le> i \<Longrightarrow> W (i - 2) \<in> set (compl s)"
  shows "on_time cb B g (pre @ [a]) (host e cb B a (s\<lparr>todo := as\<rparr>))"
proof -
  have cl: "closed cb (compl s)" using i by (simp add: pipe_inv_def)
  have "hin (host e cb B a (s\<lparr>todo := as\<rparr>)) (j mod 2) = B j"
    if c: "Copy j \<in> set (pre @ [a])" "W j \<notin> set (compl s)" for j
  proof (cases "\<exists>x. a = Copy x \<and> x \<noteq> j \<and> x mod 2 = j mod 2")
    case True
    then obtain x where x: "a = Copy x" "x \<noteq> j" "x mod 2 = j mod 2" by blast
    have p: "exec_calls cb n = pre @ Copy x # as" using i t x(1) by (simp add: pipe_inv_def queue_inv_def)
    have "j < x" using taken_before [OF p, of "Copy j"] c(1) x by auto
    moreover have "x \<noteq> Suc j" using x(3) by (auto simp: mod_Suc split: if_splits)
    ultimately have x2: "j = x - 2 \<or> j < x - 2" "2 \<le> x" by auto
    have "W (x - 2) \<in> set (compl s)" by (rule w [OF x(1) x2(2)])
    then have "W j \<in> set (compl s)"
      using x2 closed_earlier(1) [OF cl, of j "x - 2"] closed_first(1) [OF cl, of j] x(3) by (auto simp: le_mod_geq)
    then show ?thesis using c(2) by simp
  next
    case False
    then show ?thesis
      using c o by (cases a) (auto simp: host_queues on_time_def)
  qed
  moreover have "kept cb j v (host e cb B a (s\<lparr>todo := as\<rparr>)) = kept cb j v s" for j v
    by (simp add: kept_def host_frame)
  ultimately show ?thesis using o by (simp add: on_time_def host_frame)
qed

lemma on_time_device:
  assumes i: "pipe_inv e cb n ops pre s" and p: "pend s = xs @ (c, ds) # ys" "set ds \<subseteq> set (compl s)"
    and o: "on_time cb B (f d) pre s" and e: "sets_ok e"
  shows "on_time cb B (f d) pre ((cmd_effect d cb c s)\<lparr>pend := xs @ ys, compl := compl s @ [c]\<rparr>)"
    (is "on_time _ _ _ _ ?s'")
proof -
  have q: "queue_inv cb n pre s" and cl: "closed cb (compl s)" using i by (simp_all add: pipe_inv_def)
  have m: "(c, ds) \<in> set (pend s)" using p(1) by simp
  have od: "ds = deps cb c" "c \<in> set (outstanding s)" using queue_facts(3) [OF q m] by simp_all
  have nc: "c \<notin> set (compl s)" by (rule queue_facts(2) [OF q od(2)])
  have nU: "c \<noteq> U x" for x using q m by (auto simp: queue_inv_def)
  have kp: "kept cb j (f d (B j)) ?s'" if "K j \<in> set (compl s)" for j
    using kept_device [OF i p _ e, of j "f d (B j)" d] o that by (simp add: on_time_def)
  have k: "kept cb j (f d (B j)) ?s'" if "K j \<in> set (compl s @ [c])" for j
  proof (cases "c = K j")
    case True
    have w: "W j \<in> set (compl s)" using p(2) od(1) True by simp
    have "R j \<notin> set (compl s)" "U j \<notin> set (compl s)"
      using closed_first(2,3) [OF cl, of j] nc True by auto
    then show ?thesis using o w nc True m effect_K [OF i e, of j ds d] by (simp add: on_time_def kept_def)
  next
    case False
    then show ?thesis using kp that by simp
  qed
  have di: "din ?s' (j mod 2) = B j" if j: "W j \<in> set (compl s @ [c])" "K j \<notin> set (compl s @ [c])" for j
  proof (cases c)
    case (W x)
    have pre: "exec_calls cb n = pre @ todo s" using q by (simp add: queue_inv_def)
    have sx: "sent cb (W x) \<in> set pre" using queue_facts(1) [OF q, of "W x"] od(2) W by simp
    then have "in_calls cb n (Enq (W x) (deps cb (W x)))"
      using taken_in_calls [OF pre] by (simp add: sent_def)
    then have cx: "Copy x \<in> set pre"
      using taken_closed [OF pre sx, of "Copy x"] by (simp add: sent_def in_calls_def)
    show ?thesis
    proof (cases "x mod 2 = j mod 2 \<and> x \<noteq> j")
      case True
      show ?thesis
      proof (cases "j < x")
        case True
        with \<open>x mod 2 = j mod 2 \<and> x \<noteq> j\<close> have "x \<noteq> Suc j" by (auto simp: mod_Suc split: if_splits)
        with True have x: "j = x - 2 \<or> j < x - 2" "2 \<le> x" by auto
        then have "K (x - 2) \<in> set (compl s)" using p(2) od(1) W by simp
        then have "K j \<in> set (compl s)"
          using x closed_earlier(1) [OF cl, of j "x - 2"] closed_first(1) [OF cl, of "x - 2"]
            \<open>x mod 2 = j mod 2 \<and> x \<noteq> j\<close> by (auto simp: le_mod_geq)
        then show ?thesis using j(2) by simp
      next
        case False
        then show ?thesis
          using closed_earlier(1) [OF cl, of x j] closed_first(1) [OF cl, of x] True j(1) nc W by auto
      qed
    next
      case False
      then show ?thesis
        using o cx nc W j by (auto simp: on_time_def cmd_effect_def)
    qed
  next
    case (K x)
    then show ?thesis using o j by (simp add: on_time_def cmd_effect_def)
  next
    case (R x)
    then show ?thesis using o j by (simp add: on_time_def cmd_effect_def)
  next
    case (U x)
    then show ?thesis using nU by simp
  qed
  have "hin ?s' = hin s" by (simp add: effect_frame)
  then show ?thesis using o k di by (simp add: on_time_def)
qed

lemma on_time_callback:
  assumes i: "pipe_inv e cb n ops pre s" and p: "regd s = xs @ x # ys" "R x \<in> set (compl s)"
    and o: "on_time cb B g pre s"
  shows "on_time cb B g pre (s\<lparr>xil := (xil s)(x := hout s (slot cb x)), regd := xs @ ys, compl := compl s @ [U x]\<rparr>)"
  using o kept_callback [OF i p] by (simp add: on_time_def)

lemma timely_step:
  assumes "pipe_step task d B cb e s s'" "pipe_inv e cb n ops pre s" "good d ops" "\<forall>i < n. ok_in (B i)"
    and "on_time cb B (f d) pre s" "timely e" "sets_ok e"
  shows "\<exists>pre'. pipe_inv e cb n ops pre' s' \<and> on_time cb B (f d) pre' s'"
  using assms(1)
proof cases
  case (step_host a as)
  then show ?thesis
    using inv_host [OF assms(2) _ assms(4), of a as] on_time_host [OF assms(2) _ assms(5), of a as] assms(6) by blast
next
  case (step_exit a as)
  then show ?thesis
    using assms(2,5)
    by (auto simp: pipe_inv_def queue_inv_def args_inv_def args_exact_def bufs_ok_def outstanding_def on_time_def kept_def intro!: exI [of _ pre])
next
  case (step_device xs c ds ys s1)
  then show ?thesis
    using inv_device [OF assms(2), of xs c ds ys d] run_cmd_effect [OF assms(2,3), of xs c ds ys]
      on_time_device [OF assms(2) _ _ assms(5,7), of xs c ds ys] by auto
next
  case (step_callback xs i ys)
  then show ?thesis
    using inv_callback [OF assms(2), of xs i ys] on_time_callback [OF assms(2) _ _ assms(5), of xs i ys] by blast
qed

text \<open>Reachable states.\<close>

definition started :: "bool \<Rightarrow> nat \<Rightarrow> u32 \<Rightarrow> (nat \<Rightarrow> 'b) \<Rightarrow> 'd \<Rightarrow> 'b pipe \<Rightarrow> bool" where
  "started cb n ops B d s \<longleftrightarrow> good d ops \<and> (\<forall>i < n. ok_in (B i))
     \<and> (\<exists>hi di dt ho xi. s = exec_start cb n ops hi di dt ho xi \<and> (\<forall>j. ok_in (hi j)) \<and> (\<forall>j. ok_in (di j)) \<and> (\<forall>j. ok_out (dt j)))"

lemma inv_start:
  assumes "started cb n ops B d s"
  shows "pipe_inv e cb n ops [] s \<and> on_time cb B g [] s"
  using assms
  by (auto simp: started_def exec_start_def pipe_inv_def queue_inv_def closed_def args_inv_def args_exact_def bufs_ok_def
      on_time_def outstanding_def issued_def)

lemma reach_inv:
  assumes "reach task d B cb e s t" "good d ops" "\<forall>i < n. ok_in (B i)" "pipe_inv e cb n ops pre s"
  shows "\<exists>pre'. pipe_inv e cb n ops pre' t"
  using assms
proof (induction rule: reach.induct)
  case (reach_step s t u)
  then show ?case using inv_step by blast
qed blast

lemma reach_kept:
  assumes "reach task d B cb e s t" "good d ops" "\<forall>i < n. ok_in (B i)" "pipe_inv e cb n ops pre s" "kept cb j v s"
    and "sets_ok e"
  shows "kept cb j v t"
  using assms
proof (induction rule: reach.induct)
  case (reach_step s t u)
  then obtain pre' where "pipe_inv e cb n ops pre' t" using reach_inv by blast
  then show ?case using kept_step [OF reach_step.hyps(2)] reach_step by blast
qed

lemma reach_on_time:
  assumes "reach task d B cb e s t" "good d ops" "\<forall>i < n. ok_in (B i)" "pipe_inv e cb n ops pre s" "on_time cb B (f d) pre s"
    and "timely e" "sets_ok e"
  shows "\<exists>pre'. pipe_inv e cb n ops pre' t \<and> on_time cb B (f d) pre' t"
  using assms
proof (induction rule: reach.induct)
  case (reach_step s t u)
  then show ?case using timely_step by blast
qed blast


text \<open>Every step uses up work, so every run ends; and a run that has not ended can go on.\<close>

lemma work_decreases:
  assumes "pipe_step task d B cb e s s'"
  shows "work s' < work s"
  using assms
proof cases
  case (step_host a as)
  then show ?thesis by (cases a) (auto simp: work_def host_frame host_queues)
next
  case (step_device xs c ds ys s1)
  then show ?thesis using run_cmd_frame [OF step_device(5)] by (simp add: work_def)
qed (simp_all add: work_def)

lemma device_can:
  assumes i: "pipe_inv e cb n ops pre s" and g: "good d ops" and x: "\<not> exited s" and p: "pend s \<noteq> []"
    and str: "\<not> stray e cb s"
  shows "\<exists>s'. pipe_step task d B cb e s s' \<and> \<not> exited s' \<and> xil s' (n - 1) = xil s (n - 1)"
proof -
  have q: "queue_inv cb n pre s" and cl: "closed cb (compl s)" using i by (simp_all add: pipe_inv_def)
  have pre: "exec_calls cb n = pre @ todo s" using q by (simp add: queue_inv_def)
  let ?rank = "\<lambda>c. case c of W i \<Rightarrow> 4 * i | K i \<Rightarrow> 4 * i + 1 | R i \<Rightarrow> 4 * i + 2 | U i \<Rightarrow> 4 * i + (3 :: nat)"
  have "outstanding s \<noteq> []" using p by (simp add: outstanding_def)
  then obtain c where c: "c \<in> set (outstanding s)" "\<And>b. b \<in> set (outstanding s) \<Longrightarrow> ?rank c \<le> ?rank b"
    using ex_min_if_finite [of "?rank ` set (outstanding s)"] by (fastforce simp: not_less)
  have sc: "sent cb c \<in> set pre" using queue_facts(1) [OF q, of c] c(1) by simp
  have ic: "in_calls cb n (sent cb c)" by (rule taken_in_calls [OF pre sc])
  have d: "set (deps cb c) \<subseteq> set (compl s)"
  proof
    fix b assume b: "b \<in> set (deps cb c)"
    have r: "?rank b < ?rank c" using b by (cases c) (auto split: if_splits)
    have "in_calls cb n (sent cb b) \<and> pos cb n (sent cb b) < pos cb n (sent cb c)"
      using b ic by (cases c) (auto simp: sent_def in_calls_def split: if_splits)
    then have "sent cb b \<in> set pre" using taken_closed [OF pre sc] by blast
    then show "b \<in> set (compl s)" using queue_facts(1) [OF q, of b] c(2) [of b] r by auto
  qed
  show ?thesis
  proof (cases "\<exists>j. c = U j")
    case True
    then obtain j where j: "c = U j" by blast
    then have "j \<in> set (regd s)" using c(1) q unfolding outstanding_def queue_inv_def by fastforce
    then obtain xs ys where "regd s = xs @ j # ys" by (meson split_list)
    moreover have "j \<noteq> n - 1"
    proof -
      obtain b ds where b: "(b, ds) \<in> set (pend s)" using p by (cases "pend s") auto
      have bo: "b \<in> set (outstanding s)" using queue_facts(3) [OF q b] by simp
      then have "in_calls cb n (sent cb b)" using queue_facts(1) [OF q] taken_in_calls [OF pre] by blast
      moreover have "b \<noteq> U y" for y using q b by (auto simp: queue_inv_def)
      ultimately show ?thesis using c(2) [OF bo] j by (cases b) (auto simp: sent_def in_calls_def)
    qed
    moreover have "out_map e (slot cb j)"
      using str x d j \<open>j \<in> set (regd s)\<close> by (auto simp: stray_def)
    ultimately show ?thesis using pipe_step.step_callback [OF x, of xs j ys e cb task d B] d j x by fastforce
  next
    case False
    then obtain ds where "(c, ds) \<in> set (pend s)" using c(1) by (auto simp: outstanding_def)
    then obtain xs ys where s: "pend s = xs @ (c, ds) # ys" by (meson split_list)
    then have "ds = deps cb c" using queue_facts(3) [OF q, of c ds] by simp
    with pipe_step.step_device [OF x s _ run_cmd_effect [OF i g s]] d x show ?thesis
      by (fastforce simp: effect_frame)
  qed
qed

text \<open>When nothing is missing, every call but a wait returns, and the program does not stray.\<close>

lemma call_ready:
  assumes i: "pipe_inv e cb n ops pre s" and t: "todo s = a # as" and e: "env_ok cb n e"
    and a: "a \<noteq> Finish_queue" "\<forall>c. a \<noteq> Wait_for c"
  shows "host_ready e cb a s"
proof -
  have pre: "exec_calls cb n = pre @ a # as" and x: "args_exact cb ops pre s"
    using i t e by (simp_all add: pipe_inv_def queue_inv_def env_ok_def)
  have ia: "in_calls cb n a" using exec_calls_set [of a cb n] pre by simp
  show ?thesis
  proof (cases "\<exists>j ds. a = Enq (K j) ds")
    case True
    then obtain j ds where K: "a = Enq (K j) ds" by blast
    then have "Set_args j \<in> set pre" "Set_args (Suc j) \<notin> set pre"
      using ia unfolding taken_before [OF pre] by (simp_all add: in_calls_def)
    then have "k_args s = all_args (kernel_args cb ops j)" using x unfolding args_exact_def by blast
    then show ?thesis
      using K by (cases "kernel_args cb ops j") (simp add: args_set_def all_args_def)
  next
    case False
    then show ?thesis
      using ia e a by (cases a; (cases "case a of Enq c ds \<Rightarrow> c | _ \<Rightarrow> W 0")?) (auto simp: in_calls_def env_ok_def)
  qed
qed

lemma not_stray:
  assumes i: "pipe_inv e cb n ops pre s" and e: "env_ok cb n e"
  shows "\<not> stray e cb s"
proof -
  have q: "queue_inv cb n pre s" using i by (simp add: pipe_inv_def)
  then have pre: "exec_calls cb n = pre @ todo s" by (simp add: queue_inv_def)
  have "j < n" if "j \<in> set (regd s)" for j
  proof -
    have "sent cb (U j) \<in> set pre" using queue_facts(1,4) [OF q] that by blast
    from taken_in_calls [OF pre this] show ?thesis by (simp add: sent_def in_calls_def)
  qed
  then show ?thesis
    using e by (auto simp: stray_def env_ok_def split: list.splits call.splits)
qed

lemma host_can:
  assumes i: "pipe_inv e cb n ops pre s" and x: "\<not> exited s" and p: "pend s = []" and t: "todo s \<noteq> []"
    and str: "\<not> stray e cb s"
  shows "\<exists>s'. pipe_step task d B cb e s s' \<and> xil s' = xil s \<and> (env_ok cb n e \<longrightarrow> \<not> exited s')"
proof -
  have q: "queue_inv cb n pre s" using i by (simp add: pipe_inv_def)
  have fin: "c \<in> set (compl s)" if "sent cb c \<in> set pre" "\<forall>j. c \<noteq> U j" for c
    using queue_facts(1) [OF q, of c] that p by (auto simp: outstanding_def)
  obtain a as where Cons: "todo s = a # as" using t by (cases "todo s") auto
  have pre: "exec_calls cb n = pre @ a # as" using q Cons by (simp add: queue_inv_def)
  have ia: "in_calls cb n a" using exec_calls_set [of a cb n] pre by simp
  note b = taken_before [OF pre]
  have w: "W (j - 2) \<in> set (compl s)" if "a = Copy j" "2 \<le> j" for j
  proof (rule fin)
    show "sent cb (W (j - 2)) \<in> set pre"
      unfolding b using that ia by (simp add: sent_def in_calls_def, linarith)
  qed simp
  show ?thesis
  proof (cases "host_ready e cb a s")
    case True
    then have "pipe_step task d B cb e s (host e cb B a (s\<lparr>todo := as\<rparr>))"
      using w by (intro pipe_step.step_host [OF x Cons]) simp_all
    then show ?thesis using x by (auto simp: host_frame)
  next
    case False
    have nw: "a \<noteq> Finish_queue" "\<forall>c. a \<noteq> Wait_for c"
    proof -
      show "a \<noteq> Finish_queue" using False p by auto
      have "c \<in> set (compl s)" if "a = Wait_for c" for c
        using that ia fin [of c] unfolding b by (cases c) (auto simp: in_calls_def sent_def)
      then show "\<forall>c. a \<noteq> Wait_for c" using False by auto
    qed
    then have "checked a"
      using False str Cons x by (cases a) (auto simp: checked_def stray_def)
    from pipe_step.step_exit [OF x Cons this] call_ready [OF i Cons _ nw] False show ?thesis by fastforce
  qed
qed

lemma callback_can:
  assumes i: "pipe_inv e cb n ops pre s" and x: "\<not> exited s" and p: "pend s = []" and r: "regd s \<noteq> []"
    and str: "\<not> stray e cb s"
  shows "\<exists>s'. pipe_step task d B cb e s s' \<and> \<not> exited s'"
proof -
  have q: "queue_inv cb n pre s" using i by (simp add: pipe_inv_def)
  then have pre: "exec_calls cb n = pre @ todo s" by (simp add: queue_inv_def)
  obtain j ys where r: "regd s = [] @ j # ys" using r by (cases "regd s") auto
  then have "U j \<in> set (outstanding s)" by (simp add: outstanding_def)
  then have "sent cb (U j) \<in> set pre" using queue_facts(1) [OF q] by blast
  then have "sent cb (R j) \<in> set pre"
    using taken_closed [OF pre, of "sent cb (U j)" "sent cb (R j)"] taken_in_calls [OF pre, of "sent cb (U j)"]
    by (simp add: sent_def in_calls_def)
  then have "R j \<in> set (compl s)" using queue_facts(1) [OF q, of "R j"] p by (auto simp: outstanding_def)
  moreover from this have "out_map e (slot cb j)" using str x r by (auto simp: stray_def)
  ultimately show ?thesis using pipe_step.step_callback [OF x r] x by fastforce
qed

lemma progress:
  assumes "pipe_inv e cb n ops pre s" "good d ops" "\<not> exited s" "\<not> ended s" "\<not> stray e cb s"
  shows "\<exists>s'. pipe_step task d B cb e s s' \<and> (env_ok cb n e \<longrightarrow> \<not> exited s')"
  using assms(4) device_can [OF assms(1,2,3) _ assms(5)] host_can [OF assms(1,3) _ _ assms(5)]
    callback_can [OF assms(1,3) _ _ assms(5)]
  unfolding ended_def by blast

lemma reach_trans:
  assumes "reach task d B cb e t u" "reach task d B cb e s t"
  shows "reach task d B cb e s u"
  using assms by (induction rule: reach.induct) (auto intro: reach.intros)

lemma can_end:
  assumes "pipe_inv e cb n ops pre s" "good d ops" "\<forall>i < n. ok_in (B i)" "\<not> exited s"
  shows "\<exists>t. reach task d B cb e s t \<and> (exited t \<or> stray e cb t \<or> ended t) \<and> (env_ok cb n e \<longrightarrow> ended t \<and> \<not> exited t)"
  using assms(1,4)
proof (induction "work s" arbitrary: s pre rule: less_induct)
  case less
  show ?case
  proof (cases "ended s \<or> stray e cb s")
    case True
    then show ?thesis using less.prems not_stray by (blast intro: reach_refl)
  next
    case False
    then obtain s' where s': "pipe_step task d B cb e s s'" "env_ok cb n e \<longrightarrow> \<not> exited s'"
      using progress [OF less.prems(1) assms(2) less.prems(2)] by blast
    have r: "reach task d B cb e s s'" by (rule reach_step [OF reach_refl s'(1)])
    show ?thesis
    proof (cases "exited s'")
      case True
      then show ?thesis using r s'(2) by blast
    next
      case False
      obtain pre' where "pipe_inv e cb n ops pre' s'" using inv_step [OF s'(1) less.prems(1) assms(2,3)] by blast
      from less.hyps [OF work_decreases [OF s'(1)] this False] r show ?thesis by (blast intro: reach_trans)
    qed
  qed
qed

text \<open>The loop can also return with the last callback still to come.\<close>

lemma can_return:
  assumes "pipe_inv e cb n ops pre s" "good d ops" "\<forall>i < n. ok_in (B i)" "\<not> exited s" "env_ok cb n e"
  shows "\<exists>t. reach task d B cb e s t \<and> todo t = [] \<and> pend t = [] \<and> \<not> exited t \<and> xil t (n - 1) = xil s (n - 1)"
  using assms(1,4)
proof (induction "work s" arbitrary: s pre rule: less_induct)
  case less
  show ?case
  proof (cases "todo s = [] \<and> pend s = []")
    case True
    then show ?thesis using less.prems(2) by (blast intro: reach_refl)
  next
    case False
    then obtain s' where s': "pipe_step task d B cb e s s'" "\<not> exited s'" "xil s' (n - 1) = xil s (n - 1)"
      using device_can [OF less.prems(1) assms(2) less.prems(2) _ not_stray [OF less.prems(1) assms(5)]]
        host_can [OF less.prems(1,2) _ _ not_stray [OF less.prems(1) assms(5)]] assms(5) by metis
    obtain pre' where "pipe_inv e cb n ops pre' s'" using inv_step [OF s'(1) less.prems(1) assms(2,3)] by blast
    then obtain t where t: "reach task d B cb e s' t" "todo t = []" "pend t = []" "\<not> exited t"
        "xil t (n - 1) = xil s' (n - 1)"
      using less.hyps [OF work_decreases [OF s'(1)] _ s'(2)] by blast
    have "reach task d B cb e s t"
      by (rule reach_trans [OF t(1) reach_step [OF reach_refl s'(1)]])
    then show ?thesis using t(2-) s'(3) by auto
  qed
qed

text \<open>When the loop has returned, the queue is empty.\<close>

lemma reach_flushed:
  assumes "reach task d B cb e s t" "good d ops" "\<forall>i < n. ok_in (B i)" "pipe_inv e cb n ops pre s"
    and "todo s \<noteq> []" "todo t = []"
  shows "pend t = []"
proof -
  have "todo t = [] \<longrightarrow> pend t = []"
    using assms(1-5)
  proof (induction rule: reach.induct)
    case (reach_step s t u)
    then obtain pre' where i: "pipe_inv e cb n ops pre' t" using reach_inv by blast
    show ?case
      using reach_step.hyps(2)
    proof cases
      case (step_host a as)
      show ?thesis
      proof
        assume "todo u = []"
        then have "todo t = [a]" using step_host by (simp add: host_frame)
        then have "exec_calls cb n = pre' @ [a]" using i by (simp add: pipe_inv_def queue_inv_def)
        then have "a = Finish_queue" by (simp add: exec_calls_def)
        then show "pend u = []" using step_host by (simp add: host_queues)
      qed
    next
      case (step_exit a as)
      then show ?thesis by simp
    next
      case (step_device xs c ds ys s1)
      then show ?thesis using reach_step run_cmd_frame [OF step_device(5)] by simp
    next
      case (step_callback xs i ys)
      then show ?thesis using reach_step by simp
    qed
  qed simp
  then show ?thesis using assms(6) by blast
qed

lemma kept_got:
  assumes "pipe_inv e cb n ops pre t" "todo t = []" "pend t = []" "cb \<longrightarrow> regd t = []" "i < n" "K i \<in> set (compl t) \<Longrightarrow> kept cb i v t"
  shows "result_of cb t i = v"
proof -
  have q: "queue_inv cb n pre t" and cl: "closed cb (compl t)" using assms(1) by (simp_all add: pipe_inv_def)
  have pre: "exec_calls cb n = pre" using q assms(2) by (simp add: queue_inv_def)
  have o: "c \<in> set (compl t)" if "in_calls cb n (sent cb c)" "(\<exists>j. c = U j) \<longrightarrow> cb" for c
    using that queue_facts(1) [OF q, of c] assms(3,4) exec_calls_set [of "sent cb c" cb n] pre
    by (auto simp: outstanding_def)
  have "R i \<in> set (compl t)" "cb \<Longrightarrow> U i \<in> set (compl t)"
    using o [of "R i"] o [of "U i"] assms(5) by (simp_all add: sent_def in_calls_def)
  then show ?thesis
    using assms(6) closed_first(2) [OF cl] q by (auto simp: kept_def result_of_def slot_def)
qed


lemma exec_correct:
  assumes "started cb n ops B d s" "reach task d B cb e s t" "todo t = []" "cb \<longrightarrow> regd t = []" "i < n"
    and "timely e" "sets_ok e"
  shows "result_of cb t i = f d (B i)"
proof -
  have g: "good d ops" "\<forall>i < n. ok_in (B i)" and t0: "todo s \<noteq> []"
    using assms(1) by (auto simp: started_def exec_start_def exec_calls_def)
  note s = inv_start [OF assms(1), of _ "f d"]
  obtain pre where pre: "pipe_inv e cb n ops pre t" "on_time cb B (f d) pre t"
    using reach_on_time [OF assms(2) g _ _ assms(6,7)] s by blast
  have "pend t = []" using reach_flushed [OF assms(2) g _ t0 assms(3)] s by blast
  from kept_got [OF pre(1) assms(3) this assms(4,5)] pre(2) show ?thesis
    unfolding on_time_def by blast
qed

lemma exec_ends:
  assumes "started cb n ops B d s" "env_ok cb n e"
  shows "\<exists>t. reach task d B cb e s t \<and> ended t \<and> \<not> exited t"
  using can_end [of e cb n ops "[]" s d B] inv_start [OF assms(1)] assms
  by (auto simp: started_def exec_start_def)

lemma exec_loses_last:
  assumes "started True n ops B d s" "0 < n" "env_ok True n e"
  shows "\<exists>t. reach task d B True e s t \<and> todo t = [] \<and> \<not> exited t \<and> result_of True t (n - 1) = xil s (n - 1)"
  using can_return [of e True n ops "[]" s d B] inv_start [OF assms(1)] assms(1,3)
  by (auto simp: started_def exec_start_def result_of_def)

text \<open>A host that is not held up by the device copies block 2 over block 0.\<close>

lemma host_run:
  assumes "\<not> exited s" "todo s = as @ rest" "\<forall>a \<in> set as. a \<noteq> Finish_queue \<and> (\<forall>c. a \<noteq> Wait_for c)"
    and "pipe_inv e cb n ops pre s" "\<forall>i < n. ok_in (B i)" "env_ok cb n e" "\<not> timely e"
  shows "\<exists>t. reach task d B cb e s t \<and> todo t = rest \<and> \<not> exited t \<and> compl t = compl s"
  using assms(1-4)
proof (induction as arbitrary: s pre)
  case Nil
  then show ?case by (auto intro: reach_refl)
next
  case (Cons a as)
  let ?s = "host e cb B a (s\<lparr>todo := as @ rest\<rparr>)"
  have t: "todo s = a # (as @ rest)" using Cons.prems(2) by simp
  have r: "host_ready e cb a s" using call_ready [OF Cons.prems(4) t assms(6)] Cons.prems(3) by simp
  have st: "pipe_step task d B cb e s ?s"
    using Cons.prems(1) t r assms(7) by (intro pipe_step.step_host) simp_all
  obtain u where u: "reach task d B cb e ?s u" "todo u = rest" "\<not> exited u" "compl u = compl s"
    using Cons.IH [OF _ _ _ inv_host [OF Cons.prems(4) t assms(5) r]] Cons.prems by (auto simp: host_frame)
  from reach_trans [OF u(1) reach_step [OF reach_refl st]] u(2-) show ?case by blast
qed

lemma outstanding_pend:
  "c \<in> set (outstanding s) \<Longrightarrow> \<forall>i. c \<noteq> U i \<Longrightarrow> \<exists>ds. (c, ds) \<in> set (pend s)"
  unfolding outstanding_def by fastforce

lemma first_calls:
  assumes "3 \<le> n"
  shows "\<exists>rest. exec_calls cb n = iteration cb 0 @ iteration cb 1 @ Copy 2 # rest"
proof -
  have "[0..<n] = 0 # 1 # 2 # [3..<n]" using assms by (simp add: upt_conv_Cons eval_nat_numeral)
  moreover have "\<exists>as. iteration cb 2 = Copy 2 # as" by (simp add: iteration_defs)
  ultimately show ?thesis by (auto simp: exec_calls_def)
qed

lemma exec_race:
  assumes "started cb n ops B d s" "3 \<le> n" "env_ok cb n e" "\<not> timely e"
  shows "\<exists>t. reach task d B cb e s t \<and> ended t \<and> \<not> exited t \<and> result_of cb t 0 = f d (B 2)"
proof -
  have g: "good d ops" "\<forall>i < n. ok_in (B i)" and s: "\<not> exited s" "todo s = exec_calls cb n" "compl s = []"
    using assms(1) by (auto simp: started_def exec_start_def)
  obtain rest where rest: "exec_calls cb n = (iteration cb 0 @ iteration cb 1) @ Copy 2 # rest"
    using first_calls [OF assms(2)] by auto
  obtain u where u: "reach task d B cb e s u" "todo u = Copy 2 # rest" "\<not> exited u" "compl u = []"
  proof -
    have "\<forall>a \<in> set (iteration cb 0 @ iteration cb 1). a \<noteq> Finish_queue \<and> (\<forall>c. a \<noteq> Wait_for c)"
      by (auto simp: iteration_defs)
    from host_run [OF s(1) _ this conjunct1 [OF inv_start [OF assms(1)]] g(2) assms(3,4), of "Copy 2 # rest"]
    show ?thesis using s(2,3) rest that by auto
  qed
  let ?v = "host e cb B (Copy 2) (u\<lparr>todo := rest\<rparr>)"
  have v: "reach task d B cb e s ?v"
    using u assms(3,4) by (intro reach_step [OF u(1)] pipe_step.step_host) (simp_all add: env_ok_def)
  obtain pre where pv: "pipe_inv e cb n ops pre ?v" using reach_inv [OF v g] inv_start [OF assms(1)] by blast
  have q: "queue_inv cb n pre ?v" using pv by (simp add: pipe_inv_def)
  have "pre @ rest = ((iteration cb 0 @ iteration cb 1) @ [Copy 2]) @ rest"
    using q rest by (simp add: queue_inv_def)
  then have "pre = (iteration cb 0 @ iteration cb 1) @ [Copy 2]" by (simp only: append_same_eq)
  then have "sent cb (W 0) \<in> set pre" "sent cb (K 0) \<in> set pre" by (auto simp: iteration_defs sent_def)
  then have "W 0 \<in> set (outstanding ?v)" "K 0 \<in> set (outstanding ?v)"
    using queue_facts(1) [OF q] u(4) by auto
  then have "(W 0, []) \<in> set (pend ?v)"
    using queue_facts(3) [OF q] by (auto simp: outstanding_def) fastforce+
  then obtain xs ys where p: "pend ?v = xs @ (W 0, []) # ys" by (meson split_list)
  let ?w = "(cmd_effect d cb (W 0) ?v)\<lparr>pend := xs @ ys, compl := compl ?v @ [W 0]\<rparr>"
  have st: "pipe_step task d B cb e ?v ?w"
    using u(3) by (intro pipe_step.step_device [OF _ p _ run_cmd_effect [OF pv g(1) p]]) simp_all
  have pw: "pipe_inv e cb n ops pre ?w" by (rule inv_device [OF pv p]) simp
  have w: "din ?w 0 = B 2" "compl ?w = [W 0]" "\<not> exited ?w" using u(3,4) by (simp_all add: cmd_effect_def)
  have "K 0 \<in> set (outstanding ?w)"
    using queue_facts(1) [of cb n pre ?w "K 0"] pw \<open>sent cb (K 0) \<in> set pre\<close> w(2) by (auto simp: pipe_inv_def)
  then obtain ds where ds: "(K 0, ds) \<in> set (pend ?w)" using outstanding_pend by blast
  then have "ds = [W 0]" using queue_facts(3) [of cb n pre ?w "K 0" ds] pw by (simp add: pipe_inv_def)
  with ds obtain xs' ys' where p': "pend ?w = xs' @ (K 0, [W 0]) # ys'" by (meson split_list)
  let ?x = "(cmd_effect d cb (K 0) ?w)\<lparr>pend := xs' @ ys', compl := compl ?w @ [K 0]\<rparr>"
  have sx: "pipe_step task d B cb e ?w ?x"
    using w by (intro pipe_step.step_device [OF _ p' _ run_cmd_effect [OF pw g(1) p']]) simp_all
  have px: "pipe_inv e cb n ops pre ?x" using w(2) by (intro inv_device [OF pw p']) simp
  have so: "sets_ok e" using assms(3) by (simp add: env_ok_def)
  have k: "kept cb 0 (f d (B 2)) ?x"
    using w(1,2) effect_K [OF pw so, of 0 ds d] ds by (simp add: kept_def effect_frame)
  obtain t where t: "reach task d B cb e ?x t" "ended t" "\<not> exited t"
    using can_end [OF px g] w(3) assms(3) by (auto simp: effect_frame)
  obtain pre' where pt: "pipe_inv e cb n ops pre' t" using reach_inv [OF t(1) g px] by blast
  have "result_of cb t 0 = f d (B 2)"
    using t(2) assms(2) by (intro kept_got [OF pt] reach_kept [OF t(1) g px k so]) (simp_all add: ended_def)
  moreover have "reach task d B cb e s t"
    by (rule reach_trans [OF t(1) reach_step [OF reach_step [OF v st] sx]])
  ultimately show ?thesis using t(2,3) by blast
qed

end

end
