(* ===== verification/Ocl_Accel.thy ===== *)
theory Ocl_Accel
  imports Prelude
begin

text \<open>
  The connection of the gather host to the OpenCL runtime, \<^verbatim>\<open>omxgather/src/oclaccel.h\<close> and
  \<^verbatim>\<open>oclaccel.cpp\<close>: the static platform, context and program shared by all objects of the
  class, the connection status, and the table of error texts.

  The runtime is outside the repository: its answers (status, value) are an argument, as in
  the query host, and every call is recorded with the objects it is given.
\<close>

section \<open>State\<close>

datatype status = NotInitialized | Normal | Error

datatype acall =
    AGetPlatformIDs | AGetPlatformVendor nat | AGetDeviceIDs int | ACreateContext int
  | AFopen string | AFread nat | AFclose | ACreateProgramWithBinary int | ABuildProgram int
  | AGetProgramBuildInfo int | ACreateKernel int string | ACreateCommandQueue int
  | AFinish int | AReleaseCommandQueue int | AReleaseKernel int | AReleaseProgram int
  | AReleaseContext int
  | ACreateBuffer int nat u32 | AMapBuffer int int nat | AMigrateAll int "int list" | AWaitForMigration

record accel =
  a_commands :: int
  a_kernel :: int
  a_context :: int
  a_program :: int
  platformId :: int
  deviceId :: int
  connectStatus :: status
  noOfQueues :: int
  a_xclbin :: string
  targetDeviceName :: string
  mStatus :: status
  a_calls :: "acall list"

text \<open>The runtime, the platforms (handle and vendor) and the files.\<close>

record aenv =
  ae_orc :: "nat \<Rightarrow> int \<times> int"
  ae_platform :: "nat \<Rightarrow> int"
  ae_vendor :: "nat \<Rightarrow> string"
  ae_file :: "string \<Rightarrow> u8 list option"
  ae_got :: nat

definition accel0 :: accel where
  "accel0 = \<lparr>a_commands = 0, a_kernel = 0, a_context = 0, a_program = 0, platformId = 0, deviceId = 0,
     connectStatus = NotInitialized, noOfQueues = 0, a_xclbin = [], targetDeviceName = [],
     mStatus = NotInitialized, a_calls = []\<rparr>"

definition aapi :: "aenv \<Rightarrow> acall \<Rightarrow> accel \<Rightarrow> (int \<times> int) \<times> accel" where
  "aapi e c s = (ae_orc e (length (a_calls s)), s\<lparr>a_calls := a_calls s @ [c]\<rparr>)"

section \<open>Error texts\<close>

text \<open>
  The insertions of \<open>init\<close> in order, as name of the constant and text. The values \<open>cl\<close> of the
  constants come from the OpenCL headers. Inserting into an unordered map keeps the first entry
  of a key.
\<close>

definition error_insertions :: "(string \<times> string) list" where
  "error_insertions =
    [(''CL_SUCCESS'', ''CL_SUCCESS''),
     (''CL_DEVICE_NOT_FOUND'', ''CL_DEVICE_NOT_FOUND''),
     (''CL_DEVICE_NOT_AVAILABLE'', ''CL_DEVICE_NOT_AVAILABLE''),
     (''CL_COMPILER_NOT_AVAILABLE'', ''CL_COMPILER_NOT_AVAILABLE''),
     (''CL_MEM_OBJECT_ALLOCATION_FAILURE'', ''CL_MEM_OBJECT_ALLOCATION_FAILURE''),
     (''CL_OUT_OF_RESOURCES'', ''CL_OUT_OF_RESOURCES''),
     (''CL_OUT_OF_HOST_MEMORY'', ''CL_OUT_OF_HOST_MEMORY''),
     (''CL_PROFILING_INFO_NOT_AVAILABLE'', ''CL_PROFILING_INFO_NOT_AVAILABLE''),
     (''CL_MEM_COPY_OVERLAP'', ''CL_MEM_COPY_OVERLAP''),
     (''CL_IMAGE_FORMAT_MISMATCH'', ''CL_IMAGE_FORMAT_MISMATCH''),
     (''CL_IMAGE_FORMAT_NOT_SUPPORTED'', ''CL_IMAGE_FORMAT_NOT_SUPPORTED''),
     (''CL_BUILD_PROGRAM_FAILURE'', ''CL_BUILD_PROGRAM_FAILURE''),
     (''CL_MAP_FAILURE'', ''CL_MAP_FAILURE''),
     (''CL_MISALIGNED_SUB_BUFFER_OFFSET'', ''CL_MISALIGNED_SUB_BUFFER_OFFSET''),
     (''CL_EXEC_STATUS_ERROR_FOR_EVENTS_IN_WAIT_LIST'', ''CL_EXEC_STATUS_ERROR_FOR_EVENTS_IN_W''),
     (''CL_INVALID_VALUE'', ''CL_INVALID_VALUE''),
     (''CL_INVALID_DEVICE_TYPE'', ''CL_INVALID_DEVICE_TYPE''),
     (''CL_INVALID_PLATFORM'', ''CL_INVALID_PLATFORM''),
     (''CL_INVALID_DEVICE'', ''CL_INVALID_DEVICE''),
     (''CL_INVALID_CONTEXT'', ''CL_INVALID_CONTEXT''),
     (''CL_INVALID_QUEUE_PROPERTIES'', ''CL_INVALID_QUEUE_PROPERTIES''),
     (''CL_INVALID_COMMAND_QUEUE'', ''CL_INVALID_COMMAND_QUEUE''),
     (''CL_INVALID_HOST_PTR'', ''CL_INVALID_HOST_PTR''),
     (''CL_INVALID_MEM_OBJECT'', ''CL_INVALID_MEM_OBJECT''),
     (''CL_INVALID_IMAGE_FORMAT_DESCRIPTOR'', ''CL_INVALID_IMAGE_FORMAT_DESCRIPTOR''),
     (''CL_INVALID_IMAGE_SIZE'', ''CL_INVALID_IMAGE_SIZE''),
     (''CL_INVALID_SAMPLER'', ''CL_INVALID_SAMPLER''),
     (''CL_INVALID_BINARY'', ''CL_INVALID_BINARY''),
     (''CL_INVALID_BUILD_OPTIONS'', ''CL_INVALID_BUILD_OPTIONS''),
     (''CL_INVALID_PROGRAM'', ''CL_INVALID_PROGRAM''),
     (''CL_INVALID_PROGRAM_EXECUTABLE'', ''CL_INVALID_PROGRAM_EXECUTABLE''),
     (''CL_INVALID_KERNEL_NAME'', ''CL_INVALID_KERNEL_NAME''),
     (''CL_INVALID_KERNEL_DEFINITION'', ''CL_INVALID_KERNEL_DEFINITION''),
     (''CL_INVALID_KERNEL'', ''CL_INVALID_KERNEL''),
     (''CL_INVALID_ARG_INDEX'', ''CL_INVALID_ARG_INDEX''),
     (''CL_INVALID_ARG_VALUE'', ''CL_INVALID_ARG_VALUE''),
     (''CL_INVALID_ARG_SIZE'', ''CL_INVALID_ARG_SIZE''),
     (''CL_INVALID_KERNEL_ARGS'', ''CL_INVALID_KERNEL_ARGS''),
     (''CL_INVALID_WORK_DIMENSION'', ''CL_INVALID_WORK_DIMENSION''),
     (''CL_INVALID_WORK_GROUP_SIZE'', ''CL_INVALID_WORK_GROUP_SIZE''),
     (''CL_INVALID_WORK_ITEM_SIZE'', ''CL_INVALID_WORK_ITEM_SIZE''),
     (''CL_INVALID_GLOBAL_OFFSET'', ''CL_INVALID_GLOBAL_OFFSET''),
     (''CL_INVALID_EVENT_WAIT_LIST'', ''CL_INVALID_EVENT_WAIT_LIST''),
     (''CL_INVALID_EVENT'', ''CL_INVALID_EVENT''),
     (''CL_INVALID_OPERATION'', ''CL_INVALID_OPERATION''),
     (''CL_INVALID_GL_OBJECT'', ''CL_INVALID_GL_OBJECT''),
     (''CL_INVALID_BUFFER_SIZE'', ''CL_INVALID_BUFFER_SIZE''),
     (''CL_INVALID_MIP_LEVEL'', ''CL_INVALID_MIP_LEVEL''),
     (''CL_INVALID_GLOBAL_WORK_SIZE'', ''CL_INVALID_GLOBAL_WORK_SIZE''),
     (''CL_INVALID_PROPERTY'', ''CL_INVALID_PROPERTY''),
     (''CL_SUCCESS'', ''CL_SUCCESS''),
     (''CL_DEVICE_NOT_FOUND'', ''CL_DEVICE_NOT_FOUND''),
     (''CL_DEVICE_NOT_AVAILABLE'', ''CL_DEVICE_NOT_AVAILABLE''),
     (''CL_COMPILER_NOT_AVAILABLE'', ''CL_COMPILER_NOT_AVAILABLE''),
     (''CL_MEM_OBJECT_ALLOCATION_FAILURE'', ''CL_MEM_OBJECT_ALLOCATION_FAILURE''),
     (''CL_OUT_OF_RESOURCES'', ''CL_OUT_OF_RESOURCES''),
     (''CL_OUT_OF_HOST_MEMORY'', ''CL_OUT_OF_HOST_MEMORY''),
     (''CL_PROFILING_INFO_NOT_AVAILABLE'', ''CL_PROFILING_INFO_NOT_AVAILABLE''),
     (''CL_MEM_COPY_OVERLAP'', ''CL_MEM_COPY_OVERLAP''),
     (''CL_IMAGE_FORMAT_MISMATCH'', ''CL_IMAGE_FORMAT_MISMATCH''),
     (''CL_IMAGE_FORMAT_NOT_SUPPORTED'', ''CL_IMAGE_FORMAT_NOT_SUPPORTED''),
     (''CL_BUILD_PROGRAM_FAILURE'', ''CL_BUILD_PROGRAM_FAILURE''),
     (''CL_MAP_FAILURE'', ''CL_MAP_FAILURE''),
     (''CL_MISALIGNED_SUB_BUFFER_OFFSET'', ''CL_MISALIGNED_SUB_BUFFER_OFFSET''),
     (''CL_EXEC_STATUS_ERROR_FOR_EVENTS_IN_WAIT_LIST'', ''CL_EXEC_STATUS_ERROR_FOR_EVENTS_IN_WAIT_LIST''),
     (''CL_COMPILE_PROGRAM_FAILURE'', ''CL_COMPILE_PROGRAM_FAILURE''),
     (''CL_LINKER_NOT_AVAILABLE'', ''CL_LINKER_NOT_AVAILABLE''),
     (''CL_LINK_PROGRAM_FAILURE'', ''CL_LINK_PROGRAM_FAILURE''),
     (''CL_DEVICE_PARTITION_FAILED'', ''CL_DEVICE_PARTITION_FAILED''),
     (''CL_KERNEL_ARG_INFO_NOT_AVAILABLE'', ''CL_KERNEL_ARG_INFO_NOT_AVAILABLE''),
     (''CL_INVALID_VALUE'', ''CL_INVALID_VALUE''),
     (''CL_INVALID_DEVICE_TYPE'', ''CL_INVALID_DEVICE_TYPE''),
     (''CL_INVALID_PLATFORM'', ''CL_INVALID_PLATFORM''),
     (''CL_INVALID_DEVICE'', ''CL_INVALID_DEVICE''),
     (''CL_INVALID_CONTEXT'', ''CL_INVALID_CONTEXT''),
     (''CL_INVALID_QUEUE_PROPERTIES'', ''CL_INVALID_QUEUE_PROPERTIES''),
     (''CL_INVALID_COMMAND_QUEUE'', ''CL_INVALID_COMMAND_QUEUE''),
     (''CL_INVALID_HOST_PTR'', ''CL_INVALID_HOST_PTR''),
     (''CL_INVALID_MEM_OBJECT'', ''CL_INVALID_MEM_OBJECT''),
     (''CL_INVALID_IMAGE_FORMAT_DESCRIPTOR'', ''CL_INVALID_IMAGE_FORMAT_DESCRIPTOR''),
     (''CL_INVALID_IMAGE_SIZE'', ''CL_INVALID_IMAGE_SIZE''),
     (''CL_INVALID_SAMPLER'', ''CL_INVALID_SAMPLER''),
     (''CL_INVALID_BINARY'', ''CL_INVALID_BINARY''),
     (''CL_INVALID_BUILD_OPTIONS'', ''CL_INVALID_BUILD_OPTIONS''),
     (''CL_INVALID_PROGRAM'', ''CL_INVALID_PROGRAM''),
     (''CL_INVALID_PROGRAM_EXECUTABLE'', ''CL_INVALID_PROGRAM_EXECUTABLE''),
     (''CL_INVALID_KERNEL_NAME'', ''CL_INVALID_KERNEL_NAME''),
     (''CL_INVALID_KERNEL_DEFINITION'', ''CL_INVALID_KERNEL_DEFINITION''),
     (''CL_INVALID_KERNEL'', ''CL_INVALID_KERNEL''),
     (''CL_INVALID_ARG_INDEX'', ''CL_INVALID_ARG_INDEX''),
     (''CL_INVALID_ARG_VALUE'', ''CL_INVALID_ARG_VALUE''),
     (''CL_INVALID_ARG_SIZE'', ''CL_INVALID_ARG_SIZE''),
     (''CL_INVALID_KERNEL_ARGS'', ''CL_INVALID_KERNEL_ARGS''),
     (''CL_INVALID_WORK_DIMENSION'', ''CL_INVALID_WORK_DIMENSION''),
     (''CL_INVALID_WORK_GROUP_SIZE'', ''CL_INVALID_WORK_GROUP_SIZE''),
     (''CL_INVALID_WORK_ITEM_SIZE'', ''CL_INVALID_WORK_ITEM_SIZE''),
     (''CL_INVALID_GLOBAL_OFFSET'', ''CL_INVALID_GLOBAL_OFFSET''),
     (''CL_INVALID_EVENT_WAIT_LIST'', ''CL_INVALID_EVENT_WAIT_LIST''),
     (''CL_INVALID_EVENT'', ''CL_INVALID_EVENT''),
     (''CL_INVALID_OPERATION'', ''CL_INVALID_OPERATION''),
     (''CL_INVALID_GL_OBJECT'', ''CL_INVALID_GL_OBJECT''),
     (''CL_INVALID_BUFFER_SIZE'', ''CL_INVALID_BUFFER_SIZE''),
     (''CL_INVALID_MIP_LEVEL'', ''CL_INVALID_MIP_LEVEL''),
     (''CL_INVALID_GLOBAL_WORK_SIZE'', ''CL_INVALID_GLOBAL_WORK_SIZE''),
     (''CL_INVALID_PROPERTY'', ''CL_INVALID_PROPERTY''),
     (''CL_INVALID_IMAGE_DESCRIPTOR'', ''CL_INVALID_IMAGE_DESCRIPTOR''),
     (''CL_INVALID_COMPILER_OPTIONS'', ''CL_INVALID_COMPILER_OPTIONS''),
     (''CL_INVALID_LINKER_OPTIONS'', ''CL_INVALID_LINKER_OPTIONS''),
     (''CL_INVALID_DEVICE_PARTITION_COUNT'', ''CL_INVALID_DEVICE_PARTITION_COUNT''),
     (''CL_INVALID_GL_SHAREGROUP_REFERENCE_KHR'', ''CL_INVALID_GL_SHAREGROUP_REFERENCE_KHR''),
     (''CL_PLATFORM_NOT_FOUND_KHR'', ''CL_PLATFORM_NOT_FOUND_KHR'')]"

definition accel_init :: "(string \<Rightarrow> int) \<Rightarrow> (int \<rightharpoonup> string) \<Rightarrow> int \<rightharpoonup> string" where
  "accel_init cl codes = fold (\<lambda>(c, txt) m. if m (cl c) = None then m(cl c \<mapsto> txt) else m) error_insertions codes"

definition getErrorString :: "(int \<rightharpoonup> string) \<Rightarrow> int \<Rightarrow> string" where
  "getErrorString codes code = (case codes code of None \<Rightarrow> ''UNKNOWN ERROR'' | Some t \<Rightarrow> t)"

text \<open>The result of \<open>printError\<close>; what it prints is left out.\<close>

definition printError :: "int \<Rightarrow> bool" where
  "printError err \<longleftrightarrow> err \<noteq> 0"

section \<open>Creating the context and the program\<close>

definition loadFileToMemory :: "aenv \<Rightarrow> string \<Rightarrow> accel \<Rightarrow> int \<times> accel" where
  "loadFileToMemory e filename s =
     (let s1 = s\<lparr>a_calls := a_calls s @ [AFopen filename]\<rparr> in
      case ae_file e filename of None \<Rightarrow> (-1, s1)
      | Some bytes \<Rightarrow>
        (let size = length bytes; s2 = s1\<lparr>a_calls := a_calls s1 @ [AFread size]\<rparr> in
         if size \<noteq> ae_got e then (-2, s2)
         else (sint (of_nat size :: u32), s2\<lparr>a_calls := a_calls s2 @ [AFclose]\<rparr>)))"

text \<open>
  The search for the vendor, from platform \<open>i\<close> on, \<open>n\<close> to go. The array has 16 entries, the
  count is that of all platforms. \<open>None\<close> is the return in the middle of the loop.
\<close>

fun platform_loop :: "aenv \<Rightarrow> nat \<Rightarrow> nat \<Rightarrow> bool \<Rightarrow> accel \<Rightarrow> (bool option \<times> accel) res" where
  "platform_loop e 0 i found s = Inr (Some found, s)"
| "platform_loop e (Suc n) i found s =
     (if 16 \<le> i then Inl OutOfBounds else
      let ((err, _), s) = aapi e (AGetPlatformVendor i) s in
      if printError err then Inr (None, s\<lparr>mStatus := Error\<rparr>)
      else if ae_vendor e i = ''Xilinx''
        then platform_loop e n (Suc i) True (s\<lparr>platformId := ae_platform e i\<rparr>)
        else platform_loop e n (Suc i) found s)"

definition createContext :: "aenv \<Rightarrow> accel \<Rightarrow> accel res" where
  "createContext e s =
    (let ((err, count), s) = aapi e AGetPlatformIDs s in
     if printError err then Inr (s\<lparr>mStatus := Error\<rparr>) else
     rbind (platform_loop e (nat count) 0 False s) (\<lambda>(r, s).
       case r of None \<Rightarrow> Inr s
       | Some False \<Rightarrow> Inr (s\<lparr>mStatus := Error\<rparr>)
       | Some True \<Rightarrow> Inr
          (let ((err, _), s) = aapi e (AGetDeviceIDs (platformId s)) s in
           if printError err then s\<lparr>mStatus := Error\<rparr> else
           let ((err, dev), s) = aapi e (AGetDeviceIDs (platformId s)) s; s = s\<lparr>deviceId := dev\<rparr> in
           if printError err then s\<lparr>mStatus := Error\<rparr> else
           let ((err, h), s) = aapi e (ACreateContext (deviceId s)) s; s = s\<lparr>a_context := h\<rparr> in
           if h = 0 \<or> err \<noteq> 0 then s\<lparr>mStatus := Error\<rparr> else s)))"

definition createProgram :: "aenv \<Rightarrow> string \<Rightarrow> accel \<Rightarrow> accel" where
  "createProgram e xclb s =
    (let s = s\<lparr>a_xclbin := xclb\<rparr>; (n_i, s) = loadFileToMemory e xclb s in
     if n_i < 0 then s\<lparr>mStatus := Error\<rparr> else
     let ((err, h), s) = aapi e (ACreateProgramWithBinary (a_context s)) s; s = s\<lparr>a_program := h\<rparr> in
     if h = 0 \<or> err \<noteq> 0 then s\<lparr>mStatus := Error\<rparr> else
     let ((err, _), s) = aapi e (ABuildProgram (a_program s)) s in
     if err \<noteq> 0 then (let (_, s) = aapi e (AGetProgramBuildInfo (a_program s)) s in s\<lparr>mStatus := Error\<rparr>)
     else s)"

section \<open>Connecting and clearing\<close>

text \<open>The shared part, executed when the status is still \<open>NotInitialized\<close>; true: it returns.\<close>

definition connect_shared :: "aenv \<Rightarrow> string \<Rightarrow> string \<Rightarrow> accel \<Rightarrow> (bool \<times> accel) res" where
  "connect_shared e deviceName xclb s =
     rbind (createContext e (s\<lparr>targetDeviceName := deviceName\<rparr>)) (\<lambda>s.
       if mStatus s = Error then Inr (True, s\<lparr>connectStatus := Error\<rparr>) else
       let s = createProgram e xclb s in
       if mStatus s = Error then Inr (True, s\<lparr>connectStatus := Error\<rparr>)
       else Inr (False, s\<lparr>connectStatus := Normal\<rparr>))"

text \<open>The part of each object: the kernel and the command queue.\<close>

definition connect_object :: "aenv \<Rightarrow> string \<Rightarrow> accel \<Rightarrow> accel" where
  "connect_object e kernelName s =
    (let s = (if connectStatus s = Error then s\<lparr>mStatus := Error\<rparr> else s);
         ((err, k), s) = aapi e (ACreateKernel (a_program s) kernelName) s; s = s\<lparr>a_kernel := k\<rparr> in
     if k = 0 \<or> err \<noteq> 0 then s\<lparr>mStatus := Error\<rparr> else
     let ((err, q), s) = aapi e (ACreateCommandQueue (a_context s)) s; s = s\<lparr>a_commands := q\<rparr> in
     if q = 0 \<or> err \<noteq> 0 then s\<lparr>mStatus := Error\<rparr> else s\<lparr>noOfQueues := noOfQueues s + 1\<rparr>)"

definition connectPlatform :: "aenv \<Rightarrow> string \<Rightarrow> string \<Rightarrow> string \<Rightarrow> accel \<Rightarrow> accel res" where
  "connectPlatform e deviceName kernelName xclb s =
     rbind (if connectStatus s = NotInitialized
            then connect_shared e deviceName xclb (s\<lparr>mStatus := Normal\<rparr>)
            else Inr (False, s\<lparr>mStatus := Normal\<rparr>)) (\<lambda>(ret, s).
       Inr (if ret then s else connect_object e kernelName s))"

definition finishCommands :: "aenv \<Rightarrow> accel \<Rightarrow> accel" where
  "finishCommands e s =
    (let ((err, _), s) = aapi e (AFinish (a_commands s)) s in
     if printError err then s\<lparr>mStatus := Error\<rparr> else s)"

definition accel_clear :: "aenv \<Rightarrow> accel \<Rightarrow> accel" where
  "accel_clear e s =
    (let s = finishCommands e s;
         (_, s) = aapi e (AReleaseCommandQueue (a_commands s)) s;
         (_, s) = aapi e (AReleaseKernel (a_kernel s)) s;
         s = s\<lparr>noOfQueues := noOfQueues s - 1\<rparr>;
         s = (if noOfQueues s = 0 then
                (let (_, s) = aapi e (AReleaseProgram (a_program s)) s;
                     (_, s) = aapi e (AReleaseContext (a_context s)) s in s) else s)
     in s\<lparr>mStatus := Normal\<rparr>)"

section \<open>Error texts are the names of the codes\<close>

lemma insert_if_absent:
  "fold (\<lambda>(c, txt) m. if m (cl c) = None then m(cl c \<mapsto> txt) else m) es codes k
    = (case codes k of Some t \<Rightarrow> Some t | None \<Rightarrow> map_of (map (\<lambda>(c, txt). (cl c, txt)) es) k)"
proof (induction es arbitrary: codes)
  case Nil
  then show ?case by (simp split: option.split)
next
  case (Cons e es)
  then show ?case by (cases e) (auto split: option.split)
qed

lemma map_of_inj:
  assumes "inj_on cl (insert n (fst ` set es))"
  shows "map_of (map (\<lambda>(c, txt). (cl c, txt)) es) (cl n) = map_of es n"
  using assms
proof (induction es)
  case (Cons e es)
  then have "cl n = cl (fst e) \<longleftrightarrow> n = fst e" "inj_on cl (insert n (fst ` set es))"
    by (auto simp: inj_on_def)
  with Cons.IH show ?case by (cases e) auto
qed simp

definition error_names :: "string list" where
  "error_names = remdups (map fst error_insertions)"

abbreviation "wait_list_error \<equiv> ''CL_EXEC_STATUS_ERROR_FOR_EVENTS_IN_WAIT_LIST''"

lemma error_insertions_own:
  "list_all (\<lambda>(c, txt). c = txt \<or> c = wait_list_error) error_insertions"
  by (simp add: error_insertions_def)

lemma error_insertions_wait:
  "map_of error_insertions wait_list_error = Some ''CL_EXEC_STATUS_ERROR_FOR_EVENTS_IN_W''"
  by (simp add: error_insertions_def map_of_Cons_code del: map_of.simps)

lemma error_text_table:
  assumes "n \<in> set error_names"
  shows "map_of error_insertions n = Some (if n = wait_list_error then ''CL_EXEC_STATUS_ERROR_FOR_EVENTS_IN_W'' else n)"
proof (cases "n = wait_list_error")
  case False
  obtain t where tm: "map_of error_insertions n = Some t"
    using assms by (auto simp: error_names_def dest!: weak_map_of_SomeI)
  have "(n, t) \<in> set error_insertions" by (rule map_of_SomeD [OF tm])
  then have "t = n"
    using error_insertions_own False unfolding list_all_iff by blast
  with tm False show ?thesis by simp
qed (simp add: error_insertions_wait)

lemma getErrorString_law:
  assumes "inj_on cl (set error_names)" "n \<in> set error_names" "codes = accel_init cl Map.empty"
  shows "getErrorString codes (cl n)
    = (if n = ''CL_EXEC_STATUS_ERROR_FOR_EVENTS_IN_WAIT_LIST'' then ''CL_EXEC_STATUS_ERROR_FOR_EVENTS_IN_W'' else n)"
proof -
  have s: "insert n (fst ` set error_insertions) = set error_names"
    using assms(2) by (auto simp: error_names_def)
  have "codes (cl n) = map_of error_insertions n"
    using map_of_inj [of cl n error_insertions] assms(1,3) unfolding s
    by (simp add: accel_init_def insert_if_absent)
  also have "\<dots> = Some (if n = ''CL_EXEC_STATUS_ERROR_FOR_EVENTS_IN_WAIT_LIST''
      then ''CL_EXEC_STATUS_ERROR_FOR_EVENTS_IN_W'' else n)"
    by (rule error_text_table [OF assms(2)])
  finally show ?thesis by (simp add: getErrorString_def)
qed

section \<open>The status of a connection\<close>

text \<open>What a step of the connection never touches.\<close>

lemma aapi_fields [simp]:
  "snd (aapi e c s) = s\<lparr>a_calls := a_calls s @ [c]\<rparr>"
  "fst (aapi e c s) = ae_orc e (length (a_calls s))"
  by (simp_all add: aapi_def)

lemma platform_loop_frame:
  "platform_loop e n i found s = Inr (r, s') \<Longrightarrow>
    noOfQueues s' = noOfQueues s \<and> connectStatus s' = connectStatus s
    \<and> mStatus s' = (case r of None \<Rightarrow> Error | Some _ \<Rightarrow> mStatus s)"
  by (induction n arbitrary: i found s)
    (auto simp: aapi_def Let_def split: if_splits prod.splits option.splits)

lemma createContext_frame:
  assumes "createContext e s = Inr s'" "mStatus s = Normal"
  shows "noOfQueues s' = noOfQueues s \<and> connectStatus s' = connectStatus s
    \<and> (mStatus s' = Error \<or> mStatus s' = Normal \<and> a_context s' \<noteq> 0)"
proof (cases "printError (fst (ae_orc e (length (a_calls s))))")
  case True
  with assms show ?thesis by (auto simp: createContext_def aapi_def split: prod.splits)
next
  case False
  let ?s = "s\<lparr>a_calls := a_calls s @ [AGetPlatformIDs]\<rparr>"
  obtain r t where l: "platform_loop e (nat (snd (ae_orc e (length (a_calls s))))) 0 False ?s = Inr (r, t)"
    using assms(1) False by (auto simp: createContext_def aapi_def rbind_def split: prod.splits sum.splits)
  note f = platform_loop_frame [OF l]
  show ?thesis
    using assms False l f by (auto simp: createContext_def aapi_def Let_def split: prod.splits option.splits bool.splits if_splits)
qed

lemma loadFileToMemory_frame:
  "snd (loadFileToMemory e f s) = s\<lparr>a_calls := a_calls (snd (loadFileToMemory e f s))\<rparr>"
  by (auto simp: loadFileToMemory_def Let_def split: option.split)

lemma createProgram_frame:
  assumes "mStatus s = Normal"
  shows "noOfQueues (createProgram e x s) = noOfQueues s \<and> connectStatus (createProgram e x s) = connectStatus s
    \<and> a_context (createProgram e x s) = a_context s
    \<and> (mStatus (createProgram e x s) = Error \<or> mStatus (createProgram e x s) = Normal \<and> a_program (createProgram e x s) \<noteq> 0)"
proof -
  obtain n t where l: "loadFileToMemory e x (s\<lparr>a_xclbin := x\<rparr>) = (n, t)" by fastforce
  have t: "t = s\<lparr>a_xclbin := x, a_calls := a_calls t\<rparr>"
    using loadFileToMemory_frame [of e x "s\<lparr>a_xclbin := x\<rparr>"] unfolding l by simp
  have f: "noOfQueues t = noOfQueues s" "connectStatus t = connectStatus s" "mStatus t = Normal"
    "a_context t = a_context s"
    by (subst t, use assms in simp)+
  show ?thesis using f by (auto simp: createProgram_def l aapi_def Let_def split: prod.splits)
qed

lemma connect_object_law:
  assumes "mStatus s \<noteq> NotInitialized" "s' = connect_object e k s"
  shows "mStatus s' \<noteq> NotInitialized" "connectStatus s' = connectStatus s"
    "connectStatus s = Error \<Longrightarrow> mStatus s' = Error"
    "mStatus s' = Normal \<Longrightarrow> a_kernel s' \<noteq> 0 \<and> a_commands s' \<noteq> 0 \<and> a_context s' = a_context s
       \<and> a_program s' = a_program s \<and> noOfQueues s' = noOfQueues s + 1
       \<and> a_calls s' = a_calls s @ [ACreateKernel (a_program s) k, ACreateCommandQueue (a_context s)]"
  using assms by (auto simp: connect_object_def aapi_def Let_def split: prod.splits if_splits)

text \<open>
  The contract of a connection: the result is a status of an initialised object, and a normal one
  means that the object has a kernel and a queue of its own and is counted.
\<close>

definition shared_ok :: "accel \<Rightarrow> bool" where
  "shared_ok s \<longleftrightarrow> (connectStatus s = Normal \<longrightarrow> a_context s \<noteq> 0 \<and> a_program s \<noteq> 0)"

lemma connect_shared_law:
  assumes "connect_shared e d x s = Inr (r, s')" "mStatus s = Normal"
  shows "noOfQueues s' = noOfQueues s \<and>
    (if r then mStatus s' = Error \<and> connectStatus s' = Error
     else mStatus s' = Normal \<and> connectStatus s' = Normal \<and> a_context s' \<noteq> 0 \<and> a_program s' \<noteq> 0)"
proof -
  obtain t where t: "createContext e (s\<lparr>targetDeviceName := d\<rparr>) = Inr t"
    using assms(1) by (auto simp: connect_shared_def rbind_def split: sum.splits)
  have f: "noOfQueues t = noOfQueues s" "mStatus t = Error \<or> mStatus t = Normal \<and> a_context t \<noteq> 0"
    using createContext_frame [OF t] assms(2) by simp_all
  show ?thesis
  proof (cases "mStatus t = Error")
    case True
    then show ?thesis using assms(1) f t by (auto simp: connect_shared_def rbind_def)
  next
    case False
    with f(2) have "mStatus t = Normal" by simp
    from createProgram_frame [OF this, of e x] assms(1) f t False show ?thesis
      by (auto simp: connect_shared_def rbind_def Let_def split: if_splits)
  qed
qed

lemma connectPlatform_law:
  assumes "connectPlatform e d k x s = Inr s'" "shared_ok s"
  shows "mStatus s' \<noteq> NotInitialized" "shared_ok s'" "connectStatus s' \<noteq> NotInitialized"
    "connectStatus s' = Error \<Longrightarrow> mStatus s' = Error"
    "mStatus s' = Normal \<Longrightarrow> a_kernel s' \<noteq> 0 \<and> a_commands s' \<noteq> 0 \<and> a_context s' \<noteq> 0
       \<and> a_program s' \<noteq> 0 \<and> noOfQueues s' = noOfQueues s + 1"
proof -
  obtain r t where t: "(if connectStatus s = NotInitialized then connect_shared e d x (s\<lparr>mStatus := Normal\<rparr>)
      else Inr (False, s\<lparr>mStatus := Normal\<rparr>)) = Inr (r, t)"
    and s': "s' = (if r then t else connect_object e k t)"
    using assms(1) by (auto simp: connectPlatform_def rbind_def split: sum.splits)
  have f: "noOfQueues t = noOfQueues s" "connectStatus t \<noteq> NotInitialized"
      "r \<Longrightarrow> mStatus t = Error \<and> connectStatus t = Error"
      "\<not> r \<Longrightarrow> mStatus t = Normal \<and> shared_ok t"
    using t connect_shared_law [of e d x "s\<lparr>mStatus := Normal\<rparr>" r t] assms(2)
    by (auto simp: shared_ok_def split: if_splits)
  note o = connect_object_law [of t "connect_object e k t" e k, OF _ refl]
  have sh: "shared_ok s'"
  proof (cases r)
    case False
    then have "a_context s' = a_context t \<and> a_program s' = a_program t"
      unfolding s' by (simp add: connect_object_def aapi_def Let_def split: prod.split)
    with f(4) [OF False] o(2) False show ?thesis unfolding s' by (auto simp: shared_ok_def)
  qed (use f(3) s' in \<open>simp add: shared_ok_def\<close>)
  show "shared_ok s'" by (rule sh)
  show "mStatus s' \<noteq> NotInitialized" "connectStatus s' \<noteq> NotInitialized"
    "connectStatus s' = Error \<Longrightarrow> mStatus s' = Error"
    using s' f o by (auto split: if_splits)
  show "a_kernel s' \<noteq> 0 \<and> a_commands s' \<noteq> 0 \<and> a_context s' \<noteq> 0 \<and> a_program s' \<noteq> 0
      \<and> noOfQueues s' = noOfQueues s + 1" if n: "mStatus s' = Normal"
  proof -
    have nr: "\<not> r" using f(3) n s' by auto
    have mt: "mStatus t \<noteq> NotInitialized" using f(4) [OF nr] by simp
    from f(2) n s' nr o(2,3) [OF mt] have "connectStatus t = Normal" by (cases "connectStatus t") auto
    with f(1,4) nr n s' o show ?thesis by (auto simp: shared_ok_def)
  qed
qed

text \<open>
  An error of the shared part is final: the object still gets a kernel of the missing program
  and a queue of the missing context, and is counted when the runtime grants them.
\<close>

lemma connect_after_error:
  assumes "connectStatus s = Error"
    "ae_orc e (length (a_calls s)) = (0, h)" "h \<noteq> 0"
    "ae_orc e (Suc (length (a_calls s))) = (0, q)" "q \<noteq> 0"
  shows "\<exists>s'. connectPlatform e d k x s = Inr s' \<and> mStatus s' = Error \<and> noOfQueues s' = noOfQueues s + 1
    \<and> a_calls s' = a_calls s @ [ACreateKernel (a_program s) k, ACreateCommandQueue (a_context s)]"
  using assms by (simp add: connectPlatform_def rbind_def connect_object_def aapi_def)

lemma clear_law:
  "mStatus (accel_clear e s) = Normal" "connectStatus (accel_clear e s) = connectStatus s"
  "noOfQueues (accel_clear e s) = noOfQueues s - 1"
  "a_program (accel_clear e s) = a_program s" "a_context (accel_clear e s) = a_context s"
  "a_calls (accel_clear e s) = a_calls s @ [AFinish (a_commands s), AReleaseCommandQueue (a_commands s),
     AReleaseKernel (a_kernel s)] @ (if noOfQueues s = 1
     then [AReleaseProgram (a_program s), AReleaseContext (a_context s)] else [])"
  by (auto simp: accel_clear_def finishCommands_def aapi_def Let_def split: prod.split)

text \<open>Connecting again after the last object was cleared takes the kernel from the released program.\<close>

lemma reconnect_law:
  assumes "connectStatus s = Normal" "noOfQueues s = 1"
  shows "\<exists>s' cs. connectPlatform e d k x (accel_clear e s) = Inr s'
    \<and> a_calls s' = a_calls (accel_clear e s) @ ACreateKernel (a_program s) k # cs
    \<and> AReleaseProgram (a_program s) \<in> set (a_calls (accel_clear e s))"
  using assms by (auto simp: connectPlatform_def rbind_def connect_object_def aapi_def Let_def clear_law split: prod.split)

text \<open>More platforms than the array holds: the loop leaves it, unless a query fails before.\<close>

lemma platform_overrun:
  assumes "i \<le> 16" "16 < i + n" "\<forall>j c. fst (ae_orc e j) = 0"
  shows "platform_loop e n i found s = Inl OutOfBounds"
  using assms
proof (induction n arbitrary: i found s)
  case (Suc n)
  show ?case
  proof (cases "i = 16")
    case False
    with Suc.prems have "i < 16" "Suc i \<le> 16" "16 < Suc i + n" by auto
    with Suc.IH [OF this(2,3) Suc.prems(3)] Suc.prems(3) show ?thesis
      by (simp add: aapi_def printError_def case_prod_beta)
  qed simp
qed simp

section \<open>Any sequence of connections\<close>

inductive accel_reach :: "accel \<Rightarrow> bool" where
  "accel_reach accel0"
| "accel_reach s \<Longrightarrow> connectPlatform e d k x s = Inr s' \<Longrightarrow> accel_reach s'"
| "accel_reach s \<Longrightarrow> accel_reach (accel_clear e s)"

lemma reach_shared_ok: "accel_reach s \<Longrightarrow> shared_ok s"
  by (induction rule: accel_reach.induct)
    (auto simp: accel0_def connectPlatform_law(2), auto simp: shared_ok_def clear_law)

text \<open>
  C36. In every state that connecting and clearing can lead to, and for every behaviour of the
  runtime, connecting decides the status: it is never left uninitialised, a normal result means
  a kernel, a queue, a context and a program that are not null and one more queue in use, and
  after an error of the shared part every later result is an error.
\<close>

theorem connectPlatform_contract:
  assumes "accel_reach s" "connectPlatform e d k x s = Inr s'"
  shows "mStatus s' \<noteq> NotInitialized \<and> connectStatus s' \<noteq> NotInitialized
    \<and> (mStatus s' = Normal \<longrightarrow> a_kernel s' \<noteq> 0 \<and> a_commands s' \<noteq> 0 \<and> a_context s' \<noteq> 0 \<and> a_program s' \<noteq> 0
         \<and> noOfQueues s' = noOfQueues s + 1)
    \<and> (connectStatus s = Error \<longrightarrow> mStatus s' = Error \<and> connectStatus s' = Error)"
proof -
  note l = connectPlatform_law [OF assms(2) reach_shared_ok [OF assms(1)]]
  have "connectStatus s' = Error" if "connectStatus s = Error"
    using assms(2) that connect_object_law(2) [of "s\<lparr>mStatus := Normal\<rparr>" s' e k]
    by (simp add: connectPlatform_def)
  with l show ?thesis by blast
qed

text \<open>A runtime that grants everything.\<close>

definition granting :: aenv where
  "granting = \<lparr>ae_orc = (\<lambda>_. (0, 1)), ae_platform = (\<lambda>_. 7), ae_vendor = (\<lambda>_. ''Xilinx''),
     ae_file = (\<lambda>_. Some [0]), ae_got = 1\<rparr>"

lemma granting_connect:
  "\<exists>s. connectPlatform granting d k x accel0 = Inr s \<and> mStatus s = Normal \<and> connectStatus s = Normal
    \<and> noOfQueues s = 1 \<and> a_program s = 1"
  by (simp add: connectPlatform_def connect_shared_def createContext_def createProgram_def
      loadFileToMemory_def connect_object_def accel0_def granting_def aapi_def printError_def)

theorem connectPlatform_contract_witness:
  "\<exists>s. connectPlatform granting ''xilinx'' ''gather'' ''gather.xclbin'' accel0 = Inr s
     \<and> mStatus s = Normal \<and> a_kernel s \<noteq> 0 \<and> a_commands s \<noteq> 0"
  using granting_connect [of "''xilinx''" "''gather''" "''gather.xclbin''"]
    connectPlatform_contract [OF accel_reach.intros(1), of granting "''xilinx''" "''gather''" "''gather.xclbin''"] by blast

text \<open>
  C37. Clearing the last object releases the program but leaves the shared status normal: the next
  connection asks the runtime for a kernel of the program that has just been released.
\<close>

theorem reconnect_uses_released_program:
  assumes "connectStatus s = Normal" "noOfQueues s = 1"
  shows "\<exists>s' cs ds. connectPlatform e d k x (accel_clear e s) = Inr s'
    \<and> a_calls s' = cs @ AReleaseProgram (a_program s) # ds
    \<and> ACreateKernel (a_program s) k \<in> set ds"
proof -
  obtain s' cs where s': "connectPlatform e d k x (accel_clear e s) = Inr s'"
    "a_calls s' = a_calls (accel_clear e s) @ ACreateKernel (a_program s) k # cs"
    using reconnect_law [OF assms, of e d k x] by blast
  let ?cs = "a_calls s @ [AFinish (a_commands s), AReleaseCommandQueue (a_commands s), AReleaseKernel (a_kernel s)]"
  let ?ds = "AReleaseContext (a_context s) # ACreateKernel (a_program s) k # cs"
  have "a_calls s' = ?cs @ AReleaseProgram (a_program s) # ?ds" using s'(2) assms(2) by (simp add: clear_law)
  moreover have "ACreateKernel (a_program s) k \<in> set ?ds" by simp
  ultimately show ?thesis using s'(1) by blast
qed

theorem reconnect_uses_released_program_witness:
  "\<exists>s s' cs ds. connectPlatform granting ''xilinx'' ''gather'' ''gather.xclbin'' accel0 = Inr s
    \<and> connectPlatform granting ''xilinx'' ''gather'' ''gather.xclbin'' (accel_clear granting s) = Inr s'
    \<and> a_calls s' = cs @ AReleaseProgram 1 # ds \<and> ACreateKernel 1 ''gather'' \<in> set ds"
proof -
  obtain s where s: "connectPlatform granting ''xilinx'' ''gather'' ''gather.xclbin'' accel0 = Inr s"
    "connectStatus s = Normal" "noOfQueues s = 1" "a_program s = 1"
    using granting_connect by blast
  show ?thesis using reconnect_uses_released_program [OF s(2,3), of granting "''xilinx''" "''gather''" "''gather.xclbin''"] s(1,4) by metis
qed

text \<open>
  Every named error code is reported by its own name, except the one whose text the table
  cuts short; an unknown code is reported as such. The codes of the OpenCL headers are distinct.
\<close>

theorem error_texts_are_names:
  assumes "inj_on cl (set error_names)"
  shows "(\<forall>n \<in> set error_names. getErrorString (accel_init cl Map.empty) (cl n)
       = (if n = wait_list_error then ''CL_EXEC_STATUS_ERROR_FOR_EVENTS_IN_W'' else n))
    \<and> (\<forall>c. c \<notin> cl ` set error_names \<longrightarrow> getErrorString (accel_init cl Map.empty) c = ''UNKNOWN ERROR'')"
proof
  show "\<forall>n \<in> set error_names. getErrorString (accel_init cl Map.empty) (cl n)
       = (if n = wait_list_error then ''CL_EXEC_STATUS_ERROR_FOR_EVENTS_IN_W'' else n)"
    using getErrorString_law [OF assms] by blast
  have "map_of (map (\<lambda>(c, txt). (cl c, txt)) error_insertions) c = None" if "c \<notin> cl ` set error_names" for c
    using that unfolding map_of_eq_None_iff error_names_def by force
  then show "\<forall>c. c \<notin> cl ` set error_names \<longrightarrow> getErrorString (accel_init cl Map.empty) c = ''UNKNOWN ERROR''"
    by (simp add: getErrorString_def accel_init_def insert_if_absent)
qed

text \<open>A numbering of the names by which they are distinct.\<close>

fun index_of :: "'a \<Rightarrow> 'a list \<Rightarrow> nat" where
  "index_of x [] = 0"
| "index_of x (y # ys) = (if x = y then 0 else Suc (index_of x ys))"

lemma index_of_inj: "inj_on (\<lambda>x. int (index_of x xs)) (set xs)"
proof -
  have "index_of x xs = index_of y xs \<Longrightarrow> x \<in> set xs \<Longrightarrow> y \<in> set xs \<Longrightarrow> x = y" for x y
    by (induction xs) (auto split: if_splits)
  then show ?thesis by (auto simp: inj_on_def)
qed

theorem error_texts_are_names_witness:
  "getErrorString (accel_init (\<lambda>x. int (index_of x error_names)) Map.empty) (- 1) = ''UNKNOWN ERROR''"
  using error_texts_are_names [OF index_of_inj] by (auto simp: image_iff)

end
