(* ===== verification/Gather_Main.thy ===== *)
theory Gather_Main
  imports Ping_Pong_Runs Ocl_Accel
begin

unbundle bit_operations_syntax

text \<open>
  The program of the gather host as a whole: \<open>createBuf\<close> and \<open>main\<close> of
  \<^verbatim>\<open>omxgather/src/main.cpp\<close>, which put together the reference gather, the command line, the
  index mapping, the connection, the buffers, the execution loop, the kernel and the check.
\<close>

section \<open>The kernel as the device of the loops\<close>

text \<open>
  A device: the initial content of the kernel's local burst, the table memory seen by each of
  its sixteen pointers (all to the first buffer), and the number of streams of the op word.
\<close>

type_synonym kdev = "burst \<times> table_mem list \<times> nat"

definition omx_task :: "kdev \<Rightarrow> u32 \<times> nat \<times> nat \<Rightarrow> (nat \<Rightarrow> burst list) \<Rightarrow> (nat \<Rightarrow> burst list)
    \<Rightarrow> (nat \<Rightarrow> burst list) res" where
  "omx_task d a di dt = (case d of (dout0, ddrs, _) \<Rightarrow> case a of (ops, o0, o1) \<Rightarrow>
     rbind (omx dout0 ops (di 0) (di 1) (dt o0) (dt o1) ddrs) (\<lambda>(x0, x1). Inr (dt(o0 := x0, o1 := x1))))"

definition omx_good :: "kdev \<Rightarrow> u32 \<Rightarrow> bool" where
  "omx_good d ops = (case d of (dout0, ddrs, S) \<Rightarrow>
     selects ops S \<and> length ddrs = 16 \<and> list_all wf_table ddrs \<and> length dout0 = 8)"

definition in_buf_ok :: "burst list \<Rightarrow> bool" where
  "in_buf_ok b \<longleftrightarrow> length b = totalInBurst \<and> list_all (\<lambda>x. length x = 8) b"

definition out_buf_ok :: "burst list \<Rightarrow> bool" where
  "out_buf_ok b \<longleftrightarrow> length b = totalOutBurst"

definition omx_result :: "kdev \<Rightarrow> burst list \<Rightarrow> burst list" where
  "omx_result d b = (case d of (_, ddrs, S) \<Rightarrow> gather_out S ddrs b)"

lemma op_like_masks:
  assumes "op_like ops w"
  shows "w AND STREAM_MASK = ops AND STREAM_MASK"
    and "w AND PING_PONG_IN_MASK = 0 \<longleftrightarrow> w AND 3 = 0"
    and "w AND PING_PONG_OUT_MASK = 0 \<longleftrightarrow> w AND 3 = 0"
proof -
  have "NOT 3 AND STREAM_MASK = STREAM_MASK" "3 AND PING_PONG_IN_MASK = PING_PONG_IN_MASK"
    "3 AND PING_PONG_OUT_MASK = PING_PONG_OUT_MASK"
    by (simp_all add: sizes)
  then have m: "x AND STREAM_MASK = (x AND NOT 3) AND STREAM_MASK" "x AND PING_PONG_IN_MASK = (x AND 3) AND PING_PONG_IN_MASK"
    "x AND PING_PONG_OUT_MASK = (x AND 3) AND PING_PONG_OUT_MASK" for x
    by (simp_all only: and.assoc)
  have l: "w AND NOT 3 = ops AND NOT 3" "w AND 3 = 0 \<or> w AND 3 = 3" using assms unfolding op_like_def by blast+
  show "w AND STREAM_MASK = ops AND STREAM_MASK" using m(1) [of w] m(1) [of ops] l(1) by (simp only:)
  show "w AND PING_PONG_IN_MASK = 0 \<longleftrightarrow> w AND 3 = 0" "w AND PING_PONG_OUT_MASK = 0 \<longleftrightarrow> w AND 3 = 0"
    unfolding m(2,3) [of w] using l(2) by (auto simp: sizes)
qed

interpretation omx_dev: device omx_task omx_good in_buf_ok out_buf_ok omx_result
proof
  fix d :: kdev and ops and di dt :: "nat \<Rightarrow> burst list" and a
  assume as: "omx_good d ops" "\<forall>j. in_buf_ok (di j)" "\<forall>j. out_buf_ok (dt j)" "args_like ops a"
  obtain dout0 ddrs S where d: "d = (dout0, ddrs, S)" by (cases d)
  obtain w o0 o1 where k: "a = (w, o0, o1)" by (cases a)
  have l: "op_like ops w" "even o0" "odd o1" using as(4) k by (simp_all add: args_like_def)
  note o = op_like_masks [OF l(1)]
  have s: "selects w S" using as(1) d o(1) by (simp add: omx_good_def selects_def)
  have n: "o0 \<noteq> o1" using l(2,3) by auto
  have "omx dout0 w (di 0) (di 1) (dt o0) (dt o1) ddrs
    = (let res = gather_out S ddrs (if w AND 3 = 0 then di 0 else di 1)
       in Inr (if w AND 3 = 0 then (res, dt o1) else (dt o0, res)))"
    using gather_law [OF s, of ddrs dout0 "di 0" "di 1" "dt o0" "dt o1"] as d
    by (simp add: omx_def omx_good_def in_buf_ok_def out_buf_ok_def o(2,3))
  then show "omx_task d a di dt = Inr (dt(arg_out a := omx_result d (di (arg_in a))))"
    using n by (auto simp: omx_task_def omx_result_def d k arg_in_def arg_out_def Let_def fun_eq_iff)
next
  fix d :: kdev and b
  assume "in_buf_ok b"
  then show "out_buf_ok (omx_result d b)" by (cases d) (simp add: out_buf_ok_def omx_result_def gather_out_def)
qed

section \<open>Buffers\<close>

text \<open>
  \<open>createBuf\<close>: the returned status, and the buffer with its mapping, which is left unset when
  the buffer itself is not created.
\<close>

definition createBuf :: "aenv \<Rightarrow> nat \<Rightarrow> u32 \<Rightarrow> accel \<Rightarrow> (int \<times> int \<times> int option) \<times> accel" where
  "createBuf e blockSize flags s =
    (let ((clErr, clbuf), s) = aapi e (ACreateBuffer (a_context s) blockSize flags) s in
     if clErr \<noteq> 0 \<or> clbuf = 0 then ((clErr, clbuf, None), s) else
     let ((clErr, mapBuf), s) = aapi e (AMapBuffer (a_commands s) clbuf blockSize) s in
     ((clErr, clbuf, Some mapBuf), s))"

fun createBufs :: "aenv \<Rightarrow> (nat \<times> u32) list \<Rightarrow> accel \<Rightarrow> (int \<times> int option) list \<times> accel" where
  "createBufs e [] s = ([], s)"
| "createBufs e ((n, fl) # plan) s =
     (let ((_, b, m), s) = createBuf e n fl s; (bs, s) = createBufs e plan s in ((b, m) # bs, s))"

text \<open>
  The sizes and bank flags of the buffers that \<open>main\<close> creates, in its order: the table, the two
  input buffers and the output buffers. \<open>fl0\<close> is the indeterminate content of \<open>mBankMem\<close>.
\<close>

definition ddr_plan :: "u32 \<Rightarrow> u32 list \<Rightarrow> config \<Rightarrow> (nat \<times> u32) list res" where
  "ddr_plan topo fl0 c =
     (if sw_emu c then Inr [(mDdrSize, banks topo ! 0)]
      else rbind (bank_flags topo (hbmNum c) (p_ch c) fl0) (\<lambda>fl.
        Inr (map (\<lambda>i. (mDdrSize div hbmNum c, fl ! i)) [0..<hbmNum c])))"

definition in_plan :: "u32 \<Rightarrow> (nat \<times> u32) list" where
  "in_plan topo = [(inBlockSize, banks topo ! 16), (inBlockSize, banks topo ! 17)]"

definition out_plan :: "u32 \<Rightarrow> int \<Rightarrow> (nat \<times> u32) list" where
  "out_plan topo cb =
     (if cb = 1 then [(outBlockSize, banks topo ! 18), (outBlockSize, banks topo ! 19)]
      else map (\<lambda>i. (outBlockSize, if i mod 2 \<noteq> 0 then banks topo ! 19 else banks topo ! 18)) [0..<totalBlocks])"

text \<open>
  A buffer that has been created (\<open>createBuf\<close> has gone on to map it), and one whose mapping is
  usable, neither unset nor null.
\<close>

definition made_ok :: "int \<times> int option \<Rightarrow> bool" where
  "made_ok b \<longleftrightarrow> snd b \<noteq> None"

definition mapped_ok :: "int \<times> int option \<Rightarrow> bool" where
  "mapped_ok b \<longleftrightarrow> (case snd b of None \<Rightarrow> False | Some p \<Rightarrow> p \<noteq> 0)"

text \<open>
  The copy of the table through the mappings of the table buffers; through a mapping that is
  unset or null it is a fault.
\<close>

definition copy_table :: "row list \<Rightarrow> config \<Rightarrow> (int \<times> int option) list \<Rightarrow> row list list res" where
  "copy_table A c bufs =
     (if \<not> list_all mapped_ok bufs then Inl OutOfBounds
      else if sw_emu c then rbind (subarr A 0 rows) (\<lambda>rs. Inr [rs])
      else ddr_copies A (hbmNum c))"

text \<open>
  What the kernel then finds at a row number counted from the first table buffer, whose address
  it gets for each of its sixteen pointers. \<open>place i\<close> is the row number, counted from the start of
  the memory, at which the runtime has put table buffer \<open>i\<close>.
\<close>

definition flag_bank :: "u32 \<Rightarrow> u32 \<Rightarrow> nat" where
  "flag_bank topo fl = unat (fl AND NOT topo)"

definition device_table :: "(nat \<Rightarrow> nat) \<Rightarrow> row list list \<Rightarrow> (nat \<Rightarrow> row) \<Rightarrow> nat \<Rightarrow> row" where
  "device_table place copies junk x =
     (case find (\<lambda>(base, rs). base \<le> place 0 + x \<and> place 0 + x < base + length rs)
         (zip (map place [0..<length copies]) copies) of
        None \<Rightarrow> junk x | Some (base, rs) \<Rightarrow> rs ! (place 0 + x - base))"

section \<open>The program\<close>

text \<open>
  What \<open>main\<close> is run with: the random numbers, the arguments, the runtime, where it puts the
  buffers of a plan in the memory of the device, and the indeterminate content of memory that is
  not initialised.
\<close>

record menv =
  m_rnd :: "nat \<Rightarrow> u32"
  m_tokens :: "string list"
  m_rt :: aenv
  m_place :: "(nat \<times> u32) list \<Rightarrow> nat \<Rightarrow> nat"
  m_topo :: u32
  m_flags0 :: "u32 list"
  m_out0 :: "row list"
  m_xil0 :: "row list"
  m_mapped0 :: "u32 list"
  m_junk :: "nat \<Rightarrow> row"
  m_dout0 :: burst

text \<open>
  The state of \<open>main\<close> when the execution loop is called. \<open>g_ins\<close> and \<open>g_outs\<close> are the input and the
  output buffers as \<open>createBuf\<close> left them: \<open>main\<close> prints a message about one that could not be
  created or mapped, and goes on.
\<close>

record prepared =
  g_cfg :: config
  g_A :: "row list"
  g_in :: "u32 list"
  g_out :: "row list"
  g_mapped :: "u32 list"
  g_mem :: "nat \<Rightarrow> row"
  g_ins :: "(int \<times> int option) list"
  g_outs :: "(int \<times> int option) list"
  g_accel :: accel

text \<open>The first part of \<open>main\<close>; \<open>Inl (n, s)\<close> is \<open>return n\<close>.\<close>

definition prepare :: "menv \<Rightarrow> (int \<times> accel + prepared) res" where
  "prepare m =
    (let (A, inn) = initData (m_rnd m); e = m_rt m in
     rbind (cIndirect A inn (m_out0 m)) (\<lambda>out.
     rbind (main_args (m_tokens m)) (\<lambda>r. case r of Inl n \<Rightarrow> Inr (Inl (n, accel0)) | Inr c \<Rightarrow>
     rbind (in_mapp (sw_emu c) (hbmNum c) (p_ch c) inn (m_mapped0 m)) (\<lambda>(in_mapped, _).
     rbind (connectPlatform e (deviceName c) (kernelName c) (xclbinName c) accel0) (\<lambda>s.
       if mStatus s \<noteq> Normal then Inr (Inl (0, s)) else
     rbind (ddr_plan (m_topo m) (m_flags0 m) c) (\<lambda>plan.
     let (ddrs, s) = createBufs e plan s;
         (ins, s) = createBufs e (in_plan (m_topo m)) s;
         (outs, s) = createBufs e (out_plan (m_topo m) (callback c)) s in
     rbind (copy_table A c ddrs) (\<lambda>copies.
     let ((clErr, _), s) = aapi e (AMigrateAll (a_commands s) (map fst ddrs)) s in
     if clErr \<noteq> 0 then Inr (Inl (0, s)) else
     let (_, s) = aapi e AWaitForMigration s in
       Inr (Inr \<lparr>g_cfg = c, g_A = A, g_in = inn, g_out = out, g_mapped = in_mapped,
         g_mem = device_table (m_place m plan) copies (m_junk m), g_ins = ins, g_outs = outs, g_accel = s\<rparr>))))))))"

text \<open>
  The device and the start of the loop; \<open>main\<close> calls the version with callbacks for \<open>-cb 1\<close>.
  The blocks are those of the mapped indices.
\<close>

definition g_device :: "menv \<Rightarrow> prepared \<Rightarrow> kdev" where
  "g_device m p = (m_dout0 m, replicate 16 (table_of (g_mem p)), streamValue (g_cfg p))"

definition g_cb :: "prepared \<Rightarrow> bool" where
  "g_cb p \<longleftrightarrow> callback (g_cfg p) = 1"

definition g_blocks :: "prepared \<Rightarrow> nat \<Rightarrow> burst list" where
  "g_blocks p = in_block (g_mapped p)"

definition g_start :: "prepared \<Rightarrow> burst list pipe \<Rightarrow> bool" where
  "g_start p s \<longleftrightarrow> (\<exists>hi di dt ho xi. s = exec_start (g_cb p) totalBlocks (op (g_cfg p)) hi di dt ho xi
     \<and> (\<forall>j. in_buf_ok (hi j)) \<and> (\<forall>j. in_buf_ok (di j)) \<and> (\<forall>j. out_buf_ok (dt j)))"

text \<open>
  The result array: filled by the callbacks, for \<open>-cb 0\<close> copied from the output buffers after
  the loop, and for any other value left as it is.
\<close>

definition xilout :: "menv \<Rightarrow> prepared \<Rightarrow> burst list pipe \<Rightarrow> row list" where
  "xilout m p t =
     (if callback (g_cfg p) = 1 then concat (map (\<lambda>i. rows_in (xil t i)) [0..<totalBlocks])
      else if callback (g_cfg p) = 0 then concat (map (\<lambda>i. rows_in (hout t i)) [0..<totalBlocks])
      else m_xil0 m)"

text \<open>
  The environment of the loop: what the runtime does during it, and the buffers as they are.
\<close>

definition g_env :: "prepared \<Rightarrow> setting \<Rightarrow> loop_env" where
  "g_env p e = \<lparr>timely = timely e, set_ok = set_ok e,
     in_made = (\<lambda>j. made_ok (g_ins p ! j)), in_map = (\<lambda>j. mapped_ok (g_ins p ! j)),
     out_made = (\<lambda>j. made_ok (g_outs p ! j)), out_map = (\<lambda>j. mapped_ok (g_outs p ! j))\<rparr>"

definition g_reach :: "menv \<Rightarrow> prepared \<Rightarrow> setting \<Rightarrow> burst list pipe \<Rightarrow> bool" where
  "g_reach m p e t \<longleftrightarrow> (\<exists>s. g_start p s \<and> reach omx_task (g_device m p) (g_blocks p) (g_cb p) (g_env p e) s t)"

text \<open>Whether the copies out of the output buffers that \<open>main\<close> makes for \<open>-cb 0\<close> have their pointers.\<close>

definition copies_out :: "prepared \<Rightarrow> bool" where
  "copies_out p \<longleftrightarrow> (callback (g_cfg p) = 0 \<longrightarrow> list_all mapped_ok (g_outs p))"

text \<open>
  How a run of the program ends: it returns (with the messages of the check), a checked call
  exits, or it goes through a pointer that is not usable or leaves an array.
\<close>

datatype outcome = Returned int "msg list" accel | Exit_failure | Fault cerr

inductive main_ends :: "menv \<Rightarrow> setting \<Rightarrow> outcome \<Rightarrow> bool" for m e where
  fault: "main_ends m e (Fault err)" if "prepare m = Inl err"
| early: "main_ends m e (Returned n [] s)" if "prepare m = Inr (Inl (n, s))"
| skip: "main_ends m e (Returned 0 [] (accel_clear (m_rt m) (g_accel p)))"
    if "prepare m = Inr (Inr p)" "\<not> run_gather (g_cfg p)"
| fail: "main_ends m e Exit_failure"
    if "prepare m = Inr (Inr p)" "run_gather (g_cfg p)" "g_reach m p e t" "exited t"
| strays: "main_ends m e (Fault OutOfBounds)"
    if "prepare m = Inr (Inr p)" "run_gather (g_cfg p)" "g_reach m p e t" "stray (g_env p e) (g_cb p) t"
| no_copy: "main_ends m e (Fault OutOfBounds)"
    if "prepare m = Inr (Inr p)" "run_gather (g_cfg p)" "g_reach m p e t" "todo t = []" "\<not> copies_out p"
| check_fault: "main_ends m e (Fault err)"
    if "prepare m = Inr (Inr p)" "run_gather (g_cfg p)" "g_reach m p e t" "todo t = []" "copies_out p"
      "checkOp (g_A p) (g_in p) ''Gather'' (g_out p) (xilout m p t) True = Inl err"
| check: "main_ends m e (Returned 0 ms (accel_clear (m_rt m) (g_accel p)))"
    if "prepare m = Inr (Inr p)" "run_gather (g_cfg p)" "g_reach m p e t" "todo t = []" "copies_out p"
      "checkOp (g_A p) (g_in p) ''Gather'' (g_out p) (xilout m p t) True = Inr ms"

section \<open>What the program guarantees\<close>

text \<open>
  The conditions on the environment: the arrays have their sizes, and the topology flag of the
  vendor's header leaves the bits of the bank numbers free.
\<close>

definition menv_ok :: "menv \<Rightarrow> bool" where
  "menv_ok m \<longleftrightarrow> length (m_out0 m) = rows \<and> length (m_mapped0 m) = rows \<and> length (m_flags0 m) = 16
     \<and> length (m_dout0 m) = 8 \<and> m_topo m AND 31 = 0"

text \<open>
  The documented placement: bank \<open>n\<close> of the high-bandwidth memory starts \<open>n * 256\<close> MB after bank 0,
  and the first buffer that the runtime puts into a bank lies at its start.
\<close>

definition banked :: "menv \<Rightarrow> bool" where
  "banked m \<longleftrightarrow> (\<forall>plan i. i < length plan \<longrightarrow>
     (\<forall>j < i. flag_bank (m_topo m) (snd (plan ! j)) \<noteq> flag_bank (m_topo m) (snd (plan ! i))) \<longrightarrow>
     m_place m plan i = flag_bank (m_topo m) (snd (plan ! i)) * BANK_ROWS)"

text \<open>The placements of the table that fit the banks named by the flags.\<close>

definition placement_ok :: "config \<Rightarrow> bool" where
  "placement_ok c \<longleftrightarrow> hbm_ok (hbmNum c) \<and> (p_ch c \<or> hbmNum c \<le> 8)"

lemma or_and_not:
  assumes "x AND t = (0 :: u32)"
  shows "(x OR t) AND NOT t = x"
proof (rule bit_word_eqI)
  fix n assume n: "n < LENGTH(32)"
  have "bit (x AND t) n = bit (0 :: u32) n" using assms by simp
  then show "bit ((x OR t) AND NOT t) n = bit x n" using n by (auto simp: bit_simps)
qed

lemma flag_bank_law:
  assumes "topo AND 31 = 0" "b < 32"
  shows "flag_bank topo (of_nat b OR topo) = b"
proof -
  let ?b = "of_nat b :: u32"
  have "?b AND mask 5 = ?b"
    using assms(2) by (simp add: take_bit_eq_mask [symmetric] take_bit_of_nat take_bit_eq_mod [of 5 b])
  then have "?b AND topo = ?b AND (31 AND topo)" by (simp add: mask_eq_exp_minus_1 and.assoc [symmetric])
  then have "?b AND topo = 0" using assms(1) by (simp add: and.commute)
  then show ?thesis using assms(2) by (simp add: flag_bank_def or_and_not unat_of_nat take_bit_eq_mod)
qed

lemma banks_nth: "b < 20 \<Longrightarrow> banks topo ! b = of_nat b OR topo"
  by (simp add: banks_def nth_append)

lemma device_table_banked:
  assumes "place = (\<lambda>i. f i * BANK_ROWS)" "f 0 = 0"
  shows "device_table place copies junk = device_row (zip (map f [0..<length copies]) copies) junk"
proof
  fix x
  have z: "zip (map place [0..<n]) rs = map (\<lambda>(b, r). (b * BANK_ROWS, r)) (zip (map f [0..<n]) rs)" for n rs
    unfolding assms(1) by (simp add: zip_map1 map_zip_map comp_def case_prod_beta)
  have find_map: "find P (map g ys) = map_option g (find (P \<circ> g) ys)" for P :: "nat \<times> row list \<Rightarrow> bool" and g ys
    by (induction ys) auto
  show "device_table place copies junk x = device_row (zip (map f [0..<length copies]) copies) junk x"
  proof -
    have "(\<lambda>(base, rs). base \<le> x \<and> x < base + length rs) \<circ> (\<lambda>(b, r). (b * BANK_ROWS, r))
      = (\<lambda>(bank, rs :: row list). bank * BANK_ROWS \<le> x \<and> x < bank * BANK_ROWS + length rs)" by auto
    moreover have "place 0 + x = x" using assms by simp
    ultimately show ?thesis
      unfolding device_table_def device_row_def z find_map by (auto split: option.split)
  qed
qed

lemma device_table_cong:
  assumes "\<And>i. i < length copies \<Longrightarrow> place i = place' i" "copies \<noteq> []"
  shows "device_table place copies junk = device_table place' copies junk"
proof -
  have "map place [0..<length copies] = map place' [0..<length copies]" using assms(1) by simp
  moreover have "place 0 = place' 0" using assms by simp
  ultimately show ?thesis by (intro ext) (simp only: device_table_def)
qed

lemma device_table_law:
  assumes "menv_ok m" "length A = rows" "sw_emu c \<or> placement_ok c"
  shows "\<exists>plan. ddr_plan (m_topo m) (m_flags0 m) c = Inr plan
    \<and> (\<forall>bufs. list_all mapped_ok bufs \<longrightarrow> (\<exists>copies. copy_table A c bufs = Inr copies
       \<and> (banked m \<longrightarrow> device_table (m_place m plan) copies junk = device_mem A (hbmNum c) (p_ch c) (sw_emu c) junk)))"
proof (cases "sw_emu c")
  case True
  let ?plan = "[(mDdrSize, banks (m_topo m) ! 0)]"
  have "flag_bank (m_topo m) (banks (m_topo m) ! 0) = 0"
    using flag_bank_law [of "m_topo m" 0] assms(1) by (simp add: menv_ok_def banks_nth)
  then have "banked m \<Longrightarrow> m_place m ?plan 0 = 0" unfolding banked_def by force
  then show ?thesis
    using True assms(2)
    by (auto simp: ddr_plan_def copy_table_def device_table_def device_mem_def fun_eq_iff)
next
  case False
  then have h: "hbm_ok (hbmNum c)" "p_ch c \<or> hbmNum c \<le> 8" using assms(3) by (auto simp: placement_ok_def)
  let ?n = "hbmNum c" and ?fl = "\<lambda>i. of_nat (bank_of (p_ch c) i) OR m_topo m :: u32"
  let ?plan = "map (\<lambda>i. (mDdrSize div ?n, ?fl i)) [0..<?n]"
  have n: "?n \<le> 16" "if p_ch c then ?n \<le> 16 else ?n \<le> 10" "0 < ?n" using h by (auto simp: hbm_ok_def)
  have b: "flag_bank (m_topo m) (?fl i) = bank_of (p_ch c) i" if "i < ?n" for i
    using assms(1) that h n by (intro flag_bank_law) (auto simp: menv_ok_def bank_of_def)
  have fl: "bank_flags (m_topo m) ?n (p_ch c) (m_flags0 m) = Inr (map ?fl [0..<?n] @ drop ?n (m_flags0 m))"
    using assms(1) n by (intro bank_flags_16) (auto simp: menv_ok_def)
  have "map (\<lambda>i. (mDdrSize div ?n, (map ?fl [0..<?n] @ drop ?n (m_flags0 m)) ! i)) [0..<?n] = ?plan"
    by (simp add: nth_append)
  then have plan: "ddr_plan (m_topo m) (m_flags0 m) c = Inr ?plan" using False fl by (simp add: ddr_plan_def del: map_map)
  have sl: "length (slices A ?n) = ?n" by (simp add: slices_def)
  have "device_table (m_place m ?plan) (slices A ?n) junk = device_row (placed A ?n (p_ch c)) junk" if m: "banked m"
  proof -
    have "m_place m ?plan i = bank_of (p_ch c) i * BANK_ROWS" if i: "i < ?n" for i
    proof -
      have "flag_bank (m_topo m) (snd (?plan ! j)) = bank_of (p_ch c) j" if "j < ?n" for j using b that by simp
      moreover have "bank_of (p_ch c) j \<noteq> bank_of (p_ch c) i" if "j < i" for j using that by (simp add: bank_of_def)
      ultimately show ?thesis using m i unfolding banked_def by simp
    qed
    then have "device_table (m_place m ?plan) (slices A ?n) junk
        = device_table (\<lambda>i. bank_of (p_ch c) i * BANK_ROWS) (slices A ?n) junk"
      using sl n(3) by (intro device_table_cong) auto
    also have "\<dots> = device_row (zip (map (bank_of (p_ch c)) [0..<?n]) (slices A ?n)) junk"
      using device_table_banked [OF refl, of "bank_of (p_ch c)" "slices A ?n"] sl by (simp add: bank_of_def)
    also have "zip (map (bank_of (p_ch c)) [0..<?n]) (slices A ?n) = placed A ?n (p_ch c)"
      by (intro nth_equalityI) (simp_all add: placed_def slices_def)
    finally show ?thesis .
  qed
  then show ?thesis
    using False plan ddr_copies_law [OF h(1) assms(2)]
    by (simp add: copy_table_def device_mem_def)
qed

lemma prepare_law:
  assumes "prepare m = Inr (Inr p)" "menv_ok m" "sw_emu (g_cfg p) \<or> placement_ok (g_cfg p)"
  shows "data_ok (g_A p) (g_in p)"
    and "g_mapped p = map (device_index (hbmNum (g_cfg p)) (p_ch (g_cfg p)) (sw_emu (g_cfg p))) (g_in p)"
    and "banked m \<Longrightarrow> g_mem p = device_mem (g_A p) (hbmNum (g_cfg p)) (p_ch (g_cfg p)) (sw_emu (g_cfg p)) (m_junk m)"
    and "selects (op (g_cfg p)) (streamValue (g_cfg p))"
    and "hbmNum (g_cfg p) \<in> {2, 4, 8, 16, 32}"
    and "g_out p = reference (g_A p) (g_in p)"
proof -
  obtain A inn where d: "initData (m_rnd m) = (A, inn)" by fastforce
  have ok: "data_ok A inn" using initData_ok [of "m_rnd m"] d by simp
  have o: "cIndirect A inn (m_out0 m) = Inr (reference A inn)"
    using cIndirect_law [OF ok] assms(2) by (simp add: menv_ok_def)
  obtain r where r: "main_args (m_tokens m) = Inr r"
    using assms(1) d o by (cases "main_args (m_tokens m)") (simp_all add: prepare_def Let_def)
  obtain c where c: "r = Inr c"
    using assms(1) d o r by (cases r) (simp_all add: prepare_def Let_def)
  obtain ws e plan copies ddrs where m: "main_args (m_tokens m) = Inr (Inr c)"
      "in_mapp (sw_emu c) (hbmNum c) (p_ch c) inn (m_mapped0 m) = Inr (ws, e)"
      "ddr_plan (m_topo m) (m_flags0 m) c = Inr plan" "copy_table A c ddrs = Inr copies"
    and p: "g_cfg p = c" "g_A p = A" "g_in p = inn" "g_out p = reference A inn" "g_mapped p = ws"
      "g_mem p = device_table (m_place m plan) copies (m_junk m)"
    using assms(1) d o r c
    by (auto simp: prepare_def rbind_eq_Inr Let_def case_prod_beta split: if_splits)
  have len: "length A = rows" "length inn = rows" "\<And>i. i < rows \<Longrightarrow> unat (inn ! i) < rows" "length (m_mapped0 m) = rows"
    using ok assms(2) by (auto simp: data_ok_def menv_ok_def)
  show "data_ok (g_A p) (g_in p)" using ok p by simp
  show "g_out p = reference (g_A p) (g_in p)" using p by simp
  show "selects (op (g_cfg p)) (streamValue (g_cfg p))" "hbmNum (g_cfg p) \<in> {2, 4, 8, 16, 32}"
    using main_args_law [OF m(1)] p(1) by simp_all
  obtain plan' where dt: "ddr_plan (m_topo m) (m_flags0 m) c = Inr plan'"
    "\<And>bufs. list_all mapped_ok bufs \<Longrightarrow> (\<exists>copies. copy_table A c bufs = Inr copies
       \<and> (banked m \<longrightarrow> device_table (m_place m plan') copies (m_junk m) = device_mem A (hbmNum c) (p_ch c) (sw_emu c) (m_junk m)))"
    using device_table_law [OF assms(2) len(1), of c "m_junk m"] assms(3) p(1) by auto
  have "list_all mapped_ok ddrs" using m(4) by (auto simp: copy_table_def split: if_splits)
  then show "g_mem p = device_mem (g_A p) (hbmNum (g_cfg p)) (p_ch (g_cfg p)) (sw_emu (g_cfg p)) (m_junk m)" if "banked m"
    using dt m(3,4) p that by fastforce
  show "g_mapped p = map (device_index (hbmNum (g_cfg p)) (p_ch (g_cfg p)) (sw_emu (g_cfg p))) (g_in p)"
  proof (cases "sw_emu c")
    case True
    from in_mapp_emu [OF len(2,4)] show ?thesis using m(2) p True by (simp add: device_index_def cong: map_cong)
  next
    case False
    then have "hbm_ok (hbmNum c)" using assms(3) p(1) by (simp add: placement_ok_def)
    from in_mapp_law [OF len(2,4,3) this, of "p_ch c"] show ?thesis
      using m(2) p False by (simp add: device_index_def [abs_def])
  qed
qed

text \<open>The buffers of the loop.\<close>

definition buffers_ok :: "prepared \<Rightarrow> bool" where
  "buffers_ok p \<longleftrightarrow> list_all mapped_ok (g_ins p @ g_outs p)"

lemma createBufs_length: "length (fst (createBufs e plan s)) = length plan"
  by (induction plan arbitrary: s) (auto simp: case_prod_beta Let_def)

lemma prepare_bufs:
  assumes "prepare m = Inr (Inr p)"
  shows "length (g_ins p) = 2" "length (g_outs p) = (if g_cb p then 2 else totalBlocks)"
proof -
  obtain A inn where d: "initData (m_rnd m) = (A, inn)" by fastforce
  obtain out where o: "cIndirect A inn (m_out0 m) = Inr out"
    using assms d by (cases "cIndirect A inn (m_out0 m)") (simp_all add: prepare_def Let_def)
  obtain r where r: "main_args (m_tokens m) = Inr r"
    using assms d o by (cases "main_args (m_tokens m)") (simp_all add: prepare_def Let_def)
  obtain c where c: "r = Inr c"
    using assms d o r by (cases r) (simp_all add: prepare_def Let_def)
  obtain s t where "g_cfg p = c" "g_ins p = fst (createBufs (m_rt m) (in_plan (m_topo m)) s)"
    "g_outs p = fst (createBufs (m_rt m) (out_plan (m_topo m) (callback c)) t)"
    using assms d o r c by (auto simp: prepare_def rbind_eq_Inr Let_def case_prod_beta split: if_splits)
  then show "length (g_ins p) = 2" "length (g_outs p) = (if g_cb p then 2 else totalBlocks)"
    by (simp_all only: createBufs_length g_cb_def) (simp_all add: in_plan_def out_plan_def)
qed

lemma mapped_made: "mapped_ok b \<Longrightarrow> made_ok b"
  by (auto simp: mapped_ok_def made_ok_def split: option.splits)

lemma g_env_ok:
  assumes "prepare m = Inr (Inr p)" "buffers_ok p" "sets_ok e"
  shows "env_ok (g_cb p) totalBlocks (g_env p e)"
proof -
  have "slot (g_cb p) i < length (g_outs p)" if "i < totalBlocks" for i
    using that prepare_bufs(2) [OF assms(1)] by (simp add: slot_def)
  moreover have "list_all mapped_ok (g_ins p)" "list_all mapped_ok (g_outs p)"
    using assms(2) by (simp_all add: buffers_ok_def)
  ultimately show ?thesis
    using assms(3) prepare_bufs(1) [OF assms(1)] mapped_made
    by (simp add: env_ok_def g_env_def sets_ok_def list_all_length)
qed

lemma g_env_setting: "timely (g_env p e) = timely e" "sets_ok (g_env p e) = sets_ok e"
  by (simp_all add: g_env_def sets_ok_def)

text \<open>The device and the blocks meet what the loops rely on.\<close>

lemma in_block_buf_ok: "in_buf_ok (in_block ws i)"
  using in_block_wf [of ws i] by (simp add: in_buf_ok_def)

lemma g_started:
  assumes "prepare m = Inr (Inr p)" "menv_ok m" "sw_emu (g_cfg p) \<or> placement_ok (g_cfg p)" "g_start p s"
  shows "omx_dev.started (g_cb p) totalBlocks (op (g_cfg p)) (g_blocks p) (g_device m p) s"
  using prepare_law(4) [OF assms(1-3)] assms(2,4)
  by (simp add: omx_dev.started_def omx_good_def g_device_def g_start_def g_blocks_def in_block_buf_ok wf_table_of menv_ok_def list_all_iff)

text \<open>One block of the result, whichever placement the table has.\<close>

lemma block_result:
  assumes "data_ok A inn" "hbm_ok n \<or> swemu" "i < totalBlocks" "stream_count S"
    and "ws = map (device_index n pc swemu) inn"
  shows "rows_in (omx_result (d0, replicate 16 (table_of (device_mem A n pc swemu junk)), S) (in_block ws i))
    = device_block A inn i"
proof (cases "hbm_ok n")
  case True
  from gather_block [OF assms(1) True assms(3,5) refl assms(4)] show ?thesis by (simp add: omx_result_def)
next
  case False
  then have s: "swemu" using assms(2) by simp
  have "device_index n pc True = device_index 2 pc True" "device_mem A n pc True junk = device_mem A 2 pc True junk"
    by (simp_all add: device_index_def device_mem_def fun_eq_iff)
  with gather_block [of A inn 2 i ws pc True _ junk S] assms s show ?thesis
    by (simp add: omx_result_def hbm_ok_def)
qed

lemma blocks_result:
  assumes "prepare m = Inr (Inr p)" "menv_ok m" "sw_emu (g_cfg p) \<or> placement_ok (g_cfg p)" "banked m"
    and "\<And>i. i < totalBlocks \<Longrightarrow> h i = omx_result (g_device m p) (g_blocks p i)"
  shows "concat (map (\<lambda>i. rows_in (h i)) [0..<totalBlocks]) = reference (g_A p) (g_in p)"
proof -
  note pl = prepare_law [OF assms(1-3)]
  have "rows_in (h i) = device_block (g_A p) (g_in p) i" if "i < totalBlocks" for i
    using block_result [OF pl(1) _ that _ pl(2), of "streamValue (g_cfg p)"] assms(3) pl(3) [OF assms(4)] pl(4) assms(5) [OF that]
    by (auto simp: g_device_def g_blocks_def selects_def placement_ok_def)
  then have "map (\<lambda>i. rows_in (h i)) [0..<totalBlocks] = map (device_block (g_A p) (g_in p)) [0..<totalBlocks]"
    by simp
  then show ?thesis using blocks_reference [OF pl(1)] by (simp only:)
qed

lemma rows_in_length: "length (rows_in b) = block_words"
  by (simp add: rows_in_def block_bounds(1))

text \<open>What a returning run of the loop gives, for the loop without callbacks.\<close>

lemma checked_run:
  assumes "prepare m = Inr (Inr p)" "menv_ok m" "sw_emu (g_cfg p) \<or> placement_ok (g_cfg p)" "banked m"
    and "g_reach m p e t" "todo t = []" "timely e" "sets_ok e"
    and "g_cb p \<longrightarrow> regd t = []" "callback (g_cfg p) \<in> {0, 1}"
  shows "xilout m p t = reference (g_A p) (g_in p)"
proof -
  obtain s where s: "g_start p s" "reach omx_task (g_device m p) (g_blocks p) (g_cb p) (g_env p e) s t"
    using assms(5) unfolding g_reach_def by blast
  have "result_of (g_cb p) t i = omx_result (g_device m p) (g_blocks p i)" if "i < totalBlocks" for i
    by (rule omx_dev.exec_correct [OF g_started [OF assms(1-3) s(1)] s(2) assms(6,9) that])
      (simp_all add: g_env_setting assms(7,8))
  from blocks_result [OF assms(1-4) this] assms(10) show ?thesis
    by (auto simp: xilout_def g_cb_def result_of_def)
qed

section \<open>A concrete program run\<close>

definition sample_rt :: aenv where
  "sample_rt = \<lparr>ae_orc = (\<lambda>_. (0, 1)), ae_platform = (\<lambda>_. 7), ae_vendor = (\<lambda>_. ''Xilinx''),
     ae_file = (\<lambda>_. Some [0]), ae_got = 1\<rparr>"

definition sample_menv :: "string list \<Rightarrow> menv" where
  "sample_menv tokens = \<lparr>m_rnd = of_nat, m_tokens = tokens, m_rt = sample_rt,
     m_place = (\<lambda>plan i. flag_bank (2 ^ 31) (snd (plan ! i)) * BANK_ROWS), m_topo = 2 ^ 31,
     m_flags0 = replicate 16 0, m_out0 = replicate rows \<lparr>r_measure = 0, r_group = 0\<rparr>,
     m_xil0 = replicate rows \<lparr>r_measure = 0, r_group = 0\<rparr>, m_mapped0 = replicate rows 0,
     m_junk = (\<lambda>_. \<lparr>r_measure = 0, r_group = 0\<rparr>), m_dout0 = replicate 8 0\<rparr>"

lemma sample_menv_ok: "menv_ok (sample_menv tokens)" "banked (sample_menv tokens)"
  by (simp_all add: menv_ok_def sample_menv_def banked_def)

lemma sample_connect:
  "\<exists>s. connectPlatform sample_rt d k x accel0 = Inr s \<and> mStatus s = Normal"
  by (simp add: connectPlatform_def connect_shared_def createContext_def createProgram_def
      loadFileToMemory_def connect_object_def accel0_def sample_rt_def aapi_def printError_def)

lemma sample_createBufs: "list_all mapped_ok (fst (createBufs sample_rt plan s))"
  by (induction plan arbitrary: s)
    (auto simp: createBuf_def aapi_def mapped_ok_def sample_rt_def case_prod_beta Let_def)

lemma sample_prepare:
  assumes "main_args tokens = Inr (Inr c)" "\<not> sw_emu c" "hbmNum c = 16" "p_ch c"
  shows "\<exists>p. prepare (sample_menv tokens) = Inr (Inr p) \<and> g_cfg p = c
    \<and> g_A p = fst (initData of_nat) \<and> g_in p = snd (initData of_nat) \<and> buffers_ok p"
proof -
  obtain A inn where d: "initData (of_nat :: nat \<Rightarrow> u32) = (A, inn)" by fastforce
  have ok: "data_ok A inn" using initData_ok [of of_nat] d by simp
  note l = cIndirect_law [OF ok, of "replicate rows \<lparr>r_measure = 0, r_group = 0\<rparr>"]
  have h: "hbm_ok (hbmNum c)" using assms(3) by (simp add: hbm_ok_def)
  then have i: "in_mapp (sw_emu c) (hbmNum c) (p_ch c) inn (replicate rows 0)
      = Inr (map (\<lambda>k. of_nat (mapped_index (hbmNum c) (p_ch c) (unat k))) inn, 0)"
    using in_mapp_law [of inn "replicate rows 0" "hbmNum c" "p_ch c"] ok assms(2) by (simp add: data_ok_def)
  obtain s where s: "connectPlatform sample_rt (deviceName c) (kernelName c) (xclbinName c) accel0 = Inr s"
    "mStatus s = Normal" using sample_connect by blast
  have pl: "placement_ok c" using h assms(4) by (simp add: placement_ok_def)
  have len: "length A = rows" using ok by (simp add: data_ok_def)
  let ?m = "sample_menv tokens"
  obtain plan where plan: "ddr_plan (m_topo ?m) (m_flags0 ?m) c = Inr plan"
    "\<forall>bufs. list_all mapped_ok bufs \<longrightarrow> (\<exists>copies. copy_table A c bufs = Inr copies)"
    using device_table_law [OF sample_menv_ok(1) [of tokens] len, of c "m_junk ?m"] pl by blast
  obtain copies where cp: "copy_table A c (fst (createBufs sample_rt plan s)) = Inr copies"
    using plan(2) sample_createBufs by blast
  have orc: "fst (aapi sample_rt a t) = (0, 1)" for a t by (simp add: sample_rt_def)
  show ?thesis
    using d l i s plan(1) cp assms(1) orc sample_createBufs
    by (auto simp: prepare_def sample_menv_def Let_def case_prod_beta buffers_ok_def)
qed

lemma sample_args:
  "\<exists>c. main_args [''-cb'', ''0''] = Inr (Inr c) \<and> \<not> sw_emu c \<and> hbmNum c = 16 \<and> p_ch c \<and> run_gather c \<and> callback c = 0"
  "\<exists>c. main_args [''-cb'', ''1''] = Inr (Inr c) \<and> \<not> sw_emu c \<and> hbmNum c = 16 \<and> p_ch c \<and> run_gather c \<and> callback c = 1"
  "\<exists>c. main_args [''-cb'', ''2''] = Inr (Inr c) \<and> \<not> sw_emu c \<and> hbmNum c = 16 \<and> p_ch c \<and> run_gather c \<and> callback c = 2"
  "\<exists>c. main_args [''-hbm'', ''32''] = Inr (Inr c) \<and> \<not> sw_emu c \<and> hbmNum c = 32"
  by (simp_all add: main_args_def parse_hbm_def parse_pu_def parse_run_def parse_name_def getCmdOption_def c_strcpy_def
      stoi_def atoi_def signed_value_def signed_digits_def is_digits_def is_digit_def is_space_def hbm_count_iff num_def
      stream_bits_law sizes ARG_SZ_def)


section \<open>Returning runs\<close>

text \<open>A checked run of the program, from a run of the loop.\<close>

lemma main_ends_check:
  assumes "prepare m = Inr (Inr p)" "run_gather (g_cfg p)" "g_reach m p e t" "todo t = []" "copies_out p"
    and "data_ok (g_A p) (g_in p)" "length (xilout m p t) = rows"
  shows "\<exists>ms. main_ends m e (Returned 0 ms (accel_clear (m_rt m) (g_accel p)))
    \<and> (Test_passed ''Gather'' \<in> set ms \<longleftrightarrow> xilout m p t = reference (g_A p) (g_in p))"
proof -
  obtain ms where "checkOp (g_A p) (g_in p) ''Gather'' (g_out p) (xilout m p t) True = Inr ms"
    "Test_passed ''Gather'' \<in> set ms \<longleftrightarrow> xilout m p t = reference (g_A p) (g_in p)"
    using checkOp_law [OF assms(6,7)] by blast
  with main_ends.check [OF assms(1-5)] show ?thesis by blast
qed

lemma g_start_exists: "\<exists>s. g_start p s"
proof -
  let ?i = "\<lambda>_. replicate totalInBurst (replicate 8 0)" and ?o = "\<lambda>_. replicate totalOutBurst []"
  have "g_start p (exec_start (g_cb p) totalBlocks (op (g_cfg p)) ?i ?i ?o ?o ?o)"
    unfolding g_start_def
    by (intro exI [of _ ?i] exI [of _ ?o] conjI refl) (simp_all add: in_buf_ok_def out_buf_ok_def list_all_iff)
  then show ?thesis by blast
qed

lemma g_can_end:
  assumes "prepare m = Inr (Inr p)" "menv_ok m" "sw_emu (g_cfg p) \<or> placement_ok (g_cfg p)" "buffers_ok p" "sets_ok e"
  shows "\<exists>t. g_reach m p e t \<and> todo t = []"
proof -
  obtain s where s: "g_start p s" using g_start_exists by blast
  from omx_dev.exec_ends [OF g_started [OF assms(1-3) s] g_env_ok [OF assms(1,4,5)]] s show ?thesis
    unfolding g_reach_def ended_def by blast
qed

lemma g_not_stray:
  assumes "prepare m = Inr (Inr p)" "menv_ok m" "sw_emu (g_cfg p) \<or> placement_ok (g_cfg p)" "buffers_ok p" "sets_ok e"
    and "g_reach m p e t"
  shows "\<not> stray (g_env p e) (g_cb p) t"
proof -
  obtain s where s: "g_start p s" "reach omx_task (g_device m p) (g_blocks p) (g_cb p) (g_env p e) s t"
    using assms(6) unfolding g_reach_def by blast
  have st: "omx_dev.started (g_cb p) totalBlocks (op (g_cfg p)) (g_blocks p) (g_device m p) s"
    by (rule g_started [OF assms(1-3) s(1)])
  then have "omx_good (g_device m p) (op (g_cfg p))" "\<forall>i < totalBlocks. in_buf_ok (g_blocks p i)"
    unfolding omx_dev.started_def by blast+
  from omx_dev.reach_inv [OF s(2) this conjunct1 [OF omx_dev.inv_start [OF st]]]
    omx_dev.not_stray [OF _ g_env_ok [OF assms(1,4,5)]] show ?thesis by blast
qed

lemma buffers_copies: "buffers_ok p \<Longrightarrow> copies_out p"
  by (simp add: buffers_ok_def copies_out_def)

lemma main_returns_checked:
  assumes "main_ends m e (Returned r ms s')" "prepare m = Inr (Inr p)" "run_gather (g_cfg p)"
  obtains t where "g_reach m p e t" "todo t = []"
    "checkOp (g_A p) (g_in p) ''Gather'' (g_out p) (xilout m p t) True = Inr ms"
  using assms by (cases rule: main_ends.cases) auto


lemma xilout_length:
  "callback (g_cfg p) \<in> {0, 1} \<Longrightarrow> length (xilout m p t) = rows"
proof -
  have "length (concat (map (\<lambda>i. rows_in (h i)) [0..<n])) = n * block_words" for h :: "nat \<Rightarrow> burst list" and n
    by (induction n) (simp_all add: rows_in_length)
  then show "callback (g_cfg p) \<in> {0, 1} \<Longrightarrow> ?thesis"
    using block_bounds(2) by (auto simp: xilout_def)
qed

lemma main_no_fault:
  assumes "prepare m = Inr (Inr p)" "menv_ok m" "sw_emu (g_cfg p) \<or> placement_ok (g_cfg p)" "buffers_ok p" "sets_ok e"
    and "callback (g_cfg p) \<in> {0, 1}"
  shows "\<not> main_ends m e (Fault err)"
proof
  note ns = g_not_stray [OF assms(1-5)] and c = buffers_copies [OF assms(4)]
  have ck: "\<exists>ms. checkOp (g_A p) (g_in p) ''Gather'' (g_out p) (xilout m p t) True = Inr ms" for t
    using checkOp_law [OF prepare_law(1) [OF assms(1-3)] xilout_length [OF assms(6)]] by blast
  assume "main_ends m e (Fault err)"
  then show False
  proof (cases rule: main_ends.cases)
    case (strays p' t)
    then show False using ns assms(1) by auto
  next
    case (check_fault p' t)
    then show False using ck [of t] assms(1) by auto
  qed (use assms(1) c in auto)
qed

text \<open>
  A first input buffer that could not be created or mapped: \<open>main\<close> has printed a message, and
  the first copy of the loop then goes through the bad pointer.
\<close>

lemma stuck_at_copy:
  assumes "reach task d B cb e s t" "todo s = Copy 0 # as" "\<not> in_map e 0" "pend s = []" "regd s = []"
  shows "t = s"
  using assms
proof (induction rule: reach.induct)
  case (reach_step s t u)
  then have "t = s" by blast
  with reach_step.hyps(2) reach_step.prems show ?case
    by (cases rule: pipe_step.cases) (auto simp: checked_def)
qed simp

lemma unmapped_input_faults:
  assumes "prepare m = Inr (Inr p)" "run_gather (g_cfg p)" "\<not> mapped_ok (g_ins p ! 0)"
  shows "main_ends m e out \<longleftrightarrow> out = Fault OutOfBounds"
proof -
  have n: "[0..<totalBlocks] = 0 # [1..<totalBlocks]" by (simp add: upt_conv_Cons sizes rows_def)
  have c: "\<exists>as. exec_calls cb totalBlocks = Copy 0 # as" for cb
    unfolding exec_calls_def n by (simp add: iteration_defs)
  have im: "\<not> in_map (g_env p e) 0" using assms(3) by (simp add: g_env_def)
  have st: "(\<exists>as. todo s = Copy 0 # as) \<and> pend s = [] \<and> regd s = [] \<and> \<not> exited s" if "g_start p s" for s
    using that c unfolding g_start_def exec_start_def by force
  have stuck: "(\<exists>as. todo t = Copy 0 # as) \<and> \<not> exited t" if "g_reach m p e t" for t
  proof -
    obtain s where s: "g_start p s" "reach omx_task (g_device m p) (g_blocks p) (g_cb p) (g_env p e) s t"
      using \<open>g_reach m p e t\<close> unfolding g_reach_def by blast
    with st [OF s(1)] stuck_at_copy [OF s(2) _ im] show ?thesis by auto
  qed
  obtain s where s: "g_start p s" using g_start_exists by blast
  then have "g_reach m p e s" unfolding g_reach_def by (blast intro: reach_refl)
  moreover from stuck [OF this] im have "stray (g_env p e) (g_cb p) s" by (auto simp: stray_def)
  ultimately have "main_ends m e (Fault OutOfBounds)" by (rule main_ends.strays [OF assms(1,2)])
  moreover have "out = Fault OutOfBounds" if "main_ends m e out"
    using that assms(1,2) stuck by (cases rule: main_ends.cases) fastforce+
  ultimately show ?thesis by blast
qed

text \<open>
  C4. The gather program for \<open>-cb 0\<close> with the gather selected, as it is by default, from the command line to the printed verdict, for every
  number of streams and every placement of the table that fits the board. When the input and
  output buffers have been created and mapped, it has a run that returns 0, and no run leaves an
  array or goes through a bad pointer. And every run that returns reports that the gathered rows
  are the reference. This assumes of the runtime that a buffer lies at the start of its bank,
  that setting a kernel argument succeeds, and that the device takes each block out of host
  memory before the second next one is copied there.
\<close>

theorem gather_program_passes:
  assumes "menv_ok m" "banked m" "timely e" "sets_ok e"
    and "prepare m = Inr (Inr p)" "run_gather (g_cfg p)" "callback (g_cfg p) = 0"
    and "sw_emu (g_cfg p) \<or> placement_ok (g_cfg p)"
  shows "(buffers_ok p \<longrightarrow> (\<exists>ms. main_ends m e (Returned 0 ms (accel_clear (m_rt m) (g_accel p))))
      \<and> (\<forall>err. \<not> main_ends m e (Fault err)))
    \<and> (\<forall>r ms s. main_ends m e (Returned r ms s) \<longrightarrow> r = 0 \<and> Test_passed ''Gather'' \<in> set ms)"
proof (intro conjI impI allI)
  note ok = prepare_law(1) [OF assms(5,1,8)]
  have c: "callback (g_cfg p) \<in> {0, 1}" "\<not> g_cb p" using assms(7) by (simp_all add: g_cb_def)
  show "\<exists>ms. main_ends m e (Returned 0 ms (accel_clear (m_rt m) (g_accel p)))" if "buffers_ok p"
    using g_can_end [OF assms(5,1,8) that assms(4)]
      main_ends_check [OF assms(5,6) _ _ buffers_copies [OF that] ok xilout_length [OF c(1)]] by blast
  show "\<not> main_ends m e (Fault err)" if "buffers_ok p" for err
    by (rule main_no_fault [OF assms(5,1,8) that assms(4) c(1)])
  fix r ms s' assume r: "main_ends m e (Returned r ms s')"
  then show "r = 0" using assms(5) by (cases rule: main_ends.cases) auto
  obtain t where t: "g_reach m p e t" "todo t = []"
    "checkOp (g_A p) (g_in p) ''Gather'' (g_out p) (xilout m p t) True = Inr ms"
    using r assms(5,6) by (rule main_returns_checked)
  have "xilout m p t = reference (g_A p) (g_in p)"
    using c(2) by (intro checked_run [OF assms(5,1,8,2) t(1,2) assms(3,4) _ c(1)]) simp
  with checkOp_law [OF ok xilout_length [OF c(1), of m t], of "''Gather''" "g_out p"] t(3)
  show "Test_passed ''Gather'' \<in> set ms" by auto
qed

definition swift :: setting where
  "swift = \<lparr>timely = True, set_ok = (\<lambda>_ _. True)\<rparr>"

definition slow :: setting where
  "slow = \<lparr>timely = False, set_ok = (\<lambda>_ _. True)\<rparr>"

lemma setting_ok: "timely swift" "sets_ok swift" "\<not> timely slow" "sets_ok slow"
  by (simp_all add: swift_def slow_def sets_ok_def)

theorem gather_program_passes_witness:
  "\<exists>m p. prepare m = Inr (Inr p) \<and> (\<exists>ms s. main_ends m swift (Returned 0 ms s) \<and> Test_passed ''Gather'' \<in> set ms)"
proof -
  obtain c where c: "main_args [''-cb'', ''0''] = Inr (Inr c)" "\<not> sw_emu c" "hbmNum c = 16" "p_ch c" "run_gather c" "callback c = 0"
    using sample_args(1) by blast
  let ?m = "sample_menv [''-cb'', ''0'']"
  obtain p where p: "prepare ?m = Inr (Inr p)" "g_cfg p = c" "buffers_ok p" using sample_prepare [OF c(1-4)] by blast
  have "placement_ok c" using c by (simp add: placement_ok_def hbm_ok_def)
  then show ?thesis
    using gather_program_passes [OF sample_menv_ok setting_ok(1,2) p(1)] p c(5,6) by blast
qed



text \<open>
  C26. With callbacks the loop can return before the callback of the last block has run, even on
  a timely device: when nothing that the calls need is missing, from every start there is a run
  that returns with the last block of the result array as it was.
\<close>

theorem execFpgaOp_cb_loses_last:
  assumes "omx_good d ops" "\<forall>i < totalBlocks. in_buf_ok (B i)" "env_ok True totalBlocks e"
    and "\<forall>j. in_buf_ok (hi j)" "\<forall>j. in_buf_ok (di j)" "\<forall>j. out_buf_ok (dt j)"
  shows "\<exists>t. reach omx_task d B True e (exec_start True totalBlocks ops hi di dt ho xi) t
    \<and> todo t = [] \<and> \<not> exited t \<and> xil t (totalBlocks - 1) = xi (totalBlocks - 1)"
proof -
  have "omx_dev.started True totalBlocks ops B d (exec_start True totalBlocks ops hi di dt ho xi)"
    using assms unfolding omx_dev.started_def by blast
  moreover have "0 < totalBlocks" by (simp add: sizes rows_def)
  ultimately show ?thesis
    using omx_dev.exec_loses_last [OF _ _ assms(3)] by (fastforce simp: result_of_def exec_start_def)
qed

text \<open>A device, buffers and an environment for the witnesses.\<close>

definition zero_in :: "nat \<Rightarrow> burst list" where
  "zero_in = (\<lambda>_. replicate totalInBurst (replicate 8 0))"

definition zero_out :: "nat \<Rightarrow> burst list" where
  "zero_out = (\<lambda>_. replicate totalOutBurst [])"

definition zero_dev :: kdev where
  "zero_dev = (replicate 8 0, replicate 16 (table_of (\<lambda>_. \<lparr>r_measure = 0, r_group = 0\<rparr>)), 16)"

definition good_env :: loop_env where
  "good_env = \<lparr>timely = True, set_ok = (\<lambda>_ _. True), in_made = (\<lambda>_. True), in_map = (\<lambda>_. True),
     out_made = (\<lambda>_. True), out_map = (\<lambda>_. True)\<rparr>"

lemma zero_ok: "omx_good zero_dev 64" "\<forall>j. in_buf_ok (zero_in j)" "\<forall>j. out_buf_ok (zero_out j)"
  by (simp_all add: omx_good_def zero_dev_def zero_in_def zero_out_def in_buf_ok_def out_buf_ok_def
      list_all_iff wf_table_of selects_def stream_count_def sizes)

lemma good_env_ok: "env_ok cb n good_env" "timely good_env"
  by (simp_all add: env_ok_def sets_ok_def good_env_def)

theorem execFpgaOp_cb_loses_last_witness:
  "\<exists>t. reach omx_task zero_dev zero_in True good_env
      (exec_start True totalBlocks 64 zero_in zero_in zero_out zero_out zero_out) t
    \<and> todo t = [] \<and> \<not> exited t \<and> xil t (totalBlocks - 1) = zero_out (totalBlocks - 1)"
  using execFpgaOp_cb_loses_last [of zero_dev 64 zero_in good_env zero_in zero_in zero_out zero_out zero_out]
    zero_ok good_env_ok by blast

text \<open>
  C27. The execution loops always end: every step of host, device or callback uses up work, and
  from every reachable state in which the process has not exited the run can be completed, with
  the host returned, the queue empty and every callback made. This is so when the buffers exist
  and are mapped and the kernel arguments can be set; in any other environment the run can still
  be brought to an end, that way, by an exit, or by going through a bad pointer.
\<close>

theorem execFpgaOp_ends:
  assumes "omx_good d ops" "\<forall>i < totalBlocks. in_buf_ok (B i)"
    and "\<forall>j. in_buf_ok (hi j)" "\<forall>j. in_buf_ok (di j)" "\<forall>j. out_buf_ok (dt j)"
    and "reach omx_task d B cb e (exec_start cb totalBlocks ops hi di dt ho xi) s"
  shows "(\<forall>s'. pipe_step omx_task d B cb e s s' \<longrightarrow> work s' < work s)
    \<and> (\<not> exited s \<longrightarrow> (\<exists>t. reach omx_task d B cb e s t
        \<and> (exited t \<or> stray e cb t \<or> todo t = [] \<and> pend t = [] \<and> regd t = [])
        \<and> (env_ok cb totalBlocks e \<longrightarrow> todo t = [] \<and> pend t = [] \<and> regd t = [] \<and> \<not> exited t)))"
proof -
  have st: "omx_dev.started cb totalBlocks ops B d (exec_start cb totalBlocks ops hi di dt ho xi)"
    using assms(1-5) unfolding omx_dev.started_def by blast
  obtain pre where i: "omx_dev.pipe_inv e cb totalBlocks ops pre s"
    using omx_dev.reach_inv [OF assms(6,1,2)] omx_dev.inv_start [OF st] by blast
  show ?thesis
    using omx_dev.work_decreases omx_dev.can_end [OF i assms(1,2)] unfolding ended_def by blast
qed

theorem execFpgaOp_ends_witness:
  "\<exists>t. reach omx_task zero_dev zero_in False good_env
      (exec_start False totalBlocks 64 zero_in zero_in zero_out zero_out zero_out) t
    \<and> todo t = [] \<and> pend t = [] \<and> regd t = [] \<and> \<not> exited t"
proof -
  let ?s = "exec_start False totalBlocks 64 zero_in zero_in zero_out zero_out zero_out"
  have "\<not> exited ?s" by (simp add: exec_start_def)
  moreover have "\<forall>i < totalBlocks. in_buf_ok (zero_in i)" using zero_ok(2) by blast
  note execFpgaOp_ends [OF zero_ok(1) this zero_ok(2,2,3) reach_refl, of False good_env zero_out zero_out]
  ultimately show ?thesis using good_env_ok(1) [of False totalBlocks] by blast
qed

text \<open>
  A callback argument other than 0 and 1 runs the loop without callbacks and then checks a
  result array that nothing has written: the verdict is on its initial content.
\<close>

theorem gather_program_unread:
  assumes "menv_ok m" "prepare m = Inr (Inr p)" "run_gather (g_cfg p)" "callback (g_cfg p) \<notin> {0, 1}"
    and "sw_emu (g_cfg p) \<or> placement_ok (g_cfg p)" "length (m_xil0 m) = rows"
    and "main_ends m e (Returned r ms s)"
  shows "Test_passed ''Gather'' \<in> set ms \<longleftrightarrow> m_xil0 m = reference (g_A p) (g_in p)"
proof -
  obtain t where st: "checkOp (g_A p) (g_in p) ''Gather'' (g_out p) (xilout m p t) True = Inr ms"
    using assms(7,2,3) by (rule main_returns_checked)
  have x: "xilout m p t = m_xil0 m" using assms(4) by (simp add: xilout_def)
  from checkOp_law [OF prepare_law(1) [OF assms(2,1,5)] assms(6), of "''Gather''" "g_out p"] st show ?thesis
    unfolding x by auto
qed

theorem gather_program_unread_witness:
  "\<exists>m p ms s. prepare m = Inr (Inr p) \<and> callback (g_cfg p) = 2
     \<and> main_ends m swift (Returned 0 ms s)
     \<and> (Test_passed ''Gather'' \<in> set ms \<longleftrightarrow> m_xil0 m = reference (g_A p) (g_in p))"
proof -
  obtain c where c: "main_args [''-cb'', ''2''] = Inr (Inr c)" "\<not> sw_emu c" "hbmNum c = 16" "p_ch c" "run_gather c" "callback c = 2"
    using sample_args(3) by blast
  let ?m = "sample_menv [''-cb'', ''2'']"
  obtain p where p: "prepare ?m = Inr (Inr p)" "g_cfg p = c" "buffers_ok p" using sample_prepare [OF c(1-4)] by blast
  have pl: "sw_emu (g_cfg p) \<or> placement_ok (g_cfg p)" using c p(2) by (simp add: placement_ok_def hbm_ok_def)
  obtain t where t: "g_reach ?m p swift t" "todo t = []"
    using g_can_end [OF p(1) sample_menv_ok(1) pl p(3) setting_ok(2)] by blast
  have x: "length (m_xil0 ?m) = rows" "callback (g_cfg p) \<notin> {0, 1}" "run_gather (g_cfg p)"
    using c(5,6) p(2) by (simp_all add: sample_menv_def)
  then have "length (xilout ?m p t) = rows" by (simp add: xilout_def)
  then obtain ms where m: "main_ends ?m swift (Returned 0 ms (accel_clear (m_rt ?m) (g_accel p)))"
    using main_ends_check [OF p(1) x(3) t buffers_copies [OF p(3)] prepare_law(1) [OF p(1) sample_menv_ok(1) pl]] by blast
  with gather_program_unread [OF sample_menv_ok(1) p(1) x(3,2) pl x(1) this] p c(6) show ?thesis by blast
qed

end
