(* ===== verification/Gather_Banks.thy ===== *)
theory Gather_Banks
  imports Gather_Main
begin

unbundle bit_operations_syntax

text \<open>
  The memory banks of the gather host: what the buffers of \<open>main\<close> occupy, and the bank count
  that the command line accepts and the arrays of \<open>main\<close> cannot hold.
\<close>

section \<open>Memory banks\<close>

text \<open>The bytes of a plan that fall into bank \<open>b\<close>.\<close>

definition bank_bytes :: "u32 \<Rightarrow> (nat \<times> u32) list \<Rightarrow> nat \<Rightarrow> nat" where
  "bank_bytes topo plan b = sum_list (map fst (filter (\<lambda>(_, fl). flag_bank topo fl = b) plan))"

lemma bank_bytes_append: "bank_bytes topo (p @ q) b = bank_bytes topo p b + bank_bytes topo q b"
  by (simp add: bank_bytes_def)

lemma sum_list_parity:
  "sum_list (map fst (filter (\<lambda>(_, fl). g fl = b) (map (\<lambda>i. (x, if i mod 2 \<noteq> 0 then u else v)) [0..<2 * n])))
    = (if g u = b then n * x else 0) + (if g v = b then n * x else (0 :: nat))"
  by (induction n) (simp_all add: distrib_right)

lemma out_plan_bytes:
  assumes "topo AND 31 = 0"
  shows "bank_bytes topo (out_plan topo cb) b \<le> (if b = 18 \<or> b = 19 then 2 ^ 28 else 0)"
proof -
  have f: "flag_bank topo (banks topo ! 18) = 18" "flag_bank topo (banks topo ! 19) = 19"
    using flag_bank_law [OF assms, of 18] flag_bank_law [OF assms, of 19] by (simp_all add: banks_nth)
  show ?thesis
  proof (cases "cb = 1")
    case True
    then show ?thesis by (simp add: out_plan_def bank_bytes_def f sizes)
  next
    case False
    have "totalBlocks = 2 * 128" "outBlockSize = 2097152" by (simp_all add: sizes rows_def)
    with False have "out_plan topo cb = map (\<lambda>i. (2097152, if i mod 2 \<noteq> 0 then banks topo ! 19 else banks topo ! 18)) [0..<2 * 128]"
      by (simp only: out_plan_def if_False)
    then show ?thesis unfolding bank_bytes_def by (simp only: sum_list_parity f) simp
  qed
qed

lemma ddr_plan_bytes:
  assumes "menv_ok m" "placement_ok c" "\<not> sw_emu c" "ddr_plan (m_topo m) (m_flags0 m) c = Inr plan"
  shows "bank_bytes (m_topo m) plan b \<le> (if b < 16 then 2 ^ 28 else 0)"
proof -
  let ?n = "hbmNum c" and ?fl = "\<lambda>i. of_nat (bank_of (p_ch c) i) OR m_topo m :: u32"
  have h: "hbm_ok ?n" "p_ch c \<or> ?n \<le> 8" using assms(2) by (auto simp: placement_ok_def)
  have n: "?n \<le> 16" "if p_ch c then ?n \<le> 16 else ?n \<le> 10" using h by (auto simp: hbm_ok_def)
  have fl: "bank_flags (m_topo m) ?n (p_ch c) (m_flags0 m) = Inr (map ?fl [0..<?n] @ drop ?n (m_flags0 m))"
    using assms(1) n by (intro bank_flags_16) (auto simp: menv_ok_def)
  have plan: "plan = map (\<lambda>i. (mDdrSize div ?n, ?fl i)) [0..<?n]"
    using assms(3,4) fl by (auto simp: ddr_plan_def nth_append)
  have fb: "flag_bank (m_topo m) (?fl i) = bank_of (p_ch c) i" if "i < ?n" for i
    using assms(1) that h n by (intro flag_bank_law) (auto simp: menv_ok_def bank_of_def)
  have "bank_bytes (m_topo m) plan b = sum_list (map fst (filter (\<lambda>(_, fl). flag_bank (m_topo m) fl = b)
      (map (\<lambda>i. (mDdrSize div ?n, ?fl i)) [0..<?n])))"
    by (simp add: bank_bytes_def plan)
  also have "\<dots> = (\<Sum>i \<leftarrow> filter (\<lambda>i. bank_of (p_ch c) i = b) [0..<?n]. mDdrSize div ?n)"
  proof -
    have "filter (\<lambda>i. flag_bank (m_topo m) (?fl i) = b) [0..<?n] = filter (\<lambda>i. bank_of (p_ch c) i = b) [0..<?n]"
      by (rule filter_cong) (simp_all add: fb)
    then show ?thesis by (simp add: filter_map comp_def)
  qed
  also have "\<dots> = length (filter (\<lambda>i. bank_of (p_ch c) i = b) [0..<?n]) * (mDdrSize div ?n)"
    by (simp add: sum_list_triv)
  also have "\<dots> \<le> (if b < 16 then 1 else 0) * 2 ^ 28"
  proof (intro mult_le_mono)
    have "length (filter (\<lambda>i. bank_of (p_ch c) i = b) [0..<?n]) = card {i. i < ?n \<and> bank_of (p_ch c) i = b}"
      by (simp add: length_filter_conv_card cong: conj_cong)
    also have "\<dots> \<le> (if b < 16 then 1 else 0)"
    proof (cases "b < 16")
      case True
      have "{i. i < ?n \<and> bank_of (p_ch c) i = b} \<subseteq> {if p_ch c then b else b div 2}"
        by (auto simp: bank_of_def)
      then have "card {i. i < ?n \<and> bank_of (p_ch c) i = b} \<le> card {if p_ch c then b else b div 2}"
        by (intro card_mono) simp_all
      also have "\<dots> = (if b < 16 then 1 else 0)" using True by simp
      finally show ?thesis .
    next
      case False
      have "{i. i < ?n \<and> bank_of (p_ch c) i = b} = {}" using False n h by (auto simp: bank_of_def split: if_splits)
      then show ?thesis using False by (simp only: card.empty if_False)
    qed
    finally show "length (filter (\<lambda>i. bank_of (p_ch c) i = b) [0..<?n]) \<le> (if b < 16 then 1 else 0)" .
    show "mDdrSize div ?n \<le> 2 ^ 28" using h(1) by (auto simp: hbm_ok_def mDdrSize_def)
  qed
  finally show ?thesis by (simp split: if_splits)
qed

text \<open>
  C33. For every placement that fits the board, the buffers that the program creates fill no bank
  of the high-bandwidth memory beyond its 256 MB.
\<close>

theorem buffers_fit_banks:
  assumes "menv_ok m" "placement_ok c" "\<not> sw_emu c" "ddr_plan (m_topo m) (m_flags0 m) c = Inr plan"
  shows "bank_bytes (m_topo m) (plan @ in_plan (m_topo m) @ out_plan (m_topo m) (callback c)) b \<le> 256 * 1024 * 1024"
proof -
  have t: "m_topo m AND 31 = 0" using assms(1) by (simp add: menv_ok_def)
  have "bank_bytes (m_topo m) (in_plan (m_topo m)) b \<le> (if b = 16 \<or> b = 17 then 2 ^ 28 else 0)"
    using flag_bank_law [OF t, of 16] flag_bank_law [OF t, of 17]
    by (simp add: bank_bytes_def in_plan_def banks_nth sizes)
  then show ?thesis
    using out_plan_bytes [OF t, of "callback c" b] ddr_plan_bytes [OF assms, of b]
    by (auto simp: bank_bytes_append split: if_splits)
qed

theorem buffers_fit_banks_witness:
  "\<exists>plan. ddr_plan (2 ^ 31) (replicate 16 0) \<lparr>sw_emu = False, p_ch = True, hbmNum = 16, op = 64, streamValue = 16,
       callback = 0, deviceName = [], kernelName = [], xclbinName = [], run_gather = True\<rparr> = Inr plan
     \<and> (\<forall>b. bank_bytes (2 ^ 31) (plan @ in_plan (2 ^ 31) @ out_plan (2 ^ 31) 0) b \<le> 256 * 1024 * 1024)"
proof -
  let ?c = "\<lparr>sw_emu = False, p_ch = True, hbmNum = 16, op = 64, streamValue = 16,
       callback = 0, deviceName = [], kernelName = [], xclbinName = [], run_gather = True\<rparr>"
  let ?m = "sample_menv []"
  have t: "m_topo ?m = 2 ^ 31" "m_flags0 ?m = replicate 16 0" by (simp_all add: sample_menv_def)
  have pl: "placement_ok ?c" by (simp add: placement_ok_def hbm_ok_def)
  obtain plan where "ddr_plan (m_topo ?m) (m_flags0 ?m) ?c = Inr plan"
    using device_table_law [OF sample_menv_ok(1) [of "[]"], of "replicate rows undefined" ?c "m_junk ?m"] pl by auto
  with buffers_fit_banks [OF sample_menv_ok(1) pl _ this] show ?thesis
    unfolding t by (intro exI [of _ plan]) simp
qed

section \<open>Thirty-two banks\<close>

lemma in_mapp_returns:
  assumes "length inn = rows" "length m0 = rows"
  shows "\<exists>w n. in_mapp emu k pc inn m0 = Inr (w, n)"
proof -
  have "\<exists>s. in_mapp emu k pc inn m0 = Inr s \<and> length (fst s) = rows"
    unfolding in_mapp_def
    by (rule rloop_inv [where P = "\<lambda>_ s. length (fst s) = rows"])
      (use assms in \<open>auto simp: case_prod_beta Let_def\<close>)
  then show ?thesis by auto
qed

lemma prepare_32:
  assumes "main_args (m_tokens m) = Inr (Inr c)" "hbmNum c = 32" "\<not> sw_emu c" "menv_ok m"
    and "connectPlatform (m_rt m) (deviceName c) (kernelName c) (xclbinName c) accel0 = Inr s" "mStatus s = Normal"
  shows "prepare m = Inl OutOfBounds"
proof -
  obtain A inn where d: "initData (m_rnd m) = (A, inn)" by fastforce
  have ok: "data_ok A inn" using initData_ok [of "m_rnd m"] d by simp
  have o: "cIndirect A inn (m_out0 m) = Inr (reference A inn)"
    using cIndirect_law [OF ok] assms(4) by (simp add: menv_ok_def)
  obtain w n where i: "in_mapp False 32 (p_ch c) inn (m_mapped0 m) = Inr (w, n)"
    using in_mapp_returns [of inn "m_mapped0 m" False 32 "p_ch c"] ok assms(4)
    by (auto simp: data_ok_def menv_ok_def)
  have "ddr_plan (m_topo m) (m_flags0 m) c = Inl OutOfBounds"
    using assms(2,3,4) bank_flags_32 by (simp add: ddr_plan_def menv_ok_def)
  then show ?thesis using assms(1,2,3,5,6) d o i by (simp add: prepare_def)
qed

text \<open>
  C34. \<open>-hbm 32\<close> passes every test of the command line, but \<open>main\<close>, when it is not run with
  \<open>-mode sw_emu\<close>, then writes the flags of 32 buffers into an array of 16: once the connection
  succeeds, the program leaves the array and does not return.
\<close>

theorem thirty_two_banks_overrun:
  assumes "main_args (m_tokens m) = Inr (Inr c)" "hbmNum c = 32" "\<not> sw_emu c" "menv_ok m"
    and "connectPlatform (m_rt m) (deviceName c) (kernelName c) (xclbinName c) accel0 = Inr s" "mStatus s = Normal"
  shows "main_ends m e out \<longleftrightarrow> out = Fault OutOfBounds"
  using prepare_32 [OF assms] by (auto elim!: main_ends.cases intro: main_ends.fault)

theorem thirty_two_banks_overrun_witness:
  "\<exists>m c. main_args (m_tokens m) = Inr (Inr c) \<and> hbmNum c = 32 \<and> main_ends m swift (Fault OutOfBounds)"
proof -
  obtain c where c: "main_args [''-hbm'', ''32''] = Inr (Inr c)" "\<not> sw_emu c" "hbmNum c = 32"
    using sample_args(4) by blast
  let ?m = "sample_menv [''-hbm'', ''32'']"
  have m: "m_tokens ?m = [''-hbm'', ''32'']" "m_rt ?m = sample_rt" by (simp_all add: sample_menv_def)
  obtain s where "connectPlatform (m_rt ?m) (deviceName c) (kernelName c) (xclbinName c) accel0 = Inr s" "mStatus s = Normal"
    using sample_connect unfolding m by blast
  then show ?thesis
    using thirty_two_banks_overrun [of ?m c s swift "Fault OutOfBounds"] c sample_menv_ok
    by (intro exI [of _ ?m] exI [of _ c]) (simp add: m)
qed

end
