(* ===== verification/P2P_Kernel.thy ===== *)
theory P2P_Kernel
  imports Kernel Fill
begin

unbundle bit_operations_syntax

text \<open>
  The kernel of the peer-to-peer variant, \<^verbatim>\<open>xql6p2p/kernel/q6_paged.h\<close> and
  \<^verbatim>\<open>xql6p2p/kernel/q6_paged.cpp\<close>. Its pages come from the file of the relation, without a host
  that packs the rows: the header process reads a whole heap page, walks its line pointers and
  passes the user data of the tuples on. The conversions, the aggregation, the filter and the
  dealing out of the pages are the text of the first kernel and share its definitions.
\<close>

section \<open>The header process\<close>

text \<open>
  The locals of \<open>getHeaderInt2\<close> and the stream it writes. \<open>outcnt\<close> is an int: the length of a
  tuple with a header longer than the item is negative, writes nothing and lowers the count.
\<close>

record hdr_loc =
  hd_outcnt :: int
  hd_nTups :: nat
  hd_out :: "u8 list"

fun hdr_lines_loop :: "u8 list \<Rightarrow> nat \<Rightarrow> nat \<Rightarrow> hdr_loc \<Rightarrow> hdr_loc res" where
  "hdr_lines_loop page 0 linNum l = Inr l"
| "hdr_lines_loop page (Suc n) linNum l =
     rbind (PageGetItemId page linNum) (\<lambda>iidt.
     let tuphdr = ItemIdGetOffset iidt in
     rbind (t_hoff page tuphdr) (\<lambda>hoff.
     let tuple_data_len = int (ItemIdGetLength iidt) - int hoff in
     if tuple_data_len = 0 then hdr_lines_loop page n (Suc linNum) l
     else if hd_outcnt l + tuple_data_len < int PAGE_SZ then
       rbind (rloop (nat tuple_data_len) (byte_body page) (tuphdr + hoff) (hd_out l)) (\<lambda>out.
         hdr_lines_loop page n (Suc linNum)
           (l\<lparr>hd_outcnt := hd_outcnt l + tuple_data_len, hd_nTups := hd_nTups l + 1, hd_out := out\<rparr>))
     else Inr l))"

text \<open>
  The padding loop starts at \<open>page [outcnt]\<close>, outside the array when \<open>outcnt\<close> is negative.
\<close>

definition hdr_pad :: "u8 list \<Rightarrow> int \<Rightarrow> u8 list \<Rightarrow> u8 list res" where
  "hdr_pad page outcnt out =
     (if outcnt < 0 then Inl OutOfBounds
      else rloop (PAGE_SZ - nat outcnt) (byte_body page) (nat outcnt) out)"

definition p2p_getHeaderInt2 :: "u8 list \<Rightarrow> (u16 list list \<times> u8 list \<times> u8 list) res" where
  "p2p_getHeaderInt2 stream =
     rbind (copy_loop PAGE_SZ stream []) (\<lambda>(stream', page).
     rbind (PageGetMaxOffsetNumber page) (\<lambda>nLines.
     rbind (hdr_lines_loop page (nLines + 1) 0 \<lparr>hd_outcnt = 0, hd_nTups = 0, hd_out = []\<rparr>) (\<lambda>l.
     rbind (hdr_pad page (hd_outcnt l) (hd_out l)) (\<lambda>outStream.
       Inr (replicate 6 [of_nat (hd_nTups l)], outStream, stream')))))"

section \<open>The processes\<close>

definition p2p_resetBuf :: "tup_parser \<Rightarrow> tup_parser" where
  "p2p_resetBuf s = s\<lparr>pgOff := 0\<rparr>"

definition p2p_TupParser :: "u8 list \<Rightarrow> tup_parser" where
  "p2p_TupParser strm = \<lparr>t_off = 0, pgOff = 0, t_strm = strm\<rparr>"

definition p2p_q6_filter :: "(nat \<Rightarrow> nat \<Rightarrow> u8 list) \<Rightarrow> u16 list \<Rightarrow> u8 list
    \<Rightarrow> (field_strms \<times> bool list \<times> tup_parser) res" where
  "p2p_q6_filter junk nTupsStrm byteStream =
     q6_filter_from junk nTupsStrm (p2p_TupParser byteStream)"

definition p2p_q6_paged :: "(nat \<Rightarrow> nat \<Rightarrow> u8 list) \<Rightarrow> u8 list \<Rightarrow> (i64 \<times> u8 list) res" where
  "p2p_q6_paged junk byteStream =
     rbind (p2p_getHeaderInt2 byteStream) (\<lambda>(nTupsStrm, dataStream, byteStream').
     rbind (p2p_q6_filter junk (nTupsStrm ! 0) dataStream) (\<lambda>(os, filterDone, _).
     rbind (toLong (nTupsStrm ! 1) (qtyFieldStrm os)) (\<lambda>qtyStrm.
     rbind (toLong (nTupsStrm ! 2) (extFieldStrm os)) (\<lambda>extStrm.
     rbind (toLong (nTupsStrm ! 3) (dscFieldStrm os)) (\<lambda>dscStrm.
     rbind (toDate (nTupsStrm ! 4) (shpFieldStrm os)) (\<lambda>shpStrm.
     rbind (agg (nTupsStrm ! 5) qtyStrm extStrm dscStrm shpStrm filterDone) (\<lambda>res.
       Inr (res, byteStream'))))))))"

definition p2p_q6_body :: "(nat \<Rightarrow> nat \<Rightarrow> nat \<Rightarrow> u8 list) \<Rightarrow> nat \<Rightarrow> i64 \<times> u8 list \<Rightarrow> (i64 \<times> u8 list) res" where
  "p2p_q6_body junk i = (\<lambda>(sum, bStream).
     rbind (p2p_q6_paged (junk i) bStream) (\<lambda>(s, bStream'). Inr (sum + s, bStream')))"

definition p2p_q6 :: "(nat \<Rightarrow> nat \<Rightarrow> nat \<Rightarrow> u8 list) \<Rightarrow> u8 list \<Rightarrow> (i64 \<times> u8 list) res" where
  "p2p_q6 junk bStream = rloop PAGES_PER_PU (p2p_q6_body junk) 0 (0, bStream)"

definition p2p_pu_body :: "(nat \<Rightarrow> nat \<Rightarrow> nat \<Rightarrow> nat \<Rightarrow> u8 list) \<Rightarrow> u8 list list list \<Rightarrow> nat \<Rightarrow> i64 \<Rightarrow> i64 res" where
  "p2p_pu_body junk inStream u acc =
     rbind (rd inStream u) (\<lambda>strm.
     rbind (pageToByte strm) (\<lambda>(_, byteStream).
     rbind (p2p_q6 (junk u) byteStream) (\<lambda>(pu_sum, _). Inr (acc + pu_sum))))"

definition p2p_flowWrap :: "(nat \<Rightarrow> nat \<Rightarrow> nat \<Rightarrow> nat \<Rightarrow> u8 list) \<Rightarrow> u8 list list \<Rightarrow> i64 res" where
  "p2p_flowWrap junk inbuf =
     rbind (k_read inbuf (replicate NUM_PU [])) (\<lambda>inStream.
       rloop NUM_PU (p2p_pu_body junk inStream) 0 0)"

definition p2p_fpga_q6 :: "(nat \<Rightarrow> nat \<Rightarrow> nat \<Rightarrow> nat \<Rightarrow> u8 list) \<Rightarrow> u8 list list \<Rightarrow> i64 res" where
  "p2p_fpga_q6 junk inbuf = p2p_flowWrap junk inbuf"

section \<open>The header process on a heap page\<close>

text \<open>
  A heap page whose tuples are the rows \<open>lis\<close>. Items of a page do not overlap, so together
  they are shorter than the page.
\<close>

definition raw_page :: "u8 list \<Rightarrow> lineitem list \<Rightarrow> bool" where
  "raw_page page lis \<longleftrightarrow> (\<exists>tups. heap_page page tups \<and> live tups = map enc_tuple lis)
     \<and> list_all wf_lineitem lis \<and> length (tuples_bytes lis) < PAGE_SZ"

lemma hdr_lines_loop_law:
  assumes "\<forall>i < length ds. item_data page (lin + i) (ds ! i)"
    and "m + int (length (concat (live ds))) < int PAGE_SZ"
  shows "hdr_lines_loop page (length ds) lin \<lparr>hd_outcnt = m, hd_nTups = n, hd_out = out\<rparr>
    = Inr \<lparr>hd_outcnt = m + int (length (concat (live ds))), hd_nTups = n + length (live ds),
        hd_out = out @ concat (live ds)\<rparr>"
  using assms
proof (induction ds arbitrary: lin m n out)
  case Nil
  then show ?case by simp
next
  case (Cons d ds)
  have "item_data page lin d" using Cons.prems(1) by force
  then obtain iid hoff where it: "PageGetItemId page lin = Inr iid"
    "t_hoff page (ItemIdGetOffset iid) = Inr hoff" "ItemIdGetLength iid = hoff + length d"
    "ItemIdGetOffset iid + hoff + length d \<le> length page"
    "take (length d) (drop (ItemIdGetOffset iid + hoff) page) = d"
    by (rule item_dataE)
  have ds: "\<forall>i < length ds. item_data page (Suc lin + i) (ds ! i)"
    using Cons.prems(1) by fastforce
  show ?case
  proof (cases "d = []")
    case True
    with it Cons.IH [OF ds] Cons.prems(2) show ?thesis by simp
  next
    case False
    have IH: "hdr_lines_loop page (length ds) (Suc lin)
        \<lparr>hd_outcnt = m + int (length d), hd_nTups = n + 1, hd_out = out @ d\<rparr>
      = Inr \<lparr>hd_outcnt = (m + int (length d)) + int (length (concat (live ds))),
          hd_nTups = (n + 1) + length (live ds), hd_out = (out @ d) @ concat (live ds)\<rparr>"
      using Cons.prems(2) False by (intro Cons.IH [OF ds]) simp
    have "rloop (length d) (byte_body page) (ItemIdGetOffset iid + hoff) out = Inr (out @ d)"
      using byte_loop [of "ItemIdGetOffset iid + hoff" "length d" page out] it(4,5) by simp
    with it(1-3) IH False Cons.prems(2) show ?thesis by (simp add: Let_def)
  qed
qed

lemma hdr_pad_law:
  assumes "length page = PAGE_SZ" "m \<le> PAGE_SZ"
  shows "hdr_pad page (int m) out = Inr (out @ drop m page)"
  using byte_loop [of m "PAGE_SZ - m" page out] assms by (simp add: hdr_pad_def)

lemma heap_page_items:
  assumes "heap_page page tups"
  shows "\<forall>i < length ([] # tups). item_data page (0 + i) (([] # tups) ! i)"
  using assms by (auto simp: heap_page_def list_all_iff nth_Cons split: nat.split)

text \<open>
  A heap page whose tuples are shorter than a page: the count, then the user data of the tuples
  in order, padded to a page. Exactly the page is consumed.
\<close>

lemma p2p_getHeaderInt2_law:
  assumes "heap_page page tups" "length (concat (live tups)) < PAGE_SZ"
  shows "p2p_getHeaderInt2 (page @ rest) = Inr (replicate 6 [of_nat (length (live tups))],
    concat (live tups) @ drop (length (concat (live tups))) page, rest)"
proof -
  have len: "length page = PAGE_SZ" and max: "PageGetMaxOffsetNumber page = Inr (length tups)"
    using assms(1) by (simp_all add: heap_page_def BLCKSZ_def PAGE_SZ_def)
  have "copy_loop PAGE_SZ (page @ rest) [] = Inr (rest, page)"
    using copy_loop_law [of page rest "[]"] len by simp
  moreover have "hdr_lines_loop page (length tups + 1) 0 \<lparr>hd_outcnt = 0, hd_nTups = 0, hd_out = []\<rparr>
    = Inr \<lparr>hd_outcnt = int (length (concat (live tups))), hd_nTups = length (live tups),
        hd_out = concat (live tups)\<rparr>"
    using hdr_lines_loop_law [OF heap_page_items [OF assms(1)], of 0 0 "[]"] assms(2)
    by (simp del: hdr_lines_loop.simps)
  ultimately show ?thesis
    using max hdr_pad_law [OF len, of "length (concat (live tups))"] assms(2)
    by (simp add: p2p_getHeaderInt2_def)
qed

section \<open>A page and a block\<close>

lemma raw_page_length: "raw_page page lis \<Longrightarrow> length page = PAGE_SZ"
  by (auto simp: raw_page_def heap_page_def BLCKSZ_def PAGE_SZ_def)

lemma raw_page_count:
  assumes "raw_page page lis"
  shows "nat (sint (of_nat (length lis) :: u16)) = length lis"
proof -
  have "8 * length lis < PAGE_SZ"
    using assms tuples_bytes_longer [of lis] by (auto simp: raw_page_def)
  then show ?thesis
    by (simp add: PAGE_SZ_def signed_of_nat signed_take_bit_int_eq_self)
qed

lemma p2p_q6_paged_law:
  assumes "raw_page page lis" "\<forall>t f. length (junk t f) = NMRC_FIELD_SZ"
  shows "p2p_q6_paged junk (page @ rest) = Inr (word_of_int (q6_spec lis), rest)"
proof -
  obtain tups where t: "heap_page page tups" "live tups = map enc_tuple lis"
    and wf: "list_all wf_lineitem lis" and sz: "length (tuples_bytes lis) < PAGE_SZ"
    using assms(1) by (auto simp: raw_page_def)
  have cc: "concat (live tups) = tuples_bytes lis" by (simp add: t(2) tuples_bytes_def)
  let ?n = "of_nat (length lis) :: u16"
  let ?data = "tuples_bytes lis @ drop (length (tuples_bytes lis)) page"
  have n: "nat (sint ?n) = length lis" by (rule raw_page_count [OF assms(1)])
  have hd: "p2p_getHeaderInt2 (page @ rest) = Inr (replicate 6 [?n], ?data, rest)"
    using p2p_getHeaderInt2_law [OF t(1), of rest] sz unfolding cc by (simp add: t(2))
  have inv: "k_inv (p2p_TupParser ?data)"
    using sz raw_page_length [OF assms(1)] by (simp add: k_inv_def p2p_TupParser_def)
  obtain os s where os: "p2p_q6_filter junk [?n] ?data = Inr (os, [True], s)"
    "decoded no_fields lis os"
    using q6_filter_from_law [OF inv _ wf n assms(2)] unfolding p2p_q6_filter_def
    by (auto simp: p2p_TupParser_def)
  have "p2p_q6_paged junk (page @ rest)
      = rbind (rbind (toLong [?n] (qtyFieldStrm os)) (\<lambda>q. rbind (toLong [?n] (extFieldStrm os)) (\<lambda>e.
        rbind (toLong [?n] (dscFieldStrm os)) (\<lambda>d. rbind (toDate [?n] (shpFieldStrm os)) (\<lambda>h.
          agg [?n] q e d h [True]))))) (\<lambda>res. Inr (res, rest))"
    by (simp add: p2p_q6_paged_def hd os(1) rbind_assoc numeral_eq_Suc)
  then show ?thesis by (simp add: decoded_sum [OF os(2) n wf])
qed

interpretation raw: page_process p2p_q6_paged "\<lambda>(page, lis). raw_page page lis" fst "\<lambda>(page, lis). q6_spec lis"
  by unfold_locales (auto simp: raw_page_length p2p_q6_paged_law)

lemma p2p_pu_body_unit:
  "p2p_pu_body junk inStream u acc
   = rbind (rd inStream u) (\<lambda>strm. rbind (raw.unit_sum (junk u) strm) (\<lambda>s. Inr (acc + s)))"
  by (simp add: p2p_pu_body_def raw.unit_sum_def p2p_q6_def p2p_q6_body_def [abs_def] rbind_assoc
      case_prod_unfold comp_def)

text \<open>A block of heap pages with their rows.\<close>

definition raw_block :: "(u8 list \<times> lineitem list) list \<Rightarrow> bool" where
  "raw_block pgs \<longleftrightarrow> length pgs = NUM_PAGES \<and> list_all (\<lambda>(page, lis). raw_page page lis) pgs"

definition raw_bytes :: "(u8 list \<times> lineitem list) list \<Rightarrow> u8 list" where
  "raw_bytes pgs = concat (map fst pgs)"

definition raw_rows :: "(u8 list \<times> lineitem list) list \<Rightarrow> lineitem list" where
  "raw_rows pgs = concat (map snd pgs)"

lemma p2p_fpga_q6_law:
  assumes "raw_block pgs" "\<forall>u i t f. length (junk u i t f) = NMRC_FIELD_SZ"
  shows "p2p_fpga_q6 junk (words_of NUM_WORDS (raw_bytes pgs)) = Inr (word_of_int (q6_spec (raw_rows pgs)))"
proof -
  have "length pgs = NUM_PAGES" "\<forall>p \<in> set pgs. (\<lambda>(page, lis). raw_page page lis) p"
    using assms(1) by (auto simp: raw_block_def list_all_iff)
  note law = raw.block_law [OF this(2,1) assms(2)]
  have "sum_list (map (\<lambda>(page, lis). q6_spec lis) pgs) = q6_spec (raw_rows pgs)"
    by (simp add: raw_rows_def q6_spec_concat comp_def case_prod_unfold)
  with law show ?thesis
    by (simp add: p2p_fpga_q6_def p2p_flowWrap_def p2p_pu_body_unit [abs_def] raw_bytes_def)
qed

end
