(* ===== verification/P2P_Host.thy ===== *)
theory P2P_Host
  imports P2P_Kernel Pipeline
begin

text \<open>
  The host of the peer-to-peer variant, \<^verbatim>\<open>xql6p2p/host/xql6.c\<close>: a block is read straight
  from the file of the relation into the device's buffer, by \<^verbatim>\<open>mdread_bigd\<close>, which
  \<^verbatim>\<open>postgresql-9.6.8.patch\<close> adds to the server, and the pipeline runs on these blocks.

  The storage manager and the file layer of the server are outside the repository. They are the
  record \<open>server\<close>: whether \<open>smgropen\<close> delivers a handle, and for each segment of the relation the
  file \<open>_mdfd_getseg\<close> finds, \<open>None\<close> when it raises an error. \<open>FileRead\<close> returns the number of
  bytes, -1 on an error, and what it has stored.
\<close>

section \<open>Storage manager calls\<close>

datatype md_call = SmgrOpen | RelationPath | MdExists int | MdClose | MdRead nat | MdReadBigd nat nat

record md_file =
  FileSeek :: "nat \<Rightarrow> int"
  FileRead :: "nat \<Rightarrow> nat \<Rightarrow> int \<times> u8 list"

record server =
  sv_smgropen :: bool
  sv_seg :: "nat \<Rightarrow> md_file option"
  sv_junk :: i64          \<comment> \<open>an uninitialised \<open>size_t\<close>\<close>

record p2p_rel =
  rd_smgr :: bool         \<comment> \<open>\<open>rel-> rd_smgr\<close> is not NULL\<close>
  md_calls :: "md_call list"

definition md :: "md_call \<Rightarrow> p2p_rel \<Rightarrow> p2p_rel" where
  "md c rel = rel\<lparr>md_calls := md_calls rel @ [c]\<rparr>"

definition RelationOpenSmgr :: "server \<Rightarrow> p2p_rel \<Rightarrow> p2p_rel" where
  "RelationOpenSmgr sv rel = (if rd_smgr rel then rel else (md SmgrOpen rel)\<lparr>rd_smgr := sv_smgropen sv\<rparr>)"

text \<open>The path is only printed; the results of \<open>mdexists\<close> are, too.\<close>

definition xpgopen :: "server \<Rightarrow> int \<Rightarrow> p2p_rel \<Rightarrow> p2p_rel" where
  "xpgopen sv isdirect rel =
     (let rel1 = RelationOpenSmgr sv rel; rel2 = (if rd_smgr rel1 then md RelationPath rel1 else rel1)
      in md (MdExists isdirect) rel2)"

definition xpgclose :: "server \<Rightarrow> p2p_rel \<Rightarrow> p2p_rel" where
  "xpgclose sv rel =
     (let rel1 = RelationOpenSmgr sv rel; rel2 = (if rd_smgr rel1 then md RelationPath rel1 else rel1)
      in md MdClose rel2)"

definition xpgread :: "server \<Rightarrow> nat \<Rightarrow> p2p_rel \<Rightarrow> p2p_rel" where
  "xpgread sv blocknum rel =
     (let rel1 = RelationOpenSmgr sv rel in if rd_smgr rel1 then md (MdRead blocknum) rel1 else rel1)"

section \<open>Reading a block\<close>

definition RELSEG_SIZE :: nat where "RELSEG_SIZE = 131072"

text \<open>
  The buffer is given and returned. \<open>nblks * BLCKSZ\<close> is computed in 32 bits; the int \<open>nbytes\<close>
  is returned as a \<open>size_t\<close>.
\<close>

definition mdread_bigd :: "(nat \<Rightarrow> md_file option) \<Rightarrow> nat \<Rightarrow> nat \<Rightarrow> u8 list \<Rightarrow> (i64 \<times> u8 list) res" where
  "mdread_bigd segs blocknum nblks buffer =
     (case segs (blocknum div RELSEG_SIZE) of
        None \<Rightarrow> Inl (Ereport ''could not open file'')
      | Some v \<Rightarrow>
          let seekpos = BLCKSZ * (blocknum mod RELSEG_SIZE) in
          if FileSeek v seekpos \<noteq> int seekpos then Inl (Ereport ''could not seek to block'')
          else
            let rdsz = (if nblks \<noteq> 0 then nblks * BLCKSZ mod 2 ^ 32 else BLCKSZ);
                (nbytes, data) = FileRead v seekpos rdsz in
            rbind (blit buffer 0 data) (\<lambda>buffer'. Inr (word_of_int nbytes, buffer')))"

definition xpgread_bigd :: "server \<Rightarrow> nat \<Rightarrow> nat \<Rightarrow> p2p_rel \<Rightarrow> u8 list \<Rightarrow> (i64 \<times> p2p_rel \<times> u8 list) res" where
  "xpgread_bigd sv blocknum nblks rel buffer =
     (let rel1 = RelationOpenSmgr sv rel in
      if rd_smgr rel1 then
        rbind (mdread_bigd (sv_seg sv) blocknum nblks buffer) (\<lambda>(rdsz, buffer').
          Inr (rdsz, md (MdReadBigd blocknum nblks) rel1, buffer'))
      else Inr (sv_junk sv, rel1, buffer))"

text \<open>The result is a \<open>size_t\<close>, so the test for an error never succeeds.\<close>

definition xql6FillBlock_new :: "server \<Rightarrow> nat \<Rightarrow> nat \<Rightarrow> p2p_rel \<Rightarrow> u8 list \<Rightarrow> (i64 \<times> p2p_rel \<times> u8 list) res" where
  "xql6FillBlock_new sv blk nblks rel p2pbuf =
     rbind (xpgread_bigd sv blk nblks rel p2pbuf) (\<lambda>(ret, rel1, p2pbuf').
       if uint ret < 0 then Inr (ret, rel1, p2pbuf') else Inr (ret, rel1, p2pbuf'))"

text \<open>
  The first page of a block: the product is an int, whose overflow is undefined, and the quotient is
  assigned to an unsigned \<open>BlockNumber\<close>.
\<close>

definition p2p_pgblk :: "nat \<Rightarrow> u32 res" where
  "p2p_pgblk bid = (if 2 ^ 31 \<le> bid * XQL6_BLK_SZ then Inl IntOverflow
     else Inr (word_of_int (int (bid * XQL6_BLK_SZ) sdiv int BLCKSZ)))"

text \<open>\<open>memset (p + ofs, 0, n)\<close> with 64-bit address arithmetic, on the buffer \<open>p\<close> points to.\<close>

definition memset_zero :: "u8 list \<Rightarrow> i64 \<Rightarrow> i64 \<Rightarrow> u8 list res" where
  "memset_zero p ofs n =
     (if 0 \<le> sint ofs then blit p (unat ofs) (replicate (unat n) 0)
      else if n = 0 then Inr p else Inl OutOfBounds)"

text \<open>The part of an iteration that fills buffer \<open>p\<close>, with \<open>bRealPages\<close>.\<close>

definition p2p_fill_block :: "server \<Rightarrow> p2p_rel \<Rightarrow> nat \<Rightarrow> bool \<Rightarrow> u8 list \<Rightarrow> (bool \<times> p2p_rel \<times> u8 list) res" where
  "p2p_fill_block sv rel bid bReal p =
     rbind (p2p_pgblk bid) (\<lambda>pgblk.
      let pgnblks = XQL6_BLK_SZ div BLCKSZ; sz = of_nat XQL6_BLK_SZ in
      rbind (xql6FillBlock_new sv (unat pgblk) pgnblks rel p) (\<lambda>(rdcnt, rel1, p1).
        if rdcnt \<noteq> sz then rbind (memset_zero p1 rdcnt (sz - rdcnt)) (\<lambda>p2. Inr (False, rel1, p2))
        else Inr (bReal, rel1, p1)))"

section \<open>The run\<close>

text \<open>
  The step that fills a buffer, on the relation as \<open>xpgopen\<close> leaves it; the number of tuples is
  not counted.
\<close>

definition p2p_fill :: "server \<Rightarrow> p2p_rel \<Rightarrow> hw \<Rightarrow> hw \<Rightarrow> bool" where
  "p2p_fill sv rel s s' \<longleftrightarrow> (\<exists>b rel1 blk.
     p2p_fill_block sv (xpgopen sv 1 rel) (blkId s) (bRealPages s) (pInp s ! (blkId s mod 10)) = Inr (b, rel1, blk)
     \<and> s' = s\<lparr>h_pc := DoEnq, bRealPages := b, pInp := (pInp s)[blkId s mod 10 := blk]\<rparr>)"

definition p2p_host_step :: "server \<Rightarrow> p2p_rel \<Rightarrow> hw \<Rightarrow> hw \<Rightarrow> bool" where
  "p2p_host_step sv rel = buf_step (p2p_fill sv rel)"

definition p2p_reach :: "server \<Rightarrow> p2p_rel \<Rightarrow> (u8 list \<Rightarrow> i64) \<Rightarrow> hw \<Rightarrow> nat \<Rightarrow> hw \<Rightarrow> bool" where
  "p2p_reach sv rel = buf_reach (p2p_fill sv rel)"

definition p2p_compute :: "(nat \<Rightarrow> nat \<Rightarrow> nat \<Rightarrow> nat \<Rightarrow> u8 list) \<Rightarrow> u8 list \<Rightarrow> i64" where
  "p2p_compute junk blk = (case p2p_fpga_q6 (\<lambda>u i t f. array_of NMRC_FIELD_SZ (junk u i t f))
     (words_of NUM_WORDS blk) of Inl _ \<Rightarrow> 0 | Inr r \<Rightarrow> r)"

section \<open>A relation on disk\<close>

text \<open>
  What the server promises: \<open>smgropen\<close> delivers a handle, and every segment that the file of
  the relation reaches can be read, a read stopping at the end of the segment.
\<close>

definition SEG_BYTES :: nat where "SEG_BYTES = RELSEG_SIZE * BLCKSZ"

definition seg_data :: "u8 list \<Rightarrow> nat \<Rightarrow> nat \<Rightarrow> nat \<Rightarrow> u8 list" where
  "seg_data file k pos n = take n (drop pos (take SEG_BYTES (drop (k * SEG_BYTES) file)))"

definition seg_file :: "u8 list \<Rightarrow> nat \<Rightarrow> md_file" where
  "seg_file file k = \<lparr>FileSeek = int,
     FileRead = (\<lambda>pos n. (int (length (seg_data file k pos n)), seg_data file k pos n))\<rparr>"

definition stores :: "server \<Rightarrow> u8 list \<Rightarrow> bool" where
  "stores sv file \<longleftrightarrow> sv_smgropen sv
     \<and> (\<forall>k. k * SEG_BYTES \<le> length file \<longrightarrow> sv_seg sv k = Some (seg_file file k))"

lemma pgblk_small:
  assumes "bid < 1024"
  shows "p2p_pgblk bid = Inr (256 * of_nat bid)" "unat (256 * of_nat bid :: u32) = 256 * bid"
proof -
  have "int (bid * XQL6_BLK_SZ) sdiv int BLCKSZ = int (256 * bid)"
    by (simp add: signed_divide_int_def sgn_if XQL6_BLK_SZ_def BLCKSZ_def)
  moreover have "bid * XQL6_BLK_SZ < 2 ^ 31" using assms by (simp add: XQL6_BLK_SZ_def)
  ultimately show "p2p_pgblk bid = Inr (256 * of_nat bid)" by (simp add: p2p_pgblk_def)
  have "unat (of_nat (256 * bid) :: u32) = 256 * bid"
    using assms by (simp only: unat_of_nat) (simp add: take_bit_nat_eq_self_iff)
  then show "unat (256 * of_nat bid :: u32) = 256 * bid" by simp
qed

text \<open>From 2 GB on the int overflows.\<close>

lemma pgblk_big: "1024 \<le> bid \<Longrightarrow> p2p_pgblk bid = Inl IntOverflow"
  by (simp add: p2p_pgblk_def XQL6_BLK_SZ_def)

section \<open>Reading a block of the file\<close>

lemma seg_data_inside:
  assumes "pos + n \<le> SEG_BYTES"
  shows "seg_data file k pos n = take n (drop (k * SEG_BYTES + pos) file)"
  using assms by (simp add: seg_data_def drop_take min_def add.commute)

lemma block_position:
  "256 * bid div RELSEG_SIZE = bid div 512"
  "(bid div 512) * SEG_BYTES + BLCKSZ * (256 * bid mod RELSEG_SIZE) = bid * XQL6_BLK_SZ"
  "BLCKSZ * (256 * bid mod RELSEG_SIZE) + XQL6_BLK_SZ \<le> SEG_BYTES"
proof -
  have m: "256 * bid mod RELSEG_SIZE = 256 * (bid mod 512)"
    by (simp add: RELSEG_SIZE_def mult_mod_right)
  have d: "512 * (bid div 512) + bid mod 512 = bid" "bid mod 512 < 512" by simp_all
  show "256 * bid div RELSEG_SIZE = bid div 512" by (simp add: RELSEG_SIZE_def)
  show "(bid div 512) * SEG_BYTES + BLCKSZ * (256 * bid mod RELSEG_SIZE) = bid * XQL6_BLK_SZ"
    using d(1) unfolding m unfolding SEG_BYTES_def RELSEG_SIZE_def BLCKSZ_def XQL6_BLK_SZ_def by linarith
  show "BLCKSZ * (256 * bid mod RELSEG_SIZE) + XQL6_BLK_SZ \<le> SEG_BYTES"
    using d(2) by (simp only: m) (simp add: SEG_BYTES_def RELSEG_SIZE_def BLCKSZ_def XQL6_BLK_SZ_def)
qed

definition chunk :: "u8 list \<Rightarrow> nat \<Rightarrow> u8 list" where
  "chunk file bid = take XQL6_BLK_SZ (drop (bid * XQL6_BLK_SZ) file)"

lemma chunk_length: "length (chunk file bid) \<le> XQL6_BLK_SZ"
  by (simp add: chunk_def)

lemma mdread_bigd_law:
  assumes "stores sv file" "bid * XQL6_BLK_SZ \<le> length file" "length p = XQL6_BLK_SZ"
  shows "mdread_bigd (sv_seg sv) (256 * bid) 256 p
    = Inr (of_nat (length (chunk file bid)), chunk file bid @ drop (length (chunk file bid)) p)"
proof -
  let ?k = "bid div 512"
  have "?k * SEG_BYTES \<le> length file"
    using assms(2) block_position(2) [of bid] by simp
  then have seg: "sv_seg sv (256 * bid div RELSEG_SIZE) = Some (seg_file file ?k)"
    using assms(1) by (simp add: stores_def block_position(1))
  have "256 * BLCKSZ mod 2 ^ 32 = XQL6_BLK_SZ" by (simp add: BLCKSZ_def XQL6_BLK_SZ_def)
  moreover have "seg_data file ?k (BLCKSZ * (256 * bid mod RELSEG_SIZE)) XQL6_BLK_SZ = chunk file bid"
    by (simp add: seg_data_inside [OF block_position(3)] block_position(2) chunk_def)
  moreover have "blit p 0 (chunk file bid) = Inr (chunk file bid @ drop (length (chunk file bid)) p)"
    using assms(3) chunk_length [of "file" bid] by (simp add: blit_in)
  ultimately show ?thesis
    using seg by (simp add: mdread_bigd_def seg_file_def Let_def)
qed

lemma xpgopen_opens: "sv_smgropen sv \<Longrightarrow> rd_smgr (xpgopen sv d rel)"
  by (simp add: xpgopen_def RelationOpenSmgr_def md_def Let_def)

text \<open>A short read is filled up with zeros and ends the loop.\<close>

lemma p2p_fill_block_law:
  assumes "stores sv file" "bid < 1024" "bid * XQL6_BLK_SZ \<le> length file" "length p = XQL6_BLK_SZ"
    and "rd_smgr rel"
  shows "\<exists>rel1. p2p_fill_block sv rel bid bReal p
    = Inr (bReal \<and> length (chunk file bid) = XQL6_BLK_SZ, rel1,
        chunk file bid @ replicate (XQL6_BLK_SZ - length (chunk file bid)) 0)"
proof -
  let ?c = "chunk file bid" and ?n = "length (chunk file bid)"
  let ?p1 = "?c @ drop ?n p"
  have n: "?n \<le> XQL6_BLK_SZ" "XQL6_BLK_SZ < 2 ^ 31" using chunk_length by (auto simp: XQL6_BLK_SZ_def)
  note pg = pgblk_small [OF assms(2)]
  have q: "XQL6_BLK_SZ div BLCKSZ = 256" by (simp add: XQL6_BLK_SZ_def BLCKSZ_def)
  have r: "xql6FillBlock_new sv (256 * bid) 256 rel p = Inr (of_nat ?n, md (MdReadBigd (256 * bid) 256) rel, ?p1)"
    using mdread_bigd_law [OF assms(1,3,4)] assms(5)
    by (simp add: xql6FillBlock_new_def xpgread_bigd_def RelationOpenSmgr_def Let_def)
  have eq: "(of_nat ?n = (of_nat XQL6_BLK_SZ :: i64)) \<longleftrightarrow> ?n = XQL6_BLK_SZ"
  proof -
    have "?n < 2 ^ LENGTH(64)" "XQL6_BLK_SZ < 2 ^ LENGTH(64)" using n by simp_all
    then show ?thesis by (simp only: word_of_nat_eq_iff take_bit_nat_eq_self)
  qed
  have "memset_zero ?p1 (of_nat ?n) (of_nat XQL6_BLK_SZ - of_nat ?n) = Inr (?c @ replicate (XQL6_BLK_SZ - ?n) 0)"
  proof -
    have s: "sint (of_nat ?n :: i64) = int ?n" "unat (of_nat ?n :: i64) = ?n"
      using n by (simp_all add: signed_of_nat signed_take_bit_int_eq_self unat_of_nat take_bit_nat_eq_self_iff)
    have "(of_nat XQL6_BLK_SZ - of_nat ?n :: i64) = of_nat (XQL6_BLK_SZ - ?n)" using n by simp
    moreover have "unat (of_nat (XQL6_BLK_SZ - ?n) :: i64) = XQL6_BLK_SZ - ?n"
      using n by (simp only: unat_of_nat) (simp add: take_bit_nat_eq_self_iff)
    ultimately show ?thesis using s n assms(4) by (simp only: memset_zero_def) (simp add: blit_in)
  qed
  then show ?thesis
    using r eq assms(4) by (cases "?n = XQL6_BLK_SZ") (simp_all add: p2p_fill_block_def pg q Let_def)
qed

section \<open>The blocks of the file are a source\<close>

text \<open>The pages of a relation, with their rows; block \<open>bid\<close> is completed with empty pages.\<close>

definition zero_page :: "u8 list \<times> lineitem list" where
  "zero_page = (replicate PAGE_SZ 0, [])"

definition raw_chunk :: "(u8 list \<times> lineitem list) list \<Rightarrow> nat \<Rightarrow> (u8 list \<times> lineitem list) list" where
  "raw_chunk pgs bid = take 256 (drop (256 * bid) pgs)
     @ replicate (256 - length (take 256 (drop (256 * bid) pgs))) zero_page"

definition raw_val :: "(u8 list \<times> lineitem list) list \<Rightarrow> i64" where
  "raw_val pgs = word_of_int (q6_spec (raw_rows pgs))"

definition raw_pages :: "(u8 list \<times> lineitem list) list \<Rightarrow> bool" where
  "raw_pages pgs \<longleftrightarrow> list_all (\<lambda>(page, lis). raw_page page lis) pgs"

text \<open>\<open>r\<close> pages are left. The relation is smaller than 2 GB.\<close>

definition p2p_src :: "server \<Rightarrow> (u8 list \<times> lineitem list) list \<Rightarrow> ((u8 list \<times> lineitem list) list, nat) source" where
  "p2p_src sv pgs st nTups br bs r \<longleftrightarrow> stores sv (raw_bytes pgs) \<and> raw_pages pgs \<and> length pgs < 262144
     \<and> bs = map (raw_chunk pgs) [0..<length bs] \<and> (br \<longleftrightarrow> 256 * length bs \<le> length pgs)
     \<and> nTups = 0 \<and> r = length pgs - 256 * length bs"

lemma zero_page_raw: "raw_page (fst zero_page) (snd zero_page)"
proof -
  let ?p = "replicate 8192 0 :: u8 list"
  have "PageGetMaxOffsetNumber ?p = Inr 0"
    by (simp add: PageGetMaxOffsetNumber_def pd_lower_def get16_def le16_def SizeOfPageHeaderData_def)
  moreover have "item_data ?p 0 []"
    by (simp add: item_data_def PageGetItemId_def SizeOfPageHeaderData_def sizeof_ItemIdData_def get32_def
        get16_def le16_def t_hoff_def ItemIdGetOffset_def ItemIdGetLength_def lp_off_def lp_len_def XQL_PAGE_SZ_def)
  ultimately have "heap_page ?p []" by (simp add: heap_page_def BLCKSZ_def)
  then show ?thesis
    by (auto simp: raw_page_def zero_page_def PAGE_SZ_def tuples_bytes_def)
qed

lemma concat_pages:
  assumes "list_all (\<lambda>p. length p = n) ps"
  shows "take (m * n) (concat ps) = concat (take m ps)" "drop (m * n) (concat ps) = concat (drop m ps)"
    "length (concat ps) = length ps * n"
proof -
  have "take (m * n) (concat ps) = concat (take m ps) \<and> drop (m * n) (concat ps) = concat (drop m ps)"
    using assms
  proof (induction ps arbitrary: m)
    case Nil
    then show ?case by simp
  next
    case (Cons p ps)
    then show ?case by (cases m) simp_all
  qed
  then show "take (m * n) (concat ps) = concat (take m ps)" "drop (m * n) (concat ps) = concat (drop m ps)"
    by simp_all
  show "length (concat ps) = length ps * n" using assms by (induction ps) simp_all
qed

lemma raw_pages_length:
  assumes "raw_pages pgs"
  shows "list_all (\<lambda>p. length p = 8192) (map fst pgs)"
  using assms by (induction pgs) (auto simp: raw_pages_def dest: raw_page_length simp: PAGE_SZ_def)

lemma raw_chunk_block:
  assumes "raw_pages pgs"
  shows "raw_block (raw_chunk pgs bid)"
proof -
  have "set (take 256 (drop (256 * bid) pgs)) \<subseteq> set pgs"
    by (meson set_take_subset set_drop_subset subset_trans)
  then have "list_all (\<lambda>(page, lis). raw_page page lis) (take 256 (drop (256 * bid) pgs))"
    using assms by (auto simp: raw_pages_def list_all_iff)
  moreover have "list_all (\<lambda>(page, lis). raw_page page lis) (replicate n zero_page)" for n
    using zero_page_raw by (simp add: list_all_iff case_prod_unfold)
  ultimately show ?thesis
    by (simp add: raw_block_def raw_chunk_def NUM_PAGES_def NUM_WORDS_def NUM_BYTES_def
        WORDS_PER_PAGE_def k_WORD_SZ_def PAGE_SZ_def)
qed

lemma raw_chunk_bytes:
  assumes "raw_pages pgs"
  shows "raw_bytes (raw_chunk pgs bid) = chunk (raw_bytes pgs) bid
      @ replicate (XQL6_BLK_SZ - length (chunk (raw_bytes pgs) bid)) 0"
    "length (chunk (raw_bytes pgs) bid) = XQL6_BLK_SZ \<longleftrightarrow> 256 * (bid + 1) \<le> length pgs"
proof -
  let ?ps = "take 256 (drop (256 * bid) (map fst pgs))"
  have l: "list_all (\<lambda>p. length p = 8192) (map fst pgs)" by (rule raw_pages_length [OF assms])
  have l': "list_all (\<lambda>p. length p = 8192) (drop (256 * bid) (map fst pgs))" "list_all (\<lambda>p. length p = 8192) ?ps"
    using l by (auto simp: list_all_iff dest!: in_set_takeD in_set_dropD)
  have c: "chunk (raw_bytes pgs) bid = concat ?ps"
    using concat_pages(2) [OF l, of "256 * bid"] concat_pages(1) [OF l'(1), of 256]
    by (simp add: chunk_def XQL6_BLK_SZ_def raw_bytes_def mult.commute [of bid])
  have lc: "length (chunk (raw_bytes pgs) bid) = length ?ps * 8192"
    unfolding c by (rule concat_pages(3) [OF l'(2)])
  have z: "concat (replicate n (replicate 8192 (0 :: u8))) = replicate (n * 8192) 0" for n
    by (induction n) (simp_all add: replicate_add)
  have "XQL6_BLK_SZ - length ?ps * 8192 = (256 - length ?ps) * 8192"
    by (simp add: XQL6_BLK_SZ_def algebra_simps)
  then show "raw_bytes (raw_chunk pgs bid) = chunk (raw_bytes pgs) bid
      @ replicate (XQL6_BLK_SZ - length (chunk (raw_bytes pgs) bid)) 0"
    unfolding lc unfolding c by (simp add: raw_bytes_def raw_chunk_def zero_page_def PAGE_SZ_def z take_map drop_map)
  show "length (chunk (raw_bytes pgs) bid) = XQL6_BLK_SZ \<longleftrightarrow> 256 * (bid + 1) \<le> length pgs"
    unfolding lc by (auto simp: XQL6_BLK_SZ_def)
qed

lemma raw_chunk_rows: "raw_rows (raw_chunk pgs bid) = raw_rows (take 256 (drop (256 * bid) pgs))"
  by (simp add: raw_rows_def raw_chunk_def zero_page_def)

lemma all_chunks_rows: "concat (map (\<lambda>i. raw_rows (raw_chunk pgs i)) [0..<n]) = raw_rows (take (256 * n) pgs)"
proof (induction n)
  case 0
  then show ?case by (simp add: raw_rows_def)
next
  case (Suc n)
  have "take (256 * Suc n) pgs = take (256 * n) pgs @ take 256 (drop (256 * n) pgs)"
    by (simp add: take_add [symmetric] add.commute)
  with Suc show ?case by (simp add: raw_chunk_rows) (simp add: raw_rows_def)
qed

lemma p2p_fill_ready:
  assumes "p2p_src sv pgs (h_fill s) (h_nTups s) (bRealPages s) bs r" "length bs = blkId s" "bRealPages s"
    and "length (pInp s ! (blkId s mod 10)) = XQL6_BLK_SZ"
  shows "\<exists>rel1. p2p_fill_block sv (xpgopen sv 1 rel) (blkId s) (bRealPages s) (pInp s ! (blkId s mod 10))
      = Inr (256 * (blkId s + 1) \<le> length pgs, rel1, raw_bytes (raw_chunk pgs (blkId s)))"
proof -
  have A: "stores sv (raw_bytes pgs)" "raw_pages pgs" "length pgs < 262144" "256 * blkId s \<le> length pgs"
    using assms(1-3) by (auto simp: p2p_src_def)
  have "length (raw_bytes pgs) = length pgs * 8192"
    using concat_pages(3) [OF raw_pages_length [OF A(2)]] by (simp add: raw_bytes_def)
  then have "blkId s * XQL6_BLK_SZ \<le> length (raw_bytes pgs)"
    using A(4) by (simp add: XQL6_BLK_SZ_def)
  moreover have "blkId s < 1024" using A(3,4) by simp
  moreover have "rd_smgr (xpgopen sv 1 rel)" using A(1) by (intro xpgopen_opens) (simp add: stores_def)
  ultimately show ?thesis
    using p2p_fill_block_law [OF A(1) _ _ assms(4), of "blkId s" "xpgopen sv 1 rel" "bRealPages s"] assms(3)
    by (simp add: raw_chunk_bytes [OF A(2)])
qed

interpretation p2p: block_source "p2p_fill sv rel" "p2p_compute junk" raw_block raw_bytes raw_val
  "p2p_src sv pgs" "\<lambda>r. r" for sv rel junk pgs
proof (unfold_locales, goal_cases)
  case (1 b)
  then show ?case by (simp add: p2p_compute_def raw_val_def p2p_fpga_q6_law)
next
  case (2 b)
  have "raw_pages b" "length b = 256" using 2
    by (simp_all add: raw_pages_def raw_block_def NUM_PAGES_def NUM_WORDS_def NUM_BYTES_def
        WORDS_PER_PAGE_def k_WORD_SZ_def PAGE_SZ_def)
  then show ?case
    using concat_pages(3) [OF raw_pages_length [of b]] by (simp add: raw_bytes_def XQL6_BLK_SZ_def)
next
  case (3 s bs r s')
  have s': "s' = s\<lparr>h_pc := DoEnq, bRealPages := 256 * (blkId s + 1) \<le> length pgs, h_nTups := h_nTups s,
      h_fill := h_fill s, pInp := (pInp s)[blkId s mod 10 := raw_bytes (raw_chunk pgs (blkId s))]\<rparr>"
    using p2p_fill_ready [OF 3(1-4), of rel] 3(5) by (auto simp: p2p_fill_def)
  have A: "raw_pages pgs" "256 * blkId s \<le> length pgs" "bs = map (raw_chunk pgs) [0..<blkId s]"
    "r = length pgs - 256 * blkId s"
    using 3(1-3) by (auto simp: p2p_src_def)
  have "p2p_src sv pgs (h_fill s) (h_nTups s) (256 * (blkId s + 1) \<le> length pgs) (bs @ [raw_chunk pgs (blkId s)])
      (length pgs - 256 * (blkId s + 1))"
    using 3(1,2) A(3) by (simp add: p2p_src_def)
  moreover have "256 * (blkId s + 1) \<le> length pgs \<longrightarrow> length pgs - 256 * (blkId s + 1) < r" using A(4) by auto
  ultimately show ?case using s' raw_chunk_block [OF A(1)] by blast
next
  case (4 s bs r)
  then show ?case using p2p_fill_ready [OF 4, of rel] unfolding p2p_fill_def by blast
qed

text \<open>A run starts with everything ahead and ends with the sum of all rows.\<close>

lemma p2p_init:
  assumes "length inp = 10" "list_all (\<lambda>b. length b = XQL6_BLK_SZ) inp" "length out = 10"
    and "stores sv (raw_bytes pgs)" "raw_pages pgs" "length pgs < 262144"
  shows "buf_inv raw_block raw_bytes raw_val (p2p_src sv pgs) (hw_init nBlks inp out) [] (length pgs)"
  using assms(4-6) by (intro buf_inv_init [OF assms(1-3)]) (simp add: p2p_src_def)

lemma p2p_halt_sum:
  assumes "buf_inv raw_block raw_bytes raw_val (p2p_src sv pgs) s bs r" "h_pc s = Halt" "enq_ok s"
  shows "h_sum s = word_of_int (q6_spec (raw_rows pgs))"
proof -
  have R: "h_sum s = sum_list (map raw_val bs)" "bs = map (raw_chunk pgs) [0..<length bs]"
    "length pgs < 256 * length bs"
    using buf_halt [OF assms] by (auto simp: p2p_src_def)
  have "sum_list (map raw_val bs) = word_of_int (q6_spec (concat (map raw_rows bs)))"
    by (induction bs) (simp_all add: raw_val_def)
  moreover have "concat (map raw_rows bs) = raw_rows pgs"
  proof -
    have "concat (map raw_rows bs) = concat (map (\<lambda>i. raw_rows (raw_chunk pgs i)) [0..<length bs])"
      by (subst R(2)) (simp add: comp_def)
    then show ?thesis using R(3) by (simp add: all_chunks_rows)
  qed
  ultimately show ?thesis using R(1) by simp
qed

end
