(* ===== verification/P2P_Runs.thy ===== *)
theory P2P_Runs
  imports P2P_Host Run_HW Samples
begin

text \<open>
  What the peer-to-peer variant guarantees: its kernel agrees with the first one, its run gives
  the query's sum of a relation below 2 GB, and where it fails: a page with a prune hint, a
  relation of 2 GB, an error of the read.
\<close>

section \<open>A relation on disk\<close>

definition disk1 :: server where
  "disk1 = \<lparr>sv_smgropen = True,
     sv_seg = (\<lambda>k. if k = 0 then Some (seg_file heap1 0) else None), sv_junk = 0\<rparr>"

definition rel1 :: p2p_rel where "rel1 = \<lparr>rd_smgr = False, md_calls = []\<rparr>"

lemma heap1_raw: "raw_page heap1 [row1, row2]"
proof -
  have "live [enc_tuple row1, enc_tuple row2] = map enc_tuple [row1, row2]"
    using row_lengths by auto
  then show ?thesis
    using heap1_page by (auto simp: raw_page_def row1_wf row2_wf tuples_bytes_def row_lengths PAGE_SZ_def)
qed

lemma disk1_stores: "stores disk1 (raw_bytes [(heap1, [row1, row2])])"
proof -
  have "k = 0" if "131072 * k \<le> Suc 0" for k :: nat using that by simp
  note z = this
  show ?thesis
    by (auto dest!: z simp: stores_def disk1_def raw_bytes_def heap1_length SEG_BYTES_def RELSEG_SIZE_def BLCKSZ_def)
qed

section \<open>The run\<close>

text \<open>
  Whatever the interleaving of host and device, a run of the peer-to-peer variant over a
  relation of fewer than 262144 heap pages (2 GB) that ends without an enqueue failure has the
  query's sum over the rows of all pages, and every run ends within a number of steps that is
  linear in the number of pages.
\<close>

theorem p2p_run_correct:
  assumes "stores sv (raw_bytes pgs)" and "raw_pages pgs" and "length pgs < 262144"
    and "length inp = 10" and "list_all (\<lambda>b. length b = XQL6_BLK_SZ) inp" and "length out = 10"
    and "p2p_reach sv rel (p2p_compute junk) (hw_init nBlks inp out) n s"
  shows "n \<le> 33 * length pgs + 242
    \<and> (h_pc s = Halt \<and> enq_ok s \<longrightarrow> h_sum s = word_of_int (q6_spec (raw_rows pgs)))"
proof -
  have "buf_inv raw_block raw_bytes raw_val (p2p_src sv pgs) (hw_init nBlks inp out) [] (length pgs)"
    by (rule p2p_init [OF assms(4-6,1-3)])
  with p2p.inv_reach [of sv rel junk "hw_init nBlks inp out" n s pgs "[]" "length pgs"] assms(7)
  obtain bs r where I: "buf_inv raw_block raw_bytes raw_val (p2p_src sv pgs) s bs r"
    "n + potential s r \<le> 33 * length pgs + 242"
    by (auto simp: p2p_reach_def potential_init)
  then show ?thesis using p2p_halt_sum [OF I(1)] by auto
qed

lemma raw_pages1: "raw_pages [(heap1, [row1, row2])]"
  by (simp add: raw_pages_def heap1_raw)

lemma raw_rows_wf: "raw_pages pgs \<Longrightarrow> list_all wf_lineitem (raw_rows pgs)"
  by (auto simp: raw_pages_def raw_page_def raw_rows_def list_all_iff)

lemma p2p_sample_run:
  "\<exists>n s. p2p_reach disk1 rel1 (p2p_compute (\<lambda>_ _ _ _. []))
      (hw_init 1 (replicate 10 (replicate XQL6_BLK_SZ 0)) (replicate 10 0)) n s
    \<and> h_pc s = Halt \<and> enq_ok s"
proof -
  let ?pgs = "[(heap1, [row1, row2])]"
  let ?init = "hw_init 1 (replicate 10 (replicate XQL6_BLK_SZ 0)) (replicate 10 0)"
  have "buf_inv raw_block raw_bytes raw_val (p2p_src disk1 ?pgs) ?init [] (length ?pgs)"
    using disk1_stores raw_pages1 by (intro p2p_init) (auto simp: list_all_iff)
  then show ?thesis
    using p2p.can_halt [of disk1 ?pgs ?init "[]" "length ?pgs" rel1 "\<lambda>_ _ _ _. []"]
    by (auto simp: p2p_reach_def hw_init_def)
qed

section \<open>The kernels agree\<close>

text \<open>
  C11. The two kernels compute the same: on a block of raw heap pages the peer-to-peer kernel
  stores what the first kernel stores on the packed pages of the same rows.
\<close>

theorem p2p_kernel_agrees:
  assumes "raw_block raws" and "wf_block pgs" and "raw_rows raws = rows_of pgs"
    and "\<forall>u i t f. length (junk u i t f) = NMRC_FIELD_SZ" and "\<forall>u i t f. length (junk' u i t f) = NMRC_FIELD_SZ"
  shows "p2p_fpga_q6 junk (words_of NUM_WORDS (raw_bytes raws)) = fpga_q6 junk' (words_of NUM_WORDS (block_of pgs))"
  using p2p_fpga_q6_law [OF assms(1,4)] fpga_q6_law [OF assms(2,5)] assms(3) by simp

theorem p2p_kernel_agrees_witness:
  "p2p_fpga_q6 (\<lambda>_ _ _ _. replicate 16 1) (words_of NUM_WORDS (raw_bytes (replicate 256 (heap1, [row1, row2]))))
    = fpga_q6 (\<lambda>_ _ _ _. replicate 16 2) (words_of NUM_WORDS (block_of block1))"
proof (rule p2p_kernel_agrees [OF _ block1_wf])
  show "raw_block (replicate 256 (heap1, [row1, row2]))"
    by (simp add: raw_block_def list_all_iff heap1_raw NUM_PAGES_def NUM_WORDS_def NUM_BYTES_def
        WORDS_PER_PAGE_def k_WORD_SZ_def PAGE_SZ_def)
qed (simp_all add: raw_rows_def rows_of_def block1_def NMRC_FIELD_SZ_def)

section \<open>A page with a prune hint\<close>

text \<open>
  C32. As long as the prune hint of a page is zero, the line pointer the loop starts at passes
  for an empty item. When it reads as an item shorter than its tuple header, the process counts
  a tuple that does not exist and starts the padding that many bytes early, so that the filter
  takes bytes of the page for a row; when the rows are fewer than these bytes it reads before
  the start of its array.
\<close>

theorem p2p_prune_hint_counted:
  assumes "length page = PAGE_SZ" and "PageGetMaxOffsetNumber page = Inr (length tups)"
    and "\<forall>i < length tups. item_data page (Suc i) (tups ! i)"
    and "length (concat (live tups)) < PAGE_SZ"
    and "pd_prune_xid page = Inr xid" and "t_hoff page (ItemIdGetOffset xid) = Inr hoff"
    and "hoff = ItemIdGetLength xid + k" and "0 < k"
  shows "p2p_getHeaderInt2 (page @ rest) =
    (if length (concat (live tups)) < k then Inl OutOfBounds
     else Inr (replicate 6 [of_nat (length (live tups) + 1)],
       concat (live tups) @ drop (length (concat (live tups)) - k) page, rest))"
proof -
  let ?t = "length (concat (live tups))"
  have "PageGetItemId page 0 = Inr xid"
    using assms(5) by (simp add: PageGetItemId_def pd_prune_xid_def SizeOfPageHeaderData_def sizeof_ItemIdData_def)
  then have "hdr_lines_loop page (length tups + 1) 0 \<lparr>hd_outcnt = 0, hd_nTups = 0, hd_out = []\<rparr>
      = hdr_lines_loop page (length tups) 1 \<lparr>hd_outcnt = - int k, hd_nTups = 1, hd_out = []\<rparr>"
    using assms(6-8) by (simp add: Let_def PAGE_SZ_def)
  also have "\<dots> = Inr \<lparr>hd_outcnt = - int k + int ?t, hd_nTups = 1 + length (live tups),
      hd_out = [] @ concat (live tups)\<rparr>"
    using assms(3,4) by (intro hdr_lines_loop_law) auto
  finally have "hdr_lines_loop page (length tups + 1) 0 \<lparr>hd_outcnt = 0, hd_nTups = 0, hd_out = []\<rparr>
    = Inr \<lparr>hd_outcnt = - int k + int ?t, hd_nTups = 1 + length (live tups), hd_out = concat (live tups)\<rparr>"
    by simp
  moreover have "copy_loop PAGE_SZ (page @ rest) [] = Inr (rest, page)"
    using copy_loop_law [of page rest "[]"] assms(1) by simp
  moreover have "hdr_pad page (- int k + int ?t) (concat (live tups)) =
    (if ?t < k then Inl OutOfBounds else Inr (concat (live tups) @ drop (?t - k) page))"
  proof (cases "?t < k")
    case True
    then show ?thesis by (simp add: hdr_pad_def)
  next
    case False
    then have "- int k + int ?t = int (?t - k)" by simp
    then show ?thesis using hdr_pad_law [OF assms(1), of "?t - k"] assms(4) False by simp
  qed
  ultimately show ?thesis using assms(2) by (simp add: p2p_getHeaderInt2_def)
qed

lemma hinted_page:
  "PageGetMaxOffsetNumber (heap_page_with 2) = Inr 2" "pd_prune_xid (heap_page_with 2) = Inr 2"
  "t_hoff (heap_page_with 2) 2 = Inr 58" "item_data (heap_page_with 2) 1 (enc_tuple row1)"
  "item_data (heap_page_with 2) 2 (enc_tuple row2)" "length (heap_page_with 2) = 8192"
proof -
  have b: "le32_bytes 2 = [2, 0, 0, 0]" by code_simp
  show "PageGetMaxOffsetNumber (heap_page_with 2) = Inr 2" "pd_prune_xid (heap_page_with 2) = Inr 2"
    "t_hoff (heap_page_with 2) 2 = Inr 58" "item_data (heap_page_with 2) 1 (enc_tuple row1)"
    "item_data (heap_page_with 2) 2 (enc_tuple row2)" "length (heap_page_with 2) = 8192"
    by (simp_all add: item_data_def PageGetItemId_def PageGetMaxOffsetNumber_def pd_lower_def pd_prune_xid_def
        SizeOfPageHeaderData_def sizeof_ItemIdData_def get32_def get16_def rd_def t_hoff_def le16_def
        heap_page_with_shape nth_append row_lengths line_pointer_fields XQL_PAGE_SZ_def b)
qed

theorem p2p_prune_hint_counted_witness:
  "p2p_getHeaderInt2 (heap_page_with 2) = Inr (replicate 6 [3],
    enc_tuple row1 @ enc_tuple row2 @ drop 92 (heap_page_with 2), [])"
proof -
  have l: "enc_tuple row1 \<noteq> []" "enc_tuple row2 \<noteq> []" using row_lengths by auto
  have "ItemIdGetOffset 2 = 2" "ItemIdGetLength 2 = 0" by code_simp+
  then show ?thesis
    using p2p_prune_hint_counted [of "heap_page_with 2" "[enc_tuple row1, enc_tuple row2]" 2 58 58 "[]"] hinted_page
    by (simp add: l row_lengths PAGE_SZ_def numeral_2_eq_2 less_Suc_eq)
qed

section \<open>A relation of 2 GB\<close>

text \<open>On such a relation every block below 1024 is full, so the loop goes on to block 1024.\<close>

definition before_overflow :: "hw \<Rightarrow> bool" where
  "before_overflow s \<longleftrightarrow> length (pInp s) = 10 \<and> list_all (\<lambda>b. length b = XQL6_BLK_SZ) (pInp s)
     \<and> blkId s \<le> 1024 \<and> (h_pc s = DoEnq \<longrightarrow> blkId s < 1024)
     \<and> (h_pc s \<in> {Top, DoFill, DoEnq} \<longrightarrow> bRealPages s) \<and> (h_pc s \<in> {Drain, Halt} \<longrightarrow> \<not> enq_ok s)"

lemma full_chunk: "2 ^ 31 \<le> length file \<Longrightarrow> bid < 1024 \<Longrightarrow> length (chunk file bid) = XQL6_BLK_SZ"
  by (simp add: chunk_def XQL6_BLK_SZ_def)

lemma fill_block_big: "1024 \<le> bid \<Longrightarrow> p2p_fill_block sv rel bid bReal p = Inl IntOverflow"
  using pgblk_big [of bid] by (simp add: p2p_fill_block_def)

lemma fill_before_overflow:
  assumes "stores sv file" "2 ^ 31 \<le> length file" "before_overflow s" "h_pc s = DoFill" "p2p_fill sv rel s s'"
  shows "before_overflow s'"
proof -
  let ?p = "pInp s ! (blkId s mod 10)"
  obtain b rel1 blk where f: "p2p_fill_block sv (xpgopen sv 1 rel) (blkId s) (bRealPages s) ?p = Inr (b, rel1, blk)"
    and s': "s' = s\<lparr>h_pc := DoEnq, bRealPages := b, pInp := (pInp s)[blkId s mod 10 := blk]\<rparr>"
    using assms(5) by (auto simp: p2p_fill_def)
  have k: "blkId s < 1024" using f fill_block_big [of "blkId s" sv "xpgopen sv 1 rel" "bRealPages s" ?p] by fastforce
  have len: "length ?p = XQL6_BLK_SZ" using assms(3) by (simp add: before_overflow_def list_all_length)
  have "blkId s * XQL6_BLK_SZ \<le> length file" using k assms(2) by (simp add: XQL6_BLK_SZ_def)
  moreover have "rd_smgr (xpgopen sv 1 rel)" using assms(1) by (intro xpgopen_opens) (simp add: stores_def)
  ultimately have "b = bRealPages s" "length blk = XQL6_BLK_SZ"
    using p2p_fill_block_law [OF assms(1) k _ len, of "xpgopen sv 1 rel" "bRealPages s"] f full_chunk [OF assms(2) k]
    by auto
  then show ?thesis
    using assms(3,4) k unfolding s' before_overflow_def by (auto simp: list_all_length nth_list_update)
qed

lemma reach_before_overflow:
  assumes "buf_reach (p2p_fill sv rel) dev s0 n s" "stores sv file" "2 ^ 31 \<le> length file" "before_overflow s0"
  shows "before_overflow s"
  using assms(1)
proof induction
  case p_reach_init
  then show ?case by (rule assms(4))
next
  case (p_reach_host n s s')
  from p_reach_host.hyps(2) show ?case
    using p_reach_host.IH fill_before_overflow [OF assms(2,3) p_reach_host.IH]
    by cases (auto simp: before_overflow_def)
next
  case (p_reach_dev n s s')
  from p_reach_dev.hyps(2) show ?case using p_reach_dev.IH by cases (auto simp: before_overflow_def)
qed

text \<open>
  C30. On a relation of 2 GB or more, whose file can be read throughout, no run gets to its result: the page number of a block is
  right up to block 1023, the run gets no further than block 1024, and the int product from which
  the page number of that block is computed overflows, which C leaves undefined. Only a failure
  to enqueue a block ends the loop before.
\<close>

theorem p2p_block_number_overflows:
  assumes "stores sv file" and "2 ^ 31 \<le> length file"
    and "length inp = 10" and "list_all (\<lambda>b. length b = XQL6_BLK_SZ) inp"
    and "p2p_reach sv rel dev (hw_init nBlks inp out) n s"
  shows "blkId s \<le> 1024 \<and> \<not> (h_pc s = Halt \<and> enq_ok s)
    \<and> (\<forall>bid < 1024. p2p_pgblk bid = Inr (of_nat (bid * XQL6_BLK_SZ div BLCKSZ)))
    \<and> (h_pc s = DoFill \<and> blkId s = 1024 \<longrightarrow>
        p2p_fill_block sv (xpgopen sv 1 rel) (blkId s) (bRealPages s) (pInp s ! (blkId s mod 10)) = Inl IntOverflow)"
proof -
  have "before_overflow (hw_init nBlks inp out)"
    using assms(3,4) by (simp add: before_overflow_def hw_init_def)
  then have "before_overflow s"
    using reach_before_overflow [OF _ assms(1,2)] assms(5) by (simp add: p2p_reach_def)
  then show ?thesis
    by (auto simp: before_overflow_def fill_block_big pgblk_small(1) XQL6_BLK_SZ_def BLCKSZ_def)
qed

text \<open>A disk with such a relation; the run has taken its first step.\<close>

definition big_file :: "u8 list" where "big_file = replicate (2 ^ 31) 0"

definition big_disk :: server where
  "big_disk = \<lparr>sv_smgropen = True, sv_seg = (\<lambda>k. Some (seg_file big_file k)), sv_junk = 0\<rparr>"

theorem p2p_block_number_overflows_witness:
  "\<exists>s. p2p_reach big_disk rel1 (\<lambda>_. 0) (hw_init 262144 (replicate 10 (replicate XQL6_BLK_SZ 0)) (replicate 10 0)) 1 s
    \<and> h_pc s = DoFill \<and> blkId s \<le> 1024 \<and> p2p_pgblk 1023 = Inr 261888"
proof -
  let ?init = "hw_init 262144 (replicate 10 (replicate XQL6_BLK_SZ 0)) (replicate 10 0)"
  let ?s = "?init\<lparr>h_pc := DoFill\<rparr>"
  have "buf_step (p2p_fill big_disk rel1) ?init ?s"
    by (rule p_top_go) (simp_all add: hw_init_def read_back_def)
  then have r: "p2p_reach big_disk rel1 (\<lambda>_. 0) ?init 1 ?s"
    unfolding p2p_reach_def One_nat_def by (rule p_reach_host [OF p_reach_init])
  have "stores big_disk big_file" by (simp add: stores_def big_disk_def)
  moreover have "2 ^ 31 \<le> length big_file" by (simp only: big_file_def length_replicate)
  ultimately have "blkId ?s \<le> 1024 \<and> p2p_pgblk 1023 = Inr (of_nat (1023 * XQL6_BLK_SZ div BLCKSZ))"
    using p2p_block_number_overflows [OF _ _ _ _ r] by (auto simp: list_all_iff)
  then show ?thesis using r by (auto simp: XQL6_BLK_SZ_def BLCKSZ_def)
qed

section \<open>A failing read\<close>

text \<open>
  C31. A read error is not noticed: the -1 of the file layer comes back as the largest
  \<open>size_t\<close>, the test for a negative result never succeeds, and the attempt to clear the rest of
  the buffer starts one byte before it.
\<close>

theorem p2p_read_error_unnoticed:
  assumes "rd_smgr rel" and "bid < 1024" and "sv_seg sv (bid div 512) = Some f"
    and "\<And>pos. FileSeek f pos = int pos" and "\<And>pos n. FileRead f pos n = (-1, [])"
  shows "xql6FillBlock_new sv (256 * bid) 256 rel p = Inr (-1, md (MdReadBigd (256 * bid) 256) rel, p)
    \<and> p2p_fill_block sv rel bid bReal p = Inl OutOfBounds"
proof -
  have x: "xql6FillBlock_new sv (256 * bid) 256 rel p = Inr (-1, md (MdReadBigd (256 * bid) 256) rel, p)"
    using assms(1,3-5)
    by (simp add: xql6FillBlock_new_def xpgread_bigd_def mdread_bigd_def RelationOpenSmgr_def Let_def
        block_position(1) blit_in)
  have "XQL6_BLK_SZ div BLCKSZ = 256" by (simp add: XQL6_BLK_SZ_def BLCKSZ_def)
  then show ?thesis using x pgblk_small [OF assms(2)] by (simp add: p2p_fill_block_def memset_zero_def XQL6_BLK_SZ_def Let_def)
qed

definition bad_disk :: server where
  "bad_disk = \<lparr>sv_smgropen = True,
     sv_seg = (\<lambda>_. Some \<lparr>FileSeek = int, FileRead = (\<lambda>_ _. (-1, []))\<rparr>), sv_junk = 0\<rparr>"

theorem p2p_read_error_unnoticed_witness:
  "p2p_fill_block bad_disk \<lparr>rd_smgr = True, md_calls = []\<rparr> 0 True (replicate 2097152 0) = Inl OutOfBounds"
  using p2p_read_error_unnoticed [of "\<lparr>rd_smgr = True, md_calls = []\<rparr>" 0 bad_disk
      "\<lparr>FileSeek = int, FileRead = (\<lambda>_ _. (-1, []))\<rparr>" "replicate 2097152 0" True]
  by (simp add: bad_disk_def)

end
