(* ===== verification/P2P_Session.thy ===== *)
theory P2P_Session
  imports FPGA_Host Entry
begin

text \<open>
  The OpenCL session and the kernel management of the peer-to-peer variant,
  \<^verbatim>\<open>xql6p2p/host/fpga_q6.c\<close> and \<^verbatim>\<open>xql6p2p/host/xql6.c\<close>: the device is chosen by
  number, the input buffers lie where the storage device can write them, and a computation is
  enqueued without a transfer to the device.
\<close>

section \<open>Choosing the device\<close>

text \<open>
  The first \<open>clGetDeviceIDs\<close> delivers the number of devices in place of a handle, the second one
  stores them: \<open>devs i\<close> is then \<open>devices [i]\<close>, an array of that many entries. The int \<open>g_devid\<close>
  is compared with the unsigned number.
\<close>

definition p2p_open_fpga :: "runtime \<Rightarrow> (nat \<Rightarrow> int) \<Rightarrow> (string \<Rightarrow> u8 list option) \<Rightarrow> nat \<Rightarrow> int \<Rightarrow> string
    \<Rightarrow> session \<Rightarrow> (int \<times> session) res" where
  "p2p_open_fpga orc devs file got g_devid xclbin s =
    (let (n_i, s) = load_file_to_memory file got xclbin s in
     if n_i < 0 then Inr (EXIT_FAILURE, s) else
     let ((err, _), s) = api orc GetPlatformIDs s in
     if err \<noteq> CL_SUCCESS then Inr (EXIT_FAILURE, s) else
     let ((err, _), s) = api orc GetPlatformVendor s in
     if err \<noteq> CL_SUCCESS then Inr (EXIT_FAILURE, s) else
     let ((err, _), s) = api orc GetPlatformName s in
     if err \<noteq> CL_SUCCESS then Inr (EXIT_FAILURE, s) else
     let ((err, n), s) = api orc GetDeviceCount s; num_devices = (word_of_int n :: u32) in
     if err \<noteq> CL_SUCCESS then Inr (EXIT_FAILURE, s) else
     if num_devices \<le> word_of_int g_devid then Inr (EXIT_FAILURE, s) else
     let ((err, _), s) = api orc (GetDeviceList (unat num_devices)) s in
     if err \<noteq> CL_SUCCESS then Inr (EXIT_FAILURE, s) else
     if g_devid < 0 \<or> uint num_devices \<le> g_devid then Inl OutOfBounds else
     let device_id = devs (nat g_devid);
         ((_, h), s) = api orc (CreateContextOn device_id) s; s = s\<lparr>gcontext := h\<rparr> in
     if h = 0 then Inr (EXIT_FAILURE, s) else
     let ((_, h), s) = api orc CreateCommandQueue s; s = s\<lparr>gcommands := h\<rparr> in
     if h = 0 then Inr (EXIT_FAILURE, s) else
     let ((err, h), s) = api orc CreateProgramWithBinary s; s = s\<lparr>gprogram := h\<rparr> in
     if err \<noteq> CL_SUCCESS then Inr (EXIT_FAILURE, s) else
     let ((err, _), s) = api orc BuildProgram s in
     if err \<noteq> CL_SUCCESS then (let (_, s) = api orc GetProgramBuildInfo s in Inr (EXIT_FAILURE, s)) else
     let ((err, h), s) = api orc CreateKernel s; s = s\<lparr>gkernel := h\<rparr> in
     if h = 0 \<or> err \<noteq> CL_SUCCESS then Inr (EXIT_FAILURE, s) else Inr (EXIT_SUCCESS, s))"

section \<open>Buffers and enqueueing\<close>

fun p2p_alloc_loop :: "runtime \<Rightarrow> nat \<Rightarrow> nat \<Rightarrow> session \<Rightarrow> int \<times> session" where
  "p2p_alloc_loop orc 0 i s = (EXIT_SUCCESS, s)"
| "p2p_alloc_loop orc (Suc n) i s =
    (let ((_, hi), s) = api orc (CreateP2PBuffer OCL_BLK_SZ) s; s = s\<lparr>devInp := (devInp s)[i := hi]\<rparr>;
         ((_, ho), s) = api orc (CreateBuffer RES_SZ) s; s = s\<lparr>devOut := (devOut s)[i := ho]\<rparr> in
     if hi = 0 \<or> ho = 0 then (EXIT_FAILURE, s) else
     let ((_, pi), s) = api orc (MapBuffer hi) s; s = s\<lparr>pInp_ptr := (pInp_ptr s)[i := pi]\<rparr>;
         ((_, po), s) = api orc (MapBuffer ho) s; s = s\<lparr>pOut_ptr := (pOut_ptr s)[i := po]\<rparr> in
     if pi = 0 \<or> po = 0 then (EXIT_FAILURE, s) else p2p_alloc_loop orc n (Suc i) s)"

definition p2p_start_fpga :: "runtime \<Rightarrow> (nat \<Rightarrow> int) \<Rightarrow> (string \<Rightarrow> u8 list option) \<Rightarrow> nat \<Rightarrow> int \<Rightarrow> string
    \<Rightarrow> session \<Rightarrow> (int \<times> session) res" where
  "p2p_start_fpga orc devs file got g_devid xclbin s =
     rbind (p2p_open_fpga orc devs file got g_devid xclbin s) (\<lambda>(status, s).
       Inr (if status \<noteq> EXIT_SUCCESS then (EXIT_FAILURE, s) else p2p_alloc_loop orc 10 0 s))"

definition p2p_enq_compute :: "runtime \<Rightarrow> nat \<Rightarrow> session \<Rightarrow> int \<times> session" where
  "p2p_enq_compute orc bufId s =
    (let ((err1, _), s) = api orc (SetKernelArg 0 (devInp s ! bufId)) s;
         ((err2, _), s) = api orc (SetKernelArg 1 (devOut s ! bufId)) s in
     if \<not> (err1 = CL_SUCCESS \<and> err2 = CL_SUCCESS) then (EXIT_FAILURE, s) else
     let nd = now s; ((err, _), s) = api orc NDRangeKernelNow s;
         s = s\<lparr>ndEvent := (ndEvent s)[bufId := nd]\<rparr> in
     if err \<noteq> 0 then (EXIT_FAILURE, s) else
     let rdv = now s; ((err, _), s) = api orc (MigrateToHost (devOut s ! bufId) (ndEvent s ! bufId)) s;
         s = s\<lparr>rdEvent := (rdEvent s)[bufId := rdv]\<rparr> in
     if err \<noteq> 0 then (EXIT_FAILURE, s) else
     let (_, s) = api orc (RetainEvent (rdEvent s ! bufId)) s;
         (_, s) = api orc (ReleaseEvent (ndEvent s ! bufId)) s;
         (_, s) = api orc (ReleaseEvent (rdEvent s ! bufId)) s
     in (EXIT_SUCCESS, s))"

fun p2p_enq_blocks :: "runtime \<Rightarrow> nat \<Rightarrow> nat \<Rightarrow> session \<Rightarrow> bool \<times> session" where
  "p2p_enq_blocks orc 0 blkId s = (True, s)"
| "p2p_enq_blocks orc (Suc n) blkId s =
    (let (status, s) = p2p_enq_compute orc (blkId mod 10) s in
     if status \<noteq> EXIT_SUCCESS then (False, s) else p2p_enq_blocks orc n (Suc blkId) s)"

section \<open>Kernel management\<close>

definition p2p_init_kernel :: "env \<Rightarrow> (nat \<Rightarrow> int) \<Rightarrow> int \<Rightarrow> string \<Rightarrow> backend \<Rightarrow> string
    \<Rightarrow> (bool \<times> backend \<times> string) res" where
  "p2p_init_kernel e devs g_devid p_krnlName b p_sBuf =
     (if p_fpgaKernelName b \<noteq> None then Inr (False, b, p_sBuf) else
      rbind (p2p_start_fpga (e_orc e) devs (e_file e) (e_got e) g_devid p_krnlName (b_session b)) (\<lambda>(status, s).
      let b' = b\<lparr>b_session := s\<rparr> in
      if status \<noteq> EXIT_SUCCESS then
        rbind (append_text p_sBuf (''Failed to start kernel '' @ p_krnlName @ '', Status '' @ ld status
            @ '', Time '' @ ld (e_us e) @ '' us'' @ [CHR 0x0A])) (\<lambda>t. Inr (False, b', t))
      else
        rbind (append_text p_sBuf (''xql6 init device '' @ ld g_devid @ '' (fpga config) '' @ ld (e_us e)
            @ '' us'' @ [CHR 0x0A]))
          (\<lambda>t. Inr (True, b'\<lparr>p_fpgaKernelName := Some p_krnlName\<rparr>, t))))"

definition p2p_hw_ready :: "env \<Rightarrow> (nat \<Rightarrow> int) \<Rightarrow> int \<Rightarrow> string \<Rightarrow> backend \<Rightarrow> string
    \<Rightarrow> (bool \<times> backend \<times> string) res" where
  "p2p_hw_ready e devs g_devid p_krnName b p_sBuf =
     rbind (if p_fpgaKernelName b \<noteq> None \<and> p_fpgaKernelName b \<noteq> Some p_krnName
            then xql6_stop_kernel e b p_sBuf else Inr (True, b, p_sBuf)) (\<lambda>(ok, b1, t1).
     if \<not> ok then Inr (False, b1, t1)
     else if p_fpgaKernelName b1 = None then p2p_init_kernel e devs g_devid p_krnName b1 t1
     else Inr (True, b1, t1))"

text \<open>The tuples are never counted.\<close>

definition p2p_hw_report :: "env \<Rightarrow> hw_result \<Rightarrow> backend \<Rightarrow> string \<Rightarrow> (bool \<times> backend \<times> string) res" where
  "p2p_hw_report e r b p_sBuf =
     (let (enq_ok, s) = p2p_enq_blocks (e_orc e) (r_blks r) 0 (b_session b); (tF, tC, tR, tT) = r_us r in
     rbind (append_text p_sBuf (if enq_ok then
         ''xql6_run (hw) result '' @ result_text (r_sum r) @ CHR 0x0A # ''Runtimes (us) Fill '' @ ld tF
         @ '', W+Comp '' @ ld tC @ '', Rd '' @ ld tR @ '', Tot '' @ ld tT @ ''. #Tups ''
         @ ld 0 @ [CHR 0x0A]
         else ''xql6_run failed enque-compute'' @ [CHR 0x0A]))
       (\<lambda>t. Inr (enq_ok, b\<lparr>b_session := s\<rparr>, t)))"

definition p2p_run_hw :: "env \<Rightarrow> (nat \<Rightarrow> int) \<Rightarrow> int \<Rightarrow> hw_result \<Rightarrow> string \<Rightarrow> backend \<Rightarrow> string
    \<Rightarrow> (bool \<times> backend \<times> string) res" where
  "p2p_run_hw e devs g_devid r p_krnName b p_sBuf =
     rbind (p2p_hw_ready e devs g_devid p_krnName b p_sBuf) (\<lambda>(ok, b2, t2).
       if \<not> ok then Inr (False, b2, t2) else p2p_hw_report e r b2 t2)"

text \<open>The entry point stores its third argument in \<open>g_devid\<close> and goes on as the first version does.\<close>

definition p2p_xql6 :: "env \<Rightarrow> (nat \<Rightarrow> int) \<Rightarrow> char \<Rightarrow> string \<Rightarrow> string \<Rightarrow> u32 \<Rightarrow> string res \<Rightarrow> hw_result
    \<Rightarrow> backend \<Rightarrow> (backend \<times> string) res" where
  "p2p_xql6 e devs relkind p_relName p_krnName devid sw r b =
     xql6 e relkind p_relName p_krnName sw (p2p_run_hw e devs (sint devid) r) b"

section \<open>The chosen device is one of those there are\<close>

lemma devid_in_range:
  assumes "0 \<le> n" "n < 2 ^ 31" "- (2 ^ 31) \<le> d" "d < 2 ^ 31"
    and "\<not> (word_of_int n :: u32) \<le> word_of_int d"
  shows "0 \<le> d \<and> d < n \<and> uint (word_of_int n :: u32) = n"
proof -
  have n: "uint (word_of_int n :: u32) = n"
    using assms(1,2) by (simp add: uint_word_of_int)
  have "uint (word_of_int d :: u32) < n" using assms(5) n by (simp add: word_le_def not_le)
  moreover have "uint (word_of_int d :: u32) = d mod 2 ^ 32" by (simp add: uint_word_of_int)
  moreover have "d mod 2 ^ 32 = d + 2 ^ 32" if "d < 0"
  proof -
    have "(d + 2 ^ 32) mod 2 ^ 32 = d + 2 ^ 32" using that assms(3) by (intro mod_pos_pos_trivial) auto
    then show ?thesis by simp
  qed
  moreover have "d mod 2 ^ 32 = d" if "0 \<le> d" using that assms(4) by (intro mod_pos_pos_trivial) auto
  ultimately show ?thesis using n assms(2,3) by (cases "d < 0") auto
qed

text \<open>The calls of a session that opens, on one of \<open>n\<close> devices.\<close>

definition p2p_open_calls :: "string \<Rightarrow> nat \<Rightarrow> nat \<Rightarrow> int \<Rightarrow> clcall list" where
  "p2p_open_calls xclbin sz n device = [Fopen xclbin, Fread sz, Fclose, GetPlatformIDs, GetPlatformVendor,
     GetPlatformName, GetDeviceCount, GetDeviceList n, CreateContextOn device, CreateCommandQueue,
     CreateProgramWithBinary, BuildProgram, CreateKernel]"

text \<open>
  Whatever device number the user passes, the device list is never read out of bounds, and
  when the session opens, the number is below the number of devices and the context is created
  on that device.
\<close>

theorem p2p_open_device_in_range:
  assumes "snd (orc (length (calls s) + 6)) = n" and "0 \<le> n" and "n < 2 ^ 31"
    and "- (2 ^ 31) \<le> d" and "d < 2 ^ 31"
  shows "\<exists>status s'. p2p_open_fpga orc devs fs got d xclbin s = Inr (status, s')
    \<and> (status = EXIT_SUCCESS \<longrightarrow> 0 \<le> d \<and> d < n
        \<and> calls s' = calls s @ p2p_open_calls xclbin got (nat n) (devs (nat d))
        \<and> gcontext s' \<noteq> 0 \<and> gcommands s' \<noteq> 0 \<and> gkernel s' \<noteq> 0)"
proof (cases "fs xclbin")
  case None
  then show ?thesis by (simp add: p2p_open_fpga_def load_file_to_memory_def EXIT_SUCCESS_def EXIT_FAILURE_def)
next
  case (Some bytes)
  show ?thesis
  proof (cases "length bytes = got \<and> \<not> (word_of_int n :: u32) \<le> word_of_int d")
    case False
    then show ?thesis
      using Some assms(1)
      by (auto simp: p2p_open_fpga_def load_file_to_memory_def Let_def split_beta api_def EXIT_SUCCESS_def EXIT_FAILURE_def
          eval_nat_numeral)
  next
    case True
    then have r: "0 \<le> d" "d < n" "uint (word_of_int n :: u32) = n" "\<not> (word_of_int n :: u32) \<le> word_of_int d"
      using devid_in_range [OF assms(2-5)] by auto
    moreover have "unat (word_of_int n :: u32) = nat n" using r(3) by (simp only: unat_eq_nat_uint)
    ultimately show ?thesis
      using Some assms(1) True
      by (simp add: p2p_open_fpga_def load_file_to_memory_def Let_def split_beta api_def EXIT_SUCCESS_def EXIT_FAILURE_def
          p2p_open_calls_def eval_nat_numeral)
  qed
qed

definition one_card :: runtime where
  "one_card t = (0, if t = 6 then 1 else int t + 1)"

theorem p2p_open_device_in_range_witness:
  "\<exists>s'. p2p_open_fpga one_card (\<lambda>i. 77) (\<lambda>_. Some [1, 2, 3]) 3 0 ''q6.xclbin'' session0 = Inr (EXIT_SUCCESS, s')
    \<and> calls s' = p2p_open_calls ''q6.xclbin'' 3 1 77"
proof -
  have n: "snd (one_card (length (calls session0) + 6)) = 1" by (simp add: one_card_def session0_def)
  obtain status s' where r: "p2p_open_fpga one_card (\<lambda>i. 77) (\<lambda>_. Some [1, 2, 3]) 3 0 ''q6.xclbin'' session0 = Inr (status, s')"
    "status = EXIT_SUCCESS \<longrightarrow> calls s' = calls session0 @ p2p_open_calls ''q6.xclbin'' 3 (nat 1) 77"
    using p2p_open_device_in_range [where s = session0 and orc = one_card and n = 1 and d = 0 and devs = "\<lambda>i. 77"
        and fs = "\<lambda>_. Some [1, 2, 3]" and got = 3 and xclbin = "''q6.xclbin''"] n by auto
  moreover have "status = EXIT_SUCCESS"
    using r(1) by (simp add: p2p_open_fpga_def load_file_to_memory_def Let_def split_beta api_def EXIT_SUCCESS_def
        EXIT_FAILURE_def CL_SUCCESS_def one_card_def session0_def eval_nat_numeral)
  ultimately show ?thesis by (simp add: session0_def)
qed

section \<open>The kernel name is set exactly while buffers are mapped\<close>

text \<open>
  Call for call the buffers are allocated as in the first version; only the name of the call that
  creates an input buffer differs.
\<close>

definition plain :: "clcall \<Rightarrow> clcall" where
  "plain c = (case c of CreateP2PBuffer n \<Rightarrow> CreateBuffer n | _ \<Rightarrow> c)"

lemma plain_simps [simp]:
  "plain (CreateP2PBuffer n) = CreateBuffer n" "plain (CreateBuffer n) = CreateBuffer n"
  "plain (MapBuffer h) = MapBuffer h"
  by (simp_all add: plain_def)

abbreviation plain_session :: "session \<Rightarrow> session" where
  "plain_session s \<equiv> s\<lparr>calls := map plain (calls s)\<rparr>"

lemma p2p_alloc_sim:
  "alloc_loop orc n i (plain_session s)
   = (fst (p2p_alloc_loop orc n i s), plain_session (snd (p2p_alloc_loop orc n i s)))"
proof (induction n arbitrary: i s)
  case 0
  then show ?case by simp
next
  case (Suc n)
  let ?t = "length (calls s)"
  let ?s1 = "s\<lparr>devInp := (devInp s)[i := snd (orc ?t)], devOut := (devOut s)[i := snd (orc (Suc ?t))],
    pInp_ptr := (pInp_ptr s)[i := snd (orc (Suc (Suc ?t)))],
    calls := calls s @ [CreateP2PBuffer OCL_BLK_SZ, CreateBuffer RES_SZ, MapBuffer (snd (orc ?t)),
      MapBuffer (snd (orc (Suc ?t)))],
    pOut_ptr := (pOut_ptr s)[i := snd (orc (Suc (Suc (Suc ?t))))]\<rparr>"
  show ?case
  proof (cases "snd (orc ?t) = 0 \<or> snd (orc (Suc ?t)) = 0")
    case True
    then show ?thesis by (auto simp: api_def Let_def split_beta)
  next
    case False
    note nz = this
    show ?thesis
    proof (cases "snd (orc (Suc (Suc ?t))) = 0 \<or> snd (orc (Suc (Suc (Suc ?t)))) = 0")
      case True
      then show ?thesis using nz by (auto simp: api_def Let_def split_beta)
    next
      case False
      have "p2p_alloc_loop orc (Suc n) i s = p2p_alloc_loop orc n (Suc i) ?s1"
        using nz False by (simp add: api_def Let_def split_beta)
      moreover have "alloc_loop orc (Suc n) i (plain_session s) = alloc_loop orc n (Suc i) (plain_session ?s1)"
        using nz False by (simp add: api_def Let_def split_beta)
          (intro arg_cong [where f = "alloc_loop orc n (Suc i)"] session.equality, simp_all)
      ultimately show ?thesis by (simp only: Suc.IH)
    qed
  qed
qed

lemma mapped_plain: "mapped (plain_session s) = mapped s"
  by (simp add: mapped_def arrays_ok_def)

lemma p2p_alloc_mapped:
  assumes "arrays_ok s"
  shows "arrays_ok (snd (p2p_alloc_loop orc 10 0 s))
    \<and> (fst (p2p_alloc_loop orc 10 0 s) = EXIT_SUCCESS \<longrightarrow> mapped (snd (p2p_alloc_loop orc 10 0 s)))"
proof -
  let ?r = "p2p_alloc_loop orc 10 0 s"
  have ok: "arrays_ok (plain_session s)" using assms by (simp add: arrays_ok_def)
  have sim: "alloc_loop orc 10 0 (plain_session s) = (fst ?r, plain_session (snd ?r))" by (rule p2p_alloc_sim)
  have "arrays_ok (plain_session (snd ?r))" using alloc_loop_arrays [OF ok, of orc 10 0] sim by simp
  moreover have "mapped (plain_session (snd ?r))" if "fst ?r = EXIT_SUCCESS"
    using alloc_loop_law [OF ok, of 0 10 orc "plain_session (snd ?r)"] sim that
    by (simp add: mapped_def list_all_iff)
  ultimately show ?thesis by (simp add: mapped_plain arrays_ok_def)
qed

lemma p2p_open_arrays:
  assumes "arrays_ok s" "p2p_open_fpga orc devs fs got d xclbin s = Inr (status, s1)"
  shows "arrays_ok s1"
proof -
  have "arrays_ok (snd (load_file_to_memory fs got xclbin s))" by (rule load_file_arrays [OF assms(1)])
  then show ?thesis
    using assms(2) unfolding p2p_open_fpga_def
    by (auto simp: Let_def api_def arrays_ok_def split: prod.splits if_splits)
qed

lemma p2p_start_mapped:
  assumes "arrays_ok s" "p2p_start_fpga orc devs fs got d xclbin s = Inr (status, s1)"
  shows "arrays_ok s1 \<and> (status = EXIT_SUCCESS \<longrightarrow> mapped s1)"
proof -
  obtain st s0 where o: "p2p_open_fpga orc devs fs got d xclbin s = Inr (st, s0)"
    "(if st \<noteq> EXIT_SUCCESS then (EXIT_FAILURE, s0) else p2p_alloc_loop orc 10 0 s0) = (status, s1)"
    using assms(2) by (auto simp: p2p_start_fpga_def rbind_eq_Inr)
  have "arrays_ok s0" by (rule p2p_open_arrays [OF assms(1) o(1)])
  then show ?thesis
    using p2p_alloc_mapped [of s0 orc] o(2) by (auto simp: EXIT_SUCCESS_def EXIT_FAILURE_def split: if_splits)
qed

lemma p2p_init_kernel_inv:
  assumes "backend_inv b" "p2p_init_kernel e devs d nm b t = Inr (ok, b', t')"
  shows "backend_inv b' \<and> (ok \<longrightarrow> p_fpgaKernelName b' = Some nm)"
proof (cases "p_fpgaKernelName b")
  case None
  then obtain st s where st: "p2p_start_fpga (e_orc e) devs (e_file e) (e_got e) d nm (b_session b) = Inr (st, s)"
    using assms(2) by (auto simp: p2p_init_kernel_def rbind_eq_Inr)
  have "arrays_ok s \<and> (st = EXIT_SUCCESS \<longrightarrow> mapped s)"
    using assms(1) by (intro p2p_start_mapped [OF _ st]) (simp add: backend_inv_def)
  then show ?thesis
    using assms st None
    by (auto simp: p2p_init_kernel_def backend_inv_def Let_def rbind_eq_Inr split: if_splits)
next
  case (Some x)
  then show ?thesis using assms by (auto simp: p2p_init_kernel_def)
qed

lemma p2p_enq_mapped:
  assumes "mapped s" shows "mapped (snd (p2p_enq_compute orc bufId s))"
  using assms by (auto simp: p2p_enq_compute_def Let_def split_beta mapped_def arrays_ok_def)

lemma p2p_enq_blocks_mapped: "mapped s \<Longrightarrow> mapped (snd (p2p_enq_blocks orc n bid s))"
proof (induction n arbitrary: bid s)
  case 0
  then show ?case by simp
next
  case (Suc n)
  then show ?case using p2p_enq_mapped [OF Suc.prems] by (simp add: split_beta)
qed

lemma p2p_run_hw_inv:
  assumes "backend_inv b" "p2p_run_hw e devs d r nm b t = Inr (ok, b', t')"
  shows "backend_inv b' \<and> (ok \<longrightarrow> p_fpgaKernelName b' = Some nm)"
proof -
  obtain ok1 b1 t1 ok2 b2 t2 where 1: "(if p_fpgaKernelName b \<noteq> None \<and> p_fpgaKernelName b \<noteq> Some nm
      then xql6_stop_kernel e b t else Inr (True, b, t)) = Inr (ok1, b1, t1)"
    and 2: "(if \<not> ok1 then Inr (False, b1, t1)
      else if p_fpgaKernelName b1 = None then p2p_init_kernel e devs d nm b1 t1 else Inr (True, b1, t1))
      = Inr (ok2, b2, t2)"
    and 3: "(if \<not> ok2 then Inr (False, b2, t2) else p2p_hw_report e r b2 t2) = Inr (ok, b', t')"
    using assms(2) unfolding p2p_run_hw_def p2p_hw_ready_def rbind_eq_Inr by auto
  have b1: "backend_inv b1" "ok1" "p_fpgaKernelName b1 = None \<or> p_fpgaKernelName b1 = Some nm"
    using stop_kernel_inv [OF assms(1), of e t ok1 b1 t1] 1 assms(1) by (auto split: if_splits)
  have b2: "backend_inv b2 \<and> (ok2 \<longrightarrow> p_fpgaKernelName b2 = Some nm)"
    using p2p_init_kernel_inv [OF b1(1), of e devs d nm t1 ok2 b2 t2] 2 b1 by (auto split: if_splits)
  show ?thesis
  proof (cases ok2)
    case False
    then show ?thesis using 3 b2 by auto
  next
    case True
    obtain eo s where l: "p2p_enq_blocks (e_orc e) (r_blks r) 0 (b_session b2) = (eo, s)" by force
    have "mapped (b_session b2)" using b2 True by (simp add: backend_inv_def)
    then have "mapped s" using p2p_enq_blocks_mapped [of "b_session b2" "e_orc e" "r_blks r" 0] l by simp
    then have "backend_inv (b2\<lparr>b_session := s\<rparr>)" by (simp add: backend_inv_def mapped_def)
    then show ?thesis using 3 b2 True by (auto simp: p2p_hw_report_def l rbind_eq_Inr split_beta Let_def)
  qed
qed

text \<open>The report of a run fits the buffer and is what the run leaves in it.\<close>

lemma p2p_run_hw_text:
  assumes "backend_inv b" "p2p_hw_ready e devs d krn b [] = Inr (True, b1, t1)"
    and "fst (p2p_enq_blocks (e_orc e) (r_blks r) 0 (b_session b1))"
    and "\<forall>nm. p_fpgaKernelName b = Some nm \<longrightarrow> length nm \<le> 700"
    and "r_us r = (tF, tC, tR, tT)" "\<forall>x \<in> {d, e_us e, tF, tC, tR, tT}. fits64 x"
  shows "\<exists>b'. p2p_run_hw e devs d r krn b [] = Inr (True, b', t1 @ run_text (r_sum r) tF tC tR tT 0)
    \<and> p_fpgaKernelName b' = Some krn \<and> backend_inv b'"
proof -
  have "length t1 \<le> 800"
  proof (rule ready_text [OF assms(2) [unfolded p2p_hw_ready_def] _ assms(4)])
    show "length t1 \<le> length t0 + 76" if "p2p_init_kernel e devs d krn b0 t0 = Inr (True, b1, t1)" for b0 t0
      using that assms(6) ld_length [of d] ld_length [of "e_us e"]
      by (auto simp: p2p_init_kernel_def append_text_def c_sprintf_def c_strcat_def Let_def rbind_eq_Inr split: if_splits)
  qed
  from run_text_fits [OF this, of tF tC tR tT 0] assms(6)
  obtain b' where run: "p2p_run_hw e devs d r krn b [] = Inr (True, b', t1 @ run_text (r_sum r) tF tC tR tT 0)"
    using assms(2,3) by (simp add: p2p_run_hw_def p2p_hw_report_def assms(5) split_beta)
  then show ?thesis using p2p_run_hw_inv [OF assms(1) run] by blast
qed

inductive p2p_called :: "backend \<Rightarrow> bool" where
  p2p_start: "p2p_called backend0"
| p2p_call: "p2p_called b \<Longrightarrow> p2p_xql6 e devs relkind p_relName p_krnName devid sw r b = Inr (b', t)
    \<Longrightarrow> p2p_called b'"

text \<open>In every sequence of calls a running kernel has its buffers.\<close>

lemma p2p_called_inv:
  assumes "p2p_called b"
  shows "backend_inv b"
  using assms
proof induction
  case p2p_start
  show ?case by (simp add: backend_inv_def backend0_def session0_def arrays_ok_def)
next
  case (p2p_call b e devs relkind p_relName p_krnName devid sw r b' t)
  then consider ok where "xql6_stop_kernel e b [] = Inr (ok, b', t)" | "b' = b"
    | ok where "p2p_run_hw e devs (sint devid) r p_krnName b [] = Inr (ok, b', t)"
    by (auto simp: p2p_xql6_def xql6_def xql6_check_relation_def rbind_eq_Inr split: if_splits)
  then show ?case
  proof cases
    case 1
    then show ?thesis using stop_kernel_inv [OF p2p_call.IH] by blast
  next
    case 2
    then show ?thesis using p2p_call.IH by simp
  next
    case 3
    then show ?thesis using p2p_run_hw_inv [OF p2p_call.IH 3] by blast
  qed
qed

section \<open>The device number of a later call\<close>

lemma p2p_enq_context:
  "gcontext (snd (p2p_enq_compute orc bufId s)) = gcontext s
   \<and> gkernel (snd (p2p_enq_compute orc bufId s)) = gkernel s"
  by (auto simp: p2p_enq_compute_def Let_def split_beta)

lemma p2p_enq_blocks_context:
  "gcontext (snd (p2p_enq_blocks orc n bid s)) = gcontext s \<and> gkernel (snd (p2p_enq_blocks orc n bid s)) = gkernel s"
  by (induction n arbitrary: bid s) (simp_all add: split_beta p2p_enq_context)

text \<open>
  While a kernel of the same name runs, the device number of a call has no effect: whatever it
  is, the run uses the context and the kernel of the device chosen before.
\<close>

lemma p2p_device_not_switched:
  assumes "p_fpgaKernelName b = Some nm" "p2p_run_hw e devs d r nm b t = Inr (ok, b', t')"
  shows "gcontext (b_session b') = gcontext (b_session b) \<and> gkernel (b_session b') = gkernel (b_session b)
    \<and> p2p_run_hw e devs' d' r nm b t = Inr (ok, b', t')"
proof -
  have ready: "p2p_hw_ready e dv x nm b t = Inr (True, b, t)" for dv x
    using assms(1) by (simp add: p2p_hw_ready_def)
  have rep: "p2p_hw_report e r b t = Inr (ok, b', t')"
    using assms(2) by (simp add: p2p_run_hw_def ready)
  then have "b_session b' = snd (p2p_enq_blocks (e_orc e) (r_blks r) 0 (b_session b))"
    by (auto simp: p2p_hw_report_def rbind_eq_Inr split_beta Let_def)
  with rep show ?thesis
    by (simp add: p2p_run_hw_def ready p2p_enq_blocks_context)
qed

end
