(* ===== verification/Test_Bench.thy ===== *)
theory Test_Bench
  imports Kernel Run_SW
begin

text \<open>
  The stand-alone test bench of the kernel, \<^verbatim>\<open>xql6/kernel/q6_paged_tb.h\<close> and
  \<^verbatim>\<open>xql6/kernel/q6_paged_tb.cpp\<close>: class \<open>Host\<close> cuts a dump of tuples into pages, \<open>fillBlock\<close>
  collects 256 of them, \<open>main\<close> runs the kernel on the block. The peer-to-peer variant
  has a copy of both files; class \<open>DateMgr\<close> repeats the
  functions of the theory Calendar, line by line. Messages on the standard output other than the two lines with the
  totals are left out.
\<close>

section \<open>The reader of the dump\<close>

text \<open>
  The members of class \<open>Host\<close>; \<open>mp_fp\<close> holds the bytes of the file from its current position
  on. The two ints \<open>m_pgIdx\<close> and \<open>m_off\<close> only grow from 0, so they are natural numbers.
\<close>

record tb_host =
  mp_fp :: "u8 list"
  mp_page :: "u8 list"
  m_pgIdx :: nat
  m_pgBeg :: nat
  m_pgEnd :: nat
  m_off :: nat

text \<open>\<open>page\<close> is what \<open>new\<close> returns.\<close>

definition tb_Host :: "u8 list \<Rightarrow> u8 list \<Rightarrow> tb_host" where
  "tb_Host fp page = \<lparr>mp_fp = fp, mp_page = array_of PAGE_SZ page, m_pgIdx = 0, m_pgBeg = 0,
     m_pgEnd = PAGE_SZ, m_off = 0\<rparr>"

definition tb_getBufByte :: "tb_host \<Rightarrow> (u8 option \<times> tb_host) res" where
  "tb_getBufByte h = (if m_pgIdx h = m_pgEnd h then Inr (None, h)
     else rbind (rd (mp_page h) (m_pgIdx h)) (\<lambda>ch.
       Inr (Some ch, h\<lparr>m_pgIdx := m_pgIdx h + 1, m_off := m_off h + 1\<rparr>)))"

text \<open>The loop over the padding bytes; the flag says that none was missing.\<close>

fun tb_align_loop :: "nat \<Rightarrow> tb_host \<Rightarrow> (bool \<times> tb_host) res" where
  "tb_align_loop 0 h = Inr (True, h)"
| "tb_align_loop (Suc n) h = rbind (tb_getBufByte h) (\<lambda>(c, h1).
     case c of None \<Rightarrow> Inr (False, h1) | Some ch \<Rightarrow> tb_align_loop n h1)"

text \<open>
  The condition for long fields, \<open>(ch & 0x03 == 0) || (ch & 0x03 == 2)\<close>, groups as
  \<open>ch & (0x03 == 0)\<close> and \<open>ch & (0x03 == 2)\<close>. The difference \<open>fLen - 1\<close> is unsigned.
\<close>

definition tb_long_cond :: "u8 \<Rightarrow> bool" where
  "tb_long_cond ch \<longleftrightarrow> ch AND (if (0x03 :: int) = 0 then 1 else 0) \<noteq> 0
     \<or> ch AND (if (0x03 :: int) = 2 then 1 else 0) \<noteq> 0"

definition tb_getFieldLen :: "nat \<Rightarrow> tb_host \<Rightarrow> (nat \<times> tb_host) res" where
  "tb_getFieldLen fIdx h =
     (if attrLens ! fIdx \<noteq> -1 then
        (let fLen = nat (attrLens ! fIdx) in
         if align ! fIdx then
           (let aoff = k_INTALIGN (m_off h) in
            if aoff \<noteq> m_off h then
              rbind (tb_align_loop (aoff - m_off h) h) (\<lambda>(ok, h1). Inr (if ok then fLen else 0, h1))
            else Inr (fLen, h))
         else Inr (fLen, h))
      else
        rbind (tb_getBufByte h) (\<lambda>(c, h1). case c of None \<Rightarrow> Inr (0, h1) | Some ch \<Rightarrow>
          if tb_long_cond ch then Inl (ExitCall 3)
          else if ch = 0x01 then Inl (ExitCall 3)
          else if ch AND 0x01 \<noteq> 0 then Inr (unat ((ucast (drop_bit 1 ch) :: u32) - 1), h1)
          else Inl (ExitCall 4)))"

text \<open>The loop over the fields of a tuple, \<open>n\<close> fields to go; the flag is \<open>eop\<close>.\<close>

fun tb_fields :: "nat \<Rightarrow> nat \<Rightarrow> tb_host \<Rightarrow> (bool \<times> tb_host) res" where
  "tb_fields f 0 h = Inr (False, h)"
| "tb_fields f (Suc n) h =
     (if m_pgIdx h < m_pgEnd h then
        rbind (tb_getFieldLen f h) (\<lambda>(fLen, h1).
          if fLen = 0 then Inr (True, h1)
          else tb_fields (Suc f) n (h1\<lparr>m_pgIdx := m_pgIdx h1 + fLen, m_off := m_off h1 + fLen\<rparr>))
      else Inr (False, h))"

text \<open>Looking for the end of a tuple only moves forward in the page.\<close>

definition tb_moves :: "tb_host \<Rightarrow> tb_host \<Rightarrow> bool" where
  "tb_moves h h' \<longleftrightarrow> m_pgIdx h \<le> m_pgIdx h' \<and> m_pgEnd h' = m_pgEnd h \<and> m_pgBeg h' = m_pgBeg h
     \<and> mp_page h' = mp_page h \<and> mp_fp h' = mp_fp h"

lemma tb_moves_refl [simp]: "tb_moves h h"
  by (simp add: tb_moves_def)

lemma tb_moves_trans: "tb_moves h h1 \<Longrightarrow> tb_moves h1 h2 \<Longrightarrow> tb_moves h h2"
  by (auto simp: tb_moves_def)

lemma tb_getBufByte_moves: "tb_getBufByte h = Inr (c, h') \<Longrightarrow> tb_moves h h'"
  by (auto simp: tb_getBufByte_def rd_def tb_moves_def split: if_splits)

lemma tb_align_loop_moves: "tb_align_loop n h = Inr (ok, h') \<Longrightarrow> tb_moves h h'"
proof (induction n arbitrary: h)
  case 0
  then show ?case by simp
next
  case (Suc n)
  then obtain c h1 where 1: "tb_getBufByte h = Inr (c, h1)"
    "(case c of None \<Rightarrow> Inr (False, h1) | Some ch \<Rightarrow> tb_align_loop n h1) = Inr (ok, h')"
    by (auto simp: rbind_eq_Inr)
  then have "tb_moves h1 h'" using Suc.IH by (auto split: option.splits)
  then show ?case by (rule tb_moves_trans [OF tb_getBufByte_moves [OF 1(1)]])
qed

lemma tb_getFieldLen_moves:
  assumes "tb_getFieldLen f h = Inr (l, h')"
  shows "tb_moves h h'"
proof (cases "attrLens ! f \<noteq> -1")
  case True
  then show ?thesis using assms
    by (auto simp: tb_getFieldLen_def Let_def rbind_eq_Inr split: if_splits dest: tb_align_loop_moves)
next
  case False
  then obtain c where "tb_getBufByte h = Inr (c, h')"
    using assms by (auto simp: tb_getFieldLen_def rbind_eq_Inr split: if_splits option.splits)
  then show ?thesis by (rule tb_getBufByte_moves)
qed

lemma tb_fields_moves:
  assumes "tb_fields f n h = Inr (e, h')"
  shows "tb_moves h h'" "0 < n \<Longrightarrow> m_pgIdx h < m_pgEnd h \<Longrightarrow> \<not> e \<Longrightarrow> m_pgIdx h < m_pgIdx h'"
proof -
  have "tb_moves h h' \<and> (0 < n \<and> m_pgIdx h < m_pgEnd h \<and> \<not> e \<longrightarrow> m_pgIdx h < m_pgIdx h')"
    using assms
  proof (induction n arbitrary: f h)
    case 0
    then show ?case by simp
  next
    case (Suc n)
    show ?case
    proof (cases "m_pgIdx h < m_pgEnd h")
      case True
      then obtain l h1 where 1: "tb_getFieldLen f h = Inr (l, h1)"
        "(if l = 0 then Inr (True, h1)
          else tb_fields (Suc f) n (h1\<lparr>m_pgIdx := m_pgIdx h1 + l, m_off := m_off h1 + l\<rparr>)) = Inr (e, h')"
        using Suc.prems by (auto simp: rbind_eq_Inr)
      note m = tb_getFieldLen_moves [OF 1(1)]
      show ?thesis
      proof (cases "l = 0")
        case True
        then show ?thesis using 1 m by auto
      next
        case False
        let ?h = "h1\<lparr>m_pgIdx := m_pgIdx h1 + l, m_off := m_off h1 + l\<rparr>"
        have "tb_moves ?h h'" using Suc.IH [of "Suc f" ?h] 1 False by simp
        with m False show ?thesis by (auto simp: tb_moves_def)
      qed
    next
      case False
      then show ?thesis using Suc.prems by simp
    qed
  qed
  then show "tb_moves h h'" "0 < n \<Longrightarrow> m_pgIdx h < m_pgEnd h \<Longrightarrow> \<not> e \<Longrightarrow> m_pgIdx h < m_pgIdx h'"
    by auto
qed

text \<open>
  The loop over the tuples of a page. \<open>tl_dst\<close> is \<open>p_dst\<close> as an offset into the page buffer of
  the caller; \<open>tl_beg\<close> and \<open>tl_end\<close> are \<open>tupBeg\<close> and \<open>tupEnd\<close>.
\<close>

record tb_loc =
  tl_buf :: "u8 list"
  tl_dst :: nat
  tl_nTups :: nat
  tl_beg :: nat
  tl_end :: nat

function tb_tuples :: "tb_loc \<Rightarrow> tb_host \<Rightarrow> (tb_loc \<times> tb_host) res" where
  "tb_tuples l h =
     (if m_pgIdx h < m_pgEnd h then
        rbind (tb_fields 0 nAttr (h\<lparr>m_off := 0\<rparr>)) (\<lambda>(eop, h1).
          let tupBeg = m_pgIdx h; tupLen = m_pgIdx h1 - tupBeg in
          if \<not> eop \<and> tl_dst l + tupLen < PAGE_SZ then
            rbind (subarr (mp_page h1) tupBeg tupLen) (\<lambda>src.
            rbind (blit (tl_buf l) (tl_dst l) src) (\<lambda>buf.
              tb_tuples \<lparr>tl_buf = buf, tl_dst = tl_dst l + tupLen, tl_nTups = tl_nTups l + 1,
                tl_beg = tupBeg, tl_end = m_pgIdx h1\<rparr> h1))
          else Inr (l\<lparr>tl_beg := tupBeg\<rparr>, h1))
      else Inr (l, h))"
  by auto
termination
proof (relation "measure (\<lambda>(l, h). m_pgEnd h - m_pgIdx h)", goal_cases)
  case 1
  then show ?case by simp
next
  case (2 l h p eop h1 tupBeg tupLen src buf)
  then have "tb_fields 0 nAttr (h\<lparr>m_off := 0\<rparr>) = Inr (False, h1)" by simp
  from tb_fields_moves [OF this] 2(1) show ?case by (auto simp: nAttr_def tb_moves_def)
qed

declare tb_tuples.simps [simp del]

text \<open>\<open>fread\<close> into \<open>mp_page + m_pgBeg\<close>.\<close>

definition tb_fread :: "tb_host \<Rightarrow> (nat \<times> tb_host) res" where
  "tb_fread h = (let got = take (PAGE_SZ - m_pgBeg h) (mp_fp h) in
     rbind (blit (mp_page h) (m_pgBeg h) got) (\<lambda>page.
       Inr (length got, h\<lparr>mp_page := page, mp_fp := drop (length got) (mp_fp h)\<rparr>)))"

text \<open>Both bytes of the header at once; \<open>nTups\<close> is an int.\<close>

definition tb_header :: "u8 list \<Rightarrow> nat \<Rightarrow> u8 list res" where
  "tb_header pbuf nTups = rbind (wr pbuf 0 (of_nat (nTups mod 256))) (\<lambda>b.
     wr b 1 (of_nat (nTups div 256 mod 256)))"

definition tb_getNextPage :: "u8 list \<Rightarrow> tb_host \<Rightarrow> (bool \<times> u8 list \<times> tb_host) res" where
  "tb_getNextPage pbuf h =
     rbind (tb_fread h) (\<lambda>(nBytesRd, h).
     if nBytesRd = 0 then rbind (tb_header pbuf 0) (\<lambda>b. Inr (False, b, h)) else
     rbind (tb_tuples \<lparr>tl_buf = pbuf, tl_dst = 2, tl_nTups = 0, tl_beg = 0, tl_end = 0\<rparr>
              (h\<lparr>m_pgEnd := m_pgBeg h + nBytesRd, m_pgIdx := 0\<rparr>)) (\<lambda>(l, h).
     rbind (tb_header (tl_buf l) (tl_nTups l)) (\<lambda>b.
     if tl_end l \<le> tl_beg l then
       rbind (memcpy_in (mp_page h) 0 (tl_beg l) (PAGE_SZ - tl_beg l)) (\<lambda>page.
         Inr (True, b, h\<lparr>mp_page := page, m_pgBeg := PAGE_SZ - tl_beg l\<rparr>))
     else Inr (True, b, h\<lparr>m_pgBeg := 0\<rparr>))))"

definition tb_getBlankPage :: "u8 list \<Rightarrow> u8 list res" where
  "tb_getBlankPage pbuf = rbind (wr pbuf 0 0) (\<lambda>b. wr b 1 0)"

section \<open>The block and the main program\<close>

text \<open>\<open>n\<close> pages to go, from page \<open>i\<close> on.\<close>

fun tb_fill_loop :: "nat \<Rightarrow> nat \<Rightarrow> bool \<Rightarrow> tb_host \<Rightarrow> u8 list \<Rightarrow> nat \<Rightarrow> nat
    \<Rightarrow> (bool \<times> tb_host \<times> u8 list \<times> nat \<times> nat) res" where
  "tb_fill_loop i 0 bRealPages h blk nBlkPages nBlkTups = Inr (bRealPages, h, blk, nBlkPages, nBlkTups)"
| "tb_fill_loop i (Suc n) bRealPages h blk nBlkPages nBlkTups =
     rbind (subarr blk (i * PAGE_SZ) PAGE_SZ) (\<lambda>p_bufptr.
     rbind (if bRealPages then tb_getNextPage p_bufptr h
            else rbind (tb_getBlankPage p_bufptr) (\<lambda>b. Inr (False, b, h))) (\<lambda>(bRealPages, b, h).
     rbind (rd b 0) (\<lambda>b0. rbind (rd b 1) (\<lambda>b1.
     rbind (blit blk (i * PAGE_SZ) b) (\<lambda>blk.
       tb_fill_loop (Suc i) n bRealPages h blk (nBlkPages + 1) (nBlkTups + le16 b0 b1))))))"

definition tb_fillBlock :: "tb_host \<Rightarrow> u8 list \<Rightarrow> nat \<Rightarrow> nat \<Rightarrow> (bool \<times> tb_host \<times> u8 list \<times> nat \<times> nat) res" where
  "tb_fillBlock h p_bufptr nBlkPages nBlkTups = tb_fill_loop 0 NUM_PAGES True h p_bufptr nBlkPages nBlkTups"

definition nMaxPages :: nat where "nMaxPages = 2"

record tb_totals =
  q6_total :: i64
  nTotPages :: nat
  nTotTups :: nat
  nBlks :: nat

text \<open>
  \<open>while (bRealPages)\<close> with its break. \<open>junk b\<close> is the content of the local arrays of the kernel
  when it runs on block \<open>b\<close>; the buffer keeps the content of the previous block.
\<close>

partial_function (option) tb_main_loop :: "(nat \<Rightarrow> nat \<Rightarrow> nat \<Rightarrow> nat \<Rightarrow> nat \<Rightarrow> u8 list) \<Rightarrow> tb_host \<Rightarrow> u8 list
    \<Rightarrow> tb_totals \<Rightarrow> tb_totals res option" where
  "tb_main_loop junk h pbuf t =
     (case tb_fillBlock h pbuf 0 0 of Inl e \<Rightarrow> Some (Inl e)
      | Inr (bRealPages, h', pbuf', nBlkPages, nBlkTups) \<Rightarrow>
        (case fpga_q6 (junk (nBlks t)) (words_of NUM_WORDS pbuf') of Inl e \<Rightarrow> Some (Inl e)
         | Inr curSum \<Rightarrow>
           (let t' = \<lparr>q6_total = q6_total t + curSum, nTotPages = nTotPages t + nBlkPages,
                      nTotTups = nTotTups t + nBlkTups, nBlks = nBlks t + 1\<rparr> in
            if nMaxPages \<le> nTotPages t' \<or> \<not> bRealPages then Some (Inr t')
            else tb_main_loop junk h' pbuf' t')))"

definition tb_dump :: string where
  "tb_dump = ''/wrk/xsjhdnobkup4/parik/pgdb/hls/host/tupdata.dat''"

text \<open>
  \<open>page\<close> and \<open>buf\<close> are what \<open>new\<close> and \<open>malloc\<close> return. The result is the exit status and the text
  printed last; the conversion \<open>%d\<close> of a long between -9999 and 9999 prints it.
\<close>

definition tb_text :: "tb_totals \<Rightarrow> string" where
  "tb_text t = ''Total: '' @ ld (int (nTotPages t)) @ '' pages '' @ ld (int (nTotTups t)) @ '' tups ''
     @ ld (int (nBlks t)) @ '' blks '' @ CHR 0x0A # ''q6_paged result '' @ result_text (q6_total t) @ [CHR 0x0A]"

definition tb_main :: "(nat \<Rightarrow> nat \<Rightarrow> nat \<Rightarrow> nat \<Rightarrow> nat \<Rightarrow> u8 list) \<Rightarrow> (string \<Rightarrow> u8 list option) \<Rightarrow> u8 list \<Rightarrow> u8 list
    \<Rightarrow> (int \<times> string) res option" where
  "tb_main junk file page buf =
     (case file tb_dump of
        None \<Rightarrow> Some (Inr (100, ''Failed to open file '' @ tb_dump @ [CHR 0x0A]))
      | Some fp \<Rightarrow>
        (case tb_main_loop junk (tb_Host fp page) (array_of NUM_BYTES buf)
                \<lparr>q6_total = 0, nTotPages = 0, nTotTups = 0, nBlks = 0\<rparr> of
           None \<Rightarrow> None | Some (Inl e) \<Rightarrow> Some (Inl e) | Some (Inr t) \<Rightarrow> Some (Inr (0, tb_text t))))"

section \<open>Finding the end of a tuple\<close>

lemma append_eq_longer:
  assumes "xs @ ys = zs @ ws" "length xs \<le> length zs"
  obtains q where "zs = xs @ q" "ys = q @ ws"
  using assms by (metis append_eq_append_conv_if append_eq_conv_conj append_take_drop_id append.assoc same_append_eq)

definition tb_inv :: "tb_host \<Rightarrow> bool" where
  "tb_inv h \<longleftrightarrow> length (mp_page h) = PAGE_SZ \<and> m_pgEnd h \<le> PAGE_SZ \<and> m_pgIdx h \<le> m_pgEnd h"

definition tb_rest :: "tb_host \<Rightarrow> u8 list" where
  "tb_rest h = drop (m_pgIdx h) (take (m_pgEnd h) (mp_page h))"

lemma tb_rest_length: "tb_inv h \<Longrightarrow> length (tb_rest h) = m_pgEnd h - m_pgIdx h"
  by (simp add: tb_inv_def tb_rest_def)

lemma tb_rest_empty: "tb_inv h \<Longrightarrow> tb_rest h = [] \<longleftrightarrow> m_pgIdx h = m_pgEnd h"
  by (auto simp: tb_inv_def tb_rest_def)

lemma tb_rest_lt: "tb_inv h \<Longrightarrow> m_pgIdx h < m_pgEnd h \<longleftrightarrow> tb_rest h \<noteq> []"
  using tb_rest_empty [of h] by (auto simp: tb_inv_def)

lemma tb_getBufByte_some:
  assumes "tb_inv h" "tb_rest h = c # r"
  shows "\<exists>h'. tb_getBufByte h = Inr (Some c, h') \<and> tb_inv h' \<and> tb_rest h' = r \<and> m_off h' = m_off h + 1"
proof -
  have lt: "m_pgIdx h < m_pgEnd h" "m_pgIdx h < length (mp_page h)"
    using assms by (auto simp: tb_inv_def tb_rest_def intro: ccontr)
  have "tb_rest h = mp_page h ! m_pgIdx h # drop (Suc (m_pgIdx h)) (take (m_pgEnd h) (mp_page h))"
    using lt by (simp add: tb_rest_def drop_eq_Cons_nth)
  then show ?thesis
    using assms lt by (auto simp: tb_getBufByte_def tb_inv_def tb_rest_def)
qed

lemma tb_getBufByte_none:
  "tb_inv h \<Longrightarrow> tb_rest h = [] \<Longrightarrow> tb_getBufByte h = Inr (None, h)"
  by (simp add: tb_getBufByte_def tb_rest_empty)

lemma tb_align_loop_law:
  assumes "tb_inv h" "tb_rest h = xs @ r"
  shows "\<exists>h'. tb_align_loop (length xs) h = Inr (True, h') \<and> tb_inv h' \<and> tb_rest h' = r
    \<and> m_off h' = m_off h + length xs"
  using assms
proof (induction xs arbitrary: h)
  case Nil
  then show ?case by simp
next
  case (Cons x xs)
  from Cons.prems obtain h1 where h1: "tb_getBufByte h = Inr (Some x, h1)" "tb_inv h1"
    "tb_rest h1 = xs @ r" "m_off h1 = m_off h + 1"
    using tb_getBufByte_some [of h x "xs @ r"] by auto
  with Cons.IH [OF h1(2,3)] show ?case by auto
qed

lemma tb_align_loop_cut:
  assumes "tb_inv h" "length (tb_rest h) < n"
  shows "\<exists>h'. tb_align_loop n h = Inr (False, h')"
  using assms
proof (induction n arbitrary: h)
  case 0
  then show ?case by simp
next
  case (Suc n)
  show ?case
  proof (cases "tb_rest h")
    case Nil
    then show ?thesis using tb_getBufByte_none [OF Suc.prems(1)] by simp
  next
    case (Cons c r)
    then obtain h1 where "tb_getBufByte h = Inr (Some c, h1)" "tb_inv h1" "tb_rest h1 = r"
      using tb_getBufByte_some [OF Suc.prems(1)] by blast
    then show ?thesis using Suc.IH [of h1] Suc.prems(2) Cons by simp
  qed
qed

lemma tb_long_cond_False [simp]: "\<not> tb_long_cond ch"
  by (simp add: tb_long_cond_def)

lemma tb_getFieldLen_var:
  assumes "tb_inv h" "attrLens ! f = -1" "length p \<le> 126"
    and "tb_rest h = of_nat (2 * (length p + 1) + 1) # r"
  shows "\<exists>h'. tb_getFieldLen f h = Inr (length p, h') \<and> tb_inv h' \<and> tb_rest h' = r
    \<and> m_off h' = m_off h + 1"
proof -
  let ?h = "of_nat (2 * (length p + 1) + 1) :: u8"
  obtain h' where h': "tb_getBufByte h = Inr (Some ?h, h')" "tb_inv h'" "tb_rest h' = r" "m_off h' = m_off h + 1"
    using tb_getBufByte_some [OF assms(1,4)] by blast
  have "unat (drop_bit 1 ?h) = length p + 1" by (rule short_header(3) [OF assms(3)])
  then have "(ucast (drop_bit 1 ?h) :: u32) = of_nat (length p + 1)" by (metis of_nat_unat)
  then have "(ucast (drop_bit 1 ?h) :: u32) - 1 = of_nat (length p)" by (simp only: of_nat_add) simp
  then have "unat ((ucast (drop_bit 1 ?h) :: u32) - 1) = length p"
    using assms(3) by (simp add: unat_of_nat)
  with h' short_header(1,2) [OF assms(3)] assms(2) show ?thesis
    by (simp add: tb_getFieldLen_def del: of_nat_Suc of_nat_add)
qed

lemma tb_getFieldLen_fixed:
  assumes "attrLens ! f \<noteq> -1" "m_off h < 2 ^ 20"
  shows "tb_getFieldLen f h = rbind (tb_align_loop (pad_len f (m_off h)) h) (\<lambda>(ok, h1).
    Inr (if ok then nat (attrLens ! f) else 0, h1))"
  using assms k_INTALIGN_eq [of "m_off h"] by (auto simp: tb_getFieldLen_def pad_len_def Let_def)

lemma tb_getFieldLen_law:
  assumes "tb_inv h" "f < nAttr" "wf_field f p" "m_off h < 2 ^ 20"
    and "tb_rest h = enc_field f (m_off h) p @ r"
  shows "\<exists>h'. tb_getFieldLen f h = Inr (length p, h') \<and> tb_inv h' \<and> tb_rest h' = p @ r
    \<and> m_off h' = m_off h + (length (enc_field f (m_off h) p) - length p)"
proof (cases "attrLens ! f \<noteq> -1")
  case True
  then have enc: "tb_rest h = replicate (pad_len f (m_off h)) 0 @ (p @ r)"
    using assms(5) by (simp add: enc_field_def)
  have len: "nat (attrLens ! f) = length p" using True assms(3) by (simp add: wf_field_def)
  from tb_align_loop_law [OF assms(1) enc] True len show ?thesis
    by (auto simp: tb_getFieldLen_fixed [OF True assms(4)] enc_field_def)
next
  case False
  then show ?thesis
    using tb_getFieldLen_var [OF assms(1), of f p "p @ r"] assms(3,5) by (auto simp: enc_field_def wf_field_def)
qed

definition tb_advance :: "nat \<Rightarrow> tb_host \<Rightarrow> tb_host res" where
  "tb_advance n h = Inr (h\<lparr>m_pgIdx := m_pgIdx h + n, m_off := m_off h + n\<rparr>)"

lemma tb_advance_law:
  assumes "tb_inv h" "tb_rest h = p @ r"
  shows "\<exists>h'. tb_advance (length p) h = Inr h' \<and> tb_inv h' \<and> tb_rest h' = r \<and> m_off h' = m_off h + length p"
proof -
  have "length p \<le> m_pgEnd h - m_pgIdx h" using tb_rest_length [OF assms(1)] assms(2) by simp
  moreover have "drop (m_pgIdx h + length p) (take (m_pgEnd h) (mp_page h)) = r"
    using assms(2) by (intro drop_eq_appendD) (simp add: tb_rest_def)
  ultimately show ?thesis using assms(1) by (auto simp: tb_advance_def tb_inv_def tb_rest_def)
qed

interpretation tb: field_lengths tb_inv tb_rest m_off tb_getFieldLen tb_advance
  by unfold_locales (blast intro: tb_getFieldLen_law tb_advance_law)+

text \<open>A tuple that is there in full is passed over, provided none of its fields is empty.\<close>

lemma tb_fields_step:
  "m_pgIdx h < m_pgEnd h \<Longrightarrow> tb_getFieldLen f h = Inr (l, h1) \<Longrightarrow> tb_advance l h1 = Inr h2 \<Longrightarrow> l \<noteq> 0
   \<Longrightarrow> tb_fields f (Suc n) h = tb_fields (Suc f) n h2"
  by (simp add: tb_advance_def)

lemma tb_fields_law:
  assumes "tb_inv h" "list_all2 wf_field [f..<f + length ps] ps" "f + length ps \<le> nAttr" "[] \<notin> set ps"
    and "m_off h + length (enc_fields f (m_off h) ps) < 2 ^ 20"
    and "tb_rest h = enc_fields f (m_off h) ps @ r"
  shows "\<exists>h'. tb_fields f (length ps) h = Inr (False, h') \<and> tb_inv h' \<and> tb_rest h' = r"
  using assms
proof (induction ps arbitrary: f h)
  case Nil
  then show ?case by simp
next
  case (Cons p ps)
  let ?e = "enc_field f (m_off h) p"
  let ?r = "enc_fields (Suc f) (m_off h + length ?e) ps @ r"
  have wf: "wf_field f p" "list_all2 wf_field [Suc f..<Suc f + length ps] ps" "f < nAttr"
    "Suc f + length ps \<le> nAttr"
    using Cons.prems(2,3) by (auto simp: upt_conv_Cons simp del: upt_Suc)
  have off: "m_off h < 2 ^ 20" and rem: "tb_rest h = ?e @ ?r" and p: "p \<noteq> []"
    using Cons.prems by auto
  obtain h1 h2 where h2: "tb_getFieldLen f h = Inr (length p, h1)" "tb_advance (length p) h1 = Inr h2"
    "tb_inv h2" "tb_rest h2 = ?r" "m_off h2 = m_off h + length ?e"
    using tb.step_skip [OF Cons.prems(1) wf(3,1) off rem] by blast
  have "m_pgIdx h < m_pgEnd h"
    using rem p tb.enc_field_longer [of p f "m_off h"] by (auto simp: tb_rest_lt [OF Cons.prems(1)])
  then have "tb_fields f (length (p # ps)) h = tb_fields (Suc f) (length ps) h2"
    using tb_fields_step [OF _ h2(1,2)] p by (simp del: tb_fields.simps)
  then show ?case using Cons.IH [OF h2(3) wf(2,4)] Cons.prems(4,5) h2(4,5) by (simp add: add.assoc)
qed

text \<open>One that is cut off by the end of the page is noticed, or runs past the end.\<close>

lemma tb_fields_done: "\<not> m_pgIdx h < m_pgEnd h \<Longrightarrow> tb_fields f n h = Inr (False, h)"
  by (cases n) auto

lemma tb_field_cut:
  assumes "tb_inv h" "wf_field f p" "m_off h < 2 ^ 20" "tb_rest h \<noteq> []"
    and "enc_field f (m_off h) p = tb_rest h @ x" "x \<noteq> []"
  shows "\<exists>l h1. tb_getFieldLen f h = Inr (l, h1) \<and> (l = 0 \<or> m_pgEnd h1 \<le> m_pgIdx h1 + l)"
proof (cases "attrLens ! f \<noteq> -1")
  case True
  then have enc: "replicate (pad_len f (m_off h)) 0 @ p = tb_rest h @ x"
    using assms(5) by (simp add: enc_field_def)
  have len: "nat (attrLens ! f) = length p" using True assms(2) by (simp add: wf_field_def)
  show ?thesis
  proof (cases "length (tb_rest h) < pad_len f (m_off h)")
    case True
    then show ?thesis
      using tb_align_loop_cut [OF assms(1) True] by (auto simp: tb_getFieldLen_fixed [OF \<open>attrLens ! f \<noteq> -1\<close> assms(3)])
  next
    case False
    then obtain q where q: "tb_rest h = replicate (pad_len f (m_off h)) 0 @ q" "p = q @ x"
      using append_eq_longer [OF enc] by auto
    obtain h1 where h1: "tb_align_loop (pad_len f (m_off h)) h = Inr (True, h1)" "tb_inv h1" "tb_rest h1 = q"
      using tb_align_loop_law [OF assms(1) q(1)] by auto
    then have "tb_getFieldLen f h = Inr (length p, h1)"
      by (simp add: tb_getFieldLen_fixed [OF True assms(3)] len)
    moreover have "m_pgEnd h1 \<le> m_pgIdx h1 + length p"
      using tb_rest_length [OF h1(2)] h1(3) q(2) by simp
    ultimately show ?thesis by blast
  qed
next
  case False
  then have p: "length p \<le> 126" "of_nat (2 * (length p + 1) + 1) # p = tb_rest h @ x"
    using assms(2,5) by (simp_all add: wf_field_def enc_field_def)
  then obtain q where q: "tb_rest h = of_nat (2 * (length p + 1) + 1) # q" "p = q @ x"
    using assms(4) by (cases "tb_rest h") auto
  obtain h1 where h1: "tb_getFieldLen f h = Inr (length p, h1)" "tb_inv h1" "tb_rest h1 = q"
    using tb_getFieldLen_var [OF assms(1) _ p(1) q(1)] False by auto
  then show ?thesis using tb_rest_length [OF h1(2)] q(2) by auto
qed

lemma tb_fields_cut:
  assumes "tb_inv h" "list_all2 wf_field [f..<f + length ps] ps" "f + length ps \<le> nAttr"
    and "m_off h + length (enc_fields f (m_off h) ps) < 2 ^ 20"
    and "enc_fields f (m_off h) ps = tb_rest h @ x" "x \<noteq> []"
  shows "\<exists>e h'. tb_fields f (length ps) h = Inr (e, h') \<and> (e \<or> m_pgEnd h' \<le> m_pgIdx h')"
  using assms
proof (induction ps arbitrary: f h)
  case Nil
  then show ?case by simp
next
  case (Cons p ps)
  let ?e = "enc_field f (m_off h) p"
  let ?r = "enc_fields (Suc f) (m_off h + length ?e) ps"
  have wf: "wf_field f p" "list_all2 wf_field [Suc f..<Suc f + length ps] ps" "f < nAttr"
    "Suc f + length ps \<le> nAttr"
    using Cons.prems(2,3) by (auto simp: upt_conv_Cons simp del: upt_Suc)
  have off: "m_off h < 2 ^ 20" and rem: "?e @ ?r = tb_rest h @ x" using Cons.prems by auto
  show ?case
  proof (cases "tb_rest h = []")
    case True
    then show ?thesis using tb_fields_done [of h] tb_rest_lt [OF Cons.prems(1)] by auto
  next
    case ne: False
    then have lt: "m_pgIdx h < m_pgEnd h" by (simp add: tb_rest_lt [OF Cons.prems(1)])
    show ?thesis
    proof (cases "length ?e \<le> length (tb_rest h)")
      case True
      then obtain q where q: "tb_rest h = ?e @ q" "?r = q @ x"
        using append_eq_longer [OF rem] by auto
      obtain h1 h2 where h2: "tb_getFieldLen f h = Inr (length p, h1)" "tb_advance (length p) h1 = Inr h2"
        "tb_inv h2" "tb_rest h2 = q" "m_off h2 = m_off h + length ?e"
        using tb.step_skip [OF Cons.prems(1) wf(3,1) off q(1)] by blast
      show ?thesis
      proof (cases "p = []")
        case True
        then show ?thesis using h2(1) lt by (intro exI [of _ True] exI [of _ h1]) simp
      next
        case False
        then have "tb_fields f (length (p # ps)) h = tb_fields (Suc f) (length ps) h2"
          using tb_fields_step [OF lt h2(1,2)] by (simp del: tb_fields.simps)
        then show ?thesis using Cons.IH [OF h2(3) wf(2,4)] Cons.prems(4,6) h2(4,5) q(2) by (simp add: add.assoc)
      qed
    next
      case False
      then obtain y where y: "?e = tb_rest h @ y" "y \<noteq> []"
        using append_eq_longer [OF rem [symmetric]] by (metis append_Nil2 linear)
      obtain l h1 where "tb_getFieldLen f h = Inr (l, h1)" "l = 0 \<or> m_pgEnd h1 \<le> m_pgIdx h1 + l"
        using tb_field_cut [OF Cons.prems(1) wf(1) off ne y] by blast
      then show ?thesis
        using lt tb_fields_done [of "h1\<lparr>m_pgIdx := m_pgIdx h1 + l, m_off := m_off h1 + l\<rparr>"] by auto
    qed
  qed
qed

end
