(* ===== verification/Test_Bench_Runs.thy ===== *)
theory Test_Bench_Runs
  imports Test_Bench Samples
begin

text \<open>
  What the test bench does with a dump of rows: how its pages divide them, that the main
  program prints the query's sum over the rows it has packed, and which rows it loses.
\<close>

section \<open>Cutting rows into pages\<close>

text \<open>
  What the bench is meant to do, on rows: the longest prefix whose bytes stay below the end
  of a page that starts with a two-byte header.
\<close>

fun fit :: "nat \<Rightarrow> lineitem list \<Rightarrow> lineitem list" where
  "fit start [] = []"
| "fit start (li # lis) = (if start + length (enc_tuple li) < PAGE_SZ
     then li # fit (start + length (enc_tuple li)) lis else [])"

definition left_over :: "nat \<Rightarrow> lineitem list \<Rightarrow> lineitem list" where
  "left_over start lis = drop (length (fit start lis)) lis"

lemma fit_left_over: "fit start lis @ left_over start lis = lis"
proof -
  have "fit start lis = take (length (fit start lis)) lis"
    by (induction lis arbitrary: start) auto
  then show ?thesis by (metis append_take_drop_id left_over_def)
qed

lemma left_over_simps [simp]:
  "left_over start [] = []"
  "left_over start (li # lis) = (if start + length (enc_tuple li) < PAGE_SZ
     then left_over (start + length (enc_tuple li)) lis else li # lis)"
  by (simp_all add: left_over_def)

lemma tuples_bytes_simps [simp]:
  "tuples_bytes [] = []"
  "tuples_bytes (li # lis) = enc_tuple li @ tuples_bytes lis"
  "tuples_bytes (lis @ lis') = tuples_bytes lis @ tuples_bytes lis'"
  by (simp_all add: tuples_bytes_def)

lemma fit_bound: "start < PAGE_SZ \<Longrightarrow> start + length (tuples_bytes (fit start lis)) < PAGE_SZ"
proof (induction lis arbitrary: start)
  case Nil
  then show ?case by simp
next
  case (Cons li lis)
  then show ?case using Cons.IH [of "start + length (enc_tuple li)"] by (simp add: add.assoc)
qed

lemma left_over_bound:
  "left_over start lis = li # rest \<Longrightarrow> PAGE_SZ \<le> start + length (tuples_bytes (fit start lis)) + length (enc_tuple li)"
proof (induction lis arbitrary: start)
  case Nil
  then show ?case by simp
next
  case (Cons l lis)
  then show ?case using Cons.IH [of "start + length (enc_tuple l)"] by (auto simp: add.assoc split: if_splits)
qed

lemma fit_all: "start + length (tuples_bytes lis) < PAGE_SZ \<Longrightarrow> fit start lis = lis"
proof (induction lis arbitrary: start)
  case Nil
  then show ?case by simp
next
  case (Cons li lis)
  then show ?case using Cons.IH [of "start + length (enc_tuple li)"] by (simp add: add.assoc)
qed

text \<open>A row none of whose fields is empty.\<close>

definition full_row :: "lineitem \<Rightarrow> bool" where
  "full_row li \<longleftrightarrow> wf_lineitem li \<and> [] \<notin> set (payloads li)"

text \<open>One turn of the loop over the tuples.\<close>

lemma tb_tuple_full:
  assumes "tb_inv h" "full_row li" "tb_rest h = enc_tuple li @ r"
  shows "\<exists>h1. tb_fields 0 nAttr (h\<lparr>m_off := 0\<rparr>) = Inr (False, h1) \<and> tb_moves h h1 \<and> tb_inv h1 \<and> tb_rest h1 = r
    \<and> m_pgIdx h1 = m_pgIdx h + length (enc_tuple li)"
proof -
  let ?h = "h\<lparr>m_off := 0\<rparr>"
  have wf: "wf_lineitem li" "[] \<notin> set (payloads li)" using assms(2) by (auto simp: full_row_def)
  have inv: "tb_inv ?h" "tb_rest ?h = enc_fields 0 (m_off ?h) (payloads li) @ r"
    using assms(1,3) by (simp_all add: tb_inv_def tb_rest_def enc_tuple_def)
  have "m_off ?h + length (enc_fields 0 (m_off ?h) (payloads li)) < 2 ^ 20"
    using row_fields(3) [OF wf(1)] by (simp add: enc_tuple_def)
  from tb_fields_law [OF inv(1) row_fields(2) [OF wf(1)] _ wf(2) this inv(2)] row_fields(1) [OF wf(1)]
  obtain h1 where h1: "tb_fields 0 nAttr ?h = Inr (False, h1)" "tb_inv h1" "tb_rest h1 = r" by auto
  have m: "tb_moves ?h h1" by (rule tb_fields_moves [OF h1(1)])
  have "length (tb_rest h) = length (enc_tuple li) + length (tb_rest h1)" using assms(3) h1(3) by simp
  then have "m_pgIdx h1 = m_pgIdx h + length (enc_tuple li)"
    using tb_rest_length [OF assms(1)] tb_rest_length [OF h1(2)] assms(1) h1(2) m by (auto simp: tb_moves_def tb_inv_def)
  with h1 m show ?thesis by (auto simp: tb_moves_def)
qed

lemma tb_tuple_cut:
  assumes "tb_inv h" "wf_lineitem li" "enc_tuple li = tb_rest h @ x" "x \<noteq> []"
  shows "\<exists>e h1. tb_fields 0 nAttr (h\<lparr>m_off := 0\<rparr>) = Inr (e, h1) \<and> tb_moves h h1 \<and> (e \<or> m_pgEnd h \<le> m_pgIdx h1)"
proof -
  let ?h = "h\<lparr>m_off := 0\<rparr>"
  have inv: "tb_inv ?h" "enc_fields 0 (m_off ?h) (payloads li) = tb_rest ?h @ x"
    using assms(1,3) by (simp_all add: tb_inv_def tb_rest_def enc_tuple_def)
  have "m_off ?h + length (enc_fields 0 (m_off ?h) (payloads li)) < 2 ^ 20"
    using row_fields(3) [OF assms(2)] by (simp add: enc_tuple_def)
  from tb_fields_cut [OF inv(1) row_fields(2) [OF assms(2)] _ this inv(2) assms(4)] row_fields(1) [OF assms(2)]
  obtain e h1 where h1: "tb_fields 0 nAttr ?h = Inr (e, h1)" "e \<or> m_pgEnd h1 \<le> m_pgIdx h1" by auto
  have "tb_moves ?h h1" by (rule tb_fields_moves [OF h1(1)])
  with h1 show ?thesis by (intro exI [of _ e] exI [of _ h1]) (auto simp: tb_moves_def)
qed

text \<open>
  The loop copies the rows that fit. \<open>bs\<close> is what follows the page in the dump: when the page
  is not full there is nothing.
\<close>

lemma subarr_prefix:
  assumes "drop i (take e xs) = ys @ r" "e \<le> length xs" "i \<le> e"
  shows "subarr xs i (length ys) = Inr ys"
proof -
  have "length ys \<le> e - i" using assms by (metis diff_is_0_eq' le_add1 length_append length_drop length_take min.absorb2)
  moreover have "take (length ys) (drop i xs) = ys"
  proof -
    have "take (length ys) (drop i (take e xs)) = ys" using assms(1) by simp
    then show ?thesis using calculation by (simp add: drop_take)
  qed
  ultimately show ?thesis using assms(2,3) by (simp add: subarr_def)
qed

lemma drop_2_take: "drop 2 (take n xs) = pre \<Longrightarrow> 2 \<le> n \<Longrightarrow> \<exists>dead. drop 2 xs = pre @ dead"
  by (metis append_take_drop_id drop_take le_add_diff_inverse)

lemma tb_tuples_law:
  assumes "tb_inv h" "list_all full_row lis" "tb_rest h @ x = tuples_bytes lis"
    and "x = [] \<or> m_pgEnd h = PAGE_SZ"
    and "length (tl_buf l) = PAGE_SZ" "tl_dst l = 2 + m_pgIdx h" "tl_dst l < PAGE_SZ"
    and "drop 2 (take (tl_dst l) (tl_buf l)) = pre" "tl_end l = m_pgIdx h" "tl_end l \<noteq> 0 \<Longrightarrow> tl_beg l < tl_end l"
  shows "\<exists>l' h'. tb_tuples l h = Inr (l', h') \<and> tb_moves h h' \<and> length (tl_buf l') = PAGE_SZ
    \<and> tl_nTups l' = tl_nTups l + length (fit (tl_dst l) lis)
    \<and> (\<exists>dead. drop 2 (tl_buf l') = pre @ tuples_bytes (fit (tl_dst l) lis) @ dead)
    \<and> (if left_over (tl_dst l) lis = [] then lis \<noteq> [] \<or> tl_end l \<noteq> 0 \<longrightarrow> tl_beg l' < tl_end l'
       else tl_beg l' = m_pgIdx h + length (tuples_bytes (fit (tl_dst l) lis)) \<and> tl_end l' \<le> tl_beg l')"
  using assms
proof (induction lis arbitrary: l h pre)
  case Nil
  then have "tb_rest h = []" by simp
  then have "tb_tuples l h = Inr (l, h)"
    using tb_rest_lt [OF Nil.prems(1)] by (subst tb_tuples.simps) simp
  moreover have "2 \<le> tl_dst l" using Nil.prems(6) by simp
  ultimately show ?case
    using Nil.prems drop_2_take [OF Nil.prems(8)] by auto
next
  case (Cons li lis)
  let ?n = "length (enc_tuple li)"
  have row: "full_row li" "wf_lineitem li" "list_all full_row lis"
    using Cons.prems(2) by (simp_all add: full_row_def [of li])
  have eq: "tb_rest h @ x = enc_tuple li @ tuples_bytes lis" using Cons.prems(3) by simp
  have n: "8 \<le> ?n" using enc_tuple_longer [OF row(2)] .
  show ?case
  proof (cases "length (enc_tuple li) \<le> length (tb_rest h)")
    case True
    then obtain q where q: "tb_rest h = enc_tuple li @ q" "tuples_bytes lis = q @ x"
      using append_eq_longer [OF eq [symmetric]] by auto
    obtain h1 where h1: "tb_fields 0 nAttr (h\<lparr>m_off := 0\<rparr>) = Inr (False, h1)" "tb_moves h h1" "tb_inv h1"
      "tb_rest h1 = q" "m_pgIdx h1 = m_pgIdx h + ?n"
      using tb_tuple_full [OF Cons.prems(1) row(1) q(1)] by blast
    have lt: "m_pgIdx h < m_pgEnd h" using q(1) n by (auto simp: tb_rest_lt [OF Cons.prems(1)])
    show ?thesis
    proof (cases "tl_dst l + ?n < PAGE_SZ")
      case fits: True
      have src: "subarr (mp_page h1) (m_pgIdx h) ?n = Inr (enc_tuple li)"
        using q(1) h1(2,3,5) Cons.prems(1) by (intro subarr_prefix) (auto simp: tb_moves_def tb_inv_def tb_rest_def)
      obtain buf where buf: "blit (tl_buf l) (tl_dst l) (enc_tuple li) = Inr buf"
        using fits Cons.prems(5) by (auto simp: blit_def)
      let ?l = "\<lparr>tl_buf = buf, tl_dst = tl_dst l + ?n, tl_nTups = tl_nTups l + 1,
        tl_beg = m_pgIdx h, tl_end = m_pgIdx h1\<rparr>"
      have run: "tb_tuples l h = tb_tuples ?l h1"
        using lt h1(1,5) src buf fits by (subst tb_tuples.simps) (simp add: Let_def)
      have ok: "tb_rest h1 @ x = tuples_bytes lis" "x = [] \<or> m_pgEnd h1 = PAGE_SZ" "length (tl_buf ?l) = PAGE_SZ"
        "tl_dst ?l = 2 + m_pgIdx h1" "tl_dst ?l < PAGE_SZ" "tl_end ?l = m_pgIdx h1" "tl_beg ?l < tl_end ?l"
        "drop 2 (take (tl_dst ?l) (tl_buf ?l)) = pre @ enc_tuple li"
        using h1(2,4,5) q(2) Cons.prems(4-8) blit_length [OF buf] take_blit [OF buf] fits n by (auto simp: tb_moves_def)
      have "\<exists>l' h'. tb_tuples ?l h1 = Inr (l', h') \<and> tb_moves h1 h' \<and> length (tl_buf l') = PAGE_SZ
        \<and> tl_nTups l' = tl_nTups ?l + length (fit (tl_dst ?l) lis)
        \<and> (\<exists>dead. drop 2 (tl_buf l') = (pre @ enc_tuple li) @ tuples_bytes (fit (tl_dst ?l) lis) @ dead)
        \<and> (if left_over (tl_dst ?l) lis = [] then lis \<noteq> [] \<or> tl_end ?l \<noteq> 0 \<longrightarrow> tl_beg l' < tl_end l'
           else tl_beg l' = m_pgIdx h1 + length (tuples_bytes (fit (tl_dst ?l) lis)) \<and> tl_end l' \<le> tl_beg l')"
        by (rule Cons.IH [OF h1(3) row(3) ok(1-5,8,6)]) (rule ok(7))
      then obtain l' h' where r: "tb_tuples ?l h1 = Inr (l', h')" "tb_moves h1 h'" "length (tl_buf l') = PAGE_SZ"
        "tl_nTups l' = tl_nTups ?l + length (fit (tl_dst ?l) lis)"
        "\<exists>dead. drop 2 (tl_buf l') = (pre @ enc_tuple li) @ tuples_bytes (fit (tl_dst ?l) lis) @ dead"
        "if left_over (tl_dst ?l) lis = [] then lis \<noteq> [] \<or> tl_end ?l \<noteq> 0 \<longrightarrow> tl_beg l' < tl_end l'
         else tl_beg l' = m_pgIdx h1 + length (tuples_bytes (fit (tl_dst ?l) lis)) \<and> tl_end l' \<le> tl_beg l'"
        by blast
      then show ?thesis
        using run fits h1(5) n tb_moves_trans [OF h1(2) r(2)]
        by (intro exI [of _ l'] exI [of _ h']) (auto split: if_splits)
    next
      case False
      then have "tb_tuples l h = Inr (l\<lparr>tl_beg := m_pgIdx h\<rparr>, h1)"
        using lt h1(1,5) by (subst tb_tuples.simps) (simp add: Let_def)
      then show ?thesis
        using False h1(2) Cons.prems(5,6,8,9) drop_2_take [OF Cons.prems(8)] by auto
    qed
  next
    case False
    then obtain y where y: "enc_tuple li = tb_rest h @ y" "y \<noteq> []" "x = y @ tuples_bytes lis"
      using append_eq_longer [OF eq] by (metis append_Nil2 linear)
    then have full: "m_pgEnd h = PAGE_SZ" using Cons.prems(4) by auto
    then have lt: "m_pgIdx h < m_pgEnd h" using Cons.prems(6,7) by simp
    obtain e h1 where h1: "tb_fields 0 nAttr (h\<lparr>m_off := 0\<rparr>) = Inr (e, h1)" "tb_moves h h1"
      "e \<or> m_pgEnd h \<le> m_pgIdx h1"
      using tb_tuple_cut [OF Cons.prems(1) row(2) y(1,2)] by blast
    have "\<not> (\<not> e \<and> tl_dst l + (m_pgIdx h1 - m_pgIdx h) < PAGE_SZ)"
      using h1(2,3) full lt Cons.prems(6) by auto
    then have "tb_tuples l h = Inr (l\<lparr>tl_beg := m_pgIdx h\<rparr>, h1)"
      using lt h1(1) by (subst tb_tuples.simps) (auto simp: Let_def)
    moreover have "\<not> tl_dst l + ?n < PAGE_SZ"
      using False tb_rest_length [OF Cons.prems(1)] full lt Cons.prems(6) by simp
    ultimately show ?thesis
      using h1(2) Cons.prems(5,6,8,9) drop_2_take [OF Cons.prems(8)] by auto
  qed
qed

text \<open>
  The rows still to come: those of the bytes kept in the page buffer and of the rest of the dump.
  Once the dump is exhausted nothing comes any more, whatever the buffer still holds.
\<close>

definition tb_ready :: "tb_host \<Rightarrow> lineitem list \<Rightarrow> bool" where
  "tb_ready h lis \<longleftrightarrow> length (mp_page h) = PAGE_SZ \<and> m_pgBeg h \<le> PAGE_SZ \<and> list_all full_row lis
     \<and> (if lis = [] then mp_fp h = [] else mp_fp h \<noteq> [] \<and> m_pgBeg h < PAGE_SZ
        \<and> take (m_pgBeg h) (mp_page h) @ mp_fp h = tuples_bytes lis)"

definition tb_next :: "lineitem list \<Rightarrow> lineitem list" where
  "tb_next lis = (if length (tuples_bytes lis) \<le> PAGE_SZ then [] else left_over 2 lis)"

fun tb_pages :: "nat \<Rightarrow> lineitem list \<Rightarrow> lineitem list list" where
  "tb_pages 0 lis = []"
| "tb_pages (Suc n) lis = fit 2 lis # tb_pages n (tb_next lis)"

lemma full_rows_wf: "list_all full_row lis \<Longrightarrow> list_all wf_lineitem lis"
  by (simp add: list_all_iff full_row_def)

lemma fit_full: "list_all full_row lis \<Longrightarrow> list_all full_row (fit start lis)"
  using fit_left_over [of start lis] by (metis list_all_append)

lemma left_over_full: "list_all full_row lis \<Longrightarrow> list_all full_row (left_over start lis)"
  using fit_left_over [of start lis] by (metis list_all_append)

lemma tb_fread_law:
  assumes "length (mp_page h) = PAGE_SZ" "m_pgBeg h \<le> PAGE_SZ"
  shows "\<exists>page. tb_fread h = Inr (min (PAGE_SZ - m_pgBeg h) (length (mp_fp h)),
      h\<lparr>mp_page := page, mp_fp := drop (PAGE_SZ - m_pgBeg h) (mp_fp h)\<rparr>)
    \<and> length page = PAGE_SZ
    \<and> take (m_pgBeg h + min (PAGE_SZ - m_pgBeg h) (length (mp_fp h))) page
      = take (m_pgBeg h) (mp_page h) @ take (PAGE_SZ - m_pgBeg h) (mp_fp h)"
proof -
  let ?got = "take (PAGE_SZ - m_pgBeg h) (mp_fp h)"
  have "m_pgBeg h + length ?got \<le> length (mp_page h)" using assms by simp
  then obtain page where page: "blit (mp_page h) (m_pgBeg h) ?got = Inr page" using blit_in by blast
  have "drop (length ?got) (mp_fp h) = drop (PAGE_SZ - m_pgBeg h) (mp_fp h)" by (simp add: min_def)
  then show ?thesis
    using page take_blit [OF page] blit_length [OF page] assms
    by (intro exI [of _ page]) (simp add: tb_fread_def Let_def min.commute)
qed

lemma tb_header_page:
  assumes "length b = PAGE_SZ" "drop 2 b = tuples_bytes lis @ dead" "list_all wf_lineitem lis"
  shows "tb_header b (length lis) = Inr (page_of lis dead)" "wf_page lis dead"
proof -
  have l: "length (page_of lis dead) = PAGE_SZ"
    using arg_cong [OF assms(2), of length] assms(1) by (simp add: page_of_def PAGE_SZ_def)
  with assms(3) show wf: "wf_page lis dead" by (simp add: wf_page_def)
  obtain x y bs where "b = x # y # bs" using assms(1) by (cases b; cases "tl b") (auto simp: PAGE_SZ_def)
  then have "b = x # y # tuples_bytes lis @ dead" using assms(2) by simp
  then show "tb_header b (length lis) = Inr (page_of lis dead)"
    using page_count_bound [OF wf] by (simp add: tb_header_def page_of_def)
qed

lemma tb_getBlankPage_law:
  assumes "length b = PAGE_SZ"
  shows "tb_getBlankPage b = Inr (page_of [] (drop 2 b))" "wf_page [] (drop 2 b)"
  using tb_header_page [of b "[]" "drop 2 b"] assms by (simp_all add: tb_header_def tb_getBlankPage_def)

text \<open>The next page holds the rows that fit, and the reader is left with the rest.\<close>

lemma tb_getNextPage_law:
  assumes "tb_ready h lis" "length b = PAGE_SZ"
  shows "\<exists>dead h'. tb_getNextPage b h = Inr (lis \<noteq> [], page_of (fit 2 lis) dead, h')
    \<and> wf_page (fit 2 lis) dead \<and> tb_ready h' (tb_next lis)"
proof -
  let ?k = "PAGE_SZ - m_pgBeg h" and ?n = "min (PAGE_SZ - m_pgBeg h) (length (mp_fp h))"
  have h: "length (mp_page h) = PAGE_SZ" "m_pgBeg h \<le> PAGE_SZ" "list_all full_row lis"
    using assms(1) by (auto simp: tb_ready_def)
  obtain page where rdf: "tb_fread h = Inr (?n, h\<lparr>mp_page := page, mp_fp := drop ?k (mp_fp h)\<rparr>)"
    and page: "length page = PAGE_SZ" "take (m_pgBeg h + ?n) page = take (m_pgBeg h) (mp_page h) @ take ?k (mp_fp h)"
    using tb_fread_law [OF h(1,2)] by blast
  show ?thesis
  proof (cases "lis = []")
    case True
    then have "mp_fp h = []" using assms(1) by (simp add: tb_ready_def)
    moreover obtain "tb_header b 0 = Inr (page_of [] (drop 2 b))" "wf_page [] (drop 2 b)"
      using tb_header_page [of b "[]" "drop 2 b"] assms(2) by simp
    ultimately show ?thesis
      using True rdf h page by (auto simp: tb_getNextPage_def tb_ready_def tb_next_def)
  next
    case ne: False
    then have fp: "mp_fp h \<noteq> []" "m_pgBeg h < PAGE_SZ" "take (m_pgBeg h) (mp_page h) @ mp_fp h = tuples_bytes lis"
      using assms(1) by (auto simp: tb_ready_def)
    let ?h = "h\<lparr>mp_page := page, mp_fp := drop ?k (mp_fp h), m_pgEnd := m_pgBeg h + ?n, m_pgIdx := 0\<rparr>"
    let ?l = "\<lparr>tl_buf = b, tl_dst = 2, tl_nTups = 0, tl_beg = 0, tl_end = 0\<rparr>"
    have nz: "?n \<noteq> 0" using fp by simp
    have st: "tb_inv ?h" "tb_rest ?h @ drop ?k (mp_fp h) = tuples_bytes lis"
      "drop ?k (mp_fp h) = [] \<or> m_pgEnd ?h = PAGE_SZ"
      using h(2) page fp(3) by (auto simp: tb_inv_def tb_rest_def)
    have "\<exists>l' h'. tb_tuples ?l ?h = Inr (l', h') \<and> tb_moves ?h h' \<and> length (tl_buf l') = PAGE_SZ
        \<and> tl_nTups l' = tl_nTups ?l + length (fit (tl_dst ?l) lis)
        \<and> (\<exists>dead. drop 2 (tl_buf l') = [] @ tuples_bytes (fit (tl_dst ?l) lis) @ dead)
        \<and> (if left_over (tl_dst ?l) lis = [] then lis \<noteq> [] \<or> tl_end ?l \<noteq> 0 \<longrightarrow> tl_beg l' < tl_end l'
           else tl_beg l' = m_pgIdx ?h + length (tuples_bytes (fit (tl_dst ?l) lis)) \<and> tl_end l' \<le> tl_beg l')"
      by (rule tb_tuples_law [OF st(1) h(3) st(2,3)]) (use assms(2) in \<open>simp_all add: PAGE_SZ_def\<close>)
    then obtain l' h' dead where "tb_tuples ?l ?h = Inr (l', h') \<and> tb_moves ?h h' \<and> length (tl_buf l') = PAGE_SZ
        \<and> tl_nTups l' = tl_nTups ?l + length (fit (tl_dst ?l) lis)
        \<and> drop 2 (tl_buf l') = [] @ tuples_bytes (fit (tl_dst ?l) lis) @ dead
        \<and> (if left_over (tl_dst ?l) lis = [] then lis \<noteq> [] \<or> tl_end ?l \<noteq> 0 \<longrightarrow> tl_beg l' < tl_end l'
           else tl_beg l' = m_pgIdx ?h + length (tuples_bytes (fit (tl_dst ?l) lis)) \<and> tl_end l' \<le> tl_beg l')"
      by blast
    then have r: "tb_tuples ?l ?h = Inr (l', h')" "tb_moves ?h h'" "length (tl_buf l') = PAGE_SZ"
      "tl_nTups l' = length (fit 2 lis)" "drop 2 (tl_buf l') = tuples_bytes (fit 2 lis) @ dead"
      "if left_over 2 lis = [] then tl_beg l' < tl_end l'
       else tl_beg l' = length (tuples_bytes (fit 2 lis)) \<and> tl_end l' \<le> tl_beg l'"
      using ne by (simp_all split: if_splits)
    have hdr: "tb_header (tl_buf l') (tl_nTups l') = Inr (page_of (fit 2 lis) dead)" "wf_page (fit 2 lis) dead"
      using tb_header_page [OF r(3,5)] full_rows_wf [OF fit_full [OF h(3)]] r(4) by simp_all
    have h': "mp_page h' = page" "mp_fp h' = drop ?k (mp_fp h)" using r(2) by (auto simp: tb_moves_def)
    have all: "length (tuples_bytes lis) = m_pgBeg h + length (mp_fp h)"
      using arg_cong [OF fp(3), of length] h(1,2) by simp
    show ?thesis
    proof (cases "tl_end l' \<le> tl_beg l'")
      case False
      then have "left_over 2 lis = []" using r(6) by (auto split: if_splits)
      then have "fit 2 lis = lis" using fit_left_over [of 2 lis] by simp
      then have "2 + length (tuples_bytes lis) < PAGE_SZ" using fit_bound [of 2 lis] by (simp add: PAGE_SZ_def)
      then show ?thesis
        using False ne rdf nz r(1) hdr h' all page(1) by (auto simp: tb_getNextPage_def tb_ready_def tb_next_def)
    next
      case True
      let ?t = "length (tuples_bytes (fit 2 lis))"
      have lo: "left_over 2 lis \<noteq> []" "tl_beg l' = ?t" using True r(6) by (auto split: if_splits)
      then obtain li rest where li: "left_over 2 lis = li # rest" by (cases "left_over 2 lis") auto
      then have "full_row li" using left_over_full [OF h(3), of 2] by simp
      then have "length (enc_tuple li) \<le> 2032" by (simp add: full_row_def row_fields(3))
      then have t: "PAGE_SZ \<le> 2 * ?t" "?t \<le> PAGE_SZ" "0 < ?t"
        using left_over_bound [OF li] fit_bound [of 2 lis] by (auto simp: PAGE_SZ_def)
      let ?page = "drop ?t page @ drop (PAGE_SZ - ?t) page"
      have run: "tb_getNextPage b h = Inr (True, page_of (fit 2 lis) dead, h'\<lparr>mp_page := ?page, m_pgBeg := PAGE_SZ - ?t\<rparr>)"
        using True ne rdf nz r(1) hdr(1) h'(1) lo(2) memcpy_in_front [of page ?t] t page(1)
        by (auto simp: tb_getNextPage_def min_def)
      have "tb_ready (h'\<lparr>mp_page := ?page, m_pgBeg := PAGE_SZ - ?t\<rparr>) (tb_next lis)"
      proof (cases "length (tuples_bytes lis) \<le> PAGE_SZ")
        case True
        then show ?thesis using all h' page(1) t by (simp add: tb_ready_def tb_next_def)
      next
        case False
        then have "page @ mp_fp h' = tuples_bytes lis"
          using page fp(2,3) all h' by simp
        also have "\<dots> = tuples_bytes (fit 2 lis) @ tuples_bytes (left_over 2 lis)"
          by (metis fit_left_over tuples_bytes_simps(3))
        finally have "drop ?t page @ mp_fp h' = tuples_bytes (left_over 2 lis)"
          using t(2) page(1) by (metis append_eq_conv_conj append_eq_append_conv_if drop_append diff_is_0_eq' drop0)
        moreover have "mp_fp h' \<noteq> []" using False all h'(2) h(2) by auto
        moreover have "PAGE_SZ - ?t < PAGE_SZ" using t by linarith
        ultimately show ?thesis
          using False page(1) t(2) lo(1) left_over_full [OF h(3), of 2] by (auto simp: tb_ready_def tb_next_def)
      qed
      with run hdr(2) ne show ?thesis
        by (intro exI [of _ dead] exI [of _ "h'\<lparr>mp_page := ?page, m_pgBeg := PAGE_SZ - ?t\<rparr>"]) simp
    qed
  qed
qed

lemma tb_fill_loop_law:
  assumes "if r then tb_ready h lis else lis = []" "length blk = (i + n) * PAGE_SZ"
  shows "\<exists>r' h' pgs. tb_fill_loop i n r h blk np nt
      = Inr (r', h', take (i * PAGE_SZ) blk @ block_of pgs, np + n, nt + length (rows_of pgs))
    \<and> map fst pgs = tb_pages n lis \<and> list_all (\<lambda>(lis, dead). wf_page lis dead) pgs"
  using assms
proof (induction n arbitrary: i r h lis blk np nt)
  case 0
  then show ?case by (auto simp: block_of_def rows_of_def intro!: exI [of _ "[]"])
next
  case (Suc n)
  let ?b = "take PAGE_SZ (drop (i * PAGE_SZ) blk)"
  have bl: "length ?b = PAGE_SZ" "subarr blk (i * PAGE_SZ) PAGE_SZ = Inr ?b"
    using Suc.prems(2) by (simp_all add: algebra_simps)
  have "\<exists>dead r1 h1. (if r then tb_getNextPage ?b h
         else rbind (tb_getBlankPage ?b) (\<lambda>b. Inr (False, b, h))) = Inr (r1, page_of (fit 2 lis) dead, h1)
      \<and> wf_page (fit 2 lis) dead \<and> (if r1 then tb_ready h1 (tb_next lis) else tb_next lis = [])"
  proof (cases r)
    case True
    then obtain dead h1 where "tb_getNextPage ?b h = Inr (lis \<noteq> [], page_of (fit 2 lis) dead, h1)"
      "wf_page (fit 2 lis) dead" "tb_ready h1 (tb_next lis)"
      using tb_getNextPage_law [OF _ bl(1)] Suc.prems(1) by fastforce
    with True show ?thesis by (auto simp: tb_next_def)
  next
    case False
    then show ?thesis using tb_getBlankPage_law [OF bl(1)] Suc.prems(1) by (auto simp: tb_next_def)
  qed
  then obtain dead r1 h1 where pg: "(if r then tb_getNextPage ?b h
      else rbind (tb_getBlankPage ?b) (\<lambda>b. Inr (False, b, h))) = Inr (r1, page_of (fit 2 lis) dead, h1)"
    "wf_page (fit 2 lis) dead" "if r1 then tb_ready h1 (tb_next lis) else tb_next lis = []" by blast
  let ?p = "page_of (fit 2 lis) dead"
  have p: "length ?p = PAGE_SZ" using pg(2) by (simp add: wf_page_def)
  then have hdr: "rd ?p 0 = Inr (of_nat (length (fit 2 lis) mod 256))" "rd ?p 1 = Inr (of_nat (length (fit 2 lis) div 256))"
    by (simp_all add: PAGE_SZ_def) (simp_all add: page_of_def)
  obtain blk' where blk': "blit blk (i * PAGE_SZ) ?p = Inr blk'" using Suc.prems(2) p by (simp add: blit_def)
  have t: "take (Suc i * PAGE_SZ) blk' = take (i * PAGE_SZ) blk @ ?p" "length blk' = (Suc i + n) * PAGE_SZ"
    using take_blit [OF blk'] blit_length [OF blk'] p Suc.prems(2) by (simp_all add: add.commute)
  obtain r' h' pgs where IH: "tb_fill_loop (Suc i) n r1 h1 blk' (np + 1) (nt + length (fit 2 lis))
      = Inr (r', h', take (Suc i * PAGE_SZ) blk' @ block_of pgs, np + 1 + n, nt + length (fit 2 lis) + length (rows_of pgs))"
    "map fst pgs = tb_pages n (tb_next lis)" "list_all (\<lambda>(lis, dead). wf_page lis dead) pgs"
    using Suc.IH [OF pg(3) t(2)] by blast
  have "tb_fill_loop i (Suc n) r h blk np nt
      = tb_fill_loop (Suc i) n r1 h1 blk' (np + 1) (nt + length (fit 2 lis))"
    using bl(2) pg(1) hdr blk' page_header [OF pg(2)] by simp
  with IH pg(2) t(1) show ?case
    by (intro exI [of _ r'] exI [of _ h'] exI [of _ "(fit 2 lis, dead) # pgs"])
      (simp add: block_of_def rows_of_def)
qed

text \<open>The main program runs the kernel once, on the rows of the first 256 pages.\<close>

definition tb_rows :: "lineitem list \<Rightarrow> lineitem list" where
  "tb_rows lis = concat (tb_pages 256 lis)"

lemma tb_main_law:
  assumes "file tb_dump = Some (tuples_bytes lis)" "list_all full_row lis"
    and "\<forall>b u i t f. length (junk b u i t f) = NMRC_FIELD_SZ"
  shows "tb_main junk file page buf = Some (Inr (0, tb_text
    \<lparr>q6_total = word_of_int (q6_spec (tb_rows lis)), nTotPages = 256, nTotTups = length (tb_rows lis), nBlks = 1\<rparr>))"
proof -
  let ?h = "tb_Host (tuples_bytes lis) page" and ?b = "array_of NUM_BYTES buf"
  have np: "NUM_PAGES = 256" "NUM_BYTES = 256 * PAGE_SZ"
    by (simp_all add: NUM_PAGES_def NUM_WORDS_def NUM_BYTES_def WORDS_PER_PAGE_def k_WORD_SZ_def PAGE_SZ_def)
  have ne: "tuples_bytes lis = [] \<longleftrightarrow> lis = []"
    using tuples_bytes_longer [OF full_rows_wf [OF assms(2)]] by (cases lis) auto
  then have ready: "tb_ready ?h lis" using assms(2) by (simp add: tb_ready_def tb_Host_def PAGE_SZ_def)
  have "length ?b = (0 + 256) * PAGE_SZ" by (simp add: np)
  with ready obtain r' h' pgs where F: "tb_fillBlock ?h ?b 0 0 = Inr (r', h', block_of pgs, 256, length (rows_of pgs))"
    "map fst pgs = tb_pages 256 lis" "list_all (\<lambda>(lis, dead). wf_page lis dead) pgs"
    using tb_fill_loop_law [of True ?h lis ?b 0 256 0 0] by (auto simp: tb_fillBlock_def np)
  have "length (tb_pages n ls) = n" for n ls by (induction n arbitrary: ls) auto
  then have "length pgs = 256" using arg_cong [OF F(2), of length] by simp
  then have wf: "wf_block pgs" using F(3) by (simp add: wf_block_def)
  have rows: "rows_of pgs = tb_rows lis" using F(2) by (simp add: rows_of_def tb_rows_def)
  have "fpga_q6 (junk 0) (words_of NUM_WORDS (block_of pgs)) = Inr (word_of_int (q6_spec (tb_rows lis)))"
    using fpga_q6_law [OF wf, of "junk 0"] assms(3) rows by simp
  then show ?thesis
    using F(1) rows assms(1) by (subst tb_main_def) (simp add: tb_main_loop.simps Let_def nMaxPages_def)
qed

text \<open>Which rows that are: all, unless there are too many or the end of the dump falls on the last bytes of a page.\<close>

lemma tb_next_Nil [simp]: "tb_next [] = []"
  by (simp add: tb_next_def)

lemma tb_pages_Nil: "concat (tb_pages n []) = []"
  by (induction n) simp_all

lemma tb_pages_fit:
  assumes "length (tuples_bytes lis) \<le> PAGE_SZ" "0 < n"
  shows "concat (tb_pages n lis) = fit 2 lis"
proof -
  have "tb_next lis = []" using assms(1) by (simp add: tb_next_def)
  then show ?thesis using tb_pages_Nil assms(2) by (cases n) auto
qed

lemma tb_rows_fit: "length (tuples_bytes lis) \<le> PAGE_SZ \<Longrightarrow> tb_rows lis = fit 2 lis"
  by (simp add: tb_rows_def tb_pages_fit)

lemma tb_pages_prefix: "\<exists>rest. lis = concat (tb_pages n lis) @ rest"
proof (induction n arbitrary: lis)
  case 0
  then show ?case by simp
next
  case (Suc n)
  obtain rest where r: "tb_next lis = concat (tb_pages n (tb_next lis)) @ rest" using Suc.IH by blast
  show ?case
  proof (cases "length (tuples_bytes lis) \<le> PAGE_SZ")
    case True
    then have "concat (tb_pages (Suc n) lis) = fit 2 lis" by (simp only: tb_pages_fit)
    then show ?thesis using fit_left_over [of 2 lis] by metis
  next
    case False
    then have "lis = fit 2 lis @ tb_next lis" using fit_left_over [of 2 lis] by (simp add: tb_next_def)
    then show ?thesis using r by (intro exI [of _ rest]) (metis append.assoc concat.simps(2) tb_pages.simps(2))
  qed
qed

section \<open>What the bench reports\<close>

text \<open>
  C23. On a dump of complete rows without empty fields the bench ends with status 0 and prints the
  query's sum over the rows it has packed. These are the first rows of the dump: the pages are
  filled one after the other, each with as many whole rows as stay below its end. When the
  dump ends before the last two bytes of the first page, no row is left out.
\<close>

theorem test_bench_result:
  assumes "file tb_dump = Some (tuples_bytes lis)" and "list_all full_row lis"
    and "\<forall>b u i t f. length (junk b u i t f) = NMRC_FIELD_SZ"
  shows "\<exists>rows rest. lis = rows @ rest \<and> rows = concat (tb_pages 256 lis)
    \<and> (length (tuples_bytes lis) < PAGE_SZ - 2 \<longrightarrow> rest = [])
    \<and> tb_main junk file page buf = Some (Inr (0, tb_text
        \<lparr>q6_total = word_of_int (q6_spec rows), nTotPages = 256, nTotTups = length rows, nBlks = 1\<rparr>))"
proof -
  obtain rest where r: "lis = tb_rows lis @ rest" using tb_pages_prefix [of lis 256] by (auto simp: tb_rows_def)
  have "rest = []" if "length (tuples_bytes lis) < PAGE_SZ - 2"
    using r that tb_rows_fit [of lis] fit_all [of 2 lis] by (metis add.commute append_self_conv less_diff_conv less_imp_le
      less_le_trans diff_le_self)
  with r tb_main_law [of "file" lis junk page buf, OF assms] show ?thesis
    by (intro exI [of _ "tb_rows lis"] exI [of _ rest]) (simp add: tb_rows_def)
qed

lemma sample_rows_full: "full_row row1" "full_row row2"
  using row1_wf row2_wf
  by (simp_all add: full_row_def) (simp_all add: row2_def row1_def payloads_def enc_snum_def enc_date_def)

theorem test_bench_result_witness:
  "tb_main (\<lambda>_ _ _ _ _. replicate 16 1) (\<lambda>_. Some (tuples_bytes [row1, row2])) [] []
   = Some (Inr (0, tb_text \<lparr>q6_total = 12700938, nTotPages = 256, nTotTups = 2, nBlks = 1\<rparr>))"
proof -
  have q: "q6_spec [row1, row2] = 12700938" using row_values q6_spec_simps(3) [of "[row1]" "[row2]"] by simp
  obtain rows rest where "[row1, row2] = rows @ rest" "rest = []"
    "tb_main (\<lambda>_ _ _ _ _. replicate 16 1) (\<lambda>_. Some (tuples_bytes [row1, row2])) [] []
     = Some (Inr (0, tb_text \<lparr>q6_total = word_of_int (q6_spec rows), nTotPages = 256, nTotTups = length rows, nBlks = 1\<rparr>))"
    using test_bench_result [of "\<lambda>_. Some (tuples_bytes [row1, row2])" "[row1, row2]" "\<lambda>_ _ _ _ _. replicate 16 1"]
      sample_rows_full by (auto simp: NMRC_FIELD_SZ_def row_lengths PAGE_SZ_def)
  moreover from this have "length rows = 2" by (metis append_Nil2 length_Cons list.size(3) numeral_2_eq_2)
  ultimately show ?thesis using q by simp
qed

text \<open>
  C24. A dump whose length falls on one of the last two bytes of the page buffer, or on its end,
  loses its last row: it does not fit into the page, is kept for the next one, and is
  forgotten since no further byte can be read. The bench prints what it prints without it.
\<close>

theorem test_bench_loses_last_row:
  assumes "list_all full_row (lis @ [li])"
    and "PAGE_SZ - 2 \<le> length (tuples_bytes (lis @ [li]))" and "length (tuples_bytes (lis @ [li])) \<le> PAGE_SZ"
    and "\<forall>b u i t f. length (junk b u i t f) = NMRC_FIELD_SZ"
  shows "tb_main junk (\<lambda>_. Some (tuples_bytes (lis @ [li]))) page buf
    = tb_main junk (\<lambda>_. Some (tuples_bytes lis)) page buf"
proof -
  have full: "list_all full_row lis" "full_row li" using assms(1) by auto
  then have n: "8 \<le> length (enc_tuple li)" by (simp add: full_row_def enc_tuple_longer)
  then have lis: "fit 2 lis = lis" using assms(3) by (intro fit_all) (simp add: PAGE_SZ_def)
  have "fit 2 (lis @ [li]) = lis"
  proof -
    have "fit start (ls @ [l]) = ls" if "start + length (tuples_bytes ls) < PAGE_SZ"
      "PAGE_SZ \<le> start + length (tuples_bytes ls) + length (enc_tuple l)" for start ls l
      using that by (induction ls arbitrary: start) (auto simp: add.assoc)
    then show ?thesis using assms(2,3) n by (auto simp: PAGE_SZ_def)
  qed
  with lis have "tb_rows (lis @ [li]) = tb_rows lis"
    using assms(3) by (simp add: tb_rows_fit)
  then show ?thesis
    using tb_main_law [of "\<lambda>_. Some (tuples_bytes (lis @ [li]))", OF refl assms(1,4)]
      tb_main_law [of "\<lambda>_. Some (tuples_bytes lis)", OF refl full(1) assms(4)] by simp
qed

text \<open>Rows of 128 bytes, 64 of which are 8192.\<close>

definition row128 :: lineitem where
  "row128 = row1\<lparr>l_rest := [replicate 4 5, replicate 4 6, [68], [84], replicate 55 101]\<rparr>"

lemma row128_full: "full_row row128" "length (enc_tuple row128) = 128"
proof -
  show "full_row row128"
    by (simp add: full_row_def row128_def row1_def wf_lineitem_def wf_money_def wf_snum_def payloads_def wf_field_def
        attrLens_def upt_conv_Cons enc_snum_def enc_date_def enc_digit_def)
  show "length (enc_tuple row128) = 128" by code_simp
qed

theorem test_bench_loses_last_row_witness:
  "tb_main (\<lambda>_ _ _ _ _. replicate 16 1) (\<lambda>_. Some (tuples_bytes (replicate 63 row128 @ [row128]))) [] []
   = tb_main (\<lambda>_ _ _ _ _. replicate 16 1) (\<lambda>_. Some (tuples_bytes (replicate 63 row128))) [] []"
proof (rule test_bench_loses_last_row)
  have l: "length (tuples_bytes (replicate n row128)) = 128 * n" for n
    by (induction n) (simp_all add: row128_full)
  show "PAGE_SZ - 2 \<le> length (tuples_bytes (replicate 63 row128 @ [row128]))"
    "length (tuples_bytes (replicate 63 row128 @ [row128])) \<le> PAGE_SZ"
    by (simp_all add: l row128_full(2) PAGE_SZ_def)
  show "list_all full_row (replicate 63 row128 @ [row128])" by (simp add: list_all_iff row128_full(1))
qed (simp add: NMRC_FIELD_SZ_def)

text \<open>
  An empty field of variable length looks like the end of the page: the rest of the tuple
  and all that follow are not read.
\<close>

lemma tb_empty_field_ends_page:
  assumes "tb_inv h" "attrLens ! f = -1" "tb_rest h = 3 # r"
  shows "\<exists>h'. tb_fields f (Suc n) h = Inr (True, h')"
proof -
  obtain h' where "tb_getFieldLen f h = Inr (0, h')"
    using tb_getFieldLen_var [OF assms(1,2), of "[]" r] assms(3) by auto
  then show ?thesis using assms(1,3) by (simp add: tb_rest_lt)
qed

end
