(* ===== verification/PG_Tuple.thy ===== *)
theory PG_Tuple
  imports Fill
begin

unbundle bit_operations_syntax

text \<open>
  How PostgreSQL 9.6 itself reads a stored tuple: the headers of variable-length values of
  \<^verbatim>\<open>postgres.h\<close>, the walk over the attributes of \<^verbatim>\<open>access/tupmacs.h\<close>, the columns of the table
  lineitem by the catalog of types, and the fields of the tuple header of \<^verbatim>\<open>access/htup_details.h\<close>
  that say whether a tuple is alive. The programs decode tuples on their own; the lemmas say where
  the macros of the server find the columns. A pointer is a byte list and an index into it.
\<close>

section \<open>Values of variable length\<close>

text \<open>The macros for little-endian machines, on the first byte of the value.\<close>

definition VARATT_IS_4B :: "u8 \<Rightarrow> bool" where "VARATT_IS_4B h \<longleftrightarrow> h AND 0x01 = 0x00"
definition VARATT_IS_4B_U :: "u8 \<Rightarrow> bool" where "VARATT_IS_4B_U h \<longleftrightarrow> h AND 0x03 = 0x00"
definition VARATT_IS_4B_C :: "u8 \<Rightarrow> bool" where "VARATT_IS_4B_C h \<longleftrightarrow> h AND 0x03 = 0x02"
definition VARATT_IS_1B :: "u8 \<Rightarrow> bool" where "VARATT_IS_1B h \<longleftrightarrow> h AND 0x01 = 0x01"
definition VARATT_IS_1B_E :: "u8 \<Rightarrow> bool" where "VARATT_IS_1B_E h \<longleftrightarrow> h = 0x01"
definition VARATT_NOT_PAD_BYTE :: "u8 \<Rightarrow> bool" where "VARATT_NOT_PAD_BYTE h \<longleftrightarrow> h \<noteq> 0"

definition VARSIZE_1B :: "u8 \<Rightarrow> nat" where "VARSIZE_1B h = unat (drop_bit 1 h AND 0x7F)"

definition VARSIZE_4B :: "u8 list \<Rightarrow> nat \<Rightarrow> nat res" where
  "VARSIZE_4B b p = rbind (get32 b p) (\<lambda>w. Inr (unat (drop_bit 2 w AND 0x3FFFFFFF)))"

definition SET_VARSIZE_1B :: "nat \<Rightarrow> u8" where
  "SET_VARSIZE_1B len = push_bit 1 (of_nat len) OR 0x01"

definition VARHDRSZ :: nat where "VARHDRSZ = 4"
definition VARHDRSZ_SHORT :: nat where "VARHDRSZ_SHORT = 1"
definition VARHDRSZ_EXTERNAL :: nat where "VARHDRSZ_EXTERNAL = 2"

definition VARTAG_INDIRECT :: u8 where "VARTAG_INDIRECT = 1"
definition VARTAG_EXPANDED_RO :: u8 where "VARTAG_EXPANDED_RO = 2"
definition VARTAG_ONDISK :: u8 where "VARTAG_ONDISK = 18"

text \<open>
  \<open>TrapMacro\<close> is \<open>true\<close>, the int 1, since assertions are not compiled in. The structs hold a
  pointer, a pointer and four 32-bit values.
\<close>

definition VARTAG_IS_EXPANDED :: "u8 \<Rightarrow> bool" where
  "VARTAG_IS_EXPANDED tag \<longleftrightarrow> tag AND NOT 1 = VARTAG_EXPANDED_RO"

definition VARTAG_SIZE :: "u8 \<Rightarrow> nat" where
  "VARTAG_SIZE tag = (if tag = VARTAG_INDIRECT then 8 else if VARTAG_IS_EXPANDED tag then 8
     else if tag = VARTAG_ONDISK then 16 else 1)"

definition VARSIZE_EXTERNAL :: "u8 list \<Rightarrow> nat \<Rightarrow> nat res" where
  "VARSIZE_EXTERNAL b p = rbind (rd b (p + 1)) (\<lambda>tag. Inr (VARHDRSZ_EXTERNAL + VARTAG_SIZE tag))"

definition VARSIZE_ANY :: "u8 list \<Rightarrow> nat \<Rightarrow> nat res" where
  "VARSIZE_ANY b p = rbind (rd b p) (\<lambda>h. if VARATT_IS_1B_E h then VARSIZE_EXTERNAL b p
     else if VARATT_IS_1B h then Inr (VARSIZE_1B h) else VARSIZE_4B b p)"

definition VARSIZE_ANY_EXHDR :: "u8 list \<Rightarrow> nat \<Rightarrow> nat res" where
  "VARSIZE_ANY_EXHDR b p = rbind (rd b p) (\<lambda>h.
     if VARATT_IS_1B_E h then rbind (VARSIZE_EXTERNAL b p) (\<lambda>n. Inr (n - VARHDRSZ_EXTERNAL))
     else if VARATT_IS_1B h then Inr (VARSIZE_1B h - VARHDRSZ_SHORT)
     else rbind (VARSIZE_4B b p) (\<lambda>n. Inr (n - VARHDRSZ)))"

definition VARDATA_ANY :: "u8 list \<Rightarrow> nat \<Rightarrow> nat res" where
  "VARDATA_ANY b p = rbind (rd b p) (\<lambda>h. Inr (if VARATT_IS_1B h then p + VARHDRSZ_SHORT else p + VARHDRSZ))"

section \<open>Walking over the attributes\<close>

definition SHORTALIGN :: "nat \<Rightarrow> nat" where "SHORTALIGN len = TYPEALIGN 2 len"
definition DOUBLEALIGN :: "nat \<Rightarrow> nat" where "DOUBLEALIGN len = TYPEALIGN 8 len"

definition att_align_nominal :: "nat \<Rightarrow> char \<Rightarrow> nat" where
  "att_align_nominal cur_offset attalign =
     (if attalign = CHR ''i'' then INTALIGN cur_offset else if attalign = CHR ''c'' then cur_offset
      else if attalign = CHR ''d'' then DOUBLEALIGN cur_offset else SHORTALIGN cur_offset)"

definition att_align_pointer :: "nat \<Rightarrow> char \<Rightarrow> int \<Rightarrow> u8 list \<Rightarrow> nat \<Rightarrow> nat res" where
  "att_align_pointer cur_offset attalign attlen b p =
     (if attlen = -1 then rbind (rd b p) (\<lambda>h. Inr (if VARATT_NOT_PAD_BYTE h then cur_offset
        else att_align_nominal cur_offset attalign))
      else Inr (att_align_nominal cur_offset attalign))"

text \<open>Attributes of length -2 are C strings; \<open>strlen\<close> stops at the first zero byte.\<close>

definition att_addlength_pointer :: "nat \<Rightarrow> int \<Rightarrow> u8 list \<Rightarrow> nat \<Rightarrow> nat res" where
  "att_addlength_pointer cur_offset attlen b p =
     (if attlen > 0 then Inr (cur_offset + nat attlen)
      else if attlen = -1 then rbind (VARSIZE_ANY b p) (\<lambda>n. Inr (cur_offset + n))
      else if 0 \<in> set (drop p b) then Inr (cur_offset + (length (takeWhile (\<lambda>c. c \<noteq> 0) (drop p b)) + 1))
      else Inl OutOfBounds)"

definition att_isnull :: "nat \<Rightarrow> u8 list \<Rightarrow> bool res" where
  "att_isnull att bits = rbind (rd bits (att div 8)) (\<lambda>b. Inr (\<not> bit b (att mod 8)))"

text \<open>
  Length and alignment of the types of the columns, from the catalog of types, and the
  columns of lineitem by their types in \<^verbatim>\<open>tb_data/tpch-build-db.sql\<close>.
\<close>

definition typ_int8 :: "int \<times> char" where "typ_int8 = (8, CHR ''d'')"
definition typ_int4 :: "int \<times> char" where "typ_int4 = (4, CHR ''i'')"
definition typ_bpchar :: "int \<times> char" where "typ_bpchar = (-1, CHR ''i'')"
definition typ_varchar :: "int \<times> char" where "typ_varchar = (-1, CHR ''i'')"
definition typ_date :: "int \<times> char" where "typ_date = (4, CHR ''i'')"
definition typ_numeric :: "int \<times> char" where "typ_numeric = (-1, CHR ''i'')"

definition lineitem_atts :: "(int \<times> char) list" where
  "lineitem_atts = [typ_int8, typ_int8, typ_int8, typ_int4, typ_numeric, typ_numeric, typ_numeric, typ_numeric,
     typ_bpchar, typ_bpchar, typ_date, typ_date, typ_date, typ_bpchar, typ_bpchar, typ_varchar]"

subsection \<open>The program reads what the server reads\<close>

lemma unat_ucast_mod: "unat (ucast w :: 'b::len word) = unat w mod 2 ^ LENGTH('b)"
  by (simp add: unsigned_ucast_eq take_bit_eq_mod)

lemma unat_drop_bit: "unat (drop_bit n w) = unat w div 2 ^ n" for w :: "'a::len word"
  unfolding unsigned_drop_bit_eq by (simp add: drop_bit_eq_div take_bit_nat_eq_self)

lemma TYPEALIGN_pow2:
  assumes "len < 2 ^ 31" "k < 8"
  shows "TYPEALIGN (2 ^ k) len = 2 ^ k * ((len + (2 ^ k - 1)) div 2 ^ k)"
proof -
  have "(of_nat (2 ^ k) - 1 :: 64 word) = mask k" by (simp add: mask_eq_exp_minus_1)
  then have "TYPEALIGN (2 ^ k) len = 2 ^ k * (unat (of_nat len + mask k :: 64 word) div 2 ^ k)"
    using and_not_mask_unat [of "of_nat len + mask k :: 64 word" k] by (simp add: TYPEALIGN_def)
  moreover have "of_nat len + mask k = (of_nat (len + (2 ^ k - 1)) :: 64 word)"
  proof -
    have "mask k = (of_nat (2 ^ k - 1) :: 64 word)" by (simp add: mask_eq_exp_minus_1 of_nat_diff)
    then show ?thesis by (simp only: of_nat_add)
  qed
  moreover have "(2 :: nat) ^ k \<le> 2 ^ 7" using assms(2) by (intro power_increasing) auto
  ultimately show ?thesis using assms(1) by (simp add: unat_of_nat del: of_nat_add)
qed

text \<open>The header of a short value, as the programs see it and as the server does.\<close>

lemma VARSIZE_1B_eq: "VARSIZE_1B h = unat (drop_bit 1 h)"
proof -
  have "drop_bit 1 h AND mask 7 = drop_bit 1 h"
    by (intro bit_word_eqI) (auto simp: bit_simps dest: bit_imp_le_length)
  moreover have "(0x7F :: u8) = mask 7" by (simp add: mask_eq_exp_minus_1)
  ultimately show ?thesis by (simp only: VARSIZE_1B_def)
qed

lemma short_value:
  assumes "n \<le> 126"
  shows "SET_VARSIZE_1B (n + 1) = of_nat (2 * (n + 1) + 1)"
    "VARATT_IS_1B (of_nat (2 * (n + 1) + 1))" "\<not> VARATT_IS_1B_E (of_nat (2 * (n + 1) + 1))"
    "VARATT_NOT_PAD_BYTE (of_nat (2 * (n + 1) + 1))" "VARSIZE_1B (of_nat (2 * (n + 1) + 1)) = n + 1"
proof -
  let ?h = "of_nat (2 * (n + 1) + 1) :: u8"
  note s = short_header [OF assms]
  show "VARATT_IS_1B ?h" using s(2) by (simp add: VARATT_IS_1B_def and_one_eq del: of_nat_Suc of_nat_add split: if_splits)
  show "\<not> VARATT_IS_1B_E ?h" using s(1) by (simp only: VARATT_IS_1B_E_def) simp
  show "VARATT_NOT_PAD_BYTE ?h" using s(2) by (auto simp only: VARATT_NOT_PAD_BYTE_def and_zero_eq zero_and_eq)
  show "VARSIZE_1B ?h = n + 1" using s(3) by (simp only: VARSIZE_1B_eq)
  show "SET_VARSIZE_1B (n + 1) = ?h"
  proof -
    have "push_bit 1 w OR 1 = push_bit 1 w + 1" for w :: u8
    proof -
      have "even (push_bit 1 w)" by simp
      then have "push_bit 1 w AND 1 = 0" by (simp only: and_one_eq even_iff_mod_2_eq_zero)
      then show ?thesis by (simp only: disjunctive_add_eq_or)
    qed
    from this [of "of_nat (n + 1)"] have "SET_VARSIZE_1B (n + 1) = push_bit 1 (of_nat (n + 1)) + 1"
      by (simp only: SET_VARSIZE_1B_def)
    then show ?thesis by (simp add: push_bit_eq_mult)
  qed
qed

text \<open>The columns behind the four keys have the server's alignment: dates are aligned, short values are not.\<close>

lemma lineitem_atts_nth:
  assumes "4 \<le> f" "f < nAttr"
  shows "lineitem_atts ! f = (attrLens ! f, CHR ''i'')" "attrLens ! f = -1 \<or> attrLens ! f = 4 \<and> align ! f"
proof -
  have "\<forall>f < 16. 4 \<le> f \<longrightarrow> lineitem_atts ! f = (attrLens ! f, CHR ''i'')
      \<and> (attrLens ! f = -1 \<or> attrLens ! f = 4 \<and> align ! f)"
    by (simp add: lineitem_atts_def attrLens_def align_def typ_int8_def typ_int4_def typ_numeric_def typ_bpchar_def
        typ_varchar_def typ_date_def numeral_nat All_less_Suc)
  then show "lineitem_atts ! f = (attrLens ! f, CHR ''i'')" "attrLens ! f = -1 \<or> attrLens ! f = 4 \<and> align ! f"
    using assms by (auto simp: nAttr_def)
qed

lemma attrLens_pos: "f < nAttr \<Longrightarrow> attrLens ! f \<noteq> -1 \<Longrightarrow> 0 < attrLens ! f"
  by (simp add: nAttr_def attrLens_def less_Suc_eq eval_nat_numeral) auto

lemma lineitem_atts_keys:
  assumes "f < 4"
  shows "fst (lineitem_atts ! f) = attrLens ! f" "0 < attrLens ! f" "\<not> align ! f"
    "att_align_nominal (8 * f) (snd (lineitem_atts ! f)) = 8 * f"
proof -
  have i: "INTALIGN 24 = 24" by (simp add: INTALIGN_eq)
  have d: "DOUBLEALIGN 0 = 0" "DOUBLEALIGN 8 = 8" "DOUBLEALIGN 16 = 16"
    unfolding DOUBLEALIGN_def using TYPEALIGN_pow2 [of 0 3] TYPEALIGN_pow2 [of 8 3] TYPEALIGN_pow2 [of 16 3] by simp_all
  have "\<forall>f < 4. fst (lineitem_atts ! f) = attrLens ! f \<and> 0 < attrLens ! f \<and> \<not> align ! f
      \<and> att_align_nominal (8 * f) (snd (lineitem_atts ! f)) = 8 * f"
    by (simp add: lineitem_atts_def attrLens_def align_def typ_int8_def typ_int4_def numeral_nat All_less_Suc
        att_align_nominal_def i [unfolded numeral_nat] d [unfolded numeral_nat])
  then show "fst (lineitem_atts ! f) = attrLens ! f" "0 < attrLens ! f" "\<not> align ! f"
    "att_align_nominal (8 * f) (snd (lineitem_atts ! f)) = 8 * f"
    using assms by auto
qed

text \<open>
  Where the macros find a column that is stored as the programs expect it: the four keys, the
  first columns of the table, from the start of the user data on, the others anywhere.
\<close>

lemma column_of_field:
  assumes "f < nAttr" "wf_field f p" "tp = pre @ enc_field f (length pre) p @ r" "length pre < 2 ^ 20"
    and "f < 4 \<longrightarrow> length pre = 8 * f" and "lineitem_atts ! f = (attlen, attalign)"
  shows "\<exists>a q. att_align_pointer (length pre) attalign attlen tp (length pre) = Inr a
    \<and> (if attlen = -1 then VARDATA_ANY tp a else Inr a) = Inr q
    \<and> (if attlen = -1 then VARSIZE_ANY_EXHDR tp a else Inr (nat attlen)) = Inr (length p)
    \<and> subarr tp q (length p) = Inr p
    \<and> att_addlength_pointer a attlen tp a = Inr (length pre + length (enc_field f (length pre) p))"
proof -
  have al: "attlen = attrLens ! f"
    using lineitem_atts_keys(1) [of f] lineitem_atts_nth(1) [of f] assms(1,6) by (cases "f < 4") auto
  show ?thesis
  proof (cases "attlen = -1")
    case True
    let ?h = "of_nat (2 * (length p + 1) + 1) :: u8"
    have e: "enc_field f (length pre) p = ?h # p" "length p \<le> 126"
      using True al assms(2) by (simp_all add: enc_field_def wf_field_def)
    have rd: "rd tp (length pre) = Inr ?h" using assms(3) e(1) by (simp add: nth_append del: of_nat_Suc of_nat_add)
    have val: "subarr tp (length pre + 1) (length p) = Inr p" using assms(3) e(1) by (simp add: subarr_def)
    show ?thesis
      using rd val short_value [OF e(2)] True e(1)
      by (simp add: att_align_pointer_def att_addlength_pointer_def VARDATA_ANY_def VARSIZE_ANY_EXHDR_def
          VARSIZE_ANY_def VARHDRSZ_SHORT_def add.assoc del: of_nat_Suc of_nat_add)
  next
    case False
    let ?k = "pad_len f (length pre)"
    have e: "enc_field f (length pre) p = replicate ?k 0 @ p" "attlen = int (length p)" "0 < length p"
      using False al assms(1,2) attrLens_pos [of f] by (auto simp: enc_field_def wf_field_def)
    have "att_align_nominal (length pre) attalign = length pre + ?k"
    proof (cases "f < 4")
      case True
      then show ?thesis using lineitem_atts_keys [OF True] assms(5,6) by (simp add: pad_len_def)
    next
      case f: False
      then have "align ! f" "attalign = CHR ''i''"
        using lineitem_atts_nth [of f] assms(1,6) False al by auto
      then show ?thesis
        using assms(4) INTALIGN_eq [of "length pre"] by (simp add: att_align_nominal_def pad_len_def)
    qed
    moreover have "subarr tp (length pre + ?k) (length p) = Inr p" using assms(3) e(1) by (simp add: subarr_def)
    ultimately show ?thesis
      using False e by (simp add: att_align_pointer_def att_addlength_pointer_def add.assoc)
  qed
qed

section \<open>The header of a stored tuple\<close>

text \<open>
  The struct HeapTupleHeaderData at offset \<open>tup\<close> of a page: \<open>t_xmin\<close>, \<open>t_xmax\<close> and \<open>t_field3\<close> of four
  bytes each, six of \<open>t_ctid\<close>, \<open>t_infomask2\<close>, \<open>t_infomask\<close>, \<open>t_hoff\<close>.
\<close>

definition put16 :: "u8 list \<Rightarrow> nat \<Rightarrow> u16 \<Rightarrow> u8 list res" where
  "put16 page ofs v = rbind (wr page ofs (ucast v)) (\<lambda>page. wr page (ofs + 1) (ucast (drop_bit 8 v)))"

definition put32 :: "u8 list \<Rightarrow> nat \<Rightarrow> u32 \<Rightarrow> u8 list res" where
  "put32 page ofs v = rbind (put16 page ofs (ucast v)) (\<lambda>page. put16 page (ofs + 2) (ucast (drop_bit 16 v)))"

definition HEAP_XMAX_KEYSHR_LOCK :: u16 where "HEAP_XMAX_KEYSHR_LOCK = 0x0010"
definition HEAP_XMAX_EXCL_LOCK :: u16 where "HEAP_XMAX_EXCL_LOCK = 0x0040"
definition HEAP_XMAX_LOCK_ONLY :: u16 where "HEAP_XMAX_LOCK_ONLY = 0x0080"
definition HEAP_XMAX_SHR_LOCK :: u16 where
  "HEAP_XMAX_SHR_LOCK = HEAP_XMAX_EXCL_LOCK OR HEAP_XMAX_KEYSHR_LOCK"
definition HEAP_LOCK_MASK :: u16 where
  "HEAP_LOCK_MASK = HEAP_XMAX_SHR_LOCK OR HEAP_XMAX_EXCL_LOCK OR HEAP_XMAX_KEYSHR_LOCK"
definition HEAP_XMAX_COMMITTED :: u16 where "HEAP_XMAX_COMMITTED = 0x0400"
definition HEAP_XMAX_INVALID :: u16 where "HEAP_XMAX_INVALID = 0x0800"
definition HEAP_XMAX_IS_MULTI :: u16 where "HEAP_XMAX_IS_MULTI = 0x1000"
definition HEAP_XMAX_BITS :: u16 where
  "HEAP_XMAX_BITS = HEAP_XMAX_COMMITTED OR HEAP_XMAX_INVALID OR HEAP_XMAX_IS_MULTI OR HEAP_LOCK_MASK
     OR HEAP_XMAX_LOCK_ONLY"

definition HEAP_XMAX_IS_LOCKED_ONLY :: "u16 \<Rightarrow> bool" where
  "HEAP_XMAX_IS_LOCKED_ONLY infomask \<longleftrightarrow> infomask AND HEAP_XMAX_LOCK_ONLY \<noteq> 0
     \<or> infomask AND (HEAP_XMAX_IS_MULTI OR HEAP_LOCK_MASK) = HEAP_XMAX_EXCL_LOCK"

definition t_infomask :: "u8 list \<Rightarrow> nat \<Rightarrow> u16 res" where
  "t_infomask page tup = rbind (get16 page (tup + 20)) (\<lambda>m. Inr (of_nat m))"

definition set_t_infomask :: "u8 list \<Rightarrow> nat \<Rightarrow> u16 \<Rightarrow> u8 list res" where
  "set_t_infomask page tup m = put16 page (tup + 20) m"

definition HeapTupleHeaderGetRawXmax :: "u8 list \<Rightarrow> nat \<Rightarrow> u32 res" where
  "HeapTupleHeaderGetRawXmax page tup = get32 page (tup + 4)"

definition HeapTupleHeaderSetXmax :: "u8 list \<Rightarrow> nat \<Rightarrow> u32 \<Rightarrow> u8 list res" where
  "HeapTupleHeaderSetXmax page tup xid = put32 page (tup + 4) xid"

text \<open>
  The hint of a page that it is worth pruning; \<open>precedes\<close> is \<open>TransactionIdPrecedes\<close>, a function of
  the server.
\<close>

definition InvalidTransactionId :: u32 where "InvalidTransactionId = 0"
definition TransactionIdIsValid :: "u32 \<Rightarrow> bool" where
  "TransactionIdIsValid xid \<longleftrightarrow> xid \<noteq> InvalidTransactionId"

definition PageSetPrunable :: "(u32 \<Rightarrow> u32 \<Rightarrow> bool) \<Rightarrow> u8 list \<Rightarrow> u32 \<Rightarrow> u8 list res" where
  "PageSetPrunable precedes page xid = rbind (pd_prune_xid page) (\<lambda>old.
     if \<not> TransactionIdIsValid old \<or> precedes xid old then put32 page 20 xid else Inr page)"

definition PageClearPrunable :: "u8 list \<Rightarrow> u8 list res" where
  "PageClearPrunable page = put32 page 20 InvalidTransactionId"

text \<open>Assignment through the pointer that \<open>PageGetItemId\<close> returns.\<close>

definition set_item_id :: "u8 list \<Rightarrow> nat \<Rightarrow> ItemIdData \<Rightarrow> u8 list res" where
  "set_item_id page offsetNumber iid =
     put32 page (SizeOfPageHeaderData + sizeof_ItemIdData * offsetNumber - sizeof_ItemIdData) iid"

lemma get16_put16:
  assumes "put16 page ofs v = Inr page'"
  shows "get16 page' ofs = Inr (unat v)"
proof -
  have p: "ofs + 1 < length page" "page' = page[ofs := ucast v, ofs + 1 := ucast (drop_bit 8 v)]"
    using assms by (auto simp: put16_def wr_def rbind_eq_Inr split: if_splits)
  have "le16 (ucast v) (ucast (drop_bit 8 v)) = unat v"
  proof -
    have "unat v < 65536" using unsigned_less [of v] by simp
    moreover have "unat (drop_bit 8 v) = unat v div 256" by (simp only: unat_drop_bit) simp
    ultimately have "unat (ucast (drop_bit 8 v) :: u8) = unat v div 256" by (simp only: unat_ucast_mod) simp
    then show ?thesis by (simp only: le16_def unat_ucast_mod) simp
  qed
  then show ?thesis using p by (simp add: get16_def)
qed

text \<open>Which bytes an assignment leaves alone.\<close>

definition same_but :: "nat set \<Rightarrow> u8 list \<Rightarrow> u8 list \<Rightarrow> bool" where
  "same_but M page page' \<longleftrightarrow> length page' = length page \<and> (\<forall>i. i \<notin> M \<longrightarrow> page' ! i = page ! i)"

lemma same_but_trans: "same_but M p1 p2 \<Longrightarrow> same_but N p2 p3 \<Longrightarrow> same_but (M \<union> N) p1 p3"
  by (simp add: same_but_def)

lemma same_but_rd: "same_but M page page' \<Longrightarrow> i \<notin> M \<Longrightarrow> rd page' i = rd page i"
  by (simp add: same_but_def rd_def)

lemma same_but_get16: "same_but M page page' \<Longrightarrow> {ofs, ofs + 1} \<inter> M = {} \<Longrightarrow> get16 page' ofs = get16 page ofs"
  by (simp add: get16_def same_but_rd)

lemma same_but_get32:
  assumes "same_but M page page'" "{ofs, ofs + 1, ofs + 2, ofs + 3} \<inter> M = {}"
  shows "get32 page' ofs = get32 page ofs"
proof -
  have "get16 page' ofs = get16 page ofs" by (rule same_but_get16 [OF assms(1)]) (use assms(2) in auto)
  moreover have "get16 page' (ofs + 2) = get16 page (ofs + 2)"
    by (rule same_but_get16 [OF assms(1)]) (use assms(2) in \<open>auto simp: eval_nat_numeral\<close>)
  ultimately show ?thesis by (simp only: get32_def)
qed

lemma put16_ok:
  assumes "ofs + 1 < length page"
  shows "\<exists>page'. put16 page ofs v = Inr page' \<and> same_but {ofs, ofs + 1} page page'"
  using assms by (simp add: put16_def same_but_def)

lemma put32_ok:
  assumes "ofs + 3 < length page"
  shows "\<exists>page'. put32 page ofs v = Inr page' \<and> same_but {ofs, ofs + 1, ofs + 2, ofs + 3} page page'
    \<and> get32 page' ofs = Inr v"
proof -
  obtain p1 where p1: "put16 page ofs (ucast v) = Inr p1" "same_but {ofs, ofs + 1} page p1"
    using put16_ok [of ofs page "ucast v"] assms by auto
  then have "length p1 = length page" by (simp add: same_but_def)
  then obtain p2 where p2: "put16 p1 (ofs + 2) (ucast (drop_bit 16 v)) = Inr p2" "same_but {ofs + 2, ofs + 2 + 1} p1 p2"
    using put16_ok [of "ofs + 2" p1 "ucast (drop_bit 16 v)"] assms by auto
  have "get16 p2 ofs = get16 p1 ofs" by (rule same_but_get16 [OF p2(2)]) auto
  then have "get32 p2 ofs = Inr (of_nat (unat (ucast v :: u16) + 65536 * unat (ucast (drop_bit 16 v) :: u16)))"
    using get16_put16 [OF p1(1)] get16_put16 [OF p2(1)] by (simp add: get32_def)
  moreover have "unat (ucast v :: u16) + 65536 * unat (ucast (drop_bit 16 v) :: u16) = unat v"
  proof -
    have "unat v < 4294967296" using unsigned_less [of v] by simp
    moreover have "unat (drop_bit 16 v) = unat v div 65536" by (simp only: unat_drop_bit) simp
    ultimately have "unat (ucast (drop_bit 16 v) :: u16) = unat v div 65536" by (simp only: unat_ucast_mod) simp
    then show ?thesis by (simp only: unat_ucast_mod) simp
  qed
  ultimately have "get32 p2 ofs = Inr v" by simp
  moreover have "same_but {ofs, ofs + 1, ofs + 2, ofs + 3} page p2"
    using same_but_trans [OF p1(2) p2(2)] by (simp add: eval_nat_numeral insert_commute)
  ultimately show ?thesis using p1(1) p2(1) by (simp add: put32_def)
qed

text \<open>The bytes of a header that say who has deleted the tuple.\<close>

definition xmax_bytes :: "nat \<Rightarrow> nat set" where
  "xmax_bytes tup = {tup + 4, tup + 5, tup + 6, tup + 7, tup + 20, tup + 21}"

lemma deleted_mask:
  "((m AND NOT HEAP_XMAX_BITS) OR HEAP_XMAX_COMMITTED) AND HEAP_XMAX_COMMITTED \<noteq> 0"
  "((m AND NOT HEAP_XMAX_BITS) OR HEAP_XMAX_COMMITTED) AND HEAP_XMAX_INVALID = 0"
  "\<not> HEAP_XMAX_IS_LOCKED_ONLY ((m AND NOT HEAP_XMAX_BITS) OR HEAP_XMAX_COMMITTED)"
  by (simp_all add: HEAP_XMAX_BITS_def HEAP_XMAX_COMMITTED_def HEAP_XMAX_INVALID_def HEAP_XMAX_IS_MULTI_def
      HEAP_LOCK_MASK_def HEAP_XMAX_SHR_LOCK_def HEAP_XMAX_EXCL_LOCK_def HEAP_XMAX_KEYSHR_LOCK_def
      HEAP_XMAX_LOCK_ONLY_def HEAP_XMAX_IS_LOCKED_ONLY_def bit.conj_disj_distrib2 and.assoc)

definition prune_bytes :: "nat set" where "prune_bytes = {20, 21, 22, 23}"

text \<open>
  The assignments that mark a tuple as deleted by a transaction that has committed: the prune hint
  of the page, the deleting transaction in the tuple header, and the flag that it has committed in
  place of all other flags of the deletion.
\<close>

lemma deletion_marks:
  assumes "tup + 23 \<le> length page" "24 \<le> tup" "xid \<noteq> 0" "pd_prune_xid page = Inr 0"
  shows "\<exists>p1 p2 m page'. PageSetPrunable precedes page xid = Inr p1 \<and> HeapTupleHeaderSetXmax p1 tup xid = Inr p2
    \<and> t_infomask p2 tup = Inr m
    \<and> set_t_infomask p2 tup ((m AND NOT HEAP_XMAX_BITS) OR HEAP_XMAX_COMMITTED) = Inr page'
    \<and> HeapTupleHeaderGetRawXmax page' tup = Inr xid
    \<and> t_infomask page' tup = Inr ((m AND NOT HEAP_XMAX_BITS) OR HEAP_XMAX_COMMITTED)
    \<and> pd_prune_xid page' = Inr xid \<and> same_but (prune_bytes \<union> xmax_bytes tup) page page'"
proof -
  obtain p0 where p0: "put32 page 20 xid = Inr p0" "get32 p0 20 = Inr xid" "same_but prune_bytes page p0"
    using put32_ok [of 20 page xid] assms(1,2) by (auto simp: prune_bytes_def)
  then have l0: "length p0 = length page" by (simp add: same_but_def)
  obtain p1 where p1: "put32 p0 (tup + 4) xid = Inr p1" "get32 p1 (tup + 4) = Inr xid"
    "same_but {tup + 4, tup + 4 + 1, tup + 4 + 2, tup + 4 + 3} p0 p1"
    using put32_ok [of "tup + 4" p0 xid] assms(1) l0 by auto
  then have l: "length p1 = length page" using l0 by (simp add: same_but_def)
  then obtain m where m: "t_infomask p1 tup = Inr m" using assms(1) by (simp add: t_infomask_def get16_def)
  let ?m = "(m AND NOT HEAP_XMAX_BITS) OR HEAP_XMAX_COMMITTED"
  obtain p2 where p2: "put16 p1 (tup + 20) ?m = Inr p2" "same_but {tup + 20, tup + 20 + 1} p1 p2"
    using put16_ok [of "tup + 20" p1 ?m] l assms(1) by auto
  have "get32 p2 (tup + 4) = get32 p1 (tup + 4)" by (rule same_but_get32 [OF p2(2)]) auto
  moreover have "t_infomask p2 tup = Inr ?m" using get16_put16 [OF p2(1)] by (simp add: t_infomask_def)
  moreover have x: "same_but (xmax_bytes tup) p0 p2"
    using same_but_trans [OF p1(3) p2(2)] by (simp add: xmax_bytes_def insert_commute add.commute)
  moreover have "get32 p2 20 = get32 p0 20"
    by (rule same_but_get32 [OF x]) (use assms(2) in \<open>auto simp: xmax_bytes_def\<close>)
  ultimately show ?thesis
    using p0 p1(1,2) p2(1) m assms(3,4) same_but_trans [OF p0(3) x]
    by (simp add: HeapTupleHeaderSetXmax_def HeapTupleHeaderGetRawXmax_def
        set_t_infomask_def PageSetPrunable_def TransactionIdIsValid_def InvalidTransactionId_def pd_prune_xid_def)
qed

end
