(* ===== verification/Short_Items.thy ===== *)
theory Short_Items
  imports Run_SW "HOL-Library.Product_Lexorder"
begin

text \<open>
  Items shorter than their tuple header. The scan of xql6 takes every line pointer for a stored
  tuple; where an item is shorter than the header it seems to have, the length of the user data
  is negative and reaches \<open>memcpy\<close> as a huge \<open>size_t\<close>. The lemmas follow the run up to the first
  such line pointer: it packs and sums the rows before it, and then fails.
\<close>

section \<open>A relation with a short item\<close>

definition short_item :: "u8 list \<Rightarrow> nat \<Rightarrow> bool" where
  "short_item page lin = (case PageGetItemId page lin of Inl _ \<Rightarrow> False | Inr iid \<Rightarrow>
     (case t_hoff page (ItemIdGetOffset iid) of Inl _ \<Rightarrow> True | Inr hoff \<Rightarrow> ItemIdGetLength iid < hoff))"

text \<open>
  Line pointer \<open>i\<close> of block \<open>b\<close> is the first short one; \<open>tupss\<close> are the user data of the tuples, of
  which those from line pointer \<open>i\<close> of block \<open>b\<close> on are not looked at.
\<close>

definition first_short :: "(nat \<Rightarrow> u8 list) \<Rightarrow> u8 list list list \<Rightarrow> nat \<Rightarrow> nat \<Rightarrow> bool" where
  "first_short bufPage tupss b i \<longleftrightarrow> b < length tupss \<and> i \<le> length (tupss ! b)
     \<and> list_all (\<lambda>c. heap_page (bufPage c) (tupss ! c)) [0..<b]
     \<and> PageGetMaxOffsetNumber (bufPage b) = Inr (length (tupss ! b))
     \<and> list_all (\<lambda>j. item_data (bufPage b) j (([] # tupss ! b) ! j)) [0..<i]
     \<and> short_item (bufPage b) i"

text \<open>
  A position of the scan, a block and a line, is not past the short item. Positions are pairs in
  lexicographic order.
\<close>

definition not_past :: "nat \<Rightarrow> nat \<Rightarrow> nat \<Rightarrow> nat \<Rightarrow> bool" where
  "not_past b i blk lin \<longleftrightarrow> blk < b \<or> blk = b \<and> lin \<le> i"

lemma lines_loop_append:
  "lines_loop page (m + n) lin l = rbind (lines_loop page m lin l) (\<lambda>(bF, lin', l').
     if bF then Inr (bF, lin', l') else lines_loop page n lin' l')"
proof (induction m arbitrary: lin l)
  case (Suc m)
  then show ?case by (simp add: Let_def rbind_assoc rbind_def split: sum.split)
qed simp

lemma rd_error: "rd xs i = Inl e \<Longrightarrow> e = OutOfBounds"
  by (auto simp: rd_def split: if_splits)

lemma lines_loop_short:
  assumes "short_item page i" "fl_dst l \<le> XQL_PAGE_SZ"
  shows "lines_loop page (Suc n) i l = Inl OutOfBounds"
proof -
  obtain iid where iid: "PageGetItemId page i = Inr iid"
    using assms(1) by (auto simp: short_item_def split: sum.splits)
  consider e where "t_hoff page (ItemIdGetOffset iid) = Inl e"
    | hoff where "t_hoff page (ItemIdGetOffset iid) = Inr hoff" "ItemIdGetLength iid < hoff"
    using assms(1) iid by (auto simp: short_item_def split: sum.splits)
  then show ?thesis
  proof cases
    case (1 e)
    then have "e = OutOfBounds" by (auto simp: t_hoff_def rbind_eq_Inl dest: rd_error)
    with 1 iid show ?thesis by (simp add: PageGetItem_def Let_def)
  next
    case (2 hoff)
    with iid assms(2) show ?thesis by (simp add: PageGetItem_def Let_def)
  qed
qed

text \<open>A place where the scan stops: the tuple there is longer than the rest of the page.\<close>

definition stops :: "u8 list list list \<Rightarrow> nat \<Rightarrow> nat \<Rightarrow> fill_loc \<Rightarrow> bool" where
  "stops tupss blk lin l \<longleftrightarrow> lin \<le> length (tupss ! blk) \<and> 2 < fl_dst l"

lemma item_data_short: "item_data page lin d \<Longrightarrow> length d < XQL_PAGE_SZ - 2"
  by (erule item_dataE)

lemma first_shortD:
  assumes "first_short bufPage tupss b i"
  shows "b < length tupss" "i \<le> length (tupss ! b)" "PageGetMaxOffsetNumber (bufPage b) = Inr (length (tupss ! b))"
    "short_item (bufPage b) i"
    "c < b \<Longrightarrow> PageGetMaxOffsetNumber (bufPage c) = Inr (length (tupss ! c))"
    "c < b \<Longrightarrow> j \<le> length (tupss ! c) \<Longrightarrow> item_data (bufPage c) j (([] # tupss ! c) ! j)"
    "j < i \<Longrightarrow> item_data (bufPage b) j (([] # tupss ! b) ! j)"
  using assms by (auto simp: first_short_def list_all_iff heap_page_def nth_Cons split: nat.splits)

text \<open>The lines of one block, from line \<open>lin\<close> on.\<close>

lemma block_lines:
  assumes fs: "first_short bufPage tupss b i" and np: "not_past b i blk lin"
    and lin: "lin \<le> Suc (length (tupss ! blk))" and l: "loc_ok l ts"
  obtains (crash) "blk = b" "lines_loop (bufPage blk) (length (tupss ! blk) + 1 - lin) lin l = Inl OutOfBounds"
    | (stop) k l' where "lines_loop (bufPage blk) (length (tupss ! blk) + 1 - lin) lin l = Inr (True, lin + k, l')"
        "loc_ok l' (ts @ live (take k (drop lin ([] # tupss ! blk))))" "not_past b i blk (lin + k)"
        "stops tupss blk (lin + k) l'"
    | (through) lin' l' where "blk < b"
        "lines_loop (bufPage blk) (length (tupss ! blk) + 1 - lin) lin l = Inr (False, lin', l')"
        "loc_ok l' (ts @ live (drop lin ([] # tupss ! blk)))"
proof -
  let ?m = "if blk = b then i else Suc (length (tupss ! blk))"
  let ?ds = "drop lin (take ?m ([] # tupss ! blk))" and ?page = "bufPage blk"
  have blk: "blk < b \<or> blk = b" and lm: "lin \<le> ?m" and m: "?m \<le> Suc (length (tupss ! blk))"
    using np lin first_shortD(2) [OF fs] by (auto simp: not_past_def)
  have len: "length ?ds = ?m - lin" using m by simp
  have items: "\<forall>j < length ?ds. item_data ?page (lin + j) (?ds ! j)"
  proof (intro allI impI)
    fix j assume "j < length ?ds"
    then have "lin + j < ?m" using len lm by linarith
    then show "item_data ?page (lin + j) (?ds ! j)"
      using blk m first_shortD(6,7) [OF fs] by (auto split: if_splits)
  qed
  obtain bF k l' where R: "lines_loop ?page (length ?ds) lin l = Inr (bF, lin + k, l')"
    "loc_ok l' (ts @ live (take k ?ds))" "k \<le> length ?ds"
    "if bF then k < length ?ds \<and> ?ds ! k \<noteq> [] \<and> XQL_PAGE_SZ \<le> fl_dst l' + length (?ds ! k) else k = length ?ds"
    using lines_loop_law [OF items l] by blast
  have tk: "take k ?ds = take k (drop lin ([] # tupss ! blk))"
    using R(3) len by (simp add: drop_take min_absorb1)
  have run: "lines_loop ?page (length (tupss ! blk) + 1 - lin) lin l
      = (if bF then Inr (bF, lin + k, l') else lines_loop ?page (Suc (length (tupss ! blk)) - ?m) (lin + k) l')"
  proof -
    have "length (tupss ! blk) + 1 - lin = length ?ds + (Suc (length (tupss ! blk)) - ?m)"
      using len lm m by linarith
    then show ?thesis using R(1) by (simp only: lines_loop_append) simp
  qed
  show ?thesis
  proof (cases bF)
    case True
    then have k: "k < length ?ds" "XQL_PAGE_SZ \<le> fl_dst l' + length (?ds ! k)" using R(4) by auto
    have "length (?ds ! k) < XQL_PAGE_SZ - 2" using items k(1) by (intro item_data_short) blast
    then have "stops tupss blk (lin + k) l'"
      using k m len by (simp add: stops_def XQL_PAGE_SZ_def)
    moreover have "not_past b i blk (lin + k)" using blk k(1) len by (auto simp: not_past_def split: if_splits)
    ultimately show ?thesis using stop [of k l'] run R(2) tk True by simp
  next
    case False
    then have k: "lin + k = ?m" using R(4) len lm by simp
    show ?thesis
    proof (cases "blk = b")
      case True
      have "fl_dst l' \<le> XQL_PAGE_SZ" using R(2) by (simp add: loc_ok_def)
      from lines_loop_short [OF first_shortD(4) [OF fs] this] have "lines_loop ?page (Suc (length (tupss ! b)) - i) i l' = Inl OutOfBounds"
        using True first_shortD(2) [OF fs] by (simp add: Suc_diff_le del: lines_loop.simps)
      then show ?thesis using crash True run False k by (simp del: lines_loop.simps)
    next
      case nb: False
      then have "take k ?ds = drop lin ([] # tupss ! blk)" using k R(4) False by simp
      then show ?thesis using through [of "lin + k" l'] nb blk run False R(2) k by simp
    qed
  qed
qed

text \<open>
  The scan over the blocks from a position not past the short item either fails or stops before
  the short item, with tuples of the relation in the page and the position moved on.
\<close>

lemma live_set: "set (live ds) \<subseteq> set ds"
  by (auto simp: live_def)

lemma stored_tuples:
  assumes "blk < length tupss"
  shows "set (live (take k (drop lin ([] # tupss ! blk)))) \<subseteq> set (live (concat tupss))"
proof
  fix d assume "d \<in> set (live (take k (drop lin ([] # tupss ! blk))))"
  then have "d \<in> set (take k (drop lin ([] # tupss ! blk)))" "d \<noteq> []" by (auto simp: live_def)
  then have "d \<in> set ([] # tupss ! blk)" "d \<noteq> []" using in_set_takeD in_set_dropD by fastforce+
  then show "d \<in> set (live (concat tupss))" using assms by (auto simp: live_def)
qed

lemma short_blocks_loop:
  assumes fs: "first_short bufPage tupss b i" and "blk + n = length tupss"
    and "not_past b i blk lin" "lin \<le> Suc (length (tupss ! blk))" "loc_ok l ts"
  obtains (crash) "blocks_loop bufPage n blk lin lin0 l tr = Inl OutOfBounds"
    | (stop) blk' lin' l' ts' tr' where "blocks_loop bufPage n blk lin lin0 l tr = Inr (blk', lin', l', tr')"
        "loc_ok l' (ts @ ts')" "set ts' \<subseteq> set (live (concat tupss))" "not_past b i blk' lin'"
        "stops tupss blk' lin' l'" "(blk, lin) < (blk', lin') \<or> (blk', lin') = (blk, lin) \<and> ts' = []"
  using assms(2-5)
proof (induction n arbitrary: blk lin lin0 l ts tr thesis)
  case 0
  then show ?case using first_shortD(1) [OF fs] by (auto simp: not_past_def)
next
  case (Suc n)
  have lt: "blk < length tupss" using Suc.prems(3) by simp
  have max: "PageGetMaxOffsetNumber (bufPage blk) = Inr (length (tupss ! blk))"
    using first_shortD(3,5) [OF fs] Suc.prems(4) by (auto simp: not_past_def)
  show ?case
  proof (rule block_lines [OF fs Suc.prems(4-6)])
    assume "lines_loop (bufPage blk) (length (tupss ! blk) + 1 - lin) lin l = Inl OutOfBounds"
    then show ?thesis using Suc.prems(1) max by simp
  next
    fix k l'
    assume S: "lines_loop (bufPage blk) (length (tupss ! blk) + 1 - lin) lin l = Inr (True, lin + k, l')"
      "loc_ok l' (ts @ live (take k (drop lin ([] # tupss ! blk))))" "not_past b i blk (lin + k)"
      "stops tupss blk (lin + k) l'"
    show ?thesis
    proof (rule Suc.prems(2) [OF _ S(2) stored_tuples [OF lt] S(3,4)])
      show "blocks_loop bufPage (Suc n) blk lin lin0 l tr = Inr (blk, lin + k, l',
          (tr @ [ReadBuffer blk, LockShare blk]) @ [Unlock blk, Release blk])"
        using S(1) max by (simp add: Let_def)
    qed (cases k; simp add: less_prod_def)
  next
    fix lin' l'
    assume T: "blk < b" "lines_loop (bufPage blk) (length (tupss ! blk) + 1 - lin) lin l = Inr (False, lin', l')"
      "loc_ok l' (ts @ live (drop lin ([] # tupss ! blk)))"
    let ?tr = "(tr @ [ReadBuffer blk, LockShare blk]) @ [Unlock blk, Release blk]"
    have run: "blocks_loop bufPage (Suc n) blk lin lin0 l tr = blocks_loop bufPage n (Suc blk) 0 lin' l' ?tr"
      using T(2) max by (simp add: Let_def)
    show ?thesis
    proof (rule Suc.IH [where blk = "Suc blk" and lin = 0 and l = l' and ts = "ts @ live (drop lin ([] # tupss ! blk))"
          and tr = ?tr and ?lin0.0 = lin'])
      assume "blocks_loop bufPage n (Suc blk) 0 lin' l' ?tr = Inl OutOfBounds"
      with run show ?thesis using Suc.prems(1) by simp
    next
      fix blk2 lin2 l2 ts2 tr2
      assume I: "blocks_loop bufPage n (Suc blk) 0 lin' l' ?tr = Inr (blk2, lin2, l2, tr2)"
        "loc_ok l2 ((ts @ live (drop lin ([] # tupss ! blk))) @ ts2)" "set ts2 \<subseteq> set (live (concat tupss))"
        "not_past b i blk2 lin2" "stops tupss blk2 lin2 l2"
        "(Suc blk, 0) < (blk2, lin2) \<or> (blk2, lin2) = (Suc blk, 0) \<and> ts2 = []"
      show ?thesis
      proof (rule Suc.prems(2))
        show "loc_ok l2 (ts @ (live (drop lin ([] # tupss ! blk)) @ ts2))" using I(2) by simp
        show "set (live (drop lin ([] # tupss ! blk)) @ ts2) \<subseteq> set (live (concat tupss))"
          using I(3) stored_tuples [OF lt, of "Suc (length (tupss ! blk))" lin] by simp
        show "(blk, lin) < (blk2, lin2) \<or> (blk2, lin2) = (blk, lin) \<and> live (drop lin ([] # tupss ! blk)) @ ts2 = []"
          using I(6) by (auto simp: less_prod_def)
      qed (use run I in simp_all)
    qed (use Suc.prems T in \<open>auto simp: not_past_def\<close>)
  qed
qed

text \<open>The state of the scan between two pages.\<close>

definition scan_at :: "u8 list list list \<Rightarrow> nat \<Rightarrow> nat \<Rightarrow> Xql6FillState \<Rightarrow> bool" where
  "scan_at tupss b i st \<longleftrightarrow> fs_nBlks st = length tupss \<and> not_past b i (fs_blkNum st) (fs_linNum st)
     \<and> fs_linNum st \<le> Suc (length (tupss ! fs_blkNum st))"

definition scan_pos :: "Xql6FillState \<Rightarrow> nat \<times> nat" where
  "scan_pos st = (fs_blkNum st, fs_linNum st)"

lemma short_GetNextPage:
  assumes fs: "first_short bufPage tupss b i" and st: "scan_at tupss b i st" and "length pg = XQL_PAGE_SZ"
  obtains (crash) "xql6GetNextPage bufPage lin0 pg st = Inl OutOfBounds"
    | (page) ts dead st' tr where "xql6GetNextPage bufPage lin0 pg st = Inr (length ts, packed ts dead, st', tr)"
        "length (packed ts dead) = XQL_PAGE_SZ" "ts \<noteq> []" "set ts \<subseteq> set (live (concat tupss))"
        "scan_at tupss b i st'" "scan_pos st < scan_pos st'"
proof -
  let ?l0 = "\<lparr>fl_buf = pg, fl_dst = 2, fl_nTups = 0\<rparr>"
  have l0: "loc_ok ?l0 []" using assms(3) by (simp add: loc_ok_def XQL_PAGE_SZ_def)
  have n: "fs_blkNum st + (fs_nBlks st - fs_blkNum st) = length tupss"
    using st first_shortD(1) [OF fs] by (auto simp: scan_at_def not_past_def)
  have np: "not_past b i (fs_blkNum st) (fs_linNum st)" "fs_linNum st \<le> Suc (length (tupss ! fs_blkNum st))"
    using st by (auto simp: scan_at_def)
  show ?thesis
  proof (rule short_blocks_loop [OF fs n np l0, of lin0 "[]"])
    assume "blocks_loop bufPage (fs_nBlks st - fs_blkNum st) (fs_blkNum st) (fs_linNum st) lin0 ?l0 [] = Inl OutOfBounds"
    then show ?thesis using crash by (simp add: xql6GetNextPage_def)
  next
    fix blk' lin' l' ts' tr'
    assume S: "blocks_loop bufPage (fs_nBlks st - fs_blkNum st) (fs_blkNum st) (fs_linNum st) lin0 ?l0 []
        = Inr (blk', lin', l', tr')" "loc_ok l' ([] @ ts')" "set ts' \<subseteq> set (live (concat tupss))"
      "not_past b i blk' lin'" "stops tupss blk' lin' l'"
      "(fs_blkNum st, fs_linNum st) < (blk', lin') \<or> (blk', lin') = (fs_blkNum st, fs_linNum st) \<and> ts' = []"
    have l': "loc_ok l' ts'" using S(2) by simp
    then have n: "fl_nTups l' = length ts'" and "fl_dst l' = 2 + length (concat ts')" by (auto simp: loc_ok_def)
    then have ne: "ts' \<noteq> []" using S(5) by (auto simp: stops_def)
    obtain dead where dead: "length (packed ts' dead) = XQL_PAGE_SZ"
      "rbind (wr (fl_buf l') 0 (of_nat (fl_nTups l' mod 256))) (\<lambda>b0. wr b0 1 (of_nat (fl_nTups l' div 256 mod 256)))
        = Inr (packed ts' dead)"
      using loc_ok_packed [OF l'] by blast
    show ?thesis
    proof (rule page [OF _ dead(1) ne S(3)])
      show "xql6GetNextPage bufPage lin0 pg st
        = Inr (length ts', packed ts' dead, st\<lparr>fs_blkNum := blk', fs_linNum := lin'\<rparr>, tr')"
        using S(1) dead(2) by (simp add: xql6GetNextPage_def Let_def n rbind_assoc [symmetric])
    qed (use S(4-6) ne st in \<open>auto simp: scan_at_def scan_pos_def stops_def\<close>)
  qed
qed

lemma short_fill_loop:
  assumes fs: "first_short bufPage tupss b i"
    and "scan_at tupss b i st" "length blk = (pgNum + n) * XQL_PAGE_SZ"
  obtains (crash) "fill_loop (\<lambda>_. bufPage) lin0 pgNum n bR blk nTups st tr = Inl OutOfBounds"
    | (pages) pgs st' tr' where "fill_loop (\<lambda>_. bufPage) lin0 pgNum n bR blk nTups st tr
          = Inr (n \<noteq> 0 \<or> bR, take (pgNum * XQL_PAGE_SZ) blk @ packed_pages pgs,
              nTups + length (concat (map fst pgs)), st', tr')"
        "length pgs = n" "list_all (\<lambda>(ts, dead). length (packed ts dead) = XQL_PAGE_SZ) pgs"
        "set (concat (map fst pgs)) \<subseteq> set (live (concat tupss))" "scan_at tupss b i st'"
        "n = 0 \<and> st' = st \<or> scan_pos st < scan_pos st'"
  using assms(2,3)
proof (induction n arbitrary: pgNum bR blk nTups st tr thesis)
  case 0
  show ?case by (rule 0(2) [of "[]" st tr]) (use 0(3,4) in \<open>simp_all add: packed_pages_def\<close>)
next
  case (Suc n)
  let ?p = "take XQL_PAGE_SZ (drop (pgNum * XQL_PAGE_SZ) blk)"
  have len: "pgNum * XQL_PAGE_SZ + XQL_PAGE_SZ + n * XQL_PAGE_SZ = length blk"
    using Suc.prems(4) by (simp add: algebra_simps)
  then have p: "length ?p = XQL_PAGE_SZ" by simp
  show ?case
  proof (rule short_GetNextPage [OF fs Suc.prems(3) p, of "lin0 pgNum"])
    assume "xql6GetNextPage bufPage (lin0 pgNum) ?p st = Inl OutOfBounds"
    then show ?thesis using Suc.prems(1) p len by simp
  next
    fix ts dead st1 tr1
    assume pg: "xql6GetNextPage bufPage (lin0 pgNum) ?p st = Inr (length ts, packed ts dead, st1, tr1)"
      "length (packed ts dead) = XQL_PAGE_SZ" "ts \<noteq> []" "set ts \<subseteq> set (live (concat tupss))"
      "scan_at tupss b i st1" "scan_pos st < scan_pos st1"
    let ?blk = "take (pgNum * XQL_PAGE_SZ) blk @ packed ts dead @ drop (pgNum * XQL_PAGE_SZ + XQL_PAGE_SZ) blk"
    have bl: "blit blk (pgNum * XQL_PAGE_SZ) (packed ts dead) = Inr ?blk"
      using blit_in [of "pgNum * XQL_PAGE_SZ" "packed ts dead" blk] pg(2) len by simp
    have len1: "length ?blk = (Suc pgNum + n) * XQL_PAGE_SZ"
      using pg(2) len by (simp add: algebra_simps)
    have run: "fill_loop (\<lambda>_. bufPage) lin0 pgNum (Suc n) bR blk nTups st tr
        = fill_loop (\<lambda>_. bufPage) lin0 (Suc pgNum) n True ?blk (nTups + length ts) st1 (tr @ tr1)"
      using p pg(1,3) bl len by simp
    show ?thesis
    proof (rule Suc.IH [where pgNum = "Suc pgNum" and blk = ?blk and st = st1 and bR = True
          and nTups = "nTups + length ts" and tr = "tr @ tr1", OF _ _ pg(5) len1])
      assume "fill_loop (\<lambda>_. bufPage) lin0 (Suc pgNum) n True ?blk (nTups + length ts) st1 (tr @ tr1) = Inl OutOfBounds"
      with run show ?thesis using Suc.prems(1) by simp
    next
      fix pgs st' tr'
      assume I: "fill_loop (\<lambda>_. bufPage) lin0 (Suc pgNum) n True ?blk (nTups + length ts) st1 (tr @ tr1)
          = Inr (n \<noteq> 0 \<or> True, take (Suc pgNum * XQL_PAGE_SZ) ?blk @ packed_pages pgs,
              nTups + length ts + length (concat (map fst pgs)), st', tr')"
        "length pgs = n" "list_all (\<lambda>(ts, dead). length (packed ts dead) = XQL_PAGE_SZ) pgs"
        "set (concat (map fst pgs)) \<subseteq> set (live (concat tupss))" "scan_at tupss b i st'"
        "n = 0 \<and> st' = st1 \<or> scan_pos st1 < scan_pos st'"
      have tk: "take (Suc pgNum * XQL_PAGE_SZ) ?blk = take (pgNum * XQL_PAGE_SZ) blk @ packed ts dead"
        using pg(2) len by simp
      show ?thesis
        by (rule Suc.prems(2) [of "(ts, dead) # pgs" st' tr'])
          (use run I pg tk in \<open>auto simp: packed_pages_def simp del: fill_loop.simps dest: less_trans\<close>)
    qed
  qed
qed

section \<open>The software run fails\<close>

lemma rows_of_tuples:
  assumes "set ts \<subseteq> enc_tuple ` set lis" "list_all wf_lineitem lis"
  obtains ls where "ts = map enc_tuple ls" "list_all wf_lineitem ls"
proof -
  have "\<forall>d \<in> set ts. \<exists>li. d = enc_tuple li \<and> wf_lineitem li" using assms by (auto simp: list_all_iff)
  then have "\<exists>ls. ts = map enc_tuple ls \<and> list_all wf_lineitem ls"
    by (induction ts) (simp, metis list.set_intros list.simps(9) list.pred_inject(2))
  then show ?thesis using that by blast
qed

lemma short_FillBlock:
  assumes "first_short bufPage tupss b i" "scan_at tupss b i st" "length blk = XQL6_BLK_SZ" "table tupss lis"
  obtains (crash) "xql6FillBlock (\<lambda>_. bufPage) lin0 blk nTups st = Inl OutOfBounds"
    | (block) pgs nTups' st' tr where "xql6FillBlock (\<lambda>_. bufPage) lin0 blk nTups st = Inr (True, block_of pgs, nTups', st', tr)"
        "wf_block pgs" "scan_at tupss b i st'" "scan_pos st < scan_pos st'"
proof -
  have sz: "length blk = (0 + XQL6_PAGES_PER_BLK) * XQL_PAGE_SZ" and nz: "XQL6_PAGES_PER_BLK = 256"
    using assms(3) by (simp_all add: XQL6_BLK_SZ_def XQL6_PAGES_PER_BLK_def XQL_PAGE_SZ_def)
  show ?thesis
  proof (rule short_fill_loop [OF assms(1,2) sz, of lin0 True nTups "[]"])
    assume "fill_loop (\<lambda>_. bufPage) lin0 0 XQL6_PAGES_PER_BLK True blk nTups st [] = Inl OutOfBounds"
    then show ?thesis using crash by (simp add: xql6FillBlock_def)
  next
    fix pgs st' tr'
    assume F: "fill_loop (\<lambda>_. bufPage) lin0 0 XQL6_PAGES_PER_BLK True blk nTups st []
        = Inr (XQL6_PAGES_PER_BLK \<noteq> 0 \<or> True, take (0 * XQL_PAGE_SZ) blk @ packed_pages pgs,
            nTups + length (concat (map fst pgs)), st', tr')"
      "length pgs = XQL6_PAGES_PER_BLK" "list_all (\<lambda>(ts, dead). length (packed ts dead) = XQL_PAGE_SZ) pgs"
      "set (concat (map fst pgs)) \<subseteq> set (live (concat tupss))" "scan_at tupss b i st'"
      "XQL6_PAGES_PER_BLK = 0 \<and> st' = st \<or> scan_pos st < scan_pos st'"
    have "set (concat (map fst pgs)) \<subseteq> enc_tuple ` set lis" "list_all wf_lineitem lis"
      using F(4) assms(4) by (simp_all add: table_def)
    then obtain ls where ls: "concat (map fst pgs) = map enc_tuple ls" "list_all wf_lineitem ls"
      by (rule rows_of_tuples)
    obtain lpgs lis' where L: "length lpgs = length pgs" "packed_pages pgs = block_of lpgs"
      "list_all (\<lambda>(l, dead). wf_page l dead) lpgs"
      using split_pages [OF _ F(3) ls(2), of "[]"] ls(1) by auto
    show ?thesis
      by (rule block [of lpgs "nTups + length (concat (map fst pgs))" st' tr'])
        (use F L nz in \<open>auto simp: xql6FillBlock_def wf_block_def\<close>)
  qed
qed

lemma short_run_sw_loop:
  assumes fs: "first_short bufPage tupss b i" and "table tupss lis"
    and "\<forall>k i. length (junk k i) = FIELD_SZ"
    and "scan_at tupss b i st" "length blk = XQL6_BLK_SZ" "length (p_word s) = WORD_SZ"
  shows "run_sw_loop (\<lambda>_ _. bufPage) lin0 junk blk nFB q6_sum nTups st s tr = Some (Inl OutOfBounds)"
  using assms(4-6)
proof (induction "(b - fs_blkNum st, Suc (length (tupss ! fs_blkNum st)) - fs_linNum st)"
    arbitrary: blk nFB q6_sum nTups st s tr rule: wf_induct_rule [OF wf_lex_prod [OF wf_less_than wf_less_than]])
  case 1
  show ?case
  proof (rule short_FillBlock [OF fs 1(2,3) assms(2), of "lin0 nFB" nTups])
    assume "xql6FillBlock (\<lambda>_. bufPage) (lin0 nFB) blk nTups st = Inl OutOfBounds"
    then show ?thesis by (subst run_sw_loop.simps) simp
  next
    fix pgs nTups' st' tr'
    assume F: "xql6FillBlock (\<lambda>_. bufPage) (lin0 nFB) blk nTups st = Inr (True, block_of pgs, nTups', st', tr')"
      "wf_block pgs" "scan_at tupss b i st'" "scan_pos st < scan_pos st'"
    obtain s' where s': "q6_swemu (junk nFB) (block_of pgs) s = Inr (word_of_int (q6_spec (rows_of pgs)), s')"
      "length (p_word s') = WORD_SZ"
      using q6_swemu_law_word [OF F(2) _ 1(4)] assms(3) by blast
    have "((b - fs_blkNum st', Suc (length (tupss ! fs_blkNum st')) - fs_linNum st'),
        (b - fs_blkNum st, Suc (length (tupss ! fs_blkNum st)) - fs_linNum st)) \<in> less_than <*lex*> less_than"
      using F(3,4) 1(2)
      by (cases "fs_blkNum st = fs_blkNum st'") (auto simp: less_prod_def scan_pos_def scan_at_def not_past_def)
    from 1(1) [OF this F(3) block_of_length [OF F(2)] s'(2)] show ?thesis
      using F(1) s'(1) by (subst run_sw_loop.simps) simp
  qed
qed

lemma short_item_run_sw:
  assumes "first_short bufPage tupss b i" and "table tupss lis"
    and "\<forall>k i. length (junk k i) = FIELD_SZ" "length blk = XQL6_BLK_SZ" "length (p_word s) = WORD_SZ"
  shows "xql6_run_sw (\<lambda>_ _. bufPage) (length tupss) lin0 junk blk us s = Some (Inl OutOfBounds)"
proof -
  have "scan_at tupss b i \<lparr>fs_blkNum = 0, fs_nBlks = length tupss, fs_linNum = 0\<rparr>"
    by (auto simp: scan_at_def not_past_def)
  from short_run_sw_loop [OF assms(1-3) this assms(4,5)] show ?thesis by (simp add: xql6_run_sw_def)
qed

end
