(* ===== verification/Server_View.thy ===== *)
theory Server_View
  imports PG_Tuple Kernel Short_Items Samples
begin

text \<open>
  The program against the server: its parsers take from a tuple the columns that the macros of the
  server find there as long as the values are short, and only then; it counts the tuples the server takes for deleted or fails on the hint they leave in the page,
  and it fails on line pointers without storage.
\<close>

section \<open>Columns where the server finds them\<close>

lemma att_align_i: "ofs < 2 ^ 20 \<Longrightarrow> att_align_nominal ofs (CHR ''i'') = 4 * ((ofs + 3) div 4)"
  by (simp add: att_align_nominal_def INTALIGN_eq)

text \<open>Column \<open>f\<close> as the parsers see it at offset \<open>ofs\<close>: a short value or one behind padding, \<open>n\<close> bytes from \<open>q\<close> on.\<close>

definition column_bytes :: "nat \<Rightarrow> u8 list \<Rightarrow> nat \<Rightarrow> nat \<Rightarrow> nat \<Rightarrow> bool" where
  "column_bytes f tp ofs q n \<longleftrightarrow>
     (attrLens ! f = -1 \<and> q = ofs + 1 \<and> drop ofs tp = tp ! ofs # drop q tp \<and> odd (tp ! ofs) \<and> tp ! ofs \<noteq> 1
           \<and> n = unat (drop_bit 1 (tp ! ofs)) - 1 \<and> 0 < unat (drop_bit 1 (tp ! ofs)))
         \<or> (attrLens ! f = int n \<and> drop ofs tp = take (q - ofs) (drop ofs tp) @ drop q tp \<and> ofs \<le> q \<and> q \<le> length tp
           \<and> q = (if align ! f then 4 * ((ofs + 3) div 4) else ofs))"

text \<open>
  What the macros give for a column at offset \<open>ofs\<close> of the user data \<open>tp\<close>: it begins at \<open>a\<close>, its bytes
  are the \<open>n\<close> from \<open>q\<close> on, and the next column is looked for at \<open>e\<close>. A value of variable length
  has a one-byte header and is not the pointer to a value stored elsewhere; a key lies where it
  has its alignment.
\<close>

lemma column_cases:
  assumes "f < nAttr" "lineitem_atts ! f = (attlen, attalign)" "ofs < 2 ^ 20"
    and "f < 4 \<longrightarrow> att_align_nominal ofs attalign = ofs"
    and "attlen = -1 \<longrightarrow> ofs < length tp \<and> VARATT_IS_1B (tp ! ofs) \<and> \<not> VARATT_IS_1B_E (tp ! ofs)"
    and "att_align_pointer ofs attalign attlen tp ofs = Inr a"
    and "(if attlen = -1 then VARDATA_ANY tp a else Inr a) = Inr q"
    and "(if attlen = -1 then VARSIZE_ANY_EXHDR tp a else Inr (nat attlen)) = Inr n"
    and "att_addlength_pointer a attlen tp a = Inr e" "e \<le> length tp"
  shows "e = q + n" "n < 256"
    and "column_bytes f tp ofs q n"
proof -
  have al: "attlen = attrLens ! f"
    using lineitem_atts_keys(1) [of f] lineitem_atts_nth(1) [of f] assms(1,2) by (cases "f < 4") auto
  have "e = q + n \<and> n < 256 \<and> column_bytes f tp ofs q n"
  proof (cases "attlen = -1")
    case True
    let ?h = "tp ! ofs"
    have h: "ofs < length tp" "VARATT_IS_1B ?h" "\<not> VARATT_IS_1B_E ?h" using assms(5) True by auto
    have rd: "rd tp ofs = Inr ?h" using h(1) by (simp add: rd_def)
    have "?h \<noteq> 0" using h(2) by (auto simp: VARATT_IS_1B_def)
    then have a: "a = ofs" using assms(6) True rd by (simp add: att_align_pointer_def VARATT_NOT_PAD_BYTE_def)
    have one: "odd ?h" "?h \<noteq> 1" using h(2,3) by (auto simp: VARATT_IS_1B_def VARATT_IS_1B_E_def and_one_eq mod2_eq_if)
    have "unat ?h \<noteq> 0" "unat ?h \<noteq> 1" using \<open>?h \<noteq> 0\<close> one(2) by (auto simp: word_unat_eq_iff)
    moreover have "unat (drop_bit 1 ?h) = unat ?h div 2" by (simp only: unat_drop_bit) simp
    ultimately have k: "0 < unat (drop_bit 1 ?h)" by simp
    have lt: "unat (drop_bit 1 ?h) < 256" using unsigned_less [of "drop_bit 1 ?h"] by simp
    have v: "q = ofs + 1" "n = unat (drop_bit 1 ?h) - 1" "e = ofs + unat (drop_bit 1 ?h)"
      using assms(7-9) True h rd by (simp_all add: a VARDATA_ANY_def VARSIZE_ANY_EXHDR_def VARSIZE_ANY_def
          att_addlength_pointer_def VARSIZE_1B_eq VARHDRSZ_SHORT_def)
    moreover have "drop ofs tp = ?h # drop (ofs + 1) tp" using h(1) by (simp add: Cons_nth_drop_Suc)
    moreover have "unat (drop_bit 1 ?h) - 1 < 256" using lt by linarith
    ultimately show ?thesis using k one True al by (simp add: column_bytes_def)
  next
    case False
    have pos: "0 < attlen" "attlen < 256" using attrLens_small [OF assms(1)] False al by auto
    have q: "q = a" "n = nat attlen" "e = a + n" "a = att_align_nominal ofs attalign"
      using assms(6-9) False pos by (simp_all add: att_align_pointer_def att_addlength_pointer_def)
    have "a = (if align ! f then 4 * ((ofs + 3) div 4) else ofs)"
    proof (cases "f < 4")
      case True
      then show ?thesis using assms(4) lineitem_atts_keys(3) [OF True] q(4) by simp
    next
      case f: False
      then have "align ! f" "attalign = CHR ''i''" using lineitem_atts_nth [of f] assms(1,2) False al by auto
      then show ?thesis using q(4) assms(3) by (simp add: att_align_i)
    qed
    moreover from this have "ofs \<le> a" by (simp split: if_splits)
    moreover from this have "drop ofs tp = take (a - ofs) (drop ofs tp) @ drop a tp"
      by (metis append_take_drop_id drop_drop le_add_diff_inverse2)
    moreover have "nat attlen < 256" using pos by linarith
    ultimately show ?thesis using q pos al assms(10) unfolding column_bytes_def by auto
  qed
  then show "e = q + n" "n < 256" "column_bytes f tp ofs q n" by blast+
qed

lemma column_swemu:
  assumes "e = q + n" "rdr_inv s" "off s = ofs" "unread s = drop ofs tp" "ofs < 2 ^ 20" "e \<le> length tp"
    and "column_bytes f tp ofs q n"
  shows "\<exists>s1. getFieldLen f s = Inr (n, s1) \<and> rdr_inv s1 \<and> off s1 = q \<and> unread s1 = drop q tp"
  using assms(7) unfolding column_bytes_def
proof (elim disjE conjE)
  assume v: "attrLens ! f = -1" "q = ofs + 1" "drop ofs tp = tp ! ofs # drop q tp" "odd (tp ! ofs)" "tp ! ofs \<noteq> 1"
    "n = unat (drop_bit 1 (tp ! ofs)) - 1"
  obtain s1 where "getByte s = Inr (Some (tp ! ofs), s1)" "rdr_inv s1" "unread s1 = drop q tp" "off s1 = off s + 1"
    using getByte_some [OF assms(2), of "tp ! ofs" "drop q tp"] assms(4) v(3) by auto
  moreover have "tp ! ofs AND 1 \<noteq> 0" using v(4) by (simp add: and_one_eq mod2_eq_if)
  ultimately show ?thesis using v assms(3) by (simp add: getFieldLen_def)
next
  assume v: "attrLens ! f = int n" "drop ofs tp = take (q - ofs) (drop ofs tp) @ drop q tp" "ofs \<le> q" "q \<le> length tp"
    "q = (if align ! f then 4 * ((ofs + 3) div 4) else ofs)"
  have l: "length (take (q - ofs) (drop ofs tp)) = q - ofs" using v(3,4) by simp
  obtain s1 where s1: "align_loop (q - ofs) s = Inr (True, s1)" "rdr_inv s1" "unread s1 = drop q tp" "off s1 = q"
    using align_loop_law [of s "take (q - ofs) (drop ofs tp)" "drop q tp"] assms(2-4) v(2,3) l by auto
  have ia: "INTALIGN ofs = 4 * ((ofs + 3) div 4)" using assms(5) by (simp add: INTALIGN_eq)
  show ?thesis
  proof (cases "align ! f \<and> q \<noteq> ofs")
    case True
    then have "align ! f" "INTALIGN (off s) \<noteq> off s" "INTALIGN (off s) - off s = q - ofs"
      using v(5) ia assms(3) by (auto split: if_splits)
    then show ?thesis using s1 v(1) by (simp add: getFieldLen_def Let_def)
  next
    case False
    then show ?thesis using v(1,5) ia assms(2-4) by (auto simp: getFieldLen_def Let_def)
  qed
qed

lemma column_kernel:
  assumes "e = q + n" "k_inv s" "t_off s = ofs" "t_strm s = drop ofs tp" "ofs < 2 ^ 20" "e \<le> length tp"
    and "column_bytes f tp ofs q n"
  shows "\<exists>s1. k_getFieldLen f s = Inr (of_nat n, s1) \<and> k_inv s1 \<and> t_off s1 = q \<and> t_strm s1 = drop q tp"
  using assms(7) unfolding column_bytes_def
proof (elim disjE conjE)
  let ?k = "unat (drop_bit 1 (tp ! ofs))"
  assume v: "attrLens ! f = -1" "q = ofs + 1" "drop ofs tp = tp ! ofs # drop q tp" "odd (tp ! ofs)"
    "n = ?k - 1" "0 < ?k"
  obtain s1 where "k_getByte s = Inr (tp ! ofs, s1)" "k_inv s1" "t_strm s1 = drop q tp" "t_off s1 = t_off s"
    using k_getByte_law [OF assms(2), of "tp ! ofs" "drop q tp"] assms(4) v(3) by auto
  moreover have "tp ! ofs AND 1 \<noteq> 0" using v(4) by (simp add: and_one_eq mod2_eq_if)
  moreover have "(ucast (drop_bit 1 (tp ! ofs)) :: u32) - 1 = of_nat n"
  proof -
    have "(ucast (drop_bit 1 (tp ! ofs)) :: u32) = of_nat ?k" by (metis of_nat_unat)
    then show ?thesis using v(5,6) by (simp add: of_nat_diff)
  qed
  ultimately show ?thesis using v(1,2) assms(3) by (simp add: k_getFieldLen_def Let_def k_inv_def)
next
  assume v: "attrLens ! f = int n" "drop ofs tp = take (q - ofs) (drop ofs tp) @ drop q tp" "ofs \<le> q" "q \<le> length tp"
    "q = (if align ! f then 4 * ((ofs + 3) div 4) else ofs)"
  have l: "length (take (q - ofs) (drop ofs tp)) = q - ofs" using v(3,4) by simp
  obtain s1 where s1: "k_align_loop (q - ofs) s = Inr s1" "k_inv s1" "t_strm s1 = drop q tp" "t_off s1 = q"
    using k_align_loop_law [of s "take (q - ofs) (drop ofs tp)" "drop q tp"] assms(2-4) v(2,3) l by auto
  have ia: "k_INTALIGN ofs = 4 * ((ofs + 3) div 4)" using assms(5) by (simp add: k_INTALIGN_eq)
  show ?thesis
  proof (cases "align ! f \<and> q \<noteq> ofs")
    case True
    then have "align ! f" "k_INTALIGN (t_off s) \<noteq> t_off s" "k_INTALIGN (t_off s) - t_off s = q - ofs"
      using v(5) ia assms(3) by (auto split: if_splits)
    then show ?thesis using s1 v(1) by (simp add: k_getFieldLen_def Let_def)
  next
    case False
    then show ?thesis using v(1,5) ia assms(2-4) by (auto simp: k_getFieldLen_def Let_def)
  qed
qed

text \<open>
  C17. On the way over a tuple both parsers agree with the macros of the server, whatever bytes
  the tuple has. Let them stand at offset \<open>ofs\<close> of the user data \<open>tp\<close> before column \<open>f\<close> of lineitem, let the macros
  align that column to \<open>a\<close>, find its value as the \<open>n\<close> bytes from \<open>q\<close> on and the next column at \<open>e\<close>, all
  inside \<open>tp\<close> and the first megabyte, and let a value of variable length have the short header and not be a pointer to a value
  stored elsewhere. (The four keys, which the
  parsers do not align, are where their alignment wants them: they come first.) Then both return the length \<open>n\<close>,
  skip to \<open>e\<close>, and into a buffer that holds the value they deliver exactly the server's bytes of it and are at \<open>e\<close> as well.
\<close>

theorem column_vs_server:
  assumes "f < nAttr" and "lineitem_atts ! f = (attlen, attalign)" and "ofs < 2 ^ 20"
    and "f < 4 \<longrightarrow> att_align_nominal ofs attalign = ofs"
    and "attlen = -1 \<longrightarrow> ofs < length tp \<and> VARATT_IS_1B (tp ! ofs) \<and> \<not> VARATT_IS_1B_E (tp ! ofs)"
    and "att_align_pointer ofs attalign attlen tp ofs = Inr a"
    and "(if attlen = -1 then VARDATA_ANY tp a else Inr a) = Inr q"
    and "(if attlen = -1 then VARSIZE_ANY_EXHDR tp a else Inr (nat attlen)) = Inr n"
    and "att_addlength_pointer a attlen tp a = Inr e" and "e \<le> length tp"
    and "rdr_inv s" and "off s = ofs" and "unread s = drop ofs tp"
    and "k_inv ks" and "t_off ks = ofs" and "t_strm ks = drop ofs tp"
    and "subarr tp q n = Inr val" and "n \<le> length fData"
  shows "(\<exists>s1 s2 s3. getFieldLen f s = Inr (n, s1)
      \<and> skipBytes n s1 = Inr s2 \<and> off s2 = e \<and> unread s2 = drop e tp
      \<and> getField n fData s1 = Inr (True, val @ drop n fData, s3) \<and> off s3 = e \<and> unread s3 = drop e tp)
    \<and> (\<exists>s1 s2 s3. k_getFieldLen f ks = Inr (of_nat n, s1)
      \<and> k_skipBytes n s1 = Inr s2 \<and> t_off s2 = e \<and> t_strm s2 = drop e tp
      \<and> k_getField fData n s1 = Inr (val @ drop n fData, s3) \<and> t_off s3 = e \<and> t_strm s3 = drop e tp)"
proof
  note c = column_cases [OF assms(1-10)]
  have v: "val = take n (drop q tp)" "length val = n"
    using assms(17) by (auto simp: subarr_def split: if_splits)
  have split: "drop q tp = val @ drop e tp"
    unfolding v(1) c(1) by (metis append_take_drop_id drop_drop add.commute)
  obtain s1 where s1: "getFieldLen f s = Inr (n, s1)" "rdr_inv s1" "off s1 = q" "unread s1 = val @ drop e tp"
    using column_swemu [OF c(1) assms(11-13,3,10) c(3)] unfolding split by blast
  from sw.skip_law [OF s1(2,4)] getField_loop_law [OF s1(2,4), of 0 fData] s1(1,3) v(2) assms(18) c(1)
  show "\<exists>s1 s2 s3. getFieldLen f s = Inr (n, s1)
      \<and> skipBytes n s1 = Inr s2 \<and> off s2 = e \<and> unread s2 = drop e tp
      \<and> getField n fData s1 = Inr (True, val @ drop n fData, s3) \<and> off s3 = e \<and> unread s3 = drop e tp"
    by (fastforce simp: getField_def)
  obtain k1 where k1: "k_getFieldLen f ks = Inr (of_nat n, k1)" "k_inv k1" "t_off k1 = q" "t_strm k1 = val @ drop e tp"
    using column_kernel [OF c(1) assms(14-16,3,10) c(3)] unfolding split by blast
  from kp.skip_law [OF k1(2,4)] kp.get_field_law [OF k1(2,4), of fData] k1(1,3) v(2) assms(18) c(1)
  show "\<exists>s1 s2 s3. k_getFieldLen f ks = Inr (of_nat n, s1)
      \<and> k_skipBytes n s1 = Inr s2 \<and> t_off s2 = e \<and> t_strm s2 = drop e tp
      \<and> k_getField fData n s1 = Inr (val @ drop n fData, s3) \<and> t_off s3 = e \<and> t_strm s3 = drop e tp"
    by (fastforce simp: k_get_def)
qed

text \<open>A page of short values: column 4 at offset 0, the date in column 10 behind three bytes of padding.\<close>

definition reader_on :: "nat \<Rightarrow> u8 list \<Rightarrow> rdr" where
  "reader_on n tp = \<lparr>off = n, woff = n, woffMax = 8, p_buf = tp, bufIdx = 8, p_word = take 8 tp\<rparr>"

definition short_page :: "u8 list" where
  "short_page = [7, 65, 66, 5, 67, 255, 255, 255, 1, 2, 3, 4] @ replicate 8180 0"

theorem column_vs_server_witness:
  "(\<exists>s1 s3. getFieldLen 4 (reader_on 0 short_page) = Inr (2, s1)
      \<and> getField 2 (replicate 16 9) s1 = Inr (True, [65, 66] @ replicate 14 9, s3) \<and> off s3 = 3)
   \<and> (\<exists>s1 s3. k_getFieldLen 10 \<lparr>t_off = 5, pgOff = 5, t_strm = drop 5 short_page\<rparr> = Inr (4, s1)
      \<and> k_getField (replicate 16 9) 4 s1 = Inr ([1, 2, 3, 4] @ replicate 12 9, s3) \<and> t_off s3 = 12)"
proof -
  let ?k = "\<lambda>n. \<lparr>t_off = n, pgOff = n, t_strm = drop n short_page\<rparr>"
  have len: "length short_page = 8192" by (simp add: short_page_def)
  have r: "rdr_inv (reader_on n short_page)" "unread (reader_on n short_page) = drop n short_page"
    "off (reader_on n short_page) = n" "k_inv (?k n)" if "n \<le> 8" for n
    using that len by (simp_all add: rdr_inv_def unread_def reader_on_def PAGE_SZ_def WORD_SZ_def k_inv_def)
  have at: "lineitem_atts ! 4 = (-1, CHR ''i'')" "lineitem_atts ! 10 = (4, CHR ''i'')" "4 < nAttr" "10 < nAttr"
    by (simp_all add: lineitem_atts_def typ_numeric_def typ_date_def nAttr_def)
  have h: "VARATT_IS_1B 7" "\<not> VARATT_IS_1B_E 7" "VARSIZE_1B 7 = 3" "VARATT_NOT_PAD_BYTE 7"
    by (simp_all add: VARATT_IS_1B_def VARATT_IS_1B_E_def VARATT_NOT_PAD_BYTE_def VARSIZE_1B_eq)
  have b: "rd short_page 0 = Inr 7" "short_page ! 0 = 7" "subarr short_page 1 2 = Inr [65, 66]"
    "subarr short_page 8 4 = Inr [1, 2, 3, 4]"
    by (simp_all add: short_page_def rd_def subarr_def)
  have m4: "att_align_pointer 0 (CHR ''i'') (-1) short_page 0 = Inr 0" "VARDATA_ANY short_page 0 = Inr 1"
    "VARSIZE_ANY_EXHDR short_page 0 = Inr 2" "att_addlength_pointer 0 (-1) short_page 0 = Inr 3"
    using h b by (simp_all add: att_align_pointer_def VARDATA_ANY_def VARSIZE_ANY_EXHDR_def VARSIZE_ANY_def
        att_addlength_pointer_def VARHDRSZ_SHORT_def)
  have m10: "att_align_pointer 5 (CHR ''i'') 4 short_page 5 = Inr 8" "att_addlength_pointer 8 4 short_page 8 = Inr 12"
    by (simp_all add: att_align_pointer_def att_addlength_pointer_def att_align_i)
  note c4 = column_vs_server [OF at(3,1), where ofs = 0 and tp = short_page and a = 0 and q = 1 and n = 2 and e = 3
      and s = "reader_on 0 short_page" and ks = "?k 0" and val = "[65, 66]" and fData = "replicate 16 9"]
  note c10 = column_vs_server [OF at(4,2), where ofs = 5 and tp = short_page and a = 8 and q = 8 and n = 4 and e = 12
      and s = "reader_on 5 short_page" and ks = "?k 5" and val = "[1, 2, 3, 4]" and fData = "replicate 16 9"]
  have w4: "\<exists>s1 s3. getFieldLen 4 (reader_on 0 short_page) = Inr (2, s1)
      \<and> getField 2 (replicate 16 9) s1 = Inr (True, [65, 66] @ drop 2 (replicate 16 9), s3) \<and> off s3 = 3"
    using c4 [THEN conjunct1] h b m4 r(1-3) [of 0] r(4) [of 0] len by auto
  have w10: "\<exists>s1 s3. k_getFieldLen 10 (?k 5) = Inr (of_nat 4, s1)
      \<and> k_getField (replicate 16 9) 4 s1 = Inr ([1, 2, 3, 4] @ drop 4 (replicate 16 9), s3) \<and> t_off s3 = 12"
    using c10 [THEN conjunct2] b m10 r(1-3) [of 5] r(4) [of 5] len by auto
  show ?thesis using w4 w10 by simp
qed

section \<open>Lengths of fields\<close>

lemma field_length_law:
  assumes "f < nAttr" and "attrLens ! f = -1"
    and "rdr_inv s" and "unread s = ch # r" and "t_strm ks = ch # r"
  shows "if VARATT_IS_1B_E ch then getFieldLen f s = Inl NoReturnValue
        \<and> (\<exists>ks'. k_getFieldLen f ks = Inr (- 1, ks'))
      else if VARATT_IS_1B ch then \<exists>n s' ks'. VARSIZE_ANY_EXHDR (ch # r) 0 = Inr n
        \<and> getFieldLen f s = Inr (n, s') \<and> k_getFieldLen f ks = Inr (of_nat n, ks')
        \<and> unread s' = r \<and> t_strm ks' = r
      else getFieldLen f s = Inl NoReturnValue \<and> k_getFieldLen f ks = Inl (ExitCall 10)"
proof -
  obtain s1 where s1: "getByte s = Inr (Some ch, s1)" "unread s1 = r"
    using getByte_some [OF assms(3,4)] by blast
  have one: "ch AND 1 = (if odd ch then 1 else 0)"
    by (simp add: and_one_eq mod2_eq_if)
  consider (toast) "ch = 1" | (short) "odd ch" "ch \<noteq> 1" | (long) "even ch" by blast
  then show ?thesis
  proof cases
    case toast
    then show ?thesis using assms(2,5) s1 by (simp add: VARATT_IS_1B_E_def getFieldLen_def k_getFieldLen_def k_getByte_def Let_def)
  next
    case short
    define k where "k = unat (drop_bit 1 ch)"
    have k2: "k = unat ch div 2" unfolding k_def by (simp only: unat_drop_bit) simp
    have "ch \<noteq> 0" using short(1) by auto
    then have "unat ch \<noteq> 0" "unat ch \<noteq> 1" using short(2) by (auto simp: word_unat_eq_iff)
    then have "0 < k" unfolding k2 by simp
    moreover have "(ucast (drop_bit 1 ch) :: u32) = of_nat k" unfolding k_def by (metis of_nat_unat)
    ultimately have k: "(ucast (drop_bit 1 ch) :: u32) - 1 = of_nat (k - 1)" by (simp add: of_nat_diff)
    have v: "\<not> VARATT_IS_1B_E ch" "VARATT_IS_1B ch" "ch AND 1 \<noteq> 0"
      using short one by (simp_all add: VARATT_IS_1B_E_def VARATT_IS_1B_def)
    have "VARSIZE_1B ch = k" by (simp only: VARSIZE_1B_eq k_def)
    then have "VARSIZE_ANY_EXHDR (ch # r) 0 = Inr (k - 1)"
      using v by (simp add: VARSIZE_ANY_EXHDR_def VARHDRSZ_SHORT_def)
    moreover have "getFieldLen f s = Inr (k - 1, s1)"
      using v(3) short(2) assms(2) s1 unfolding k_def by (simp add: getFieldLen_def)
    moreover have "k_getFieldLen f ks = Inr (of_nat (k - 1), ks\<lparr>pgOff := pgOff ks + 1, t_strm := r, t_off := t_off ks + 1\<rparr>)"
      using v(3) assms(2,5) unfolding k [symmetric] by (simp add: k_getFieldLen_def k_getByte_def Let_def)
    ultimately show ?thesis using v s1(2) by auto
  next
    case long
    then have "ch \<noteq> 1" by auto
    then show ?thesis
      using long one assms(2,5) s1
      by (simp add: VARATT_IS_1B_E_def VARATT_IS_1B_def getFieldLen_def k_getFieldLen_def k_getByte_def Let_def)
  qed
qed

text \<open>
  C18. On a column of variable length both parsers return the length the server's macros
  give when the value is short. A value with a four-byte header they refuse: the emulator ends
  without a return value, the kernel exits. For the pointer to a value stored elsewhere the emulator does
  the same, but the kernel returns 2 ^ 32 - 1 as the length of the field.
\<close>

theorem field_length_vs_server:
  assumes "f < nAttr" and "attrLens ! f = -1"
    and "rdr_inv s" and "unread s = ch # r" and "t_strm ks = ch # r"
  shows "if VARATT_IS_1B_E ch then getFieldLen f s = Inl NoReturnValue
        \<and> (\<exists>ks'. k_getFieldLen f ks = Inr (- 1, ks'))
      else if VARATT_IS_1B ch then \<exists>n s' ks'. VARSIZE_ANY_EXHDR (ch # r) 0 = Inr n
        \<and> getFieldLen f s = Inr (n, s') \<and> k_getFieldLen f ks = Inr (of_nat n, ks')
        \<and> unread s' = r \<and> t_strm ks' = r
      else getFieldLen f s = Inl NoReturnValue \<and> k_getFieldLen f ks = Inl (ExitCall 10)"
  using assms by (rule field_length_law)

definition reader_at :: "u8 \<Rightarrow> rdr" where
  "reader_at ch = \<lparr>off = 0, woff = 8, woffMax = 8, p_buf = ch # replicate 8191 0, bufIdx = 0, p_word = replicate 8 0\<rparr>"

theorem field_length_vs_server_witness:
  "(\<exists>n s' ks'. VARSIZE_ANY_EXHDR (7 # replicate 8191 0) 0 = Inr n \<and> getFieldLen 15 (reader_at 7) = Inr (n, s')
      \<and> k_getFieldLen 15 \<lparr>t_off = 0, pgOff = 2, t_strm = 7 # replicate 8191 0\<rparr> = Inr (of_nat n, ks'))
   \<and> getFieldLen 15 (reader_at 0x20) = Inl NoReturnValue
   \<and> k_getFieldLen 15 \<lparr>t_off = 0, pgOff = 2, t_strm = 0x20 # replicate 8191 0\<rparr> = Inl (ExitCall 10)"
proof -
  have r: "rdr_inv (reader_at ch)" "unread (reader_at ch) = ch # replicate 8191 0" for ch
    by (simp_all add: rdr_inv_def unread_def reader_at_def PAGE_SZ_def WORD_SZ_def)
  have f: "15 < nAttr" "attrLens ! 15 = -1" by (simp_all add: nAttr_def attrLens_def)
  have v: "VARATT_IS_1B 7" "\<not> VARATT_IS_1B_E 7" "\<not> VARATT_IS_1B 0x20" "\<not> VARATT_IS_1B_E 0x20"
    by (simp_all add: VARATT_IS_1B_def VARATT_IS_1B_E_def)
  show ?thesis
    using field_length_vs_server [OF f r(1) r(2), where ks = "\<lparr>t_off = 0, pgOff = 2, t_strm = 7 # replicate 8191 0\<rparr>"]
      field_length_vs_server [OF f r(1) r(2), where ks = "\<lparr>t_off = 0, pgOff = 2, t_strm = 0x20 # replicate 8191 0\<rparr>"] v
    by auto
qed

section \<open>Deleted tuples\<close>

text \<open>The bytes of a heap page that the packing routine reads for the line pointers \<open>lins\<close>.\<close>

definition item_reads :: "u8 list \<Rightarrow> nat \<Rightarrow> nat list" where
  "item_reads page lin = [20 + 4 * lin, 21 + 4 * lin, 22 + 4 * lin, 23 + 4 * lin]
     @ (case PageGetItemId page lin of Inl _ \<Rightarrow> [] | Inr iid \<Rightarrow>
         (ItemIdGetOffset iid + 22) # (case t_hoff page (ItemIdGetOffset iid) of Inl _ \<Rightarrow> []
           | Inr hoff \<Rightarrow> [ItemIdGetOffset iid + hoff..<ItemIdGetOffset iid + ItemIdGetLength iid]))"

definition page_reads :: "u8 list \<Rightarrow> nat list \<Rightarrow> nat set" where
  "page_reads page lins = {12, 13} \<union> set (concat (map (item_reads page) lins))"

lemma item_data_same:
  assumes "same_but M page page'" "set (item_reads page lin) \<inter> M = {}" "item_data page lin d"
  shows "item_data page' lin d"
proof -
  obtain iid hoff where r: "PageGetItemId page lin = Inr iid" "t_hoff page (ItemIdGetOffset iid) = Inr hoff"
    "ItemIdGetLength iid = hoff + length d" "ItemIdGetOffset iid + hoff + length d \<le> length page"
    "take (length d) (drop (ItemIdGetOffset iid + hoff) page) = d" "length d < XQL_PAGE_SZ - 2"
    using assms(3) by (auto simp: item_data_def split: sum.splits)
  let ?o = "ItemIdGetOffset iid"
  have rds: "set (item_reads page lin) = {20 + 4 * lin, 21 + 4 * lin, 22 + 4 * lin, 23 + 4 * lin, ?o + 22}
      \<union> {?o + hoff..<?o + hoff + length d}"
    using r(1-3) by (auto simp: item_reads_def)
  have "PageGetItemId page' lin = PageGetItemId page lin"
    unfolding PageGetItemId_def SizeOfPageHeaderData_def sizeof_ItemIdData_def
    by (rule same_but_get32 [OF assms(1)]) (use assms(2) rds in auto)
  moreover have "t_hoff page' ?o = t_hoff page ?o"
    using same_but_rd [OF assms(1), of "?o + 22"] assms(2) rds by (auto simp: t_hoff_def)
  moreover have "take (length d) (drop (?o + hoff) page') = take (length d) (drop (?o + hoff) page)"
  proof (intro nth_equalityI)
    fix i assume "i < length (take (length d) (drop (?o + hoff) page'))"
    then have "i < length d" by simp
    then have "?o + hoff + i \<in> set (item_reads page lin)" using rds by simp
    then have "?o + hoff + i \<notin> M" using assms(2) by blast
    then show "take (length d) (drop (?o + hoff) page') ! i = take (length d) (drop (?o + hoff) page) ! i"
      using \<open>i < length d\<close> r(4) assms(1) by (simp add: same_but_def)
  qed (use assms(1) in \<open>simp add: same_but_def\<close>)
  ultimately show ?thesis using r assms(1) by (simp add: item_data_def same_but_def)
qed

lemma page_same:
  assumes "same_but M page page'" "page_reads page lins \<inter> M = {}"
  shows "PageGetMaxOffsetNumber page' = PageGetMaxOffsetNumber page"
    "lin \<in> set lins \<Longrightarrow> item_data page lin d \<Longrightarrow> item_data page' lin d"
proof -
  have "get16 page' 12 = get16 page 12"
    by (rule same_but_get16 [OF assms(1)]) (use assms(2) in \<open>auto simp: page_reads_def\<close>)
  then show "PageGetMaxOffsetNumber page' = PageGetMaxOffsetNumber page"
    by (simp add: PageGetMaxOffsetNumber_def pd_lower_def)
  show "item_data page' lin d" if "lin \<in> set lins" "item_data page lin d"
    by (rule item_data_same [OF assms(1) _ that(2)]) (use assms(2) that(1) in \<open>auto simp: page_reads_def\<close>)
qed

lemma heap_page_same:
  assumes "same_but M page page'" "page_reads page [1..<Suc (length tups)] \<inter> M = {}" "heap_page page tups"
    and "item_data page' 0 []"
  shows "heap_page page' tups"
proof -
  have "item_data page' (Suc j) (tups ! j)" if "j < length tups" for j
    by (rule page_same(2) [OF assms(1,2)]) (use that assms(3) in \<open>auto simp: heap_page_def list_all_iff\<close>)
  then show ?thesis
    using assms(1,3,4) page_same(1) [OF assms(1,2)] by (auto simp: heap_page_def same_but_def list_all_iff)
qed

text \<open>What the scan makes of the prune hint, the line pointer before the first one.\<close>

lemma prune_hint_item:
  assumes "pd_prune_xid page = Inr xid" "unat xid < 2 ^ 17" "length page = BLCKSZ"
  shows "if unat xid mod 2 ^ 15 + 22 < BLCKSZ \<and> page ! (unat xid mod 2 ^ 15 + 22) = 0
    then item_data page 0 [] else short_item page 0"
proof -
  have iid: "PageGetItemId page 0 = Inr xid"
    using assms(1) by (simp add: PageGetItemId_def pd_prune_xid_def SizeOfPageHeaderData_def sizeof_ItemIdData_def)
  have ofs: "ItemIdGetOffset xid = unat xid mod 2 ^ 15"
    unfolding ItemIdGetOffset_def lp_off_def take_bit_eq_mask [symmetric] unsigned_take_bit_eq
    by (simp only: take_bit_eq_mod)
  have "unat (drop_bit 17 xid) = unat xid div 2 ^ 17" by (simp only: unat_drop_bit)
  then have len: "ItemIdGetLength xid = 0" using assms(2) by (simp add: ItemIdGetLength_def lp_len_def)
  show ?thesis
    using iid ofs len assms(3)
    by (auto simp: item_data_def short_item_def t_hoff_def rd_def XQL_PAGE_SZ_def unat_gt_0 split: sum.splits)
qed

text \<open>
  C19. Delete a stored tuple at offset \<open>tup\<close> of its page, behind the page header, by transaction \<open>xid\<close>, with the macros of the server that set
  the prune hint of the page and the deleting transaction, and with the flag that this transaction has
  committed in place of all other flags of the deletion, which the tests of the server then find. Suppose
  that the page had no prune hint, that \<open>xid\<close> is below 131072, and that no byte the scan reads lies in what the
  macros write, but for the hint. The scan takes the hint for a line pointer of length 0: the
  software run fails unless the byte it then reads as the size of a tuple header is
  zero. When it is, the run counts the deleted tuple: the text it returns is the one for all
  stored rows.
\<close>

theorem deleted_rows_counted:
  assumes "relation_ok bufPage tupss" and "table tupss lis"
    and "length blk = XQL6_BLK_SZ" and "length (p_word s) = WORD_SZ"
    and "\<forall>k i. length (junk k i) = FIELD_SZ"
    and "b < length tupss" and "0 < lin" and "lin \<le> length (tupss ! b)"
    and "PageGetItemId (bufPage b) lin = Inr iid" and "tup = ItemIdGetOffset iid"
    and "24 \<le> tup" and "tup + 23 \<le> BLCKSZ"
    and "page_reads (bufPage b) [1..<Suc (length (tupss ! b))] \<inter> (prune_bytes \<union> xmax_bytes tup) = {}"
    and "pd_prune_xid (bufPage b) = Inr 0" and "xid \<noteq> 0" and "unat xid < 2 ^ 17"
  shows "\<exists>p1 p2 m m' page'. PageSetPrunable precedes (bufPage b) xid = Inr p1
    \<and> HeapTupleHeaderSetXmax p1 tup xid = Inr p2
    \<and> t_infomask p2 tup = Inr m
    \<and> set_t_infomask p2 tup ((m AND NOT HEAP_XMAX_BITS) OR HEAP_XMAX_COMMITTED) = Inr page'
    \<and> HeapTupleHeaderGetRawXmax page' tup = Inr xid \<and> t_infomask page' tup = Inr m'
    \<and> m' AND HEAP_XMAX_COMMITTED \<noteq> 0 \<and> m' AND HEAP_XMAX_INVALID = 0 \<and> \<not> HEAP_XMAX_IS_LOCKED_ONLY m'
    \<and> (if unat xid mod 2 ^ 15 + 22 < BLCKSZ \<and> page' ! (unat xid mod 2 ^ 15 + 22) = 0
       then \<exists>s' tr. xql6_run_sw (\<lambda>_ _. bufPage(b := page')) (length tupss) lin0 junk blk us s
         = Some (Inr (''xql6_run (sw) result '' @ result_text (word_of_int (q6_spec lis))
             @ CHR 0x0A # ''Runtimes (us) Fill '' @ ld (fst us) @ '', Comp '' @ ld (snd us)
             @ ''. #Tups '' @ ld (int (length lis)), s', tr))
       else xql6_run_sw (\<lambda>_ _. bufPage(b := page')) (length tupss) lin0 junk blk us s = Some (Inl OutOfBounds))"
proof -
  have hp: "heap_page (bufPage b) (tupss ! b)" using assms(1,6) by (simp add: relation_ok_def list_all_iff)
  then have len: "length (bufPage b) = BLCKSZ" by (simp add: heap_page_def)
  obtain p1 p2 m page' where d: "PageSetPrunable precedes (bufPage b) xid = Inr p1" "HeapTupleHeaderSetXmax p1 tup xid = Inr p2"
    "t_infomask p2 tup = Inr m" "set_t_infomask p2 tup ((m AND NOT HEAP_XMAX_BITS) OR HEAP_XMAX_COMMITTED) = Inr page'"
    "HeapTupleHeaderGetRawXmax page' tup = Inr xid"
    "t_infomask page' tup = Inr ((m AND NOT HEAP_XMAX_BITS) OR HEAP_XMAX_COMMITTED)"
    and p: "pd_prune_xid page' = Inr xid" "same_but (prune_bytes \<union> xmax_bytes tup) (bufPage b) page'"
    using deletion_marks [of tup "bufPage b" xid precedes] len assms(11,12,14,15) by auto
  have l': "length page' = BLCKSZ" using p(2) len by (simp add: same_but_def)
  let ?ok = "unat xid mod 2 ^ 15 + 22 < BLCKSZ \<and> page' ! (unat xid mod 2 ^ 15 + 22) = 0"
  have item: "if ?ok then item_data page' 0 [] else short_item page' 0"
    by (rule prune_hint_item [OF p(1) assms(16) l'])
  have "if ?ok then \<exists>s' tr. xql6_run_sw (\<lambda>_ _. bufPage(b := page')) (length tupss) lin0 junk blk us s
         = Some (Inr (''xql6_run (sw) result '' @ result_text (word_of_int (q6_spec lis))
             @ CHR 0x0A # ''Runtimes (us) Fill '' @ ld (fst us) @ '', Comp '' @ ld (snd us)
             @ ''. #Tups '' @ ld (int (length lis)), s', tr))
       else xql6_run_sw (\<lambda>_ _. bufPage(b := page')) (length tupss) lin0 junk blk us s = Some (Inl OutOfBounds)"
  proof (cases ?ok)
    case True
    then have "heap_page page' (tupss ! b)" using heap_page_same [OF p(2) assms(13) hp] item by simp
    then have "relation_ok (bufPage(b := page')) tupss" using assms(1) by (simp add: relation_ok_def list_all_iff)
    from xql6_run_sw_law [OF iffD2 [OF always_stored_const this] assms(2-5)] True show ?thesis by auto
  next
    case False
    have "PageGetMaxOffsetNumber page' = Inr (length (tupss ! b))"
      using page_same(1) [OF p(2) assms(13)] hp by (simp add: heap_page_def)
    then have "first_short (bufPage(b := page')) tupss b 0"
      using False item assms(1,6) by (auto simp: first_short_def relation_ok_def list_all_iff)
    from short_item_run_sw [OF this assms(2,5,3,4)] False show ?thesis by auto
  qed
  then show ?thesis using d deleted_mask by blast
qed

section \<open>Line pointers without storage\<close>

text \<open>
  C21. A line pointer that is unused, dead or redirects to another one, as pruning leaves it after
  rows of a page have been updated or deleted, has no item. The scan takes it for a tuple of
  length 0: unless the byte it reads as the size of the tuple header is zero, the software run
  fails, however many rows lie before it, whose bytes are only supposed not to overlap the line pointer.
\<close>

theorem pointer_without_storage_fails:
  assumes "relation_ok bufPage tupss" and "table tupss lis"
    and "length blk = XQL6_BLK_SZ" and "length (p_word s) = WORD_SZ"
    and "\<forall>k i. length (junk k i) = FIELD_SZ"
    and "b < length tupss" and "0 < lin" and "lin \<le> length (tupss ! b)"
    and "PageGetItemId (bufPage b) lin = Inr iid"
    and "v \<in> {ItemIdSetUnused iid, ItemIdSetRedirect link iid, ItemIdSetDead iid}"
    and "set_item_id (bufPage b) lin v = Inr page'"
    and "page_reads (bufPage b) [0..<lin] \<inter> {20 + 4 * lin..<24 + 4 * lin} = {}"
    and "page' ! (ItemIdGetOffset v + 22) \<noteq> 0"
  shows "xql6_run_sw (\<lambda>_ _. bufPage(b := page')) (length tupss) lin0 junk blk us s = Some (Inl OutOfBounds)"
proof -
  have hp: "heap_page (bufPage b) (tupss ! b)" using assms(1,6) by (simp add: relation_ok_def list_all_iff)
  have "23 + 4 * lin < length (bufPage b)"
    using assms(7,9) by (cases "23 + 4 * lin < length (bufPage b)")
      (auto simp: PageGetItemId_def get32_def get16_def rd_def SizeOfPageHeaderData_def sizeof_ItemIdData_def rbind_eq_Inr
        split: if_splits)
  then obtain page2 where "put32 (bufPage b) (20 + 4 * lin) v = Inr page2" and
    p: "same_but {20 + 4 * lin, 20 + 4 * lin + 1, 20 + 4 * lin + 2, 20 + 4 * lin + 3} (bufPage b) page2"
    "get32 page2 (20 + 4 * lin) = Inr v"
    using put32_ok [of "20 + 4 * lin" "bufPage b" v] by auto
  then have eq: "page2 = page'"
    using assms(11) by (simp add: set_item_id_def SizeOfPageHeaderData_def sizeof_ItemIdData_def)
  have M: "{20 + 4 * lin, 20 + 4 * lin + 1, 20 + 4 * lin + 2, 20 + 4 * lin + 3} = {20 + 4 * lin..<24 + 4 * lin}"
    by auto
  note same = p(1) [unfolded M eq]
  have v: "ItemIdGetLength v = 0"
    using assms(10) by (auto simp: ItemIdGetLength_def ItemIdSetUnused_def ItemIdSetRedirect_def ItemIdSetDead_def)
  have "short_item page' lin"
    using p(2) assms(13) v
    by (auto simp: short_item_def PageGetItemId_def SizeOfPageHeaderData_def sizeof_ItemIdData_def eq t_hoff_def rd_def
        unat_gt_0 split: sum.splits)
  moreover have "item_data page' j (([] # tupss ! b) ! j)" if "j < lin" for j
  proof (rule page_same(2) [OF same assms(12)])
    show "item_data (bufPage b) j (([] # tupss ! b) ! j)"
      using hp that assms(8) by (cases j) (auto simp: heap_page_def list_all_iff)
  qed (use that in simp)
  ultimately have "first_short (bufPage(b := page')) tupss b lin"
    using assms(1,6,8) hp page_same(1) [OF same assms(12)]
    by (auto simp: first_short_def relation_ok_def list_all_iff heap_page_def)
  from short_item_run_sw [OF this assms(2,5,3,4)] show ?thesis .
qed

lemma heap1_pointers:
  "PageGetItemId heap1 0 = Inr 0" "PageGetItemId heap1 1 = Inr 13016890" "PageGetItemId heap1 2 = Inr 13016989"
  "t_hoff heap1 0 = Inr 0" "t_hoff heap1 7994 = Inr 24" "t_hoff heap1 8093 = Inr 24"
  by (simp_all add: PageGetItemId_def SizeOfPageHeaderData_def sizeof_ItemIdData_def get32_def get16_def rd_def
      t_hoff_def le16_def heap1_def heap_page_with_shape le32_bytes_def nth_append row_lengths)

lemma heap1_reads:
  "page_reads heap1 [1..<Suc 2] = {12, 13} \<union> {24, 25, 26, 27, 8016} \<union> {8018..<8093}
    \<union> {28, 29, 30, 31, 8115} \<union> {8117..<8192}"
  "page_reads heap1 [0..<1] = {12, 13, 20, 21, 22, 23}"
proof -
  have "[1..<Suc 2] = [1, 2]" "[0..<1] = [0 :: nat]" by (simp_all add: upt_rec numeral_2_eq_2)
  then show "page_reads heap1 [1..<Suc 2] = {12, 13} \<union> {24, 25, 26, 27, 8016} \<union> {8018..<8093}
      \<union> {28, 29, 30, 31, 8115} \<union> {8117..<8192}"
    "page_reads heap1 [0..<1] = {12, 13, 20, 21, 22, 23}"
    by (auto simp: page_reads_def item_reads_def heap1_pointers line_pointer_fields
        simp del: upt_rec_numeral upt_Suc One_nat_def)
qed

definition server_rdr :: rdr where
  "server_rdr = \<lparr>off = 0, woff = 0, woffMax = 0, p_buf = [], bufIdx = 0, p_word = replicate 8 0\<rparr>"

lemma heap1_deleted:
  assumes "xid \<noteq> 0" "PageSetPrunable (\<lambda>_ _. False) heap1 xid = Inr p1" "HeapTupleHeaderSetXmax p1 7994 xid = Inr p2"
    and "t_infomask p2 7994 = Inr m"
    and "set_t_infomask p2 7994 ((m AND NOT HEAP_XMAX_BITS) OR HEAP_XMAX_COMMITTED) = Inr page'"
    and "i \<notin> prune_bytes \<union> xmax_bytes 7994"
  shows "page' ! i = heap1 ! i"
proof -
  have "pd_prune_xid heap1 = Inr 0" using heap1_pointers(1)
    by (simp add: PageGetItemId_def pd_prune_xid_def SizeOfPageHeaderData_def sizeof_ItemIdData_def)
  then have "same_but (prune_bytes \<union> xmax_bytes 7994) heap1 page'"
    using deletion_marks [of 7994 heap1 xid "\<lambda>_ _. False"] assms(1-5) heap1_length by (auto simp: BLCKSZ_def)
  then show ?thesis using assms(6) by (simp add: same_but_def)
qed

lemma heap1_bytes: "heap1 ! 722 = 0" "heap1 ! 24 = 58"
  by (simp_all add: heap1_def heap_page_with_shape le32_bytes_def nth_append)

lemma heap1_table: "table [[enc_tuple row1, enc_tuple row2]] [row1, row2]"
  using row_lengths by (auto simp: table_def row1_wf row2_wf)

lemma heap1_query: "q6_spec [row1, row2] = 12700938"
  using row_values q6_spec_simps(3) [of "[row1]" "[row2]"] by simp

lemma heap1_sizes:
  "length [[enc_tuple row1, enc_tuple row2]] = 1" "length [row1, row2] = 2"
  "[[enc_tuple row1, enc_tuple row2]] ! 0 = [enc_tuple row1, enc_tuple row2]"
  "length [enc_tuple row1, enc_tuple row2] = 2"
  "fst (1, 2) = (1 :: int)" "snd (1, 2) = (2 :: int)" "int 2 = 2"
  by simp_all

text \<open>
  Deleting the first row by transaction 700 leaves it counted: byte 722 of the page is free space. Deleting
  it by transaction 2 makes the run fail: byte 24 belongs to the first line pointer.
\<close>

theorem deleted_rows_counted_witness:
  "(\<exists>p1 p2 m page'. PageSetPrunable (\<lambda>_ _. False) heap1 700 = Inr p1 \<and> HeapTupleHeaderSetXmax p1 7994 700 = Inr p2
     \<and> t_infomask p2 7994 = Inr m
     \<and> set_t_infomask p2 7994 ((m AND NOT HEAP_XMAX_BITS) OR HEAP_XMAX_COMMITTED) = Inr page'
     \<and> (\<exists>s' tr. xql6_run_sw (\<lambda>_ _. (\<lambda>_. heap1)(0 := page')) 1 (\<lambda>_ _. 7) (\<lambda>_ _. replicate 16 9) (replicate XQL6_BLK_SZ 0) (1, 2) server_rdr
       = Some (Inr (''xql6_run (sw) result '' @ result_text 12700938
           @ CHR 0x0A # ''Runtimes (us) Fill '' @ ld 1 @ '', Comp '' @ ld 2 @ ''. #Tups '' @ ld 2, s', tr))))
   \<and> (\<exists>p1 p2 m page'. PageSetPrunable (\<lambda>_ _. False) heap1 2 = Inr p1 \<and> HeapTupleHeaderSetXmax p1 7994 2 = Inr p2
     \<and> t_infomask p2 7994 = Inr m
     \<and> set_t_infomask p2 7994 ((m AND NOT HEAP_XMAX_BITS) OR HEAP_XMAX_COMMITTED) = Inr page'
     \<and> xql6_run_sw (\<lambda>_ _. (\<lambda>_. heap1)(0 := page')) 1 (\<lambda>_ _. 7) (\<lambda>_ _. replicate 16 9) (replicate XQL6_BLK_SZ 0) (1, 2) server_rdr
       = Some (Inl OutOfBounds))"
proof -
  have apart: "page_reads heap1 [1..<Suc 2] \<inter> (prune_bytes \<union> xmax_bytes 7994) = {}"
    unfolding heap1_reads by (simp add: prune_bytes_def xmax_bytes_def)
  have pr: "pd_prune_xid heap1 = Inr 0" using heap1_pointers(1)
    by (simp add: PageGetItemId_def pd_prune_xid_def SizeOfPageHeaderData_def sizeof_ItemIdData_def)
  have out: "722 \<notin> prune_bytes \<union> xmax_bytes 7994" "24 \<notin> prune_bytes \<union> xmax_bytes 7994"
    by (simp_all add: prune_bytes_def xmax_bytes_def)
  note D = deleted_rows_counted [OF heap1_relation heap1_table, where blk = "replicate XQL6_BLK_SZ 0" and s = server_rdr
      and junk = "\<lambda>_ _. replicate 16 9" and b = 0 and lin = 1 and iid = 13016890 and precedes = "\<lambda>_ _. False"
      and tup = 7994 and us = "(1, 2)" and ?lin0.0 = "\<lambda>_ _. 7", unfolded heap1_sizes line_pointer_fields heap1_query,
      OF _ _ _ _ _ _ heap1_pointers(2) _ _ _ apart pr]
  have c: "length (replicate XQL6_BLK_SZ (0 :: u8)) = XQL6_BLK_SZ" "length (p_word server_rdr) = WORD_SZ"
    "\<forall>k i. length (replicate 16 (9 :: u8)) = FIELD_SZ" "(7994 :: nat) + 23 \<le> BLCKSZ"
    by (simp_all add: server_rdr_def WORD_SZ_def FIELD_SZ_def BLCKSZ_def)
  have u: "unat (700 :: u32) mod 2 ^ 15 + 22 = 722" "unat (2 :: u32) mod 2 ^ 15 + 22 = 24"
    "722 < BLCKSZ" "24 < BLCKSZ"
    by (simp_all add: BLCKSZ_def)
  have l: "0 < (1 :: nat)" "(1 :: nat) \<le> 2" "(0 :: nat) < 1" "(24 :: nat) \<le> 7994" "(7994 :: nat) = 7994" by simp_all
  have x: "(700 :: u32) \<noteq> 0" "unat (700 :: u32) < 2 ^ 17" "(2 :: u32) \<noteq> 0" "unat (2 :: u32) < 2 ^ 17" by simp_all
  note D7 = D [OF c(1-3) l(3,1,2,5,4) c(4) x(1,2), unfolded u word_of_int_numeral] and D2 = D [OF c(1-3) l(3,1,2,5,4) c(4) x(3,4), unfolded u word_of_int_numeral]
  obtain p1 p2 m m' page' where d: "PageSetPrunable (\<lambda>_ _. False) heap1 700 = Inr p1" "HeapTupleHeaderSetXmax p1 7994 700 = Inr p2"
    "t_infomask p2 7994 = Inr m" "set_t_infomask p2 7994 ((m AND NOT HEAP_XMAX_BITS) OR HEAP_XMAX_COMMITTED) = Inr page'"
    and r: "if 722 < BLCKSZ \<and> page' ! 722 = 0
      then \<exists>s' tr. xql6_run_sw (\<lambda>_ _. (\<lambda>_. heap1)(0 := page')) 1 (\<lambda>_ _. 7) (\<lambda>_ _. replicate 16 9) (replicate XQL6_BLK_SZ 0) (1, 2) server_rdr
       = Some (Inr (''xql6_run (sw) result '' @ result_text 12700938
           @ CHR 0x0A # ''Runtimes (us) Fill '' @ ld 1 @ '', Comp '' @ ld 2 @ ''. #Tups '' @ ld 2, s', tr))
      else xql6_run_sw (\<lambda>_ _. (\<lambda>_. heap1)(0 := page')) 1 (\<lambda>_ _. 7) (\<lambda>_ _. replicate 16 9) (replicate XQL6_BLK_SZ 0) (1, 2) server_rdr = Some (Inl OutOfBounds)"
    using D7 by (elim exE conjE) (rule that; assumption)
  have one: "722 < BLCKSZ \<and> page' ! 722 = 0" using heap1_deleted [OF x(1) d out(1)] heap1_bytes u(3) by simp
  obtain q1 q2 n n' page2 where e: "PageSetPrunable (\<lambda>_ _. False) heap1 2 = Inr q1" "HeapTupleHeaderSetXmax q1 7994 2 = Inr q2"
    "t_infomask q2 7994 = Inr n" "set_t_infomask q2 7994 ((n AND NOT HEAP_XMAX_BITS) OR HEAP_XMAX_COMMITTED) = Inr page2"
    and t: "if 24 < BLCKSZ \<and> page2 ! 24 = 0
      then \<exists>s' tr. xql6_run_sw (\<lambda>_ _. (\<lambda>_. heap1)(0 := page2)) 1 (\<lambda>_ _. 7) (\<lambda>_ _. replicate 16 9) (replicate XQL6_BLK_SZ 0) (1, 2) server_rdr
       = Some (Inr (''xql6_run (sw) result '' @ result_text 12700938
           @ CHR 0x0A # ''Runtimes (us) Fill '' @ ld 1 @ '', Comp '' @ ld 2 @ ''. #Tups '' @ ld 2, s', tr))
      else xql6_run_sw (\<lambda>_ _. (\<lambda>_. heap1)(0 := page2)) 1 (\<lambda>_ _. 7) (\<lambda>_ _. replicate 16 9) (replicate XQL6_BLK_SZ 0) (1, 2) server_rdr = Some (Inl OutOfBounds)"
    using D2 by (elim exE conjE) (rule that; assumption)
  have two: "\<not> (24 < BLCKSZ \<and> page2 ! 24 = 0)" using heap1_deleted [OF x(3) e out(2)] heap1_bytes by simp
  show ?thesis using d r [unfolded if_P [OF one]] e t [unfolded if_not_P [OF two]] by blast
qed

text \<open>The first row replaced by the second, as an update and the pruning after it leave the page.\<close>

theorem pointer_without_storage_fails_witness:
  "\<exists>page'. set_item_id heap1 1 (ItemIdSetRedirect 2 13016890) = Inr page'
    \<and> xql6_run_sw (\<lambda>_ _. (\<lambda>_. heap1)(0 := page')) 1 (\<lambda>_ _. 7) (\<lambda>_ _. replicate 16 9) (replicate XQL6_BLK_SZ 0) (1, 2) server_rdr
      = Some (Inl OutOfBounds)"
proof -
  let ?v = "ItemIdSetRedirect 2 13016890"
  have v: "?v = 65538" "ItemIdGetOffset ?v = 2" by code_simp+
  let ?page = "heap1[24 := 2, 25 := 0, 26 := 1, 27 := 0]"
  have page: "set_item_id heap1 1 ?v = Inr ?page"
    using heap1_length
    by (simp add: set_item_id_def put32_def put16_def v(1) SizeOfPageHeaderData_def sizeof_ItemIdData_def wr_def BLCKSZ_def)
  have apart: "page_reads heap1 [0..<1] \<inter> {20 + 4 * 1..<24 + 4 * 1} = {}" unfolding heap1_reads by simp
  have byte: "?page ! (ItemIdGetOffset ?v + 22) \<noteq> 0" using heap1_length by (simp add: v(2) BLCKSZ_def)
  show ?thesis
    using pointer_without_storage_fails [OF heap1_relation heap1_table, where blk = "replicate XQL6_BLK_SZ 0" and s = server_rdr
      and junk = "\<lambda>_ _. replicate 16 9" and b = 0 and lin = 1 and iid = 13016890 and v = ?v and link = 2
      and us = "(1, 2)" and ?lin0.0 = "\<lambda>_ _. 7" and page' = ?page, unfolded heap1_sizes,
      OF _ _ _ _ _ _ heap1_pointers(2) _ page apart byte] page
    by (auto simp: server_rdr_def WORD_SZ_def FIELD_SZ_def)
qed

end
