(* ===== verification/Tuple_Header.thy ===== *)
theory Tuple_Header
  imports PG_Tuple
begin

unbundle bit_operations_syntax

text \<open>
  The rest of what PostgreSQL keeps in the header of a page and in the header of a tuple: the
  macros of \<^verbatim>\<open>storage/bufpage.h\<close> and \<^verbatim>\<open>access/htup_details.h\<close> that read and set the log position, the flags of
  a page, the transactions and commands that made and deleted a tuple, and the hints about
  them. None of these bytes is looked at by the programs. Assertions of the macros
  are not compiled in.
\<close>

section \<open>Fields in memory\<close>

text \<open>A field of fixed width at an offset, with its two operations.\<close>

locale memory_field =
  fixes get :: "u8 list \<Rightarrow> nat \<Rightarrow> 'v res"
    and put :: "u8 list \<Rightarrow> nat \<Rightarrow> 'v \<Rightarrow> u8 list res"
    and width :: nat
  assumes get_law: "p + width \<le> length page \<Longrightarrow> \<exists>v. get page p = Inr v"
    and put_law: "p + width \<le> length page \<Longrightarrow>
      \<exists>page'. put page p v = Inr page' \<and> get page' p = Inr v \<and> same_but {p..<p + width} page page'"
begin

lemma update_law:
  assumes "p + width \<le> length page"
  shows "\<exists>v page'. get page p = Inr v \<and> rbind (get page p) (\<lambda>v. put page p (f v)) = Inr page'
    \<and> get page' p = Inr (f v) \<and> same_but {p..<p + width} page page'"
proof -
  obtain v where "get page p = Inr v" using get_law [OF assms] by blast
  then show ?thesis using put_law [OF assms, of "f v"] by simp
qed

end

definition get_u16 :: "u8 list \<Rightarrow> nat \<Rightarrow> u16 res" where
  "get_u16 page ofs = rbind (get16 page ofs) (\<lambda>m. Inr (of_nat m))"

lemma get16_in: "ofs + 2 \<le> length page \<Longrightarrow> \<exists>m. get16 page ofs = Inr m"
  by (simp add: get16_def)

interpretation f16: memory_field get_u16 put16 2
proof
  show "\<exists>v. get_u16 page p = Inr v" if "p + 2 \<le> length page" for p page
    using get16_in [OF that] by (auto simp: get_u16_def)
  show "\<exists>page'. put16 page p v = Inr page' \<and> get_u16 page' p = Inr v \<and> same_but {p..<p + 2} page page'"
    if "p + 2 \<le> length page" for p page v
  proof -
    obtain page' where "put16 page p v = Inr page'" "same_but {p, p + 1} page page'"
      using put16_ok [of p page v] \<open>p + 2 \<le> length page\<close> by auto
    moreover have "{p, p + 1} = {p..<p + 2}" by auto
    ultimately show ?thesis using get16_put16 [of page p v page'] by (auto simp: get_u16_def)
  qed
qed

interpretation f32: memory_field get32 put32 4
proof
  show "\<exists>v. get32 page p = Inr v" if "p + 4 \<le> length page" for p page
    using that by (simp add: get32_def get16_def)
  show "\<exists>page'. put32 page p v = Inr page' \<and> get32 page' p = Inr v \<and> same_but {p..<p + 4} page page'"
    if "p + 4 \<le> length page" for p page v
  proof -
    have "{p, p + 1, p + 2, p + 3} = {p..<p + 4}" by auto
    then show ?thesis using put32_ok [of p page v] \<open>p + 4 \<le> length page\<close> by auto
  qed
qed

text \<open>A compound assignment such as \<open>|=\<close> to a field of 16 bits.\<close>

definition mod16 :: "(u16 \<Rightarrow> u16) \<Rightarrow> u8 list \<Rightarrow> nat \<Rightarrow> u8 list res" where
  "mod16 f page ofs = rbind (get_u16 page ofs) (\<lambda>v. put16 page ofs (f v))"

section \<open>The header of a page\<close>

text \<open>\<open>pd_lsn\<close>: two 32-bit halves at the start of the page, the high one first.\<close>

definition PageGetLSN :: "u8 list \<Rightarrow> 64 word res" where
  "PageGetLSN page = rbind (get32 page 0) (\<lambda>xlogid. rbind (get32 page 4) (\<lambda>xrecoff.
     Inr (push_bit 32 (ucast xlogid) OR ucast xrecoff)))"

definition PageSetLSN :: "u8 list \<Rightarrow> 64 word \<Rightarrow> u8 list res" where
  "PageSetLSN page lsn = rbind (put32 page 0 (ucast (drop_bit 32 lsn))) (\<lambda>page. put32 page 4 (ucast lsn))"

definition PD_HAS_FREE_LINES :: u16 where "PD_HAS_FREE_LINES = 0x0001"
definition PD_PAGE_FULL :: u16 where "PD_PAGE_FULL = 0x0002"
definition PD_ALL_VISIBLE :: u16 where "PD_ALL_VISIBLE = 0x0004"

definition PageHasFreeLinePointers :: "u8 list \<Rightarrow> bool res" where
  "PageHasFreeLinePointers page = rbind (get_u16 page 10) (\<lambda>f. Inr (f AND PD_HAS_FREE_LINES \<noteq> 0))"
definition PageSetHasFreeLinePointers :: "u8 list \<Rightarrow> u8 list res" where
  "PageSetHasFreeLinePointers page = mod16 (\<lambda>f. f OR PD_HAS_FREE_LINES) page 10"
definition PageClearHasFreeLinePointers :: "u8 list \<Rightarrow> u8 list res" where
  "PageClearHasFreeLinePointers page = mod16 (\<lambda>f. f AND NOT PD_HAS_FREE_LINES) page 10"

definition PageIsFull :: "u8 list \<Rightarrow> bool res" where
  "PageIsFull page = rbind (get_u16 page 10) (\<lambda>f. Inr (f AND PD_PAGE_FULL \<noteq> 0))"
definition PageSetFull :: "u8 list \<Rightarrow> u8 list res" where
  "PageSetFull page = mod16 (\<lambda>f. f OR PD_PAGE_FULL) page 10"
definition PageClearFull :: "u8 list \<Rightarrow> u8 list res" where
  "PageClearFull page = mod16 (\<lambda>f. f AND NOT PD_PAGE_FULL) page 10"

definition PageIsAllVisible :: "u8 list \<Rightarrow> bool res" where
  "PageIsAllVisible page = rbind (get_u16 page 10) (\<lambda>f. Inr (f AND PD_ALL_VISIBLE \<noteq> 0))"
definition PageSetAllVisible :: "u8 list \<Rightarrow> u8 list res" where
  "PageSetAllVisible page = mod16 (\<lambda>f. f OR PD_ALL_VISIBLE) page 10"
definition PageClearAllVisible :: "u8 list \<Rightarrow> u8 list res" where
  "PageClearAllVisible page = mod16 (\<lambda>f. f AND NOT PD_ALL_VISIBLE) page 10"

definition PageSetPageSizeAndVersion :: "u8 list \<Rightarrow> u16 \<Rightarrow> u16 \<Rightarrow> u8 list res" where
  "PageSetPageSizeAndVersion page sz version = put16 page 18 (sz OR version)"

definition PageSizeIsValid :: "nat \<Rightarrow> bool" where "PageSizeIsValid pageSize \<longleftrightarrow> pageSize = BLCKSZ"

definition MAXALIGN :: "nat \<Rightarrow> nat" where "MAXALIGN len = TYPEALIGN 8 len"

definition PageGetContents :: nat where "PageGetContents = MAXALIGN SizeOfPageHeaderData"

definition PageGetSpecialSize :: "u8 list \<Rightarrow> u16 res" where
  "PageGetSpecialSize page = rbind (PageGetPageSize page) (\<lambda>n. rbind (pd_special page) (\<lambda>s.
     Inr (word_of_int (int n - int s))))"

definition PageIsPrunable :: "(u32 \<Rightarrow> u32 \<Rightarrow> bool) \<Rightarrow> u8 list \<Rightarrow> u32 \<Rightarrow> bool res" where
  "PageIsPrunable precedes page oldestxmin = rbind (pd_prune_xid page) (\<lambda>xid.
     Inr (TransactionIdIsValid xid \<and> precedes xid oldestxmin))"

text \<open>Setting the prune hint of a page without one makes the page prunable, clearing it ends that.\<close>

lemma prunable_hint:
  assumes "24 \<le> length page" "pd_prune_xid page = Inr 0" "xid \<noteq> 0"
  shows "\<exists>p1 p2. PageSetPrunable precedes page xid = Inr p1 \<and> PageIsPrunable precedes p1 oldest = Inr (precedes xid oldest)
    \<and> PageClearPrunable p1 = Inr p2 \<and> PageIsPrunable precedes p2 oldest = Inr False"
proof -
  obtain p1 where p1: "put32 page 20 xid = Inr p1" "get32 p1 20 = Inr xid" "same_but {20..<20 + 4} page p1"
    using f32.put_law [of 20 page xid] assms(1) by auto
  then have "24 \<le> length p1" using assms(1) by (simp add: same_but_def)
  then obtain p2 where "put32 p1 20 0 = Inr p2" "get32 p2 20 = Inr 0"
    using f32.put_law [of 20 p1 0] by auto
  with p1 assms(2,3) show ?thesis
    by (simp add: PageSetPrunable_def PageIsPrunable_def PageClearPrunable_def TransactionIdIsValid_def
        InvalidTransactionId_def pd_prune_xid_def)
qed

lemma lsn_halves: "push_bit 32 (ucast (ucast (drop_bit 32 w) :: u32)) OR ucast (ucast w :: u32) = w" for w :: "64 word"
  by (rule bit_word_eqI) (auto simp: bit_simps)

lemma PageSetLSN_get:
  assumes "8 \<le> length page"
  shows "\<exists>page'. PageSetLSN page lsn = Inr page' \<and> same_but {0..<8} page page' \<and> PageGetLSN page' = Inr lsn"
proof -
  obtain p1 where p1: "put32 page 0 (ucast (drop_bit 32 lsn)) = Inr p1" "get32 p1 0 = Inr (ucast (drop_bit 32 lsn))"
    "same_but {0..<4} page p1"
    using f32.put_law [of 0 page "ucast (drop_bit 32 lsn)"] assms by auto
  then obtain p2 where p2: "put32 p1 4 (ucast lsn) = Inr p2" "get32 p2 4 = Inr (ucast lsn)" "same_but {4..<8} p1 p2"
    using f32.put_law [of 4 p1 "ucast lsn"] assms by (auto simp: same_but_def)
  have "get32 p2 0 = get32 p1 0" by (rule same_but_get32 [OF p2(3)]) auto
  moreover have "{0..<4} \<union> {4..<8} = {0..<8 :: nat}" by auto
  ultimately show ?thesis
    using p1 p2 same_but_trans [OF p1(3) p2(3)] by (simp add: PageSetLSN_def PageGetLSN_def lsn_halves)
qed

section \<open>The header of a tuple\<close>

text \<open>Flags of \<open>t_infomask\<close> and \<open>t_infomask2\<close> that \<open>PG_Tuple\<close> does not have yet.\<close>

definition HEAP_HASNULL :: u16 where "HEAP_HASNULL = 0x0001"
definition HEAP_HASVARWIDTH :: u16 where "HEAP_HASVARWIDTH = 0x0002"
definition HEAP_HASEXTERNAL :: u16 where "HEAP_HASEXTERNAL = 0x0004"
definition HEAP_HASOID :: u16 where "HEAP_HASOID = 0x0008"
definition HEAP_COMBOCID :: u16 where "HEAP_COMBOCID = 0x0020"
definition HEAP_XMIN_COMMITTED :: u16 where "HEAP_XMIN_COMMITTED = 0x0100"
definition HEAP_XMIN_INVALID :: u16 where "HEAP_XMIN_INVALID = 0x0200"
definition HEAP_XMIN_FROZEN :: u16 where "HEAP_XMIN_FROZEN = HEAP_XMIN_COMMITTED OR HEAP_XMIN_INVALID"
definition HEAP_MOVED_OFF :: u16 where "HEAP_MOVED_OFF = 0x4000"
definition HEAP_MOVED_IN :: u16 where "HEAP_MOVED_IN = 0x8000"
definition HEAP_MOVED :: u16 where "HEAP_MOVED = HEAP_MOVED_OFF OR HEAP_MOVED_IN"
definition HEAP_NATTS_MASK :: u16 where "HEAP_NATTS_MASK = 0x07FF"
definition HEAP_KEYS_UPDATED :: u16 where "HEAP_KEYS_UPDATED = 0x2000"
definition HEAP_HOT_UPDATED :: u16 where "HEAP_HOT_UPDATED = 0x4000"
definition HEAP_ONLY_TUPLE :: u16 where "HEAP_ONLY_TUPLE = 0x8000"
definition SpecTokenOffsetNumber :: u16 where "SpecTokenOffsetNumber = 0xFFFE"
definition FrozenTransactionId :: u32 where "FrozenTransactionId = 2"

definition HEAP_LOCKED_UPGRADED :: "u16 \<Rightarrow> bool" where
  "HEAP_LOCKED_UPGRADED infomask \<longleftrightarrow> infomask AND HEAP_XMAX_IS_MULTI \<noteq> 0 \<and> infomask AND HEAP_XMAX_LOCK_ONLY \<noteq> 0
     \<and> infomask AND (HEAP_XMAX_EXCL_LOCK OR HEAP_XMAX_KEYSHR_LOCK) = 0"
definition HEAP_XMAX_IS_SHR_LOCKED :: "u16 \<Rightarrow> bool" where
  "HEAP_XMAX_IS_SHR_LOCKED infomask \<longleftrightarrow> infomask AND HEAP_LOCK_MASK = HEAP_XMAX_SHR_LOCK"
definition HEAP_XMAX_IS_EXCL_LOCKED :: "u16 \<Rightarrow> bool" where
  "HEAP_XMAX_IS_EXCL_LOCKED infomask \<longleftrightarrow> infomask AND HEAP_LOCK_MASK = HEAP_XMAX_EXCL_LOCK"
definition HEAP_XMAX_IS_KEYSHR_LOCKED :: "u16 \<Rightarrow> bool" where
  "HEAP_XMAX_IS_KEYSHR_LOCKED infomask \<longleftrightarrow> infomask AND HEAP_LOCK_MASK = HEAP_XMAX_KEYSHR_LOCK"

subsection \<open>The inserting transaction\<close>

definition HeapTupleHeaderGetRawXmin :: "u8 list \<Rightarrow> nat \<Rightarrow> u32 res" where
  "HeapTupleHeaderGetRawXmin page tup = get32 page tup"
definition HeapTupleHeaderSetXmin :: "u8 list \<Rightarrow> nat \<Rightarrow> u32 \<Rightarrow> u8 list res" where
  "HeapTupleHeaderSetXmin page tup xid = put32 page tup xid"

definition xmin_committed :: "u16 \<Rightarrow> bool" where
  "xmin_committed m \<longleftrightarrow> m AND HEAP_XMIN_COMMITTED \<noteq> 0"
definition xmin_invalid :: "u16 \<Rightarrow> bool" where
  "xmin_invalid m \<longleftrightarrow> m AND (HEAP_XMIN_COMMITTED OR HEAP_XMIN_INVALID) = HEAP_XMIN_INVALID"
definition xmin_frozen :: "u16 \<Rightarrow> bool" where
  "xmin_frozen m \<longleftrightarrow> m AND HEAP_XMIN_FROZEN = HEAP_XMIN_FROZEN"

definition t_infomask2 :: "u8 list \<Rightarrow> nat \<Rightarrow> u16 res" where "t_infomask2 page tup = get_u16 page (tup + 18)"

lemma t_infomask_get: "t_infomask page tup = get_u16 page (tup + 20)"
  by (simp add: t_infomask_def get_u16_def)

definition HeapTupleHeaderXminCommitted :: "u8 list \<Rightarrow> nat \<Rightarrow> bool res" where
  "HeapTupleHeaderXminCommitted page tup = rbind (t_infomask page tup) (\<lambda>m. Inr (xmin_committed m))"
definition HeapTupleHeaderXminInvalid :: "u8 list \<Rightarrow> nat \<Rightarrow> bool res" where
  "HeapTupleHeaderXminInvalid page tup = rbind (t_infomask page tup) (\<lambda>m. Inr (xmin_invalid m))"
definition HeapTupleHeaderXminFrozen :: "u8 list \<Rightarrow> nat \<Rightarrow> bool res" where
  "HeapTupleHeaderXminFrozen page tup = rbind (t_infomask page tup) (\<lambda>m. Inr (xmin_frozen m))"

definition HeapTupleHeaderGetXmin :: "u8 list \<Rightarrow> nat \<Rightarrow> u32 res" where
  "HeapTupleHeaderGetXmin page tup = rbind (HeapTupleHeaderXminFrozen page tup) (\<lambda>frozen.
     if frozen then Inr FrozenTransactionId else HeapTupleHeaderGetRawXmin page tup)"

definition HeapTupleHeaderSetXminCommitted :: "u8 list \<Rightarrow> nat \<Rightarrow> u8 list res" where
  "HeapTupleHeaderSetXminCommitted page tup = mod16 (\<lambda>m. m OR HEAP_XMIN_COMMITTED) page (tup + 20)"
definition HeapTupleHeaderSetXminInvalid :: "u8 list \<Rightarrow> nat \<Rightarrow> u8 list res" where
  "HeapTupleHeaderSetXminInvalid page tup = mod16 (\<lambda>m. m OR HEAP_XMIN_INVALID) page (tup + 20)"
definition HeapTupleHeaderSetXminFrozen :: "u8 list \<Rightarrow> nat \<Rightarrow> u8 list res" where
  "HeapTupleHeaderSetXminFrozen page tup = mod16 (\<lambda>m. m OR HEAP_XMIN_FROZEN) page (tup + 20)"

subsection \<open>The deleting transaction, commands, and the place of the newer version\<close>

text \<open>\<open>resolve\<close> is \<open>HeapTupleGetUpdateXid\<close>, a function of the server.\<close>

definition HeapTupleHeaderGetUpdateXid :: "(nat \<Rightarrow> u32) \<Rightarrow> u8 list \<Rightarrow> nat \<Rightarrow> u32 res" where
  "HeapTupleHeaderGetUpdateXid resolve page tup = rbind (t_infomask page tup) (\<lambda>m.
     if m AND HEAP_XMAX_INVALID = 0 \<and> m AND HEAP_XMAX_IS_MULTI \<noteq> 0 \<and> m AND HEAP_XMAX_LOCK_ONLY = 0
     then Inr (resolve tup) else HeapTupleHeaderGetRawXmax page tup)"

definition HeapTupleHeaderGetRawCommandId :: "u8 list \<Rightarrow> nat \<Rightarrow> u32 res" where
  "HeapTupleHeaderGetRawCommandId page tup = get32 page (tup + 8)"
definition HeapTupleHeaderSetCmin :: "u8 list \<Rightarrow> nat \<Rightarrow> u32 \<Rightarrow> u8 list res" where
  "HeapTupleHeaderSetCmin page tup cid = rbind (put32 page (tup + 8) cid) (\<lambda>page.
     mod16 (\<lambda>m. m AND NOT HEAP_COMBOCID) page (tup + 20))"
definition HeapTupleHeaderSetCmax :: "u8 list \<Rightarrow> nat \<Rightarrow> u32 \<Rightarrow> bool \<Rightarrow> u8 list res" where
  "HeapTupleHeaderSetCmax page tup cid iscombo = rbind (put32 page (tup + 8) cid) (\<lambda>page.
     mod16 (\<lambda>m. if iscombo then m OR HEAP_COMBOCID else m AND NOT HEAP_COMBOCID) page (tup + 20))"
definition HeapTupleHeaderGetXvac :: "u8 list \<Rightarrow> nat \<Rightarrow> u32 res" where
  "HeapTupleHeaderGetXvac page tup = rbind (t_infomask page tup) (\<lambda>m.
     if m AND HEAP_MOVED \<noteq> 0 then get32 page (tup + 8) else Inr InvalidTransactionId)"
definition HeapTupleHeaderSetXvac :: "u8 list \<Rightarrow> nat \<Rightarrow> u32 \<Rightarrow> u8 list res" where
  "HeapTupleHeaderSetXvac page tup xid = put32 page (tup + 8) xid"

text \<open>Item pointers: the high half of the block number, the low half, the offset number.\<close>

definition BlockIdSet :: "u8 list \<Rightarrow> nat \<Rightarrow> u32 \<Rightarrow> u8 list res" where
  "BlockIdSet page p blockNumber = rbind (put16 page p (ucast (drop_bit 16 blockNumber))) (\<lambda>page.
     put16 page (p + 2) (ucast (blockNumber AND 0xFFFF)))"
definition BlockIdGetBlockNumber :: "u8 list \<Rightarrow> nat \<Rightarrow> u32 res" where
  "BlockIdGetBlockNumber page p = rbind (get_u16 page p) (\<lambda>bi_hi. rbind (get_u16 page (p + 2)) (\<lambda>bi_lo.
     Inr (push_bit 16 (ucast bi_hi) OR ucast bi_lo)))"
definition ItemPointerSet :: "u8 list \<Rightarrow> nat \<Rightarrow> u32 \<Rightarrow> u16 \<Rightarrow> u8 list res" where
  "ItemPointerSet page p blockNumber offNum = rbind (BlockIdSet page p blockNumber) (\<lambda>page. put16 page (p + 4) offNum)"
definition ItemPointerGetOffsetNumber :: "u8 list \<Rightarrow> nat \<Rightarrow> u16 res" where
  "ItemPointerGetOffsetNumber page p = get_u16 page (p + 4)"
definition ItemPointerGetBlockNumber :: "u8 list \<Rightarrow> nat \<Rightarrow> u32 res" where
  "ItemPointerGetBlockNumber page p = BlockIdGetBlockNumber page p"

definition HeapTupleHeaderIsSpeculative :: "u8 list \<Rightarrow> nat \<Rightarrow> bool res" where
  "HeapTupleHeaderIsSpeculative page tup = rbind (ItemPointerGetOffsetNumber page (tup + 12)) (\<lambda>n.
     Inr (n = SpecTokenOffsetNumber))"
definition HeapTupleHeaderGetSpeculativeToken :: "u8 list \<Rightarrow> nat \<Rightarrow> u32 res" where
  "HeapTupleHeaderGetSpeculativeToken page tup = ItemPointerGetBlockNumber page (tup + 12)"
definition HeapTupleHeaderSetSpeculativeToken :: "u8 list \<Rightarrow> nat \<Rightarrow> u32 \<Rightarrow> u8 list res" where
  "HeapTupleHeaderSetSpeculativeToken page tup token = ItemPointerSet page (tup + 12) token SpecTokenOffsetNumber"

subsection \<open>The chain of versions, the number of attributes, the object id\<close>

definition HeapTupleHeaderIsHotUpdated :: "u8 list \<Rightarrow> nat \<Rightarrow> bool res" where
  "HeapTupleHeaderIsHotUpdated page tup = rbind (t_infomask2 page tup) (\<lambda>m2. rbind (t_infomask page tup) (\<lambda>m.
     Inr (m2 AND HEAP_HOT_UPDATED \<noteq> 0 \<and> m AND HEAP_XMAX_INVALID = 0 \<and> \<not> xmin_invalid m)))"
definition HeapTupleHeaderSetHotUpdated :: "u8 list \<Rightarrow> nat \<Rightarrow> u8 list res" where
  "HeapTupleHeaderSetHotUpdated page tup = mod16 (\<lambda>m. m OR HEAP_HOT_UPDATED) page (tup + 18)"
definition HeapTupleHeaderClearHotUpdated :: "u8 list \<Rightarrow> nat \<Rightarrow> u8 list res" where
  "HeapTupleHeaderClearHotUpdated page tup = mod16 (\<lambda>m. m AND NOT HEAP_HOT_UPDATED) page (tup + 18)"
definition HeapTupleHeaderIsHeapOnly :: "u8 list \<Rightarrow> nat \<Rightarrow> bool res" where
  "HeapTupleHeaderIsHeapOnly page tup = rbind (t_infomask2 page tup) (\<lambda>m. Inr (m AND HEAP_ONLY_TUPLE \<noteq> 0))"
definition HeapTupleHeaderSetHeapOnly :: "u8 list \<Rightarrow> nat \<Rightarrow> u8 list res" where
  "HeapTupleHeaderSetHeapOnly page tup = mod16 (\<lambda>m. m OR HEAP_ONLY_TUPLE) page (tup + 18)"
definition HeapTupleHeaderClearHeapOnly :: "u8 list \<Rightarrow> nat \<Rightarrow> u8 list res" where
  "HeapTupleHeaderClearHeapOnly page tup = mod16 (\<lambda>m. m AND NOT HEAP_ONLY_TUPLE) page (tup + 18)"
definition HeapTupleHeaderGetNatts :: "u8 list \<Rightarrow> nat \<Rightarrow> u16 res" where
  "HeapTupleHeaderGetNatts page tup = rbind (t_infomask2 page tup) (\<lambda>m. Inr (m AND HEAP_NATTS_MASK))"
definition HeapTupleHeaderSetNatts :: "u8 list \<Rightarrow> nat \<Rightarrow> u16 \<Rightarrow> u8 list res" where
  "HeapTupleHeaderSetNatts page tup natts = mod16 (\<lambda>m. (m AND NOT HEAP_NATTS_MASK) OR natts) page (tup + 18)"
definition HEAP_TUPLE_HAS_MATCH :: u16 where "HEAP_TUPLE_HAS_MATCH = HEAP_ONLY_TUPLE"
definition HeapTupleHeaderHasMatch :: "u8 list \<Rightarrow> nat \<Rightarrow> bool res" where
  "HeapTupleHeaderHasMatch page tup = rbind (t_infomask2 page tup) (\<lambda>m. Inr (m AND HEAP_TUPLE_HAS_MATCH \<noteq> 0))"
definition HeapTupleHeaderSetMatch :: "u8 list \<Rightarrow> nat \<Rightarrow> u8 list res" where
  "HeapTupleHeaderSetMatch page tup = mod16 (\<lambda>m. m OR HEAP_TUPLE_HAS_MATCH) page (tup + 18)"
definition HeapTupleHeaderClearMatch :: "u8 list \<Rightarrow> nat \<Rightarrow> u8 list res" where
  "HeapTupleHeaderClearMatch page tup = mod16 (\<lambda>m. m AND NOT HEAP_TUPLE_HAS_MATCH) page (tup + 18)"
definition HeapTupleHeaderHasExternal :: "u8 list \<Rightarrow> nat \<Rightarrow> bool res" where
  "HeapTupleHeaderHasExternal page tup = rbind (t_infomask page tup) (\<lambda>m. Inr (m AND HEAP_HASEXTERNAL \<noteq> 0))"

text \<open>The object id stands in the last four bytes of the header.\<close>

definition HeapTupleHeaderGetOid :: "u8 list \<Rightarrow> nat \<Rightarrow> u32 res" where
  "HeapTupleHeaderGetOid page tup = rbind (t_infomask page tup) (\<lambda>m.
     if m AND HEAP_HASOID \<noteq> 0 then rbind (t_hoff page tup) (\<lambda>hoff. get32 page (tup + hoff - 4)) else Inr 0)"
definition HeapTupleHeaderSetOid :: "u8 list \<Rightarrow> nat \<Rightarrow> u32 \<Rightarrow> u8 list res" where
  "HeapTupleHeaderSetOid page tup oid = rbind (t_hoff page tup) (\<lambda>hoff. put32 page (tup + hoff - 4) oid)"

text \<open>A composite value outside a table has its length and its type where a stored tuple has the transactions.\<close>

definition SET_VARSIZE_4B :: "u8 list \<Rightarrow> nat \<Rightarrow> u32 \<Rightarrow> u8 list res" where
  "SET_VARSIZE_4B b p len = put32 b p (push_bit 2 len)"
definition HeapTupleHeaderGetDatumLength :: "u8 list \<Rightarrow> nat \<Rightarrow> nat res" where
  "HeapTupleHeaderGetDatumLength page tup = VARSIZE_4B page tup"
definition HeapTupleHeaderSetDatumLength :: "u8 list \<Rightarrow> nat \<Rightarrow> u32 \<Rightarrow> u8 list res" where
  "HeapTupleHeaderSetDatumLength page tup len = SET_VARSIZE_4B page tup len"
definition HeapTupleHeaderGetTypMod :: "u8 list \<Rightarrow> nat \<Rightarrow> u32 res" where
  "HeapTupleHeaderGetTypMod page tup = get32 page (tup + 4)"
definition HeapTupleHeaderSetTypMod :: "u8 list \<Rightarrow> nat \<Rightarrow> u32 \<Rightarrow> u8 list res" where
  "HeapTupleHeaderSetTypMod page tup typmod = put32 page (tup + 4) typmod"
definition HeapTupleHeaderGetTypeId :: "u8 list \<Rightarrow> nat \<Rightarrow> u32 res" where
  "HeapTupleHeaderGetTypeId page tup = get32 page (tup + 8)"
definition HeapTupleHeaderSetTypeId :: "u8 list \<Rightarrow> nat \<Rightarrow> u32 \<Rightarrow> u8 list res" where
  "HeapTupleHeaderSetTypeId page tup typeid = put32 page (tup + 8) typeid"

text \<open>What is said of a tuple as a whole; \<open>GETSTRUCT\<close> is where its columns begin.\<close>

definition HeapTupleHasNulls :: "u8 list \<Rightarrow> nat \<Rightarrow> bool res" where
  "HeapTupleHasNulls page tup = rbind (t_infomask page tup) (\<lambda>m. Inr (m AND HEAP_HASNULL \<noteq> 0))"
definition HeapTupleNoNulls :: "u8 list \<Rightarrow> nat \<Rightarrow> bool res" where
  "HeapTupleNoNulls page tup = rbind (t_infomask page tup) (\<lambda>m. Inr (m AND HEAP_HASNULL = 0))"
definition HeapTupleHasVarWidth :: "u8 list \<Rightarrow> nat \<Rightarrow> bool res" where
  "HeapTupleHasVarWidth page tup = rbind (t_infomask page tup) (\<lambda>m. Inr (m AND HEAP_HASVARWIDTH \<noteq> 0))"
definition HeapTupleAllFixed :: "u8 list \<Rightarrow> nat \<Rightarrow> bool res" where
  "HeapTupleAllFixed page tup = rbind (t_infomask page tup) (\<lambda>m. Inr (m AND HEAP_HASVARWIDTH = 0))"
definition GETSTRUCT :: "u8 list \<Rightarrow> nat \<Rightarrow> nat res" where
  "GETSTRUCT page tup = rbind (t_hoff page tup) (\<lambda>hoff. Inr (tup + hoff))"

text \<open>Minimal tuples leave out what stands before \<open>t_infomask2\<close>, at byte 18, but for a length of four bytes.\<close>

definition MINIMAL_TUPLE_OFFSET :: nat where "MINIMAL_TUPLE_OFFSET = (18 - 4) div 8 * 8"
definition MINIMAL_TUPLE_PADDING :: nat where "MINIMAL_TUPLE_PADDING = (18 - 4) mod 8"
definition MINIMAL_TUPLE_DATA_OFFSET :: nat where "MINIMAL_TUPLE_DATA_OFFSET = 4 + MINIMAL_TUPLE_PADDING"
definition SizeofMinimalTupleHeader :: nat where "SizeofMinimalTupleHeader = MINIMAL_TUPLE_DATA_OFFSET + 2 + 2 + 1"

definition BITMAPLEN :: "nat \<Rightarrow> nat" where "BITMAPLEN natts = (natts + 7) div 8"
definition SizeofHeapTupleHeader :: nat where "SizeofHeapTupleHeader = 23"
definition MaxHeapTupleSize :: nat where
  "MaxHeapTupleSize = BLCKSZ - MAXALIGN (SizeOfPageHeaderData + sizeof_ItemIdData)"
definition MinHeapTupleSize :: nat where "MinHeapTupleSize = MAXALIGN SizeofHeapTupleHeader"
definition MaxHeapTuplesPerPage :: nat where
  "MaxHeapTuplesPerPage = (BLCKSZ - SizeOfPageHeaderData) div (MAXALIGN SizeofHeapTupleHeader + sizeof_ItemIdData)"

text \<open>A minimal tuple, seen from its offset before it, has the header of a tuple.\<close>

lemma minimal_tuple_header: "MINIMAL_TUPLE_OFFSET + SizeofMinimalTupleHeader = SizeofHeapTupleHeader"
  by (simp add: MINIMAL_TUPLE_OFFSET_def SizeofMinimalTupleHeader_def MINIMAL_TUPLE_DATA_OFFSET_def
      MINIMAL_TUPLE_PADDING_def SizeofHeapTupleHeader_def)

lemma datum_length_set:
  assumes "tup + 4 \<le> length page" "len < 2 ^ 30"
  shows "\<exists>page'. HeapTupleHeaderSetDatumLength page tup len = Inr page'
    \<and> HeapTupleHeaderGetDatumLength page' tup = Inr (unat len)"
proof -
  have m: "(0x3FFFFFFF :: u32) = mask 30" by (simp add: mask_eq_exp_minus_1)
  have "drop_bit 2 (push_bit 2 len) AND 0x3FFFFFFF = len AND 0x3FFFFFFF"
    unfolding m by (rule bit_word_eqI) (auto simp: bit_simps)
  moreover have "len AND 0x3FFFFFFF = len" unfolding m by (rule less_mask_eq [OF assms(2)])
  ultimately show ?thesis
    using f32.put_law [OF assms(1), of "push_bit 2 len"]
    by (auto simp: HeapTupleHeaderSetDatumLength_def SET_VARSIZE_4B_def HeapTupleHeaderGetDatumLength_def VARSIZE_4B_def)
qed

text \<open>An item pointer has the block and the offset number it was set to.\<close>

lemma get_u16_same: "same_but M p p' \<Longrightarrow> {q, q + 1} \<inter> M = {} \<Longrightarrow> get_u16 p' q = get_u16 p q"
  using same_but_get16 by (simp add: get_u16_def)

lemma BlockIdSet_get:
  assumes "p + 4 \<le> length page"
  shows "\<exists>page'. BlockIdSet page p n = Inr page' \<and> same_but {p..<p + 4} page page' \<and> BlockIdGetBlockNumber page' p = Inr n"
proof -
  let ?hi = "ucast (drop_bit 16 n) :: u16" and ?lo = "ucast (n AND 0xFFFF) :: u16"
  obtain p1 where p1: "put16 page p ?hi = Inr p1" "get_u16 p1 p = Inr ?hi" "same_but {p..<p + 2} page p1"
    using f16.put_law [of p page ?hi] assms by auto
  then obtain p2 where p2: "put16 p1 (p + 2) ?lo = Inr p2" "get_u16 p2 (p + 2) = Inr ?lo" "same_but {p + 2..<p + 2 + 2} p1 p2"
    using f16.put_law [of "p + 2" p1 ?lo] assms by (auto simp: same_but_def)
  have "get_u16 p2 p = Inr ?hi" using get_u16_same [OF p2(3), of p] p1(2) by simp
  moreover have "push_bit 16 (ucast ?hi) OR ucast ?lo = n"
  proof -
    have m: "(0xFFFF :: u32) = mask 16" by (simp add: mask_eq_exp_minus_1)
    show ?thesis unfolding m by (rule bit_word_eqI) (auto simp: bit_simps)
  qed
  moreover have "{p..<p + 2} \<union> {p + 2..<p + 2 + 2} = {p..<p + 4}" by auto
  ultimately show ?thesis
    using p1(1) p2(1,2) same_but_trans [OF p1(3) p2(3)] by (simp add: BlockIdSet_def BlockIdGetBlockNumber_def)
qed

lemma ItemPointerSet_get:
  assumes "p + 6 \<le> length page"
  shows "\<exists>page'. ItemPointerSet page p n off = Inr page' \<and> same_but {p..<p + 6} page page'
    \<and> ItemPointerGetBlockNumber page' p = Inr n \<and> ItemPointerGetOffsetNumber page' p = Inr off"
proof -
  obtain p1 where p1: "BlockIdSet page p n = Inr p1" "same_but {p..<p + 4} page p1" "BlockIdGetBlockNumber p1 p = Inr n"
    using BlockIdSet_get [of p page n] assms by auto
  then obtain p2 where p2: "put16 p1 (p + 4) off = Inr p2" "get_u16 p2 (p + 4) = Inr off" "same_but {p + 4..<p + 4 + 2} p1 p2"
    using f16.put_law [of "p + 4" p1 off] assms by (auto simp: same_but_def)
  have "get_u16 p2 p = get_u16 p1 p" "get_u16 p2 (p + 2) = get_u16 p1 (p + 2)"
    using get_u16_same [OF p2(3), of p] get_u16_same [OF p2(3), of "p + 2"] by simp_all
  then have "BlockIdGetBlockNumber p2 p = Inr n" using p1(3) by (simp add: BlockIdGetBlockNumber_def)
  moreover have "{p..<p + 4} \<union> {p + 4..<p + 4 + 2} = {p..<p + 6}" by auto
  ultimately show ?thesis
    using p1(1) p2(1,2) same_but_trans [OF p1(2) p2(3)]
    by (simp add: ItemPointerSet_def ItemPointerGetBlockNumber_def ItemPointerGetOffsetNumber_def)
qed

text \<open>A token is read back from where it was set, and marks the tuple as speculative.\<close>

lemma speculative_token_set:
  assumes "tup + 18 \<le> length page"
  shows "\<exists>page'. HeapTupleHeaderSetSpeculativeToken page tup token = Inr page'
    \<and> HeapTupleHeaderIsSpeculative page' tup = Inr True
    \<and> HeapTupleHeaderGetSpeculativeToken page' tup = Inr token"
  using ItemPointerSet_get [of "tup + 12" page token SpecTokenOffsetNumber] assms
  by (auto simp: HeapTupleHeaderSetSpeculativeToken_def HeapTupleHeaderIsSpeculative_def HeapTupleHeaderGetSpeculativeToken_def)

section \<open>The hints about the inserting transaction\<close>

text \<open>
  What the two flags say about the transaction that inserted a tuple, and the three hints as
  transitions of that. A hint must not contradict an earlier one: the macros assert it.
\<close>

datatype xmin_state = In_Doubt | Committed | Aborted | Frozen

definition xmin_state :: "u16 \<Rightarrow> xmin_state" where
  "xmin_state m = (if xmin_frozen m then Frozen else if xmin_invalid m then Aborted
     else if xmin_committed m then Committed else In_Doubt)"

datatype xmin_hint = Hint_Committed | Hint_Invalid | Hint_Frozen

fun apply_hint :: "xmin_hint \<Rightarrow> u8 list \<Rightarrow> nat \<Rightarrow> u8 list res" where
  "apply_hint Hint_Committed page tup = HeapTupleHeaderSetXminCommitted page tup"
| "apply_hint Hint_Invalid page tup = HeapTupleHeaderSetXminInvalid page tup"
| "apply_hint Hint_Frozen page tup = HeapTupleHeaderSetXminFrozen page tup"

inductive hint_step :: "xmin_hint \<Rightarrow> xmin_state \<Rightarrow> xmin_state \<Rightarrow> bool" where
  commit: "hint_step Hint_Committed In_Doubt Committed"
| commit_again: "hint_step Hint_Committed Committed Committed"
| commit_frozen: "hint_step Hint_Committed Frozen Frozen"
| abort: "hint_step Hint_Invalid In_Doubt Aborted"
| abort_again: "hint_step Hint_Invalid Aborted Aborted"
| freeze: "s \<noteq> Aborted \<Longrightarrow> hint_step Hint_Frozen s Frozen"

inductive_cases hint_committedE: "hint_step Hint_Committed s s'"
inductive_cases hint_invalidE: "hint_step Hint_Invalid s s'"
inductive_simps hint_frozen: "hint_step Hint_Frozen s s'"

code_pred hint_step .

text \<open>The assertions of the macros.\<close>

definition hint_allowed :: "xmin_hint \<Rightarrow> u16 \<Rightarrow> bool" where
  "hint_allowed h m \<longleftrightarrow> (case h of Hint_Invalid \<Rightarrow> \<not> xmin_committed m | _ \<Rightarrow> \<not> xmin_invalid m)"

lemma hint_masks: "HEAP_XMIN_COMMITTED = 2 ^ 8" "HEAP_XMIN_INVALID = 2 ^ 9"
  by (simp_all add: HEAP_XMIN_COMMITTED_def HEAP_XMIN_INVALID_def)

lemma hint_mask_bits: "bit HEAP_XMIN_COMMITTED n \<longleftrightarrow> n = 8" "bit HEAP_XMIN_INVALID n \<longleftrightarrow> n = 9"
  unfolding hint_masks by (simp_all only: bit_exp_iff possible_bit_word) auto

lemma xmin_bits:
  "xmin_committed m \<longleftrightarrow> bit m 8" "xmin_invalid m \<longleftrightarrow> \<not> bit m 8 \<and> bit m 9" "xmin_frozen m \<longleftrightarrow> bit m 8 \<and> bit m 9"
proof -
  show "xmin_committed m \<longleftrightarrow> bit m 8"
    using and_exp_eq_0_iff_not_bit [of m 8] by (simp add: xmin_committed_def HEAP_XMIN_COMMITTED_def)
  have "m AND (HEAP_XMIN_COMMITTED OR HEAP_XMIN_INVALID)
      = (if bit m 8 then HEAP_XMIN_COMMITTED else 0) OR (if bit m 9 then HEAP_XMIN_INVALID else 0)"
    by (rule bit_word_eqI) (auto simp: bit_and_iff bit_or_iff hint_mask_bits)
  then have "m AND 768 = (if bit m 8 then 256 else 0) OR (if bit m 9 then 512 else 0)"
    by (simp add: HEAP_XMIN_COMMITTED_def HEAP_XMIN_INVALID_def)
  then show "xmin_invalid m \<longleftrightarrow> \<not> bit m 8 \<and> bit m 9" "xmin_frozen m \<longleftrightarrow> bit m 8 \<and> bit m 9"
    by (simp_all add: xmin_invalid_def xmin_frozen_def HEAP_XMIN_FROZEN_def HEAP_XMIN_COMMITTED_def HEAP_XMIN_INVALID_def)
qed

text \<open>
  The macros refine the transitions: under their assertions the state the flags stand for
  moves as the hint says, and the raw transaction stays.
\<close>

definition hint_mask :: "xmin_hint \<Rightarrow> u16" where
  "hint_mask h = (case h of Hint_Committed \<Rightarrow> HEAP_XMIN_COMMITTED | Hint_Invalid \<Rightarrow> HEAP_XMIN_INVALID
     | Hint_Frozen \<Rightarrow> HEAP_XMIN_FROZEN)"

lemma hint_mask_step:
  assumes "hint_allowed h m"
  shows "hint_step h (xmin_state m) (xmin_state (m OR hint_mask h))"
  using assms
  by (cases h) (auto simp: hint_allowed_def xmin_state_def xmin_bits hint_mask_def HEAP_XMIN_FROZEN_def
      hint_mask_bits bit_or_iff hint_frozen intro: hint_step.intros)

lemma apply_hint_mod: "apply_hint h page tup = mod16 (\<lambda>m. m OR hint_mask h) page (tup + 20)"
  by (cases h) (simp_all add: HeapTupleHeaderSetXminCommitted_def HeapTupleHeaderSetXminInvalid_def
      HeapTupleHeaderSetXminFrozen_def hint_mask_def)

lemma apply_hint_refines:
  assumes "tup + 23 \<le> length page" "t_infomask page tup = Inr m" "hint_allowed h m"
  shows "\<exists>page' m'. apply_hint h page tup = Inr page' \<and> t_infomask page' tup = Inr m'
    \<and> hint_step h (xmin_state m) (xmin_state m')
    \<and> HeapTupleHeaderGetRawXmin page' tup = HeapTupleHeaderGetRawXmin page tup"
proof -
  obtain page' where p: "mod16 (\<lambda>m. m OR hint_mask h) page (tup + 20) = Inr page'"
    "get_u16 page' (tup + 20) = Inr (m OR hint_mask h)" "same_but {tup + 20..<tup + 20 + 2} page page'"
    using f16.update_law [of "tup + 20" page "\<lambda>m. m OR hint_mask h"] assms(1,2)
    by (auto simp: t_infomask_get mod16_def)
  have "get32 page' tup = get32 page tup" by (rule same_but_get32 [OF p(3)]) auto
  with p hint_mask_step [OF assms(3)] show ?thesis
    by (simp add: apply_hint_mod t_infomask_get HeapTupleHeaderGetRawXmin_def)
qed

end
