(* ===== verification/Visibility.thy ===== *)
theory Visibility
  imports Server_View Tuple_Header
begin

text \<open>
  The header updates of the server as operations on a page, and what they mean for the program:
  whatever the server records about the visibility of the rows, the text the run returns is
  that of all stored rows.
\<close>

section \<open>Updates of headers\<close>

text \<open>
  One constructor for each macro that assigns to the header of a page or of the tuple at an offset of a
  table, and one for the assignment to the flags \<open>t_infomask\<close>, which has no macro. Left out are the macros
  for composite values outside a table and for object ids, which lineitem has not. \<open>precedes\<close> is
  \<open>TransactionIdPrecedes\<close>, a function of the server.
\<close>

datatype header_op =
    Set_LSN "64 word"
  | Set_Size_Version u16 u16
  | Set_Prunable "u32 \<Rightarrow> u32 \<Rightarrow> bool" u32 | Clear_Prunable
  | Set_Free_Lines | Clear_Free_Lines | Set_Full | Clear_Full | Set_All_Visible | Clear_All_Visible
  | Set_Xmin nat u32
  | Set_Hint nat xmin_hint
  | Set_Xmax nat u32
  | Set_Cmin nat u32
  | Set_Cmax nat u32 bool
  | Set_Xvac nat u32
  | Set_Speculative nat u32
  | Set_Hot nat | Clear_Hot nat | Set_Heap_Only nat | Clear_Heap_Only nat
  | Set_Match nat | Clear_Match nat
  | Set_Natts nat u16
  | Set_Infomask nat u16

fun header_do :: "header_op \<Rightarrow> u8 list \<Rightarrow> u8 list res" where
  "header_do (Set_LSN lsn) page = PageSetLSN page lsn"
| "header_do (Set_Size_Version sz version) page = PageSetPageSizeAndVersion page sz version"
| "header_do (Set_Prunable precedes xid) page = PageSetPrunable precedes page xid"
| "header_do Clear_Prunable page = PageClearPrunable page"
| "header_do Set_Free_Lines page = PageSetHasFreeLinePointers page"
| "header_do Clear_Free_Lines page = PageClearHasFreeLinePointers page"
| "header_do Set_Full page = PageSetFull page"
| "header_do Clear_Full page = PageClearFull page"
| "header_do Set_All_Visible page = PageSetAllVisible page"
| "header_do Clear_All_Visible page = PageClearAllVisible page"
| "header_do (Set_Xmin tup xid) page = HeapTupleHeaderSetXmin page tup xid"
| "header_do (Set_Hint tup h) page = apply_hint h page tup"
| "header_do (Set_Xmax tup xid) page = HeapTupleHeaderSetXmax page tup xid"
| "header_do (Set_Cmin tup cid) page = HeapTupleHeaderSetCmin page tup cid"
| "header_do (Set_Cmax tup cid iscombo) page = HeapTupleHeaderSetCmax page tup cid iscombo"
| "header_do (Set_Xvac tup xid) page = HeapTupleHeaderSetXvac page tup xid"
| "header_do (Set_Speculative tup token) page = HeapTupleHeaderSetSpeculativeToken page tup token"
| "header_do (Set_Hot tup) page = HeapTupleHeaderSetHotUpdated page tup"
| "header_do (Clear_Hot tup) page = HeapTupleHeaderClearHotUpdated page tup"
| "header_do (Set_Heap_Only tup) page = HeapTupleHeaderSetHeapOnly page tup"
| "header_do (Clear_Heap_Only tup) page = HeapTupleHeaderClearHeapOnly page tup"
| "header_do (Set_Match tup) page = HeapTupleHeaderSetMatch page tup"
| "header_do (Clear_Match tup) page = HeapTupleHeaderClearMatch page tup"
| "header_do (Set_Natts tup natts) page = HeapTupleHeaderSetNatts page tup natts"
| "header_do (Set_Infomask tup m) page = set_t_infomask page tup m"

primrec header_run :: "header_op list \<Rightarrow> u8 list \<Rightarrow> u8 list res" where
  "header_run [] page = Inr page"
| "header_run (op # ops) page = rbind (header_do op page) (header_run ops)"

text \<open>The tuple an operation is for, none when it is for the page.\<close>

fun op_tuple :: "header_op \<Rightarrow> nat option" where
  "op_tuple (Set_Xmin tup _) = Some tup"
| "op_tuple (Set_Hint tup _) = Some tup"
| "op_tuple (Set_Xmax tup _) = Some tup"
| "op_tuple (Set_Cmin tup _) = Some tup"
| "op_tuple (Set_Cmax tup _ _) = Some tup"
| "op_tuple (Set_Xvac tup _) = Some tup"
| "op_tuple (Set_Speculative tup _) = Some tup"
| "op_tuple (Set_Hot tup) = Some tup"
| "op_tuple (Clear_Hot tup) = Some tup"
| "op_tuple (Set_Heap_Only tup) = Some tup"
| "op_tuple (Clear_Heap_Only tup) = Some tup"
| "op_tuple (Set_Match tup) = Some tup"
| "op_tuple (Clear_Match tup) = Some tup"
| "op_tuple (Set_Natts tup _) = Some tup"
| "op_tuple (Set_Infomask tup _) = Some tup"
| "op_tuple _ = None"

text \<open>The bytes an operation may write.\<close>

fun page_bytes :: "header_op \<Rightarrow> nat set" where
  "page_bytes (Set_LSN _) = {0..<8}"
| "page_bytes (Set_Size_Version _ _) = {18..<20}"
| "page_bytes (Set_Prunable _ _) = {20..<24}"
| "page_bytes Clear_Prunable = {20..<24}"
| "page_bytes _ = {10..<12}"

definition op_bytes :: "header_op \<Rightarrow> nat set" where
  "op_bytes op = (case op_tuple op of None \<Rightarrow> page_bytes op | Some tup \<Rightarrow> {tup..<tup + 22})"

section \<open>What an update leaves alone\<close>

definition framed :: "nat set \<Rightarrow> u8 list \<Rightarrow> u8 list res \<Rightarrow> bool" where
  "framed M page r \<longleftrightarrow> (\<exists>page'. r = Inr page' \<and> same_but M page page')"

lemma same_but_mono: "same_but M page page' \<Longrightarrow> M \<subseteq> N \<Longrightarrow> same_but N page page'"
  by (auto simp: same_but_def)

lemma framed_put16: "p + 2 \<le> length page \<Longrightarrow> {p..<p + 2} \<subseteq> M \<Longrightarrow> framed M page (put16 page p v)"
  using f16.put_law [of p page v] by (auto simp: framed_def intro: same_but_mono)

lemma framed_put32: "p + 4 \<le> length page \<Longrightarrow> {p..<p + 4} \<subseteq> M \<Longrightarrow> framed M page (put32 page p v)"
  using f32.put_law [of p page v] by (auto simp: framed_def intro: same_but_mono)

lemma framed_mod16: "p + 2 \<le> length page \<Longrightarrow> {p..<p + 2} \<subseteq> M \<Longrightarrow> framed M page (mod16 f page p)"
  using f16.update_law [of p page f] by (auto simp: framed_def mod16_def intro: same_but_mono)

lemma framed_refl: "framed M page (Inr page)"
  by (simp add: framed_def same_but_def)

lemma framed_prunable:
  assumes "24 \<le> length page" "{20..<24} \<subseteq> M"
  shows "framed M page (PageSetPrunable precedes page xid)"
proof -
  obtain old where "pd_prune_xid page = Inr old"
    using assms(1) by (auto simp: pd_prune_xid_def get32_def get16_def rd_def)
  then show ?thesis
    using assms framed_put32 [of 20 page M xid] framed_refl by (simp add: PageSetPrunable_def)
qed

lemma framed_bind:
  assumes "framed M page r" "\<And>page'. length page' = length page \<Longrightarrow> framed M page' (k page')"
  shows "framed M page (rbind r k)"
proof -
  obtain p1 where p1: "r = Inr p1" "same_but M page p1" using assms(1) by (auto simp: framed_def)
  then obtain p2 where "k p1 = Inr p2" "same_but M p1 p2"
    using assms(2) [of p1] by (auto simp: framed_def same_but_def)
  with p1 show ?thesis using same_but_trans [of M page p1 M p2] by (auto simp: framed_def)
qed

lemmas framed_rules = framed_put16 framed_put32 framed_mod16 framed_prunable framed_bind

lemma header_do_framed:
  assumes "24 \<le> length page" "\<forall>tup. op_tuple op = Some tup \<longrightarrow> tup + 22 \<le> length page"
  shows "framed (op_bytes op) page (header_do op page)"
  using assms
  by (cases op; simp add: op_bytes_def apply_hint_mod PageSetLSN_def PageSetPageSizeAndVersion_def
      PageClearPrunable_def set_t_infomask_def HeapTupleHeaderSetMatch_def HeapTupleHeaderClearMatch_def PageSetHasFreeLinePointers_def
      PageClearHasFreeLinePointers_def PageSetFull_def PageClearFull_def PageSetAllVisible_def PageClearAllVisible_def
      HeapTupleHeaderSetXmin_def HeapTupleHeaderSetXmax_def HeapTupleHeaderSetCmin_def HeapTupleHeaderSetCmax_def
      HeapTupleHeaderSetXvac_def HeapTupleHeaderSetSpeculativeToken_def ItemPointerSet_def BlockIdSet_def
      HeapTupleHeaderSetHotUpdated_def HeapTupleHeaderClearHotUpdated_def HeapTupleHeaderSetHeapOnly_def
      HeapTupleHeaderClearHeapOnly_def HeapTupleHeaderSetNatts_def)
    (rule framed_rules | auto)+

lemma header_run_framed:
  assumes "24 \<le> length page" "\<forall>op \<in> set ops. op_bytes op \<subseteq> M \<inter> {..<length page}"
  shows "framed M page (header_run ops page)"
  using assms
proof (induction ops arbitrary: page)
  case Nil
  then show ?case by (simp add: framed_def same_but_def)
next
  case (Cons op ops)
  then have op: "op_bytes op \<subseteq> M" "op_bytes op \<subseteq> {..<length page}" by auto
  have "tup + 22 \<le> length page" if "op_tuple op = Some tup" for tup
  proof -
    have "tup + 21 \<in> op_bytes op" using that by (simp add: op_bytes_def)
    then have "tup + 21 < length page" using op(2) by auto
    then show ?thesis by simp
  qed
  then have "framed (op_bytes op) page (header_do op page)" using header_do_framed Cons.prems(1) by simp
  then have "framed M page (header_do op page)" using op(1) by (auto simp: framed_def intro: same_but_mono)
  moreover have "framed M page' (header_run ops page')" if "length page' = length page" for page'
    using Cons.IH [of page'] Cons.prems that by simp
  ultimately show ?case by (auto intro: framed_bind)
qed

section \<open>The layout the server keeps\<close>

text \<open>
  The offsets of the tuples of a page, and the layout: every item behind the line
  pointers with room for its header, no two items overlapping.
\<close>

definition tuples_of :: "u8 list \<Rightarrow> nat \<Rightarrow> nat list" where
  "tuples_of page n = concat (map (\<lambda>lin. case PageGetItemId page lin of Inl _ \<Rightarrow> []
     | Inr iid \<Rightarrow> [ItemIdGetOffset iid]) [1..<Suc n])"

fun item_room :: "u8 list \<Rightarrow> nat \<Rightarrow> u32 res \<Rightarrow> bool" where
  "item_room page n (Inr iid) \<longleftrightarrow> 24 + 4 * n \<le> ItemIdGetOffset iid
     \<and> (case t_hoff page (ItemIdGetOffset iid) of Inr hoff \<Rightarrow> 23 \<le> hoff | Inl _ \<Rightarrow> False)"
| "item_room page n (Inl _) \<longleftrightarrow> False"

fun items_apart :: "u32 res \<Rightarrow> u32 res \<Rightarrow> bool" where
  "items_apart (Inr i) (Inr j) \<longleftrightarrow> ItemIdGetOffset i + ItemIdGetLength i \<le> ItemIdGetOffset j
     \<or> ItemIdGetOffset j + ItemIdGetLength j \<le> ItemIdGetOffset i"
| "items_apart _ _ \<longleftrightarrow> False"

definition page_layout :: "u8 list \<Rightarrow> nat \<Rightarrow> bool" where
  "page_layout page n \<longleftrightarrow> list_all (\<lambda>lin. item_room page n (PageGetItemId page lin)) [1..<Suc n]
     \<and> list_all (\<lambda>i. list_all (\<lambda>j. i = j \<or> items_apart (PageGetItemId page i) (PageGetItemId page j))
         [1..<Suc n]) [1..<Suc n]"

definition header_bytes :: "u8 list \<Rightarrow> nat \<Rightarrow> nat set" where
  "header_bytes page n = {0..<8} \<union> {10..<12} \<union> {18..<24} \<union> (\<Union>tup \<in> set (tuples_of page n). {tup..<tup + 22})"

definition op_on :: "u8 list \<Rightarrow> nat \<Rightarrow> header_op \<Rightarrow> bool" where
  "op_on page n op \<longleftrightarrow> (case op_tuple op of None \<Rightarrow> True | Some tup \<Rightarrow> tup \<in> set (tuples_of page n))"

lemma tuples_of_iff:
  "tup \<in> set (tuples_of page n) \<longleftrightarrow> (\<exists>k iid. 0 < k \<and> k \<le> n \<and> PageGetItemId page k = Inr iid \<and> tup = ItemIdGetOffset iid)"
proof -
  have s: "set [1..<Suc n] = {k. 0 < k \<and> k \<le> n}" by auto
  have c: "tup \<in> set (case r of Inl _ \<Rightarrow> [] | Inr iid \<Rightarrow> [ItemIdGetOffset iid])
      \<longleftrightarrow> (\<exists>iid. r = Inr iid \<and> tup = ItemIdGetOffset iid)" for r :: "u32 res"
    by (cases r) auto
  show ?thesis unfolding tuples_of_def set_concat set_map s by (auto simp: c; metis)
qed

lemma header_bytes_iff:
  "x \<in> header_bytes page n \<longleftrightarrow> x < 8 \<or> 10 \<le> x \<and> x < 12 \<or> 18 \<le> x \<and> x < 24
    \<or> (\<exists>k iid. 0 < k \<and> k \<le> n \<and> PageGetItemId page k = Inr iid \<and> ItemIdGetOffset iid \<le> x \<and> x < ItemIdGetOffset iid + 22)"
proof -
  have "x \<in> (\<Union>tup \<in> set (tuples_of page n). {tup..<tup + 22}) \<longleftrightarrow> (\<exists>k iid. 0 < k \<and> k \<le> n
      \<and> PageGetItemId page k = Inr iid \<and> ItemIdGetOffset iid \<le> x \<and> x < ItemIdGetOffset iid + 22)"
    unfolding UN_iff Bex_def tuples_of_iff by auto
  then show ?thesis unfolding header_bytes_def by auto
qed

lemma page_bytes_header: "page_bytes op \<subseteq> {0..<8} \<union> {10..<12} \<union> {18..<24}"
  by (cases op) auto

lemma op_on_bytes: "op_on page n op \<Longrightarrow> op_bytes op \<subseteq> header_bytes page n"
  using page_bytes_header [of op]
  by (auto simp: op_on_def op_bytes_def header_bytes_def split: option.splits)

lemma page_layout_item:
  assumes "heap_page page tups" "page_layout page (length tups)" "0 < lin" "lin \<le> length tups"
  obtains iid hoff where "PageGetItemId page lin = Inr iid" "t_hoff page (ItemIdGetOffset iid) = Inr hoff"
    "24 + 4 * length tups \<le> ItemIdGetOffset iid" "23 \<le> hoff" "hoff \<le> ItemIdGetLength iid"
    "ItemIdGetOffset iid + ItemIdGetLength iid \<le> length page"
proof -
  obtain j where j: "lin = Suc j" "j < length tups" using assms(3,4) by (cases lin) auto
  then have "item_data page lin (tups ! j)" using assms(1) by (auto simp: heap_page_def list_all_iff)
  moreover have "item_room page (length tups) (PageGetItemId page lin)"
    using assms(2-4) by (auto simp: page_layout_def list_all_iff)
  ultimately show ?thesis using that by (auto simp: item_data_def split: sum.splits)
qed

lemma reads_headers_apart:
  assumes "heap_page page tups" "page_layout page (length tups)"
  shows "page_reads page [1..<Suc (length tups)] \<inter> header_bytes page (length tups) = {}"
proof (rule equals0I)
  fix x assume "x \<in> page_reads page [1..<Suc (length tups)] \<inter> header_bytes page (length tups)"
  then have x: "x \<in> page_reads page [1..<Suc (length tups)]" "x \<in> header_bytes page (length tups)" by auto
  have tuple: "24 + 4 * length tups \<le> x \<and> (\<exists>k iid. 0 < k \<and> k \<le> length tups \<and> PageGetItemId page k = Inr iid
      \<and> ItemIdGetOffset iid \<le> x \<and> x < ItemIdGetOffset iid + 22)" if "x \<in> {12, 13} \<or> 24 \<le> x"
  proof -
    note x12 = that
    obtain k iid where k: "0 < k" "k \<le> length tups" "PageGetItemId page k = Inr iid"
      "ItemIdGetOffset iid \<le> x" "x < ItemIdGetOffset iid + 22"
      using x(2) x12 by (auto simp: header_bytes_iff)
    with page_layout_item [OF assms k(1,2)] show ?thesis by fastforce
  qed
  consider "x \<in> {12, 13}" | lin where "0 < lin" "lin \<le> length tups" "x \<in> set (item_reads page lin)"
  proof -
    have "x \<in> {12, 13} \<or> (\<exists>lin. 0 < lin \<and> lin \<le> length tups \<and> x \<in> set (item_reads page lin))"
    proof -
      have "set [1..<Suc (length tups)] = {k. 0 < k \<and> k \<le> length tups}" by auto
      from x(1) [unfolded page_reads_def set_concat set_map this] show ?thesis by (auto simp only: Un_iff Union_iff image_iff mem_Collect_eq)
    qed
    then show ?thesis using that by blast
  qed
  then show False
  proof cases
    case 1
    then show False using tuple by auto
  next
    case (2 lin)
    then obtain iid hoff where i: "PageGetItemId page lin = Inr iid" "t_hoff page (ItemIdGetOffset iid) = Inr hoff"
      "24 + 4 * length tups \<le> ItemIdGetOffset iid" "23 \<le> hoff" "hoff \<le> ItemIdGetLength iid"
      using page_layout_item [OF assms 2(1,2)] by blast
    have r: "x \<in> {20 + 4 * lin..<24 + 4 * lin} \<or> x = ItemIdGetOffset iid + 22
        \<or> ItemIdGetOffset iid + 23 \<le> x \<and> x < ItemIdGetOffset iid + ItemIdGetLength iid"
      using 2(3) i by (auto simp: item_reads_def)
    then have "24 \<le> x" using i(3) 2(1) by auto
    then obtain k jid where k: "0 < k" "k \<le> length tups" "PageGetItemId page k = Inr jid"
      "ItemIdGetOffset jid \<le> x" "x < ItemIdGetOffset jid + 22" and x24: "24 + 4 * length tups \<le> x"
      using tuple by blast
    have "ItemIdGetOffset iid + 22 \<le> x" "x < ItemIdGetOffset iid + ItemIdGetLength iid"
      using r x24 2(2) i(4,5) by auto
    moreover have "23 \<le> ItemIdGetLength jid"
      using page_layout_item [OF assms k(1,2)] k(3) by fastforce
    moreover have "lin = k \<or> items_apart (PageGetItemId page lin) (PageGetItemId page k)"
    proof -
      have "lin \<in> set [1..<Suc (length tups)]" "k \<in> set [1..<Suc (length tups)]" using 2(1,2) k(1,2) by auto
      then show ?thesis using assms(2) unfolding page_layout_def list_all_iff by blast
    qed
    ultimately show False using i(1) k(3-5) by auto
  qed
qed

lemma header_run_same:
  assumes "heap_page page tups" "page_layout page (length tups)" "list_all (op_on page (length tups)) ops"
    and "\<forall>page'. header_run ops page = Inr page' \<longrightarrow> item_data page' 0 []"
  shows "\<exists>page'. header_run ops page = Inr page' \<and> heap_page page' tups"
proof -
  have len: "length page = BLCKSZ" using assms(1) by (simp add: heap_page_def)
  have "header_bytes page (length tups) \<subseteq> {..<length page}"
  proof
    fix x assume "x \<in> header_bytes page (length tups)"
    then consider "x < 24" | k iid where "0 < k" "k \<le> length tups" "PageGetItemId page k = Inr iid"
        "x < ItemIdGetOffset iid + 22"
      by (auto simp: header_bytes_iff)
    then show "x \<in> {..<length page}"
    proof cases
      case (2 k iid)
      with page_layout_item [OF assms(1,2) 2(1,2)] show ?thesis by fastforce
    qed (simp add: len BLCKSZ_def)
  qed
  then have "\<forall>op \<in> set ops. op_bytes op \<subseteq> header_bytes page (length tups) \<inter> {..<length page}"
    using assms(3) op_on_bytes by (fastforce simp: list_all_iff)
  then have "framed (header_bytes page (length tups)) page (header_run ops page)"
    using header_run_framed [of page ops] by (simp add: len BLCKSZ_def)
  then obtain page' where p: "header_run ops page = Inr page'" "same_but (header_bytes page (length tups)) page page'"
    by (auto simp: framed_def)
  with heap_page_same [OF p(2) reads_headers_apart [OF assms(1,2)] assms(1)] assms(4) show ?thesis by blast
qed

text \<open>
  C20. Other sessions may update the headers in any order, also while the run is going on: \<open>ops k i b\<close> are
  the assignments to the headers of heap block \<open>b\<close> and its tuples that are done when page \<open>i\<close> of block \<open>k\<close> is packed.
  Suppose that the items of a page do not overlap, lie behind its line pointers and hold their tuple headers, and that the
  prune hint of each page these assignments leave still reads as an empty item, as it does in the pages they start from (with
  another hint the run may fail or read bytes that are no tuple). Then the assignments succeed, and the software run on the pages they leave returns the text for all
  stored rows, the aborted, the deleted and the locked ones alike.
\<close>

theorem visibility_ignored:
  assumes "relation_ok bufPage tupss" and "table tupss lis"
    and "length blk = XQL6_BLK_SZ" and "length (p_word s) = WORD_SZ"
    and "\<forall>k i. length (junk k i) = FIELD_SZ"
    and "\<forall>b < length tupss. page_layout (bufPage b) (length (tupss ! b))
      \<and> (\<forall>k i. list_all (op_on (bufPage b) (length (tupss ! b))) (ops k i b)
        \<and> (\<forall>page'. header_run (ops k i b) (bufPage b) = Inr page' \<longrightarrow> item_data page' 0 []))"
  shows "\<exists>snaps. (\<forall>k i. \<forall>b < length tupss. header_run (ops k i b) (bufPage b) = Inr (snaps k i b))
    \<and> (\<exists>s' tr. xql6_run_sw snaps (length tupss) lin0 junk blk us s
      = Some (Inr (''xql6_run (sw) result '' @ result_text (word_of_int (q6_spec lis))
          @ CHR 0x0A # ''Runtimes (us) Fill '' @ ld (fst us) @ '', Comp '' @ ld (snd us)
          @ ''. #Tups '' @ ld (int (length lis)), s', tr)))"
proof -
  have "\<forall>k i b. \<exists>page'. b < length tupss \<longrightarrow> header_run (ops k i b) (bufPage b) = Inr page' \<and> heap_page page' (tupss ! b)"
    using assms(1,6) header_run_same by (auto simp: relation_ok_def list_all_iff)
  then obtain snaps where b: "\<forall>k i. \<forall>b < length tupss. header_run (ops k i b) (bufPage b) = Inr (snaps k i b)
      \<and> heap_page (snaps k i b) (tupss ! b)"
    by metis
  then have "always_stored snaps tupss" by (simp add: always_stored_def relation_ok_def list_all_iff)
  from xql6_run_sw_law [OF this assms(2-5)] b show ?thesis by blast
qed

text \<open>
  The transaction that inserted the first row turns out to have aborted after the first page has been packed; transaction
  700 has deleted the second, and left the prune hint of the page. Both rows are counted.
\<close>

definition late_ops :: "nat \<Rightarrow> nat \<Rightarrow> nat \<Rightarrow> header_op list" where
  "late_ops k i b = [Set_Prunable (\<lambda>_ _. False) 700, Set_Xmax 8093 700, Set_Full] @ (if i = 0 then [] else [Set_Hint 7994 Hint_Invalid])"

theorem visibility_ignored_witness:
  "\<exists>snaps. (\<forall>k i. header_run (late_ops k i 0) heap1 = Inr (snaps k i 0))
    \<and> (\<exists>s' tr. xql6_run_sw snaps 1 (\<lambda>_ _. 7) (\<lambda>_ _. replicate 16 9) (replicate XQL6_BLK_SZ 0) (1, 2) server_rdr
      = Some (Inr (''xql6_run (sw) result '' @ result_text 12700938
          @ CHR 0x0A # ''Runtimes (us) Fill '' @ ld 1 @ '', Comp '' @ ld 2 @ ''. #Tups '' @ ld 2, s', tr)))"
proof -
  have two: "[1..<Suc 2] = [1, 2]" by (simp add: upt_rec numeral_2_eq_2)
  have pr: "pd_prune_xid heap1 = Inr 0" using heap1_pointers(1)
    by (simp add: PageGetItemId_def pd_prune_xid_def SizeOfPageHeaderData_def sizeof_ItemIdData_def)
  have lay: "page_layout heap1 2"
    unfolding page_layout_def two using heap1_pointers pr by (simp add: line_pointer_fields)
  have ops: "list_all (op_on heap1 2) (late_ops k i b)" for k i b
    unfolding op_on_def tuples_of_def two using heap1_pointers by (simp add: late_ops_def line_pointer_fields)
  have hint: "item_data page' 0 []" if h: "header_run (late_ops k i 0) heap1 = Inr page'" for k i page'
  proof -
    let ?rest = "tl (late_ops k i 0)" and ?M = "{10..<12} \<union> {8093..<8115} \<union> {7994..<8016} :: nat set"
    obtain p1 where p1: "put32 heap1 20 700 = Inr p1" "get32 p1 20 = Inr 700" "same_but {20..<20 + 4} heap1 p1"
      using f32.put_law [of 20 heap1 700] heap1_length by (auto simp: BLCKSZ_def)
    then have l1: "length p1 = 8192" using heap1_length by (simp add: same_but_def BLCKSZ_def)
    have "header_run ?rest p1 = Inr page'"
      using h p1(1) pr by (simp add: late_ops_def PageSetPrunable_def TransactionIdIsValid_def InvalidTransactionId_def)
    moreover have "framed ?M p1 (header_run ?rest p1)"
      by (rule header_run_framed) (auto simp: late_ops_def op_bytes_def l1)
    ultimately have s: "same_but ?M p1 page'" by (simp add: framed_def)
    have "get32 page' 20 = Inr 700" using same_but_get32 [OF s, of 20] p1(2) by simp
    then have x: "pd_prune_xid page' = Inr 700" by (simp add: pd_prune_xid_def)
    have "page' ! 722 = 0" using s p1(3) heap1_bytes(1) by (auto simp: same_but_def)
    moreover have "length page' = BLCKSZ" using s l1 by (simp add: same_but_def BLCKSZ_def)
    ultimately show ?thesis using prune_hint_item [OF x] by (simp add: BLCKSZ_def)
  qed
  show ?thesis
    using visibility_ignored [OF heap1_relation heap1_table, where blk = "replicate XQL6_BLK_SZ 0" and s = server_rdr
      and junk = "\<lambda>_ _. replicate 16 9" and us = "(1, 2)" and ?lin0.0 = "\<lambda>_ _. 7"
      and ops = late_ops, unfolded heap1_sizes heap1_query]
      lay [unfolded numeral_2_eq_2] ops [unfolded numeral_2_eq_2] hint
    by (auto simp: server_rdr_def WORD_SZ_def FIELD_SZ_def)
qed

end
