(* ===== verification/Null_Columns.thy ===== *)
theory Null_Columns
  imports Server_View
begin

text \<open>
  Rows with nulls. The schema allows nulls in all columns but the first three; the server stores a bitmap
  of them in the tuple header and nothing in the user data. Neither engine looks at the header, so
  a row whose last columns are null runs on into the next row.
\<close>

section \<open>A row whose last columns are null\<close>

definition row_without :: "nat \<Rightarrow> lineitem \<Rightarrow> u8 list" where
  "row_without n li = enc_fields 0 0 (take n (payloads li))"

text \<open>The bitmap with the bits of the first \<open>n\<close> columns set, for \<open>n\<close> from 8 to 16.\<close>

definition null_bits :: "nat \<Rightarrow> u8 list" where
  "null_bits n = [0xFF, mask (n - 8)]"

lemma null_bits_isnull:
  assumes "8 \<le> n" "n \<le> 16" "att < 16"
  shows "att_isnull att (null_bits n) = Inr (n \<le> att)"
proof -
  have ff: "(0xFF :: u8) = mask 8" by (simp add: mask_eq_exp_minus_1)
  consider "att < 8" | "8 \<le> att" "att div 8 = 1" "att mod 8 = att - 8"
    using assms(3) by (cases "att < 8") (auto simp: div_if mod_if)
  then show ?thesis
  proof cases
    case 1
    then show ?thesis using assms(1) by (simp add: att_isnull_def null_bits_def rd_def ff bit_simps)
  next
    case 2
    then show ?thesis using assms by (auto simp: att_isnull_def null_bits_def rd_def bit_simps)
  qed
qed

lemma enc_fields_append:
  "enc_fields f ofs (ps @ qs) = enc_fields f ofs ps @ enc_fields (f + length ps) (ofs + length (enc_fields f ofs ps)) qs"
  by (induction ps arbitrary: f ofs) (simp_all add: add.assoc)

lemma row_without_Suc:
  assumes "f < length (payloads li)"
  shows "row_without (Suc f) li = row_without f li @ enc_field f (length (row_without f li)) (payloads li ! f)"
  using assms by (simp add: row_without_def take_Suc_conv_app_nth enc_fields_append)

lemma row_without_more:
  assumes "f \<le> n"
  obtains rest where "row_without n li = row_without f li @ rest"
proof -
  have "take n (payloads li) = take f (payloads li) @ take (n - f) (drop f (payloads li))"
    using take_add [of f "n - f" "payloads li"] assms by simp
  then have "row_without n li = row_without f li @ enc_fields (0 + length (take f (payloads li)))
      (0 + length (enc_fields 0 0 (take f (payloads li)))) (take (n - f) (drop f (payloads li)))"
    by (simp only: row_without_def enc_fields_append)
  then show ?thesis by (rule that)
qed

lemma payload_field:
  assumes "wf_lineitem li" "f < nAttr"
  shows "wf_field f (payloads li ! f)"
  using row_fields(1,2) [OF assms(1)] assms(2) by (auto simp: list_all2_conv_all_nth simp del: upt_Suc upt_rec_numeral)

lemma row_without_keys:
  assumes "wf_lineitem li" "f < 4"
  shows "length (row_without f li) = 8 * f"
  using assms(2)
proof (induction f)
  case (Suc f)
  then have "attrLens ! f = 8" "\<not> align ! f" by (auto simp: attrLens_def align_def less_Suc_eq numeral_nat)
  moreover have "wf_field f (payloads li ! f)" "f < length (payloads li)"
    using payload_field [OF assms(1), of f] Suc.prems row_fields(1) [OF assms(1)] by (simp_all add: nAttr_def)
  ultimately show ?case
    using Suc by (simp add: row_without_Suc enc_field_def pad_len_def wf_field_def)
qed (simp add: row_without_def)

text \<open>The macros find every stored column of the row where it has been stored.\<close>

lemma stored_column:
  assumes "wf_lineitem li" "n \<le> 16" "f < n" "lineitem_atts ! f = (attlen, attalign)"
    and "tp = row_without n li @ r" "ofs = length (row_without f li)"
  shows "\<exists>a q. att_align_pointer ofs attalign attlen tp ofs = Inr a
    \<and> (if attlen = -1 then VARDATA_ANY tp a else Inr a) = Inr q
    \<and> (if attlen = -1 then VARSIZE_ANY_EXHDR tp a else Inr (nat attlen)) = Inr (length (payloads li ! f))
    \<and> subarr tp q (length (payloads li ! f)) = Inr (payloads li ! f)
    \<and> att_addlength_pointer a attlen tp a = Inr (length (row_without (Suc f) li))"
proof -
  have f: "f < nAttr" "f < length (payloads li)" using assms(1-3) row_fields(1) [OF assms(1)] by (simp_all add: nAttr_def)
  obtain rest where rest: "row_without n li = row_without (Suc f) li @ rest"
    using row_without_more [of "Suc f" n li] assms(3) by auto
  have tp: "tp = row_without f li @ enc_field f ofs (payloads li ! f) @ (rest @ r)"
    unfolding assms(5) rest row_without_Suc [OF f(2)] assms(6) by simp
  have "list_all2 wf_field [0..<0 + length (take f (payloads li))] (take f (payloads li))"
    using payload_field [OF assms(1)] f by (auto simp: list_all2_conv_all_nth simp del: upt_Suc upt_rec_numeral)
  then have "length (row_without f li) \<le> 127 * length (take f (payloads li))"
    unfolding row_without_def using f by (intro enc_fields_small) (simp_all add: nAttr_def)
  then have "ofs < 2 ^ 20" using assms(6) f(1) by (simp add: nAttr_def)
  from column_of_field [OF f(1) payload_field [OF assms(1) f(1)] tp [unfolded assms(6)] this [unfolded assms(6)] _ assms(4)]
  show ?thesis using row_without_keys [OF assms(1)] f(2) by (simp add: assms(6) row_without_Suc)
qed

section \<open>The engines run on into the next row\<close>

lemma spec_walk_append:
  "spec_walk buf consume f (ps @ qs) c = rbind (spec_walk buf consume f ps c) (spec_walk buf consume (f + length ps) qs)"
  by (induction ps arbitrary: f c) (simp_all add: rbind_assoc cong: rbind_cong)

lemma spec_walk_take:
  assumes "spec_walk buf consume f ps c = Inr c'"
  obtains c1 where "spec_walk buf consume f (take n ps) c = Inr c1"
  using assms spec_walk_append [of buf consume f "take n ps" "drop n ps" c] unfolding append_take_drop_id
  by (metis rbind_InrE)

lemma fields_loop_append:
  "fields_loop f n c fData s = Inr (False, c', fData', s')
   \<Longrightarrow> fields_loop f (n + m) c fData s = fields_loop (f + n) m c' fData' s'"
proof (induction n arbitrary: f c fData s)
  case (Suc n)
  then show ?case by (fastforce simp: rbind_eq_Inr split: if_splits)
qed simp

lemma k_fields_loop_append:
  "k_fields_loop junk f n os s = Inr (os', s')
   \<Longrightarrow> k_fields_loop junk f (n + m) os s = k_fields_loop junk (f + n) m os' s'"
proof (induction n arbitrary: f os s)
  case (Suc n)
  then show ?case by (fastforce simp: rbind_eq_Inr Let_def split: if_splits)
qed simp

text \<open>The first \<open>n\<close> fields of a row.\<close>

lemma take_fields:
  assumes "wf_lineitem li" "n \<le> 16"
  shows "length (take n (payloads li)) = n" "list_all2 wf_field [0..<0 + length (take n (payloads li))] (take n (payloads li))"
    "0 + length (take n (payloads li)) \<le> nAttr" "length (row_without n li) \<le> 2032"
proof -
  show l: "length (take n (payloads li)) = n" using row_fields(1) [OF assms(1)] assms(2) by (simp add: nAttr_def)
  have "list_all2 wf_field (take n [0..<16]) (take n (payloads li))"
    using row_fields(1,2) [OF assms(1)] by (intro list_all2_takeI) (simp add: nAttr_def del: upt_rec_numeral upt_Suc)
  then show w: "list_all2 wf_field [0..<0 + length (take n (payloads li))] (take n (payloads li))"
    unfolding l using assms(2) by (simp add: take_upt del: upt_rec_numeral upt_Suc)
  show n: "0 + length (take n (payloads li)) \<le> nAttr" using l assms(2) by (simp add: nAttr_def)
  show "length (row_without n li) \<le> 2032"
    using enc_fields_small [OF w n, of 0] l assms(2) by (simp add: row_without_def)
qed

text \<open>The columns that can be missing so that a column of variable length is next.\<close>

lemma var_column: "n \<in> {13, 14, 15} \<Longrightarrow> n < nAttr \<and> attrLens ! n = -1"
  by (auto simp: nAttr_def attrLens_def)

lemma even_header: "even ch \<Longrightarrow> \<not> VARATT_IS_1B_E ch \<and> \<not> VARATT_IS_1B ch" for ch :: u8
  by (auto simp: VARATT_IS_1B_E_def VARATT_IS_1B_def and_one_eq mod2_eq_if)

lemma null_row_swemu:
  assumes "rdr_inv s" "unread s = row_without n li @ ch # r" "wf_lineitem li" "n \<in> {13, 14, 15}" "even ch"
    and "length fData = FIELD_SZ"
  shows "fields_loop 0 nAttr cols0 fData (s\<lparr>off := 0\<rparr>) = Inl NoReturnValue"
proof -
  let ?s = "s\<lparr>off := 0\<rparr>"
  have inv: "rdr_inv ?s" using assms(1) by (simp add: rdr_inv_def)
  have un: "unread ?s = enc_fields 0 (off ?s) (take n (payloads li)) @ ch # r"
    using assms(2) by (simp add: unread_def row_without_def)
  have n: "n \<le> 16" "nAttr = n + Suc (15 - n)" using assms(4) by (auto simp: nAttr_def)
  note t = take_fields [OF assms(3) n(1)]
  have sz: "off ?s + length (enc_fields 0 (off ?s) (take n (payloads li))) < 2 ^ 20"
    using t(4) by (simp add: row_without_def)
  obtain fd where "spec_walk sw_buf sw_consume 0 (payloads li) (cols0, fData) = Inr (cols_of li, fd)"
    using spec_walk_payloads [OF assms(3,6)] by blast
  then obtain cf where "spec_walk sw_buf sw_consume 0 (take n (payloads li)) (cols0, fData) = Inr cf"
    by (rule spec_walk_take)
  moreover obtain c1 fd1 where "cf = (c1, fd1)" by force
  ultimately have "spec_walk sw_buf sw_consume 0 (take n (payloads li)) (cols0, fData) = Inr (c1, fd1)" by simp
  from sw.walk_law [OF inv t(2,3) sz un this, unfolded t(1)] obtain s1 where s1: "walk getFieldLen getField_ok skipBytes sw_buf sw_consume 0 n (cols0, fData) ?s
      = Inr ((c1, fd1), s1)" "rdr_inv s1" "unread s1 = ch # r"
    by blast
  have "getFieldLen n s1 = Inl NoReturnValue"
    using field_length_law [OF _ _ s1(2,3), of n "\<lparr>t_off = 0, pgOff = 0, t_strm = ch # r\<rparr>"]
      var_column [OF assms(4)] even_header [OF assms(5)] by simp
  then have "fields_loop n (Suc (15 - n)) c1 fd1 s1 = Inl NoReturnValue" by simp
  then show ?thesis
    using fields_loop_append [OF fields_loop_walk [OF s1(1)], of "Suc (15 - n)"] by (simp only: n(2) add_0)
qed

lemma null_row_kernel:
  assumes "k_inv s" "t_strm s = row_without n li @ ch # r" "wf_lineitem li" "n \<in> {13, 14, 15}" "even ch"
    and "\<forall>f. length (junk f) = NMRC_FIELD_SZ"
  shows "k_fields_loop junk 0 nAttr os (startTup s) = Inl (ExitCall 10)"
proof -
  let ?s = "startTup s"
  have inv: "k_inv ?s" using assms(1) by (simp add: k_inv_def startTup_def)
  have un: "t_strm ?s = enc_fields 0 (t_off ?s) (take n (payloads li)) @ ch # r"
    using assms(2) by (simp add: startTup_def row_without_def)
  have n: "n \<le> 16" "nAttr = n + Suc (15 - n)" using assms(4) by (auto simp: nAttr_def)
  note t = take_fields [OF assms(3) n(1)]
  have sz: "t_off ?s + length (enc_fields 0 (t_off ?s) (take n (payloads li))) < 2 ^ 20"
    using t(4) by (simp add: row_without_def startTup_def)
  obtain os1 where "spec_walk (\<lambda>f _. junk f) k_consume 0 (payloads li) os = Inr os1"
    using spec_walk_k_payloads [OF assms(3,6)] by blast
  then obtain os2 where w: "spec_walk (\<lambda>f _. junk f) k_consume 0 (take n (payloads li)) os = Inr os2"
    by (rule spec_walk_take)
  from kp.walk_law [OF inv t(2,3) sz un w, unfolded t(1)] obtain s1 where s1: "walk k_field_len k_get k_skipBytes (\<lambda>f _. junk f) k_consume 0 n os ?s
      = Inr (os2, s1)" "k_inv s1" "t_strm s1 = ch # r"
    by blast
  have "k_getFieldLen n s1 = Inl (ExitCall 10)"
    using even_header [OF assms(5)] var_column [OF assms(4)] s1(3) assms(5)
    by (simp add: k_getFieldLen_def k_getByte_def Let_def and_one_eq mod2_eq_if)
  then have "k_fields_loop junk n (Suc (15 - n)) os2 s1 = Inl (ExitCall 10)" by simp
  then show ?thesis
    using k_fields_loop_append [OF k_fields_loop_walk [OF s1(1)], of "Suc (15 - n)"] by (simp only: n(2) add_0)
qed

section \<open>A page with such a row\<close>

lemma null_tuples_swemu:
  assumes "rdr_inv s" "unread s = tuples_bytes lis @ row_without n li @ ch # r" "list_all wf_lineitem lis"
    and "wf_lineitem li" "n \<in> {13, 14, 15}" "even ch" "length fData = FIELD_SZ"
  shows "tuples_loop (length lis + Suc m) acc fData s = Inl NoReturnValue"
  using assms(1-3,7)
proof (induction lis arbitrary: acc fData s)
  case Nil
  then have "unread s = row_without n li @ ch # r" by (simp add: tuples_bytes_def)
  from null_row_swemu [OF Nil(1) this assms(4-6) Nil(4)] show ?case by simp
next
  case (Cons l lis)
  have un: "unread s = enc_tuple l @ (tuples_bytes lis @ row_without n li @ ch # r)"
    using Cons.prems(2) by (simp add: tuples_bytes_def)
  have wf: "wf_lineitem l" "list_all wf_lineitem lis" using Cons.prems(3) by simp_all
  obtain fData' s1 where s1: "fields_loop 0 nAttr cols0 fData (s\<lparr>off := 0\<rparr>) = Inr (False, cols_of l, fData', s1)"
    "length fData' = FIELD_SZ" "rdr_inv s1" "unread s1 = tuples_bytes lis @ row_without n li @ ch # r"
    using tuple_step [OF Cons.prems(1) un wf(1) Cons.prems(4)] .
  from Cons.IH [OF s1(3,4) wf(2) s1(2)] s1(1) show ?case by simp
qed

lemma null_tuples_kernel:
  assumes "k_inv s" "t_strm s = tuples_bytes lis @ row_without n li @ ch # r" "list_all wf_lineitem lis"
    and "wf_lineitem li" "n \<in> {13, 14, 15}" "even ch" "\<forall>t f. length (junk t f) = NMRC_FIELD_SZ"
  shows "k_tuples_loop junk t (length lis + Suc m) os s = Inl (ExitCall 10)"
  using assms(1-3)
proof (induction lis arbitrary: t os s)
  case Nil
  then have "t_strm s = row_without n li @ ch # r" by (simp add: tuples_bytes_def)
  from null_row_kernel [OF Nil(1) this assms(4-6), of "junk t"] assms(7) show ?case by simp
next
  case (Cons l lis)
  have un: "t_strm s = enc_tuple l @ (tuples_bytes lis @ row_without n li @ ch # r)"
    using Cons.prems(2) by (simp add: tuples_bytes_def)
  have wf: "wf_lineitem l" "list_all wf_lineitem lis" using Cons.prems(3) by simp_all
  have j: "\<forall>f. length (junk t f) = NMRC_FIELD_SZ" using assms(7) by simp
  obtain os1 s1 where s1: "k_fields_loop (junk t) 0 nAttr os (startTup s) = Inr (os1, s1)" "k_inv s1"
    "t_strm s1 = tuples_bytes lis @ row_without n li @ ch # r" "decoded os [l] os1"
    using k_tuple_step [OF Cons.prems(1) un wf(1) j, of os] .
  from Cons.IH [OF s1(2,3) wf(2)] s1(1) show ?case by simp
qed

lemma first_column:
  assumes "wf_lineitem li"
  obtains k ps where "payloads li = k # ps" "length k = 8" "hd (l_keys li) = k"
proof -
  obtain k ks where k: "l_keys li = k # ks" using assms by (cases "l_keys li") (auto simp: wf_lineitem_def)
  then obtain ps where p: "payloads li = k # ps" by (simp add: payloads_def)
  have "list_all2 wf_field (0 # [1..<16]) (payloads li)"
    using assms by (simp add: wf_lineitem_def upt_conv_Cons)
  then have "length k = 8" by (simp add: p wf_field_def attrLens_def)
  with p k show ?thesis using that by simp
qed

lemma row_without_longer:
  assumes "wf_lineitem li" "0 < n"
  shows "8 \<le> length (row_without n li)"
proof -
  obtain k ps where "payloads li = k # ps" "length k = 8" "hd (l_keys li) = k" by (rule first_column [OF assms(1)])
  then show ?thesis using assms(2) by (cases n) (simp_all add: row_without_def enc_field_def attrLens_def)
qed

text \<open>
  A packed page with the rows \<open>lis\<close>, the row \<open>li\<close> without its last columns, and the rows \<open>lis'\<close>.
\<close>

definition null_page :: "lineitem list \<Rightarrow> nat \<Rightarrow> lineitem \<Rightarrow> lineitem list \<Rightarrow> u8 list \<Rightarrow> u8 list" where
  "null_page lis n li lis' dead = packed (map enc_tuple lis @ row_without n li # map enc_tuple lis') dead"

lemma null_page_shape:
  assumes "list_all wf_lineitem (lis @ li # lis')" "0 < n" "length (null_page lis n li lis' dead) = PAGE_SZ"
  shows "length lis + Suc (length lis') < 1024"
    "null_page lis n li lis' dead = of_nat ((length lis + Suc (length lis')) mod 256)
      # of_nat ((length lis + Suc (length lis')) div 256) # tuples_bytes lis @ row_without n li @ tuples_bytes lis' @ dead"
proof -
  let ?k = "length lis + Suc (length lis')"
  have "8 * length lis \<le> length (tuples_bytes lis)" "8 \<le> length (row_without n li)"
    "8 * length lis' \<le> length (tuples_bytes lis')"
    using assms(1,2) by (simp_all add: tuples_bytes_longer row_without_longer)
  moreover have "length (tuples_bytes lis) + length (row_without n li) + length (tuples_bytes lis') + 2 \<le> PAGE_SZ"
    using assms(3) by (simp add: null_page_def packed_def tuples_bytes_def)
  ultimately show k: "?k < 1024" by (simp add: PAGE_SZ_def)
  then have "?k div 256 mod 256 = ?k div 256" by simp
  then show "null_page lis n li lis' dead = of_nat (?k mod 256) # of_nat (?k div 256)
      # tuples_bytes lis @ row_without n li @ tuples_bytes lis' @ dead"
    by (simp add: null_page_def packed_def tuples_bytes_def)
qed

lemma next_row_starts:
  assumes "wf_lineitem l"
  obtains r where "enc_tuple l = hd (hd (l_keys l)) # r"
proof -
  obtain k ps where k: "payloads l = k # ps" "length k = 8" "hd (l_keys l) = k" by (rule first_column [OF assms])
  then obtain b bs where "k = b # bs" by (cases k) auto
  then show ?thesis using that k by (simp add: enc_tuple_def enc_field_def attrLens_def pad_len_def align_def)
qed

text \<open>
  C22. A row whose last one to three columns are null is fine for the server: by its macros the bitmap of
  nulls marks exactly these columns, and going from one stored column to the next they find each
  value where it is stored. Both engines take the first byte
  of the next row for the header of the first missing column. When that row has an even order key, the
  emulator falls off the end of \<open>getFieldLen\<close> and the kernel exits, wherever on the page the row is.
\<close>

theorem null_columns_stop_engines:
  assumes "list_all wf_lineitem (lis @ li # l # lis')" and "n \<in> {13, 14, 15}" and "even (hd (hd (l_keys l)))"
    and "length (null_page lis n li (l # lis') dead) = PAGE_SZ"
    and "length fData = FIELD_SZ" and "length (p_word s) = WORD_SZ"
    and "\<forall>t f. length (junk t f) = NMRC_FIELD_SZ"
  shows "(\<forall>att < 16. att_isnull att (null_bits n) = Inr (n \<le> att))
    \<and> (\<forall>f < n. \<forall>attlen attalign tp ofs. lineitem_atts ! f = (attlen, attalign) \<longrightarrow> tp = row_without n li @ r
      \<longrightarrow> ofs = length (row_without f li) \<longrightarrow> (\<exists>a q. att_align_pointer ofs attalign attlen tp ofs = Inr a
        \<and> (if attlen = -1 then VARDATA_ANY tp a else Inr a) = Inr q
        \<and> (if attlen = -1 then VARSIZE_ANY_EXHDR tp a else Inr (nat attlen)) = Inr (length (payloads li ! f))
        \<and> subarr tp q (length (payloads li ! f)) = Inr (payloads li ! f)
        \<and> att_addlength_pointer a attlen tp a = Inr (length (row_without (Suc f) li))))
    \<and> q6_paged fData (s\<lparr>p_buf := null_page lis n li (l # lis') dead\<rparr>) = Inl NoReturnValue
    \<and> k_q6_paged junk (null_page lis n li (l # lis') dead @ rest) = Inl (ExitCall 10)"
proof -
  let ?k = "length lis + Suc (length (l # lis'))" and ?pg = "null_page lis n li (l # lis') dead"
  have wf: "list_all wf_lineitem lis" "wf_lineitem li" "wf_lineitem l" using assms(1) by simp_all
  have n: "8 \<le> n" "n \<le> 16" "0 < n" using assms(2) by auto
  note shape = null_page_shape [OF assms(1) n(3) assms(4)]
  have le: "le16 (of_nat (?k mod 256)) (of_nat (?k div 256)) = ?k"
    using shape(1) by (simp add: le16_def unat_of_nat_u8)
  obtain tl where tl: "enc_tuple l = hd (hd (l_keys l)) # tl" using next_row_starts [OF wf(3)] .
  let ?data = "tuples_bytes lis @ row_without n li @ hd (hd (l_keys l)) # tl @ tuples_bytes lis' @ dead"
  have pg: "?pg = of_nat (?k mod 256) # of_nat (?k div 256) # ?data"
    using shape(2) tl by (simp add: tuples_bytes_def)
  have "q6_paged fData (s\<lparr>p_buf := ?pg\<rparr>) = Inl NoReturnValue"
  proof -
    let ?s = "resetBuf (s\<lparr>p_buf := ?pg\<rparr>)"
    have un: "unread ?s = of_nat (?k mod 256) # of_nat (?k div 256) # ?data"
      using resetBuf_inv(2) [OF assms(4,6)] unfolding pg .
    obtain s1 where s1: "getHeaderInt ?s = Inr (?k, s1)" "rdr_inv s1" "unread s1 = ?data"
      using getHeaderInt_law [OF resetBuf_inv(1) [OF assms(4,6)] un] unfolding le by blast
    have "tuples_loop ?k 0 fData s1 = Inl NoReturnValue"
      by (rule null_tuples_swemu [OF s1(2,3) wf(1,2) assms(2,3,5)])
    with s1(1) show ?thesis by (simp add: q6_paged_def del: tuples_loop.simps)
  qed
  moreover have "k_q6_paged junk (?pg @ rest) = Inl (ExitCall 10)"
  proof -
    let ?n = "push_bit 8 (ucast (of_nat (?k div 256) :: u8)) OR ucast (of_nat (?k mod 256) :: u8) :: u16"
    have dl: "length ?data = PAGE_SZ - 2" using assms(4) unfolding pg by simp
    have hd: "getHeaderInt2 (?pg @ rest) = Inr (replicate 6 [?n], ?data, rest)"
      using copy_loop_law [of ?data rest "[]"] unfolding dl pg
      by (simp add: getHeaderInt2_def Let_def)
    have "nat (sint (of_nat k :: u16)) = k" if "k < 1024" for k
      using that by (simp add: signed_of_nat signed_take_bit_int_eq_self)
    from this [OF shape(1)] have cnt: "nat (sint ?n) = ?k" unfolding le16_or le .
    have inv: "k_inv (TupParser ?data)" using dl by (simp add: k_inv_def TupParser_def PAGE_SZ_def)
    have st: "t_strm (TupParser ?data) = ?data" by (simp add: TupParser_def)
    have "k_tuples_loop junk 0 ?k no_fields (TupParser ?data) = Inl (ExitCall 10)"
      by (rule null_tuples_kernel [OF inv st wf(1,2) assms(2,3,7)])
    then have "q6_filter junk [?n] ?data = Inl (ExitCall 10)"
      unfolding q6_filter_def q6_filter_from_def using cnt by simp
    with hd show ?thesis by (simp add: k_q6_paged_def)
  qed
  moreover have "\<forall>att < 16. att_isnull att (null_bits n) = Inr (n \<le> att)" using null_bits_isnull [OF n(1,2)] by simp
  ultimately show ?thesis using stored_column [OF wf(2) n(2)] by blast
qed

definition row_even :: lineitem where
  "row_even = row1\<lparr>l_keys := [replicate 8 2, replicate 8 2, replicate 8 3, replicate 4 4]\<rparr>"

lemma row_even_wf: "wf_lineitem row_even"
  by (simp add: row_even_def row1_def wf_lineitem_def wf_money_def wf_snum_def payloads_def wf_field_def
      attrLens_def upt_conv_Cons enc_snum_def enc_date_def enc_digit_def)

definition null_rest :: "u8 list" where
  "null_rest = replicate (8190 - length (tuples_bytes [row1] @ row_without 15 row2 @ tuples_bytes [row_even])) 0"

lemma null_rest_page: "length (null_page [row1] 15 row2 [row_even] null_rest) = PAGE_SZ"
proof -
  have "length (tuples_bytes [row1] @ row_without 15 row2 @ tuples_bytes [row_even]) \<le> 8190"
    using take_fields(4) [OF row2_wf, of 15] row_fields(3) [OF row_even_wf] row_lengths(1) by (simp add: tuples_bytes_def)
  then show ?thesis
    by (simp add: null_page_def packed_def null_rest_def tuples_bytes_def PAGE_SZ_def)
qed

theorem null_columns_stop_engines_witness:
  "att_isnull 14 (null_bits 15) = Inr False \<and> att_isnull 15 (null_bits 15) = Inr True
    \<and> (\<exists>a q. att_align_pointer (length (row_without 14 row2)) (CHR ''i'') (-1) (row_without 15 row2 @ [5]) (length (row_without 14 row2)) = Inr a
        \<and> VARDATA_ANY (row_without 15 row2 @ [5]) a = Inr q
        \<and> subarr (row_without 15 row2 @ [5]) q (length (payloads row2 ! 14)) = Inr (payloads row2 ! 14))
    \<and> q6_paged (replicate 16 0) (server_rdr\<lparr>p_buf := null_page [row1] 15 row2 [row_even] null_rest\<rparr>) = Inl NoReturnValue
    \<and> k_q6_paged (\<lambda>_ _. replicate 16 0) (null_page [row1] 15 row2 [row_even] null_rest @ []) = Inl (ExitCall 10)"
proof -
  have w: "list_all wf_lineitem ([row1] @ row2 # row_even # [])" by (simp add: row1_wf row2_wf row_even_wf)
  have ev: "even (hd (hd (l_keys row_even)))" by (simp add: row_even_def)
  have c: "15 \<in> {13, 14, 15 :: nat}" "length (replicate 16 (0 :: u8)) = FIELD_SZ" "length (p_word server_rdr) = WORD_SZ"
    "\<forall>t f. length (replicate 16 (0 :: u8)) = NMRC_FIELD_SZ"
    by (simp_all add: FIELD_SZ_def WORD_SZ_def NMRC_FIELD_SZ_def server_rdr_def)
  have at: "lineitem_atts ! 14 = (-1, CHR ''i'')" by (simp add: lineitem_atts_def typ_bpchar_def)
  note N = null_columns_stop_engines [where lis = "[row1]" and li = row2 and l = row_even and lis' = "[]" and n = 15
      and junk = "\<lambda>_ _. replicate 16 0" and r = "[5]" and rest = "[]",
      OF w c(1) ev null_rest_page c(2-4)]
  note A = N [THEN conjunct1, THEN spec] and B = N [THEN conjunct2, THEN conjunct1, THEN spec, of 14]
  have "\<exists>a q. att_align_pointer (length (row_without 14 row2)) (CHR ''i'') (-1) (row_without 15 row2 @ [5]) (length (row_without 14 row2)) = Inr a
        \<and> VARDATA_ANY (row_without 15 row2 @ [5]) a = Inr q
        \<and> subarr (row_without 15 row2 @ [5]) q (length (payloads row2 ! 14)) = Inr (payloads row2 ! 14)"
    using B at by force
  then show ?thesis using A [of 14] A [of 15] N [THEN conjunct2, THEN conjunct2] by simp
qed

end
