(* ===== verification/Attributes.thy ===== *)
theory Attributes
  imports Server_View Tuple_Header
begin

unbundle bit_operations_syntax

text \<open>
  How the server gets at a single attribute of a stored tuple: the conversions of \<^verbatim>\<open>postgres.h\<close> between values
  and datums, reading and writing an attribute of \<^verbatim>\<open>access/tupmacs.h\<close>, and the look-up by the
  number of the column of \<^verbatim>\<open>access/htup_details.h\<close>; and which values of variable length
  the server stores with the short headers the programs rely on. A datum has 64 bits and holds values of up to eight
  bytes itself.
\<close>

section \<open>Values and datums\<close>

type_synonym Datum = "64 word"

definition GET_1_BYTE :: "Datum \<Rightarrow> Datum" where "GET_1_BYTE datum = datum AND 0x000000ff"
definition GET_2_BYTES :: "Datum \<Rightarrow> Datum" where "GET_2_BYTES datum = datum AND 0x0000ffff"
definition GET_4_BYTES :: "Datum \<Rightarrow> Datum" where "GET_4_BYTES datum = datum AND 0xffffffff"
definition GET_8_BYTES :: "Datum \<Rightarrow> Datum" where "GET_8_BYTES datum = datum"
definition SET_1_BYTE :: "Datum \<Rightarrow> Datum" where "SET_1_BYTE v = v AND 0x000000ff"
definition SET_2_BYTES :: "Datum \<Rightarrow> Datum" where "SET_2_BYTES v = v AND 0x0000ffff"
definition SET_4_BYTES :: "Datum \<Rightarrow> Datum" where "SET_4_BYTES v = v AND 0xffffffff"
definition SET_8_BYTES :: "Datum \<Rightarrow> Datum" where "SET_8_BYTES v = v"

text \<open>The cast of a signed value to a datum extends its sign, that of an unsigned one does not.\<close>

definition DatumGetBool :: "Datum \<Rightarrow> bool" where "DatumGetBool X \<longleftrightarrow> GET_1_BYTE X \<noteq> 0"
definition BoolGetDatum :: "bool \<Rightarrow> Datum" where "BoolGetDatum X = (if X then 1 else 0)"
definition DatumGetChar :: "Datum \<Rightarrow> u8" where "DatumGetChar X = ucast (GET_1_BYTE X)"
definition CharGetDatum :: "u8 \<Rightarrow> Datum" where "CharGetDatum X = SET_1_BYTE (scast X)"
definition DatumGetUInt8 :: "Datum \<Rightarrow> u8" where "DatumGetUInt8 X = ucast (GET_1_BYTE X)"
definition UInt8GetDatum :: "u8 \<Rightarrow> Datum" where "UInt8GetDatum X = SET_1_BYTE (ucast X)"
definition DatumGetInt16 :: "Datum \<Rightarrow> u16" where "DatumGetInt16 X = ucast (GET_2_BYTES X)"
definition Int16GetDatum :: "u16 \<Rightarrow> Datum" where "Int16GetDatum X = SET_2_BYTES (scast X)"
definition DatumGetUInt16 :: "Datum \<Rightarrow> u16" where "DatumGetUInt16 X = ucast (GET_2_BYTES X)"
definition UInt16GetDatum :: "u16 \<Rightarrow> Datum" where "UInt16GetDatum X = SET_2_BYTES (ucast X)"
definition DatumGetInt32 :: "Datum \<Rightarrow> u32" where "DatumGetInt32 X = ucast (GET_4_BYTES X)"
definition Int32GetDatum :: "u32 \<Rightarrow> Datum" where "Int32GetDatum X = SET_4_BYTES (scast X)"
definition DatumGetUInt32 :: "Datum \<Rightarrow> u32" where "DatumGetUInt32 X = ucast (GET_4_BYTES X)"
definition UInt32GetDatum :: "u32 \<Rightarrow> Datum" where "UInt32GetDatum X = SET_4_BYTES (ucast X)"
definition DatumGetObjectId :: "Datum \<Rightarrow> u32" where "DatumGetObjectId X = ucast (GET_4_BYTES X)"
definition ObjectIdGetDatum :: "u32 \<Rightarrow> Datum" where "ObjectIdGetDatum X = SET_4_BYTES (ucast X)"
definition DatumGetTransactionId :: "Datum \<Rightarrow> u32" where "DatumGetTransactionId X = ucast (GET_4_BYTES X)"
definition TransactionIdGetDatum :: "u32 \<Rightarrow> Datum" where "TransactionIdGetDatum X = SET_4_BYTES (ucast X)"
definition DatumGetCommandId :: "Datum \<Rightarrow> u32" where "DatumGetCommandId X = ucast (GET_4_BYTES X)"
definition CommandIdGetDatum :: "u32 \<Rightarrow> Datum" where "CommandIdGetDatum X = SET_4_BYTES (ucast X)"
definition DatumGetInt64 :: "Datum \<Rightarrow> i64" where "DatumGetInt64 X = GET_8_BYTES X"
definition Int64GetDatum :: "i64 \<Rightarrow> Datum" where "Int64GetDatum X = SET_8_BYTES X"
definition DatumGetUInt64 :: "Datum \<Rightarrow> 64 word" where "DatumGetUInt64 X = GET_8_BYTES X"
definition UInt64GetDatum :: "64 word \<Rightarrow> Datum" where "UInt64GetDatum X = SET_8_BYTES X"

text \<open>
  A type passed by value: what is put into a datum comes back, and bytes of the datum above the width of the type
  play no part.
\<close>

locale datum_type =
  fixes of_datum :: "Datum \<Rightarrow> 'v" and to_datum :: "'v \<Rightarrow> Datum" and bits :: nat
  assumes back_law: "of_datum (to_datum v) = v"
    and width_law: "to_datum (of_datum d) = d AND mask bits"
begin

lemma to_inj: "to_datum v = to_datum w \<longleftrightarrow> v = w"
  using back_law by metis

lemma of_eq: "of_datum d = of_datum d' \<longleftrightarrow> d AND mask bits = d' AND mask bits"
  using back_law width_law by metis

lemma to_mask: "to_datum v AND mask bits = to_datum v"
  using back_law width_law by metis

end

lemma datum_masks: "(0x000000ff :: Datum) = mask 8" "(0x0000ffff :: Datum) = mask 16" "(0xffffffff :: Datum) = mask 32"
  by (simp_all add: mask_eq_exp_minus_1)

lemmas datum_bytes = GET_1_BYTE_def GET_2_BYTES_def GET_4_BYTES_def GET_8_BYTES_def SET_1_BYTE_def SET_2_BYTES_def
  SET_4_BYTES_def SET_8_BYTES_def datum_masks

interpretation char_datum: datum_type DatumGetChar CharGetDatum 8
  by unfold_locales (rule bit_word_eqI; auto simp: DatumGetChar_def CharGetDatum_def datum_bytes bit_simps)+
interpretation uint8_datum: datum_type DatumGetUInt8 UInt8GetDatum 8
  by unfold_locales (rule bit_word_eqI; auto simp: DatumGetUInt8_def UInt8GetDatum_def datum_bytes bit_simps)+
interpretation int16_datum: datum_type DatumGetInt16 Int16GetDatum 16
  by unfold_locales (rule bit_word_eqI; auto simp: DatumGetInt16_def Int16GetDatum_def datum_bytes bit_simps)+
interpretation uint16_datum: datum_type DatumGetUInt16 UInt16GetDatum 16
  by unfold_locales (rule bit_word_eqI; auto simp: DatumGetUInt16_def UInt16GetDatum_def datum_bytes bit_simps)+
interpretation int32_datum: datum_type DatumGetInt32 Int32GetDatum 32
  by unfold_locales (rule bit_word_eqI; auto simp: DatumGetInt32_def Int32GetDatum_def datum_bytes bit_simps)+
interpretation uint32_datum: datum_type DatumGetUInt32 UInt32GetDatum 32
  by unfold_locales (rule bit_word_eqI; auto simp: DatumGetUInt32_def UInt32GetDatum_def datum_bytes bit_simps)+
interpretation oid_datum: datum_type DatumGetObjectId ObjectIdGetDatum 32
  using uint32_datum.datum_type_axioms
  unfolding DatumGetUInt32_def UInt32GetDatum_def DatumGetObjectId_def ObjectIdGetDatum_def .
interpretation xid_datum: datum_type DatumGetTransactionId TransactionIdGetDatum 32
  using uint32_datum.datum_type_axioms
  unfolding DatumGetUInt32_def UInt32GetDatum_def DatumGetTransactionId_def TransactionIdGetDatum_def .
interpretation cid_datum: datum_type DatumGetCommandId CommandIdGetDatum 32
  using uint32_datum.datum_type_axioms
  unfolding DatumGetUInt32_def UInt32GetDatum_def DatumGetCommandId_def CommandIdGetDatum_def .
interpretation int64_datum: datum_type DatumGetInt64 Int64GetDatum 64
  by unfold_locales (rule bit_word_eqI; auto simp: DatumGetInt64_def Int64GetDatum_def datum_bytes bit_simps)+
interpretation uint64_datum: datum_type DatumGetUInt64 UInt64GetDatum 64
  by unfold_locales (rule bit_word_eqI; auto simp: DatumGetUInt64_def UInt64GetDatum_def datum_bytes bit_simps)+

lemma bool_datum: "DatumGetBool (BoolGetDatum X) = X"
  by (simp add: DatumGetBool_def BoolGetDatum_def GET_1_BYTE_def)

section \<open>Reading and writing an attribute\<close>

definition get64 :: "u8 list \<Rightarrow> nat \<Rightarrow> 64 word res" where
  "get64 b p = rbind (get32 b p) (\<lambda>lo. rbind (get32 b (p + 4)) (\<lambda>hi. Inr (ucast lo OR push_bit 32 (ucast hi))))"

definition put64 :: "u8 list \<Rightarrow> nat \<Rightarrow> 64 word \<Rightarrow> u8 list res" where
  "put64 b p v = rbind (put32 b p (ucast v)) (\<lambda>b. put32 b (p + 4) (ucast (drop_bit 32 v)))"

text \<open>
  A datum is a value, or a pointer; a pointer into a tuple is an index of its bytes. The macros are those
  for datums of eight bytes.
\<close>

datatype attribute = By_Value Datum | By_Pointer nat

definition fetch_att :: "u8 list \<Rightarrow> nat \<Rightarrow> bool \<Rightarrow> int \<Rightarrow> attribute res" where
  "fetch_att b T attbyval attlen =
     (if attbyval then
        if attlen = 8 then rbind (get64 b T) (\<lambda>v. Inr (By_Value v))
        else if attlen = 4 then rbind (get32 b T) (\<lambda>v. Inr (By_Value (Int32GetDatum v)))
        else if attlen = 2 then rbind (get_u16 b T) (\<lambda>v. Inr (By_Value (Int16GetDatum v)))
        else rbind (rd b T) (\<lambda>v. Inr (By_Value (CharGetDatum v)))
      else Inr (By_Pointer T))"

definition store_att_byval :: "u8 list \<Rightarrow> nat \<Rightarrow> Datum \<Rightarrow> int \<Rightarrow> u8 list res" where
  "store_att_byval b T newdatum attlen =
     (if attlen = 1 then wr b T (DatumGetChar newdatum)
      else if attlen = 2 then put16 b T (DatumGetInt16 newdatum)
      else if attlen = 4 then put32 b T (DatumGetInt32 newdatum)
      else if attlen = 8 then put64 b T newdatum
      else Inl (Ereport (''unsupported byval length: '' @ ld attlen)))"

interpretation f64: memory_field get64 put64 8
proof
  show "\<exists>v. get64 page p = Inr v" if "p + 8 \<le> length page" for p page
    using that by (simp add: get64_def get32_def get16_def)
  show "\<exists>page'. put64 page p v = Inr page' \<and> get64 page' p = Inr v \<and> same_but {p..<p + 8} page page'"
    if l: "p + 8 \<le> length page" for p page v
  proof -
    obtain p1 where p1: "put32 page p (ucast v) = Inr p1" "get32 p1 p = Inr (ucast v)" "same_but {p..<p + 4} page p1"
      using f32.put_law [of p page "ucast v"] l by auto
    then obtain p2 where p2: "put32 p1 (p + 4) (ucast (drop_bit 32 v)) = Inr p2"
      "get32 p2 (p + 4) = Inr (ucast (drop_bit 32 v))" "same_but {p + 4..<p + 4 + 4} p1 p2"
      using f32.put_law [of "p + 4" p1 "ucast (drop_bit 32 v)"] l by (auto simp: same_but_def)
    have "get32 p2 p = get32 p1 p" by (rule same_but_get32 [OF p2(3)]) auto
    moreover have "ucast (ucast v :: u32) OR push_bit 32 (ucast (ucast (drop_bit 32 v) :: u32)) = v"
      by (rule bit_word_eqI) (auto simp: bit_simps)
    moreover have "{p..<p + 4} \<union> {p + 4..<p + 4 + 4} = {p..<p + 8}" by auto
    ultimately show ?thesis
      using p1 p2 same_but_trans [OF p1(3) p2(3)] by (auto simp: get64_def put64_def)
  qed
qed

interpretation f8: memory_field rd wr 1
  by unfold_locales (auto simp: same_but_def)

text \<open>
  What \<^verbatim>\<open>store_att_byval\<close> writes, \<^verbatim>\<open>fetch_att\<close> reads: of the datum, the bytes that belong to the type.
\<close>

lemma fetch_store:
  assumes "n \<in> {1, 2, 4, 8}" "T + n \<le> length b"
  shows "\<exists>b'. store_att_byval b T d (int n) = Inr b' \<and> same_but {T..<T + n} b b'
    \<and> fetch_att b' T True (int n) = Inr (By_Value (d AND mask (8 * n)))"
proof -
  consider "n = 1" | "n = 2" | "n = 4" | "n = 8" using assms(1) by blast
  then show ?thesis
  proof cases
    case 1
    then show ?thesis using f8.put_law [of T b "DatumGetChar d"] assms(2) char_datum.width_law [of d]
      by (auto simp: store_att_byval_def fetch_att_def)
  next
    case 2
    then show ?thesis using f16.put_law [of T b "DatumGetInt16 d"] assms(2) int16_datum.width_law [of d]
      by (auto simp: store_att_byval_def fetch_att_def)
  next
    case 3
    then show ?thesis using f32.put_law [of T b "DatumGetInt32 d"] assms(2) int32_datum.width_law [of d]
      by (auto simp: store_att_byval_def fetch_att_def)
  next
    case 4
    have "d AND mask 64 = d" by (rule bit_word_eqI) (auto simp: bit_simps)
    then show ?thesis using f64.put_law [of T b d] assms(2) 4
      by (auto simp: store_att_byval_def fetch_att_def)
  qed
qed

section \<open>Short and long values\<close>

definition VARATT_IS_SHORT :: "u8 \<Rightarrow> bool" where "VARATT_IS_SHORT h = VARATT_IS_1B h"
definition VARATT_IS_EXTENDED :: "u8 \<Rightarrow> bool" where "VARATT_IS_EXTENDED h \<longleftrightarrow> \<not> VARATT_IS_4B_U h"
definition VARATT_IS_COMPRESSED :: "u8 \<Rightarrow> bool" where "VARATT_IS_COMPRESSED h = VARATT_IS_4B_C h"
definition VARATT_IS_EXTERNAL :: "u8 \<Rightarrow> bool" where "VARATT_IS_EXTERNAL h = VARATT_IS_1B_E h"
definition VARATT_SHORT_MAX :: nat where "VARATT_SHORT_MAX = 0x7F"

text \<open>The size is taken as an unsigned 32-bit value before the size of the short header is added.\<close>

definition VARATT_CONVERTED_SHORT_SIZE :: "u8 list \<Rightarrow> nat \<Rightarrow> nat res" where
  "VARATT_CONVERTED_SHORT_SIZE b p = rbind (VARSIZE_4B b p) (\<lambda>n.
     Inr (unat (of_nat n - of_nat VARHDRSZ :: u32) + VARHDRSZ_SHORT))"

definition VARATT_CAN_MAKE_SHORT :: "u8 list \<Rightarrow> nat \<Rightarrow> bool res" where
  "VARATT_CAN_MAKE_SHORT b p = rbind (rd b p) (\<lambda>h. if VARATT_IS_4B_U h
     then rbind (VARATT_CONVERTED_SHORT_SIZE b p) (\<lambda>n. Inr (n \<le> VARATT_SHORT_MAX)) else Inr False)"

text \<open>The offset a value gets in a tuple that is built; \<open>b\<close> and \<open>p\<close> are the datum.\<close>

definition att_align_datum :: "nat \<Rightarrow> char \<Rightarrow> int \<Rightarrow> u8 list \<Rightarrow> nat \<Rightarrow> nat res" where
  "att_align_datum cur_offset attalign attlen b p =
     (if attlen = -1 then rbind (rd b p) (\<lambda>h. Inr (if VARATT_IS_SHORT h then cur_offset
        else att_align_nominal cur_offset attalign))
      else Inr (att_align_nominal cur_offset attalign))"

definition att_addlength_datum :: "nat \<Rightarrow> int \<Rightarrow> u8 list \<Rightarrow> nat \<Rightarrow> nat res" where
  "att_addlength_datum cur_offset attlen b p = att_addlength_pointer cur_offset attlen b p"

text \<open>
  A value put where the writing macro says, with zeros before it, is found there by the
  reading macro, whatever its header.
\<close>

lemma align_pointer_datum:
  assumes "att_align_datum cur c attlen d 0 = Inr a" "a < length tp" "cur < length tp" "tp ! a = d ! 0"
    and "\<forall>i. cur \<le> i \<and> i < a \<longrightarrow> tp ! i = 0" "cur \<le> a"
  shows "att_align_pointer cur c attlen tp cur = Inr a"
proof (cases "attlen = -1")
  case False
  then show ?thesis using assms(1) by (simp add: att_align_datum_def att_align_pointer_def)
next
  case True
  then have d: "d \<noteq> []" "a = (if VARATT_IS_SHORT (d ! 0) then cur else att_align_nominal cur c)"
    using assms(1) by (auto simp: att_align_datum_def rd_def rbind_eq_Inr split: if_splits)
  show ?thesis
  proof (cases "VARATT_IS_SHORT (d ! 0)")
    case True
    moreover from this have "VARATT_NOT_PAD_BYTE (d ! 0)"
      by (auto simp: VARATT_IS_SHORT_def VARATT_IS_1B_def VARATT_NOT_PAD_BYTE_def)
    ultimately show ?thesis using \<open>attlen = -1\<close> d(2) assms(3,4) by (simp add: att_align_pointer_def)
  next
    case False
    then have a: "a = att_align_nominal cur c" using d(2) by simp
    show ?thesis
    proof (cases "a = cur")
      case True
      then show ?thesis using a \<open>attlen = -1\<close> assms(3) by (simp add: att_align_pointer_def)
    next
      case False
      then have "tp ! cur = 0" using assms(5,6) by simp
      then show ?thesis using a \<open>attlen = -1\<close> assms(3) by (simp add: att_align_pointer_def VARATT_NOT_PAD_BYTE_def)
    qed
  qed
qed

lemma put32_first:
  assumes "put32 b p v = Inr b'"
  shows "b' ! p = ucast v"
proof -
  have "b' ! p = ucast (ucast v :: u16)"
    using assms by (auto simp: put32_def put16_def wr_def rbind_eq_Inr split: if_splits)
  then show ?thesis by (simp only:) (rule bit_word_eqI, auto simp: bit_simps)
qed

text \<open>A value of \<open>n\<close> bytes is made short exactly when \<open>n\<close> is at most 126.\<close>

lemma can_make_short:
  assumes "p + 4 \<le> length b" "n + VARHDRSZ < 2 ^ 30" "SET_VARSIZE_4B b p (of_nat (n + VARHDRSZ)) = Inr b'"
  shows "VARSIZE_4B b' p = Inr (n + VARHDRSZ)" "VARATT_IS_EXTENDED (b' ! p) = False"
    "VARATT_CAN_MAKE_SHORT b' p = Inr (n \<le> 126)"
proof -
  let ?w = "push_bit 2 (of_nat (n + VARHDRSZ)) :: u32"
  have small: "unat (of_nat N :: u32) = N" if "N < 2 ^ 30" for N
    using that by (simp add: unat_of_nat take_bit_nat_eq_self)
  obtain l: "put32 b p ?w = Inr b'" "get32 b' p = Inr ?w" "length b' = length b"
    using f32.put_law [OF assms(1), of ?w] assms(3) by (auto simp: SET_VARSIZE_4B_def same_but_def)
  have "(of_nat (n + VARHDRSZ) :: u32) < 2 ^ 30" using assms(2) small [OF assms(2)] unfolding word_less_nat_alt by simp
  from datum_length_set [OF assms(1) this] show s: "VARSIZE_4B b' p = Inr (n + VARHDRSZ)"
    using assms(3) small [OF assms(2)]
    by (auto simp: HeapTupleHeaderSetDatumLength_def HeapTupleHeaderGetDatumLength_def simp del: of_nat_add)
  have h: "b' ! p = ucast ?w" by (rule put32_first [OF l(1)])
  have "(ucast ?w :: u8) AND mask 2 = 0" by (rule bit_word_eqI) (auto simp: bit_simps)
  then have "(ucast ?w :: u8) AND 3 = 0" by (simp add: mask_eq_exp_minus_1)
  then have e: "VARATT_IS_4B_U (b' ! p)" by (simp add: VARATT_IS_4B_U_def h)
  then show "VARATT_IS_EXTENDED (b' ! p) = False" by (simp add: VARATT_IS_EXTENDED_def)
  have "(of_nat (n + VARHDRSZ) - of_nat VARHDRSZ :: u32) = of_nat n" by simp
  moreover have "unat (of_nat n :: u32) = n" using assms(2) by (intro small) simp
  ultimately show "VARATT_CAN_MAKE_SHORT b' p = Inr (n \<le> 126)"
    using e s assms(1) l(3)
    by (auto simp: VARATT_CAN_MAKE_SHORT_def VARATT_CONVERTED_SHORT_SIZE_def VARHDRSZ_SHORT_def VARATT_SHORT_MAX_def)
qed

text \<open>The columns of variable length of the rows the programs are right about are those the server stores short.\<close>

lemma wf_field_short:
  assumes "attrLens ! f = -1" "length p + VARHDRSZ < 2 ^ 30"
    and "SET_VARSIZE_4B (replicate VARHDRSZ 0 @ p) 0 (of_nat (length p + VARHDRSZ)) = Inr d"
  shows "VARATT_CAN_MAKE_SHORT d 0 = Inr (wf_field f p)"
  using can_make_short(3) [OF _ assms(2,3)] assms(1) by (simp add: VARHDRSZ_def wf_field_def)

section \<open>An attribute by its number\<close>

text \<open>The part of a row of pg_attribute that is used.\<close>

record Form_pg_attribute =
  attbyval :: bool
  attlen :: int
  attalign :: char
  attcacheoff :: int

definition fetchatt :: "Form_pg_attribute \<Rightarrow> u8 list \<Rightarrow> nat \<Rightarrow> attribute res" where
  "fetchatt A b T = fetch_att b T (attbyval A) (attlen A)"

text \<open>
  The result is the datum and \<open>isnull\<close>. \<open>nocachegetattr\<close>, which walks to an attribute without a known
  offset, and \<open>heap_getsysattr\<close> are functions of the server. The bitmap of nulls starts at byte 23
  of the header.
\<close>

type_synonym getattr = "u8 list \<Rightarrow> nat \<Rightarrow> int \<Rightarrow> Form_pg_attribute list \<Rightarrow> attribute res"

definition fastgetattr :: "getattr \<Rightarrow> u8 list \<Rightarrow> nat \<Rightarrow> int \<Rightarrow> Form_pg_attribute list \<Rightarrow> (attribute \<times> bool) res" where
  "fastgetattr nocachegetattr page tup attnum tupleDesc =
     rbind (HeapTupleNoNulls page tup) (\<lambda>noNulls.
     if noNulls then rbind (rd tupleDesc (nat (attnum - 1))) (\<lambda>A.
       if 0 \<le> attcacheoff A then rbind (t_hoff page tup) (\<lambda>hoff.
         rbind (fetchatt A page (tup + hoff + nat (attcacheoff A))) (\<lambda>d. Inr (d, False)))
       else rbind (nocachegetattr page tup attnum tupleDesc) (\<lambda>d. Inr (d, False)))
     else rbind (att_isnull (nat (attnum - 1)) (drop (tup + 23) page)) (\<lambda>null.
       if null then Inr (By_Value 0, True)
       else rbind (nocachegetattr page tup attnum tupleDesc) (\<lambda>d. Inr (d, False))))"

definition heap_getattr :: "getattr \<Rightarrow> (u8 list \<Rightarrow> nat \<Rightarrow> int \<Rightarrow> Form_pg_attribute list \<Rightarrow> (attribute \<times> bool) res)
    \<Rightarrow> u8 list \<Rightarrow> nat \<Rightarrow> int \<Rightarrow> Form_pg_attribute list \<Rightarrow> (attribute \<times> bool) res" where
  "heap_getattr nocachegetattr heap_getsysattr page tup attnum tupleDesc =
     (if attnum > 0 then rbind (HeapTupleHeaderGetNatts page tup) (\<lambda>natts.
        if attnum > int (unat natts) then Inr (By_Value 0, True)
        else fastgetattr nocachegetattr page tup attnum tupleDesc)
      else heap_getsysattr page tup attnum tupleDesc)"

text \<open>A column the tuple does not have, or has no value for, is null.\<close>

lemma getattr_null:
  assumes "HeapTupleHeaderGetNatts page tup = Inr natts" "0 < attnum"
    and "int (unat natts) < attnum \<or> HeapTupleNoNulls page tup = Inr False
      \<and> att_isnull (nat (attnum - 1)) (drop (tup + 23) page) = Inr True"
  shows "heap_getattr nc sys page tup attnum tupleDesc = Inr (By_Value 0, True)"
  using assms by (auto simp: heap_getattr_def fastgetattr_def)

text \<open>
  The columns of lineitem. The offset of a column is known when all columns before it have a fixed width, that of the
  first column of variable length because it needs no padding.
\<close>

definition lineitem_desc :: "Form_pg_attribute list" where
  "lineitem_desc = map2 (\<lambda>(len, a) off. \<lparr>attbyval = len \<noteq> -1, attlen = len, attalign = a, attcacheoff = off\<rparr>)
     lineitem_atts ([0, 8, 16, 24, 28] @ replicate 11 (- 1))"

lemma lineitem_desc_nth:
  "lineitem_desc ! 0 = \<lparr>attbyval = True, attlen = 8, attalign = CHR ''d'', attcacheoff = 0\<rparr>"
  "lineitem_desc ! Suc 0 = \<lparr>attbyval = True, attlen = 8, attalign = CHR ''d'', attcacheoff = 8\<rparr>"
  "lineitem_desc ! 2 = \<lparr>attbyval = True, attlen = 8, attalign = CHR ''d'', attcacheoff = 16\<rparr>"
  "lineitem_desc ! 3 = \<lparr>attbyval = True, attlen = 4, attalign = CHR ''i'', attcacheoff = 24\<rparr>"
  "lineitem_desc ! 4 = \<lparr>attbyval = False, attlen = -1, attalign = CHR ''i'', attcacheoff = 28\<rparr>"
  "length lineitem_desc = 16"
  by code_simp+

lemma rd_inside:
  assumes "take n (drop q b) = k" "i < n" "q + n \<le> length b"
  shows "rd b (q + i) = rd k i"
proof -
  have "length k = n" "k ! i = b ! (q + i)" using assms by auto
  then show ?thesis using assms(2,3) by simp
qed

lemma get_inside:
  assumes "take n (drop q b) = k" "q + n \<le> length b"
  shows "i + 4 \<le> n \<Longrightarrow> get32 b (q + i) = get32 k i" "i + 8 \<le> n \<Longrightarrow> get64 b (q + i) = get64 k i"
proof -
  have g: "get32 b (q + i) = get32 k i" if "i + 4 \<le> n" for i
  proof -
    have r: "rd b (q + (i + j)) = rd k (i + j)" if "j < 4" for j
      using rd_inside [OF assms(1) _ assms(2), of "i + j"] that \<open>i + 4 \<le> n\<close> by simp
    show ?thesis
      using r [of 0] r [of 1] r [of 2] r [of "2 + 1"] by (simp only: get32_def get16_def add.assoc add_0_right)
  qed
  then show "i + 4 \<le> n \<Longrightarrow> get32 b (q + i) = get32 k i" .
  show "i + 8 \<le> n \<Longrightarrow> get64 b (q + i) = get64 k i"
    using g [of i] g [of "i + 4"] by (simp add: get64_def add.assoc)
qed

lemma enc_tuple_front:
  assumes "wf_lineitem li"
  shows "\<exists>k1 k2 k3 k4 q r. l_keys li = [k1, k2, k3, k4] \<and> length k1 = 8 \<and> length k2 = 8 \<and> length k3 = 8 \<and> length k4 = 4
    \<and> q = enc_snum (l_quantity li) \<and> length q \<le> 126
    \<and> enc_tuple li = k1 @ k2 @ k3 @ k4 @ of_nat (2 * (length q + 1) + 1) # q @ r"
proof -
  obtain k1 k2 k3 k4 where k: "l_keys li = [k1, k2, k3, k4]"
    using assms by (auto simp: wf_lineitem_def length_Suc_conv eval_nat_numeral)
  define ps where "ps = [enc_snum (l_extendedprice li), enc_snum (l_discount li)]
    @ l_flags li @ [enc_date (l_shipdate li)] @ l_rest li"
  let ?q = "enc_snum (l_quantity li)"
  have p: "payloads li = [k1, k2, k3, k4, ?q] @ ps" by (simp add: payloads_def k ps_def)
  have "[0..<16] = [0..<5] @ [5..<16]"
    using upt_add_eq_append [of 0 5 11] by (simp del: upt_Suc upt_rec_numeral)
  then have "list_all2 wf_field ([0..<5] @ [5..<16]) ([k1, k2, k3, k4, ?q] @ ps)"
    using assms p by (simp add: wf_lineitem_def del: upt_Suc)
  then have "list_all2 wf_field [0..<5] [k1, k2, k3, k4, ?q]"
    by (simp add: list_all2_append1 length_Suc_conv list_all2_lengthD eval_nat_numeral)
  then have l: "length k1 = 8" "length k2 = 8" "length k3 = 8" "length k4 = 4" "length ?q \<le> 126"
    by (auto simp: upt_conv_Cons wf_field_def attrLens_def)
  then have "enc_tuple li = k1 @ k2 @ k3 @ k4 @ of_nat (2 * (length ?q + 1) + 1) # ?q @ enc_fields 5 (29 + length ?q) ps"
    by (simp add: enc_tuple_def p enc_field_def attrLens_def pad_len_def align_def eval_nat_numeral)
  with k l show ?thesis by blast
qed

lemma short_value_read:
  assumes "length v \<le> 126" "rd b p = Inr (of_nat (2 * (length v + 1) + 1))" "subarr b (p + 1) (length v) = Inr v"
  shows "rbind (VARDATA_ANY b p) (\<lambda>q. rbind (VARSIZE_ANY_EXHDR b p) (subarr b q)) = Inr v"
  using assms short_value [OF assms(1)]
  by (simp add: VARDATA_ANY_def VARSIZE_ANY_EXHDR_def VARHDRSZ_SHORT_def del: of_nat_Suc of_nat_add)

text \<open>
  The first five columns of a row stored in a page, as the server gets them by number: the keys by
  value, the quantity as a pointer to the bytes of the numeric behind its short header.
\<close>

lemma row_attributes:
  assumes "wf_lineitem li" "t_hoff page tup = Inr hoff" "HeapTupleNoNulls page tup = Inr True"
    and "HeapTupleHeaderGetNatts page tup = Inr natts" "5 \<le> unat natts"
    and "tup + hoff + length (enc_tuple li) \<le> length page"
    and "take (length (enc_tuple li)) (drop (tup + hoff) page) = enc_tuple li"
  shows "i < 3 \<Longrightarrow> heap_getattr nc sys page tup (int i + 1) lineitem_desc
      = rbind (get64 (l_keys li ! i) 0) (\<lambda>v. Inr (By_Value v, False))"
    "heap_getattr nc sys page tup 4 lineitem_desc
      = rbind (get32 (l_keys li ! 3) 0) (\<lambda>v. Inr (By_Value (Int32GetDatum v), False))"
    "heap_getattr nc sys page tup 5 lineitem_desc = Inr (By_Pointer (tup + hoff + 28), False)"
    "rbind (VARDATA_ANY page (tup + hoff + 28)) (\<lambda>p. rbind (VARSIZE_ANY_EXHDR page (tup + hoff + 28)) (subarr page p))
      = Inr (enc_snum (l_quantity li))"
proof -
  let ?q = "tup + hoff"
  obtain k1 k2 k3 k4 v r where e: "l_keys li = [k1, k2, k3, k4]" "length k1 = 8" "length k2 = 8" "length k3 = 8" "length k4 = 4"
    "v = enc_snum (l_quantity li)" "length v \<le> 126"
    "enc_tuple li = k1 @ k2 @ k3 @ k4 @ of_nat (2 * (length v + 1) + 1) # v @ r"
    using enc_tuple_front [OF assms(1)] by blast
  define n where "n = length (enc_tuple li)"
  have n: "n = 29 + length v + length r" by (simp add: n_def e(2-5,8))
  have at: "take m (drop (?q + i) page) = take m (drop i (enc_tuple li))" if "i + m \<le> n" for i m
  proof -
    have "take m (drop i (take n (drop ?q page))) = take m (drop (?q + i) page)"
      using that by (simp add: drop_take min_def add.commute)
    then show ?thesis using assms(7) by (simp add: n_def)
  qed
  have len: "?q + n \<le> length page" using assms(6) by (simp add: n_def)
  have k: "take 8 (drop (?q + 0) page) = k1" "take 8 (drop (?q + 8) page) = k2" "take 8 (drop (?q + 16) page) = k3"
    "take 4 (drop (?q + 24) page) = k4"
    using at [of 0 8] at [of 8 8] at [of 16 8] at [of 24 4] e(2-5,8) n by simp_all
  have g: "get64 page ?q = get64 k1 0" "get64 page (?q + 8) = get64 k2 0" "get64 page (?q + 16) = get64 k3 0"
    "get32 page (?q + 24) = get32 k4 0"
    using get_inside(2) [OF k(1), of 0] get_inside(2) [OF k(2), of 0] get_inside(2) [OF k(3), of 0]
      get_inside(1) [OF k(4), of 0] len n by simp_all
  note defs = heap_getattr_def fastgetattr_def fetchatt_def fetch_att_def
  have na: "5 \<le> uint natts" using assms(5) unfolding unat_eq_nat_uint by linarith
  show "i < 3 \<Longrightarrow> heap_getattr nc sys page tup (int i + 1) lineitem_desc
      = rbind (get64 (l_keys li ! i) 0) (\<lambda>v. Inr (By_Value v, False))"
  proof -
    assume "i < 3"
    then consider "i = 0" | "i = 1" | "i = 2" by linarith
    then show ?thesis
      by cases (use na g e(1) assms(2-4) in \<open>simp_all add: defs lineitem_desc_nth rbind_assoc\<close>)
  qed
  show "heap_getattr nc sys page tup 4 lineitem_desc
      = rbind (get32 (l_keys li ! 3) 0) (\<lambda>v. Inr (By_Value (Int32GetDatum v), False))"
    using na g(4) e(1) assms(2-4) by (simp add: defs lineitem_desc_nth rbind_assoc)
  show "heap_getattr nc sys page tup 5 lineitem_desc = Inr (By_Pointer (tup + hoff + 28), False)"
    using na assms(2-4) by (simp add: defs lineitem_desc_nth)
  let ?h = "of_nat (2 * (length v + 1) + 1) :: u8"
  have "take 1 (drop (?q + 28) page) = [?h]" "take (length v) (drop (?q + 28 + 1) page) = v"
    using at [of 28 1] at [of 29 "length v"] e(2-5,8) n by (simp_all add: add.commute)
  moreover have "?q + 28 < length page" "?q + 28 + 1 + length v \<le> length page" using len n by simp_all
  ultimately have "rd page (?q + 28) = Inr ?h" "subarr page (?q + 28 + 1) (length v) = Inr v"
    by (simp_all add: hd_drop_conv_nth take_Suc del: of_nat_Suc of_nat_add add_2_eq_Suc' Suc_eq_plus1 add_Suc_right)
  then show "rbind (VARDATA_ANY page (tup + hoff + 28)) (\<lambda>p. rbind (VARSIZE_ANY_EXHDR page (tup + hoff + 28)) (subarr page p))
      = Inr (enc_snum (l_quantity li))"
    using short_value_read [OF e(7), of page "?q + 28"] e(6) by (simp del: of_nat_Suc of_nat_add)
qed

end
