(* ===== verification/Server_Ids.thy ===== *)
theory Server_Ids
  imports Tuple_Header
begin

unbundle bit_operations_syntax

text \<open>
  The numbers by which the server names things in a stored tuple: blocks and line pointers, the item
  pointers made of both (\<^verbatim>\<open>storage/block.h\<close>, \<^verbatim>\<open>storage/off.h\<close>, \<^verbatim>\<open>storage/itemptr.h\<close>), and the ids of
  transactions with their wrap-around (\<^verbatim>\<open>access/transam.h\<close>). Assertions are not compiled in.
\<close>

section \<open>Blocks, line pointers, item pointers\<close>

definition InvalidBlockNumber :: u32 where "InvalidBlockNumber = 0xFFFFFFFF"
definition MaxBlockNumber :: u32 where "MaxBlockNumber = 0xFFFFFFFE"
definition BlockNumberIsValid :: "u32 \<Rightarrow> bool" where "BlockNumberIsValid n \<longleftrightarrow> n \<noteq> InvalidBlockNumber"

definition BlockIdCopy :: "u8 list \<Rightarrow> nat \<Rightarrow> nat \<Rightarrow> u8 list res" where
  "BlockIdCopy page to from = rbind (get_u16 page from) (\<lambda>hi. rbind (put16 page to hi) (\<lambda>page.
     rbind (get_u16 page (from + 2)) (\<lambda>lo. put16 page (to + 2) lo)))"

definition BlockIdEquals :: "u8 list \<Rightarrow> nat \<Rightarrow> nat \<Rightarrow> bool res" where
  "BlockIdEquals page p q = rbind (get_u16 page p) (\<lambda>h1. rbind (get_u16 page q) (\<lambda>h2.
     if h1 = h2 then rbind (get_u16 page (p + 2)) (\<lambda>l1. rbind (get_u16 page (q + 2)) (\<lambda>l2. Inr (l1 = l2)))
     else Inr False))"

definition InvalidOffsetNumber :: u16 where "InvalidOffsetNumber = 0"
definition FirstOffsetNumber :: u16 where "FirstOffsetNumber = 1"
definition MaxOffsetNumber :: u16 where "MaxOffsetNumber = of_nat (BLCKSZ div sizeof_ItemIdData)"
definition OffsetNumberIsValid :: "u16 \<Rightarrow> bool" where
  "OffsetNumberIsValid offsetNumber \<longleftrightarrow> offsetNumber \<noteq> InvalidOffsetNumber \<and> offsetNumber \<le> MaxOffsetNumber"
definition OffsetNumberNext :: "u16 \<Rightarrow> u16" where "OffsetNumberNext offsetNumber = 1 + offsetNumber"
definition OffsetNumberPrev :: "u16 \<Rightarrow> u16" where "OffsetNumberPrev offsetNumber = - 1 + offsetNumber"

text \<open>An item pointer at \<open>p\<close>; the test that the pointer itself is not null has no counterpart.\<close>

definition SizeOfIptrData :: nat where "SizeOfIptrData = 6"
definition ItemPointerIsValid :: "u8 list \<Rightarrow> nat \<Rightarrow> bool res" where
  "ItemPointerIsValid page p = rbind (get_u16 page (p + 4)) (\<lambda>n. Inr (n \<noteq> 0))"
definition ItemPointerSetBlockNumber :: "u8 list \<Rightarrow> nat \<Rightarrow> u32 \<Rightarrow> u8 list res" where
  "ItemPointerSetBlockNumber page p blockNumber = BlockIdSet page p blockNumber"
definition ItemPointerSetOffsetNumber :: "u8 list \<Rightarrow> nat \<Rightarrow> u16 \<Rightarrow> u8 list res" where
  "ItemPointerSetOffsetNumber page p offsetNumber = put16 page (p + 4) offsetNumber"
definition ItemPointerCopy :: "u8 list \<Rightarrow> nat \<Rightarrow> nat \<Rightarrow> u8 list res" where
  "ItemPointerCopy page from to = rbind (subarr page from SizeOfIptrData) (blit page to)"
definition ItemPointerSetInvalid :: "u8 list \<Rightarrow> nat \<Rightarrow> u8 list res" where
  "ItemPointerSetInvalid page p = rbind (BlockIdSet page p InvalidBlockNumber) (\<lambda>page.
     put16 page (p + 4) InvalidOffsetNumber)"

text \<open>Setting an item pointer is setting its two parts; it is valid exactly when the offset number is not 0.\<close>

lemma ItemPointerSet_parts:
  "ItemPointerSet page p n off = rbind (ItemPointerSetBlockNumber page p n) (\<lambda>page. ItemPointerSetOffsetNumber page p off)"
  "ItemPointerSetInvalid page p = ItemPointerSet page p InvalidBlockNumber InvalidOffsetNumber"
  by (simp_all add: ItemPointerSet_def ItemPointerSetBlockNumber_def ItemPointerSetOffsetNumber_def ItemPointerSetInvalid_def)

lemma ItemPointerSet_valid:
  assumes "p + 6 \<le> length page"
  shows "\<exists>page'. ItemPointerSet page p n off = Inr page' \<and> ItemPointerIsValid page' p = Inr (off \<noteq> 0)"
  using ItemPointerSet_get [OF assms, of n off] by (auto simp: ItemPointerIsValid_def ItemPointerGetOffsetNumber_def)

text \<open>A copied block number equals the one it was copied from.\<close>

lemma BlockIdCopy_equal:
  assumes "to + 4 \<le> length page" "from + 4 \<le> length page" "to + 4 \<le> from \<or> from + 4 \<le> to"
  shows "\<exists>page'. BlockIdCopy page to from = Inr page' \<and> BlockIdEquals page' to from = Inr True"
proof -
  obtain hi where hi: "get_u16 page from = Inr hi" using f16.get_law [of "from" page] assms(2) by auto
  obtain p1 where p1: "put16 page to hi = Inr p1" "get_u16 p1 to = Inr hi" "same_but {to..<to + 2} page p1"
    using f16.put_law [of to page hi] assms(1) by auto
  then have l: "length p1 = length page" by (simp add: same_but_def)
  obtain lo where lo: "get_u16 p1 (from + 2) = Inr lo" using f16.get_law [of "from + 2" p1] assms(2) l by auto
  obtain p2 where p2: "put16 p1 (to + 2) lo = Inr p2" "get_u16 p2 (to + 2) = Inr lo" "same_but {to + 2..<to + 2 + 2} p1 p2"
    using f16.put_law [of "to + 2" p1 lo] assms(1) l by auto
  have "get_u16 p1 from = get_u16 page from" using get_u16_same [OF p1(3), of "from"] assms(3) by auto
  moreover have "get_u16 p2 from = get_u16 p1 from" "get_u16 p2 (from + 2) = get_u16 p1 (from + 2)"
    "get_u16 p2 to = get_u16 p1 to"
    using get_u16_same [OF p2(3), of "from"] get_u16_same [OF p2(3), of "from + 2"] get_u16_same [OF p2(3), of to] assms(3)
    by auto
  ultimately show ?thesis using hi p1 lo p2 by (simp add: BlockIdCopy_def BlockIdEquals_def)
qed

text \<open>The next number of a valid one, unless that is the last, is valid, and the one before it is the old one.\<close>

lemma offset_numbers:
  "OffsetNumberPrev (OffsetNumberNext n) = n"
  "OffsetNumberIsValid n \<Longrightarrow> n \<noteq> MaxOffsetNumber \<Longrightarrow> OffsetNumberIsValid (OffsetNumberNext n)"
proof -
  show "OffsetNumberPrev (OffsetNumberNext n) = n" by (simp add: OffsetNumberPrev_def OffsetNumberNext_def)
  show "OffsetNumberIsValid (OffsetNumberNext n)" if "OffsetNumberIsValid n" "n \<noteq> MaxOffsetNumber"
  proof -
    have m: "MaxOffsetNumber = 2048" by (simp add: MaxOffsetNumber_def BLCKSZ_def sizeof_ItemIdData_def)
    have n: "unat n < 2048" using that by (auto simp: OffsetNumberIsValid_def m word_le_nat_alt word_unat_eq_iff)
    then have "unat (1 + n) = 1 + unat n" by (simp add: unat_word_ariths)
    then show ?thesis
      using n by (auto simp: OffsetNumberIsValid_def OffsetNumberNext_def InvalidOffsetNumber_def m word_le_nat_alt word_unat_eq_iff)
  qed
qed

section \<open>Transaction ids\<close>

definition BootstrapTransactionId :: u32 where "BootstrapTransactionId = 1"
definition FirstNormalTransactionId :: u32 where "FirstNormalTransactionId = 3"
definition MaxTransactionId :: u32 where "MaxTransactionId = 0xFFFFFFFF"
definition TransactionIdIsNormal :: "u32 \<Rightarrow> bool" where "TransactionIdIsNormal xid \<longleftrightarrow> xid \<ge> FirstNormalTransactionId"

definition TransactionIdAdvance :: "u32 \<Rightarrow> u32" where
  "TransactionIdAdvance dest = (let dest = dest + 1 in
     if dest < FirstNormalTransactionId then FirstNormalTransactionId else dest)"

text \<open>The loop ends: going down from a number below the first normal one leads to 0, and from there around.\<close>

function TransactionIdRetreat :: "u32 \<Rightarrow> u32" where
  "TransactionIdRetreat dest = (let dest = dest - 1 in
     if dest < FirstNormalTransactionId then TransactionIdRetreat dest else dest)"
  by auto
termination
proof (relation "measure unat", goal_cases)
  case (2 dest x)
  have "dest \<noteq> 0"
  proof
    assume "dest = 0"
    then show False using 2 by (simp add: FirstNormalTransactionId_def)
  qed
  then show ?case using 2(1) by (simp add: unat_minus_one unat_gt_0)
qed simp

declare TransactionIdRetreat.simps [simp del]

definition NormalTransactionIdPrecedes :: "u32 \<Rightarrow> u32 \<Rightarrow> bool" where
  "NormalTransactionIdPrecedes id1 id2 \<longleftrightarrow> sint (id1 - id2) < 0"
definition NormalTransactionIdFollows :: "u32 \<Rightarrow> u32 \<Rightarrow> bool" where
  "NormalTransactionIdFollows id1 id2 \<longleftrightarrow> sint (id1 - id2) > 0"

text \<open>Advancing and retreating stay among the normal ids, and undo each other there, across the wrap-around.\<close>

lemma advance_normal: "TransactionIdIsNormal (TransactionIdAdvance xid)"
  by (simp add: TransactionIdAdvance_def TransactionIdIsNormal_def Let_def not_less)

lemma retreat_step: "\<not> dest - 1 < FirstNormalTransactionId \<Longrightarrow> TransactionIdRetreat dest = dest - 1"
  by (subst TransactionIdRetreat.simps) (simp add: Let_def)

lemma retreat_first: "TransactionIdRetreat FirstNormalTransactionId = MaxTransactionId"
proof -
  have "TransactionIdRetreat 0 = MaxTransactionId"
    by (subst retreat_step) (simp_all add: FirstNormalTransactionId_def MaxTransactionId_def)
  moreover have "TransactionIdRetreat 3 = TransactionIdRetreat 2" "TransactionIdRetreat 2 = TransactionIdRetreat 1"
    "TransactionIdRetreat 1 = TransactionIdRetreat 0"
    by (subst TransactionIdRetreat.simps, simp add: Let_def FirstNormalTransactionId_def)+
  ultimately show ?thesis by (simp add: FirstNormalTransactionId_def)
qed

lemma retreat_normal: "TransactionIdIsNormal (TransactionIdRetreat xid)"
proof (induction xid rule: TransactionIdRetreat.induct)
  case (1 dest)
  then show ?case by (subst TransactionIdRetreat.simps) (simp add: Let_def TransactionIdIsNormal_def not_less)
qed

lemma advance_retreat:
  assumes "TransactionIdIsNormal xid"
  shows "TransactionIdRetreat (TransactionIdAdvance xid) = xid" "TransactionIdAdvance (TransactionIdRetreat xid) = xid"
proof -
  have n: "3 \<le> unat xid" using assms by (simp add: TransactionIdIsNormal_def FirstNormalTransactionId_def word_le_nat_alt)
  show "TransactionIdRetreat (TransactionIdAdvance xid) = xid"
  proof (cases "xid = MaxTransactionId")
    case True
    then show ?thesis using retreat_first by (simp add: TransactionIdAdvance_def MaxTransactionId_def FirstNormalTransactionId_def Let_def)
  next
    case False
    then have "xid + 1 \<noteq> 0" by (auto simp: MaxTransactionId_def add_eq_0_iff2)
    then have "unat (xid + 1) = unat xid + 1" using unatSuc [of xid] by (simp add: add.commute)
    then have "\<not> xid + 1 < FirstNormalTransactionId" using n by (simp add: FirstNormalTransactionId_def word_less_nat_alt)
    then show ?thesis using assms
      by (simp add: TransactionIdAdvance_def Let_def retreat_step TransactionIdIsNormal_def)
  qed
  show "TransactionIdAdvance (TransactionIdRetreat xid) = xid"
  proof (cases "xid = FirstNormalTransactionId")
    case True
    then show ?thesis by (simp add: retreat_first) (simp add: TransactionIdAdvance_def MaxTransactionId_def FirstNormalTransactionId_def Let_def)
  next
    case False
    then have "3 < unat xid" using n by (auto simp: FirstNormalTransactionId_def word_unat_eq_iff)
    moreover from this have "unat (xid - 1) = unat xid - 1" by (intro unat_minus_one) auto
    ultimately have "\<not> xid - 1 < FirstNormalTransactionId" by (simp add: FirstNormalTransactionId_def word_less_nat_alt)
    then show ?thesis using assms
      by (simp add: TransactionIdAdvance_def Let_def retreat_step TransactionIdIsNormal_def not_less [symmetric])
  qed
qed

text \<open>An id precedes those fewer than \<open>2 ^ 31\<close> steps ahead of it, whatever their numbers are.\<close>

lemma precedes_ahead:
  assumes "0 < k" "k \<le> 2 ^ 31"
  shows "NormalTransactionIdPrecedes xid (xid + of_nat k)"
proof -
  have "xid - (xid + of_nat k) = (word_of_int (- int k) :: u32)" by simp
  moreover have "sint (word_of_int (- int k) :: u32) = - int k"
    unfolding signed_of_int using assms by (simp add: signed_take_bit_int_eq_self)
  ultimately show ?thesis using assms(1) by (simp only: NormalTransactionIdPrecedes_def)
qed

lemma precedes_antisym:
  assumes "id1 - id2 \<noteq> 2 ^ 31"
  shows "NormalTransactionIdFollows id2 id1 \<longleftrightarrow> NormalTransactionIdPrecedes id1 id2"
proof -
  have "sint (- w) = - sint w" if "w \<noteq> 2 ^ 31" for w :: u32
  proof -
    have range: "sint (word_of_int x :: u32) = x" if "- (2 ^ 31) \<le> x" "x < 2 ^ 31" for x
      unfolding signed_of_int using that by (simp add: signed_take_bit_int_eq_self)
    have "sint w \<noteq> - (2 ^ 31)"
    proof
      assume "sint w = - (2 ^ 31)"
      moreover have "w = word_of_int (sint w)" by simp
      ultimately have "w = word_of_int (- (2 ^ 31))" by simp
      then show False using that by simp
    qed
    moreover have "- (2 ^ 31) \<le> sint w" "sint w < 2 ^ 31" using sint_ge [of w] sint_lt [of w] by simp_all
    moreover have "- w = word_of_int (- sint w)" by simp
    ultimately show ?thesis using range [of "- sint w"] by simp
  qed
  from this [OF assms] show ?thesis by (simp add: NormalTransactionIdFollows_def NormalTransactionIdPrecedes_def)
qed

end
