(* ===== verification/Spec2Isabelle.thy ===== *)
theory Spec2Isabelle
  imports Samples Run_HW Entry Gather_Banks P2P_Runs P2P_Session Test_Bench_Runs Visibility Null_Columns Attributes Server_Ids
begin

text \<open>
  A verification library for \<^verbatim>\<open>Xilinx/data-analytics\<close>, a collection of FPGA accelerators for
  analytics. Three programs are modelled, from the C and C++ sources under \<^verbatim>\<open>src/\<close>.

  \<^descr> \<^bold>\<open>xql6\<close> (\<^verbatim>\<open>xql6/host\<close>, \<^verbatim>\<open>xql6/kernel\<close>): a user-defined function of PostgreSQL that answers
  query 6 of TPC-H on the table lineitem. \<^verbatim>\<open>xql6.c\<close> packs the tuples of the relation into blocks
  of 256 pages and hands them to the accelerator or to its emulation in software.
  \<^descr> \<^bold>\<open>xql6p2p\<close> (\<^verbatim>\<open>xql6p2p/host\<close>, \<^verbatim>\<open>xql6p2p/kernel\<close>): the peer-to-peer variant, in which the device
  receives the heap pages straight from the file of the relation.
  \<^descr> \<^bold>\<open>omxgather\<close> (\<^verbatim>\<open>omxgather/kernel\<close>, \<^verbatim>\<open>omxgather/src\<close>): a program that looks up rows of a table by
  index on the device, with ping-pong buffers, and compares the result with a reference.

  \<^bold>\<open>Conventions.\<close> A C function that can fail returns \<open>'a res\<close>, an error value or a result
  (theory \<open>Prelude\<close>): memory accesses are checked against the object, so an access outside is
  \<open>Inl OutOfBounds\<close>. Integers have their width where it matters, as words or with the wrap-around
  written out; the overflow of the signed page number of \<open>xql6p2p\<close>, which C leaves undefined, is \<open>Inl IntOverflow\<close>. Counted loops are \<open>rloop\<close> or structural recursions over the iterations that are
  left. The PostgreSQL server, the OpenCL runtime and the file system are not part of the
  repository: they are arguments (\<open>bufPage\<close>, \<open>snaps\<close>, \<open>runtime\<close>, \<open>server\<close> and the like), restricted
  by named hypotheses only where a property needs them. The content of uninitialised memory is an
  argument, too (\<open>junk\<close>). Hardware streams are lists; a process that reads an empty stream would
  block, which is the error \<open>StreamEmpty\<close>.

  \<^bold>\<open>Data and pages.\<close> \<open>Numeric\<close> has \<^verbatim>\<open>snumToLong3\<close> and \<^verbatim>\<open>getJdate\<close> of both sides, with the encoding
  \<open>enc_snum\<close> of a numeric as the server stores it; \<open>Calendar\<close> has \<^verbatim>\<open>date2j\<close> and \<^verbatim>\<open>j2date\<close>. \<open>Schema\<close> has the
  attribute tables of \<^verbatim>\<open>q6_swemu.c\<close> and \<^verbatim>\<open>q6_paged.h\<close>, the row type \<open>lineitem\<close>, its encoding as a tuple,
  packed pages and blocks, and \<open>q6_spec\<close>, the query on rows, which is the specification of
  everything below. \<open>PG_Page\<close> has the page header, line pointers and tuple header of the
  server's headers; \<open>PG_Tuple\<close> has the macros by which the server itself reads a stored tuple (the
  headers of variable-length values, alignment, nulls, the flags of a deletion), \<open>Tuple_Header\<close> the rest of
  what it keeps in the headers of pages and tuples, with the locale \<open>memory_field\<close> for a field at an offset. \<open>Attributes\<close> has the conversions between values and
  datums (locale \<open>datum_type\<close>), reading and writing an attribute and its look-up by number, with the first
  columns of a stored row as the server gets them, and which values are stored with short headers; \<open>Server_Ids\<close> has item
  pointers, offset numbers and transaction ids.

  \<^bold>\<open>The programs against the server.\<close> \<open>Server_View\<close>: the parsers take
  from a tuple the columns that the server's macros find in it, their field lengths are the server's except for the headers
  they do not know, deleted rows are
  counted or make the run fail. \<open>Visibility\<close> has the updates of headers as operations and shows that no sequence of them,
  before the run or while it reads the pages, changes what it returns as long as the prune hints it leaves still read
  as empty items. \<open>Short_Items\<close> follows the software run to a line pointer whose item is
  shorter than a tuple header; such are line pointers without storage and, sometimes, the prune
  hint. \<open>Null_Columns\<close> has rows whose last columns are null, at which both engines stop.

  \<^bold>\<open>The engines.\<close> \<open>Field_Parser\<close> states as locales what a parser of fields promises: \<open>field_lengths\<close> for
  the length of a field and for passing over it, \<open>field_parser\<close>, which extends it, for taking the value. The word
  reader of \<^verbatim>\<open>q6_swemu.c\<close> (\<open>Swemu\<close>) and the class TupParser of \<^verbatim>\<open>q6_paged.h\<close> (\<open>Kernel\<close>) are field
  parsers; the class Host of the test bench (\<open>Test_Bench\<close>) only measures fields. \<open>Kernel\<close> also has the dataflow processes of \<^verbatim>\<open>q6_paged.cpp\<close> and the locale
  \<open>page_process\<close>: any process that consumes one page and returns its value gives, dealt out to 32
  units, the sum over a block. It is interpreted on the packed pages (\<open>packed\<close>) and, in \<open>P2P_Kernel\<close>,
  on raw heap pages (\<open>raw\<close>), where \<open>p2p_getHeaderInt2\<close> walks the line pointers.

  \<^bold>\<open>The runs.\<close> \<open>Fill\<close> has \<^verbatim>\<open>xql6GetNextPage\<close> and \<^verbatim>\<open>xql6FillBlock\<close>, with the trace of buffer manager
  calls; the routine has a snapshot of the relation for every page it packs, since other sessions may change
  pages between two reads. \<open>Growing\<close> shows what is packed when they rearrange pages (\<open>always_stored\<close>)
  and when they insert rows (\<open>snaps_grow\<close>): the tuples come in order, none lost and none twice. \<open>Run_SW\<close> has
  \<^verbatim>\<open>xql6_run_sw\<close>, a loop that may not end. \<open>Pipeline\<close> has the loop of \<^verbatim>\<open>xql6_run_hw\<close> over ten buffers as
  steps of host and device, a step per wait, fill, enqueue and read-back; the locale
  \<open>block_source\<close> says what it needs from the routine that fills a buffer and proves the invariant,
  the bound on the number of steps (a potential that every step lowers) and progress once.
  \<open>Run_HW\<close> makes every \<open>block_engine\<close> a block source by way of the packed blocks, \<open>P2P_Host\<close> interprets it on the
  blocks read from the file, with \<^verbatim>\<open>mdread_bigd\<close> of the server patch. \<open>P2P_Runs\<close> has the properties
  of the peer-to-peer variant. \<open>FPGA_Host\<close> and \<open>P2P_Session\<close> have the OpenCL sessions of the two
  \<^verbatim>\<open>fpga_q6.c\<close> as traces of calls, \<open>Entry\<close> and \<open>P2P_Session\<close> the entry points, the kernel
  management and the text buffers of 1024 bytes.

  \<^bold>\<open>The test bench.\<close> \<open>Test_Bench\<close> has \<^verbatim>\<open>q6_paged_tb.h\<close> and \<^verbatim>\<open>q6_paged_tb.cpp\<close>, which read a dump of
  tuples from a file, pack it into pages and run the kernel on them; \<open>Test_Bench_Runs\<close> shows what the
  program prints and which rows it loses.

  \<^bold>\<open>The gather program.\<close> \<open>Gather\<close> has the kernel (\<^verbatim>\<open>gather.cpp\<close>, \<^verbatim>\<open>omx.cpp\<close>, \<^verbatim>\<open>omx.h\<close>) down to the bursts it reads
  and writes, \<open>Gather_Host\<close> the data, the command line, the placement of the table, the reference
  and the comparison of \<^verbatim>\<open>main.cpp\<close>, \<open>Ocl_Accel\<close> the class OclAccel. \<open>Ping_Pong\<close> has the two execution
  loops of \<^verbatim>\<open>main.cpp\<close> as steps of host, command queue, device and callbacks, \<open>Ping_Pong_Runs\<close> their
  analysis in the locale \<open>device\<close>, which \<open>Gather_Main\<close> interprets on the kernel; \<open>Gather_Main\<close> also has the rest of
  \<^verbatim>\<open>main\<close>, and \<open>Gather_Banks\<close> the use of the memory banks. What the runtime does during a loop is the record \<open>setting\<close>:
  which calls of \<^verbatim>\<open>clSetKernelArg\<close> fail (\<open>set_ok\<close>; the kernel object, record \<open>kargs\<close>, then keeps the old argument), and whether
  the run is \<open>timely\<close>, that is, a block is
  taken out of host memory before it is overwritten, which the program does not ensure. \<open>loop_env\<close> adds which of the
  buffers \<^verbatim>\<open>main\<close> has been able to create and to map; through one that is missing the program strays (\<open>stray\<close>). Where the
  runtime puts the buffers of the table is a parameter (\<open>m_place\<close>), with the documented placement as the hypothesis \<open>banked\<close>.

  \<^bold>\<open>This theory\<close> has the properties that span components: calls from SQL with the emulation, with the
  kernel and with the peer-to-peer kernel return the answer of the query over the real values of the columns
  (\<open>q6_sql\<close>), emulation and hardware agree, buffers are never reused early, the pipeline ends and never
  gets stuck; then the numerics, the dates and the places where the code does not do what it is
  meant to. \<open>Samples\<close> has the rows, pages and relations the witnesses evaluate.

  \<^bold>\<open>Bounds.\<close> No fuel is used: loops are counted by the code, except \<^verbatim>\<open>run_sw_loop\<close>, which is a
  partial function proved to return, and the interleavings, whose length is bounded by proof.
  Well-formed rows have numerics that fit 15 bytes and varlena fields of up to 126 bytes, which are those the server
  stores with a short header (\<open>wf_field_short\<close>). The text of a call fits its 1024 bytes when the name of the kernel
  that ran before has at most 700.

  \<^bold>\<open>Not modelled.\<close> Log files and timing; the server's snapshots, and tuples that other sessions
  remove or move to another block while a run is going on (the code ignores the visibility of tuples, see \<open>visibility_ignored\<close>); \<^verbatim>\<open>getHeaderInt2_new\<close>, which is not
  called; the vendored headers of PostgreSQL apart from pages and stored tuples, of which the programs use declarations
  of the server's functions and the macros of its calling convention, and the scripts; \<^verbatim>\<open>event_cb\<close> and \<^verbatim>\<open>isEqual\<close> of \<^verbatim>\<open>main.cpp\<close>,
  which nothing calls. Parts of xql6p2p that repeat xql6
  word for word (the conversions, the aggregation, the software run, the packing) have no second
  definition.
\<close>

section \<open>The query over real numbers\<close>

text \<open>
  The query as the benchmark states it, over the values the numerics stand for: the
  revenue \<open>price * discount\<close> of the rows shipped in 1994 with a discount between 0.05 and
  0.07 and a quantity below 24.
\<close>

definition q6_sql :: "lineitem list \<Rightarrow> real" where
  "q6_sql lis = sum_list (map (\<lambda>li.
     if date2j 1994 1 1 - POSTGRES_EPOCH_JDATE \<le> l_shipdate li
        \<and> l_shipdate li < date2j 1995 1 1 - POSTGRES_EPOCH_JDATE
        \<and> 5 / 100 \<le> snum_real (l_discount li) \<and> snum_real (l_discount li) \<le> 7 / 100
        \<and> snum_real (l_quantity li) < 24
     then snum_real (l_extendedprice li) * snum_real (l_discount li) else 0) lis)"

text \<open>The columns have two decimals at most.\<close>

definition two_decimals :: "lineitem \<Rightarrow> bool" where
  "two_decimals li \<longleftrightarrow> (\<forall>n \<in> {l_quantity li, l_extendedprice li, l_discount li}.
     of_int \<lfloor>100 * \<bar>snum_real n\<bar>\<rfloor> = 100 * \<bar>snum_real n\<bar>)"

lemma cents_exact:
  assumes "wf_money n" "of_int \<lfloor>100 * \<bar>snum_real n\<bar>\<rfloor> = 100 * \<bar>snum_real n\<bar>"
  shows "of_int (snum_cents n) = 100 * snum_real n"
proof -
  have w: "wf_snum n" "-1 \<le> sn_weight n" "sn_weight n \<le> 3" using assms(1) by (auto simp: wf_money_def)
  obtain r where r: "snumToLong3 (enc_snum n @ []) (int (length (enc_snum n))) = Inr r"
    "sint r = (if sn_neg n then -1 else 1) * \<lfloor>100 * \<bar>snum_real n\<bar>\<rfloor>"
    using snumToLong3_correct_law [OF w] by blast
  have "sint r = snum_cents n"
    using r(1) snumToLong3_enc [OF w(1) refl, of "[]"] money_cents_sint [OF assms(1)] by simp
  moreover have "0 \<le> digits_real (sn_weight n) (sn_digits n)"
    using digits_real_bounds [of "sn_digits n" "sn_weight n"] w(1) by (auto simp: wf_snum_def)
  ultimately show ?thesis
    using r(2) assms(2) by (auto simp: snum_real_def abs_mult)
qed

lemma q6_spec_sql:
  assumes "list_all wf_lineitem lis" "list_all two_decimals lis"
  shows "of_int (q6_spec lis) = 10000 * q6_sql lis"
  using assms
proof (induction lis)
  case Nil
  then show ?case by (simp add: q6_sql_def)
next
  case (Cons li lis)
  have c: "of_int (snum_cents n) = 100 * snum_real n"
    if "n \<in> {l_quantity li, l_extendedprice li, l_discount li}" for n
    using that Cons.prems by (intro cents_exact) (auto simp: wf_lineitem_def two_decimals_def)
  have "5 \<le> snum_cents n \<longleftrightarrow> 5 / 100 \<le> snum_real n" "snum_cents n \<le> 7 \<longleftrightarrow> snum_real n \<le> 7 / 100"
    "snum_cents n < 2400 \<longleftrightarrow> snum_real n < 24"
    if "of_int (snum_cents n) = 100 * snum_real n" for n
    using that by linarith+
  then have "q6_row li \<longleftrightarrow> date2j 1994 1 1 - POSTGRES_EPOCH_JDATE \<le> l_shipdate li
        \<and> l_shipdate li < date2j 1995 1 1 - POSTGRES_EPOCH_JDATE
        \<and> 5 / 100 \<le> snum_real (l_discount li) \<and> snum_real (l_discount li) \<le> 7 / 100
        \<and> snum_real (l_quantity li) < 24"
    using c by (simp add: q6_row_def date2j_1994 date2j_1995)
  with Cons c show ?case by (simp add: q6_sql_def)
qed

lemma revenue_sum:
  assumes "list_all wf_lineitem lis" "list_all two_decimals lis" "- (2 ^ 63) \<le> 10000 * q6_sql lis" "10000 * q6_sql lis < 2 ^ 63"
  shows "of_int (sint (word_of_int (q6_spec lis) :: i64)) = 10000 * q6_sql lis"
proof -
  have v: "of_int (q6_spec lis) = 10000 * q6_sql lis"
    by (rule q6_spec_sql [OF assms(1,2)])
  then have "real_of_int (- (2 ^ 63)) \<le> of_int (q6_spec lis)" "real_of_int (q6_spec lis) < of_int (2 ^ 63)"
    using assms(3,4) by simp_all
  then have "- (2 ^ 63) \<le> q6_spec lis" "q6_spec lis < 2 ^ 63"
    by (simp_all only: of_int_le_iff of_int_less_iff)
  then have "sint (word_of_int (q6_spec lis) :: i64) = q6_spec lis"
    by (simp add: signed_take_bit_int_eq_self sint_sbintrunc')
  with v show ?thesis by simp
qed

section \<open>The software run\<close>

text \<open>
  C1. The software run of the query ends for every relation of lineitem rows, whatever the
  indeterminate memory holds, and the text it returns shows the query's sum and number for a list
  of stored rows. Other sessions may rearrange the pages and insert rows while the run reads them: every row
  stored when the run begins is counted, none that is never stored, and none twice.
\<close>

theorem xql6_run_sw_correct:
  assumes "snaps_grow snaps T E" and "table E lisE"
    and "length blk = XQL6_BLK_SZ" and "length (p_word s) = WORD_SZ"
    and "\<forall>k i. length (junk k i) = FIELD_SZ"
  shows "\<exists>lis s' tr. xql6_run_sw snaps (length E) lin0 junk blk us s
    = Some (Inr (''xql6_run (sw) result '' @ result_text (word_of_int (q6_spec lis))
        @ CHR 0x0A # ''Runtimes (us) Fill '' @ ld (fst us) @ '', Comp '' @ ld (snd us)
        @ ''. #Tups '' @ ld (int (length lis)), s', tr))
    \<and> subseq (live (concat (T 0))) (map enc_tuple lis) \<and> subseq lis lisE"
  using assms by (rule xql6_run_sw_grows)

definition sample_rdr :: rdr where
  "sample_rdr = \<lparr>off = 0, woff = 0, woffMax = 0, p_buf = [], bufIdx = 0, p_word = replicate 8 0\<rparr>"

lemma sample_table: "table [[enc_tuple row1, enc_tuple row2]] [row1, row2]"
  using row_lengths by (auto simp: table_def row1_wf row2_wf)

lemma late_rows_first: "live (concat (late_rows 0)) = [enc_tuple row1]"
  using row_lengths(1) by (auto simp: late_rows_def)

theorem xql6_run_sw_correct_witness:
  "\<exists>lis s' tr. xql6_run_sw late_snaps 1 (\<lambda>_ _. 7) (\<lambda>_ _. replicate 16 9) (replicate XQL6_BLK_SZ 0) (1, 2) sample_rdr
    = Some (Inr (''xql6_run (sw) result '' @ result_text (word_of_int (q6_spec lis))
        @ CHR 0x0A # ''Runtimes (us) Fill '' @ ld 1 @ '', Comp '' @ ld 2 @ ''. #Tups '' @ ld (int (length lis)), s', tr))
    \<and> subseq [enc_tuple row1] (map enc_tuple lis) \<and> subseq lis [row1, row2]"
  using xql6_run_sw_correct [OF late_relation sample_table, of "replicate XQL6_BLK_SZ 0" sample_rdr
      "\<lambda>_ _. replicate 16 9" "\<lambda>_ _. 7" "(1, 2)", unfolded late_rows_first heap1_sizes]
  by (simp add: sample_rdr_def WORD_SZ_def FIELD_SZ_def)

lemma run_sw_text_length:
  assumes "\<forall>x \<in> {a, b, c}. - (2 ^ 63) \<le> x \<and> x < 2 ^ 63"
  shows "length (''xql6_run (sw) result '' @ result_text r @ CHR 0x0A # ''Runtimes (us) Fill '' @ ld a
    @ '', Comp '' @ ld b @ ''. #Tups '' @ ld c) < SBUF_SZ"
  using result_text_length [of r] ld_length [of a] ld_length [of b] ld_length [of c] assms
  by (simp add: SBUF_SZ_def)

text \<open>
  C2. A call of the function from SQL with a command that starts with \<open>swemu\<close>, on a relation with
  storage that holds a table whose columns have at most two decimals and whose revenue fits the 64
  bits of the sum, answers the query as SQL states it over the real values of the columns: the
  run ends, its text fits the buffer and is what the call returns, with the revenue in units of one
  ten-thousandth, and a kernel that is running stays so.
\<close>

theorem xql6_swemu_answers_sql:
  assumes "always_stored snaps tupss" and "table tupss lis" and "list_all two_decimals lis"
    and "- (2 ^ 63) \<le> 10000 * q6_sql lis" and "10000 * q6_sql lis < 2 ^ 63"
    and "length blk = XQL6_BLK_SZ" and "length (p_word s) = WORD_SZ"
    and "\<forall>k i. length (junk k i) = FIELD_SZ"
    and "\<forall>x \<in> {fst us, snd us, int (length lis)}. - (2 ^ 63) \<le> x \<and> x < 2 ^ 63"
    and "relkind \<notin> {RELKIND_VIEW, RELKIND_COMPOSITE_TYPE, RELKIND_FOREIGN_TABLE}"
    and "p_krnName = ''swemu'' @ argTail"
  shows "\<exists>r s' tr sBuf. xql6_run_sw snaps (length tupss) lin0 junk blk us s = Some (Inr (sBuf, s', tr))
    \<and> xql6 e relkind p_relName p_krnName (Inr sBuf) hw b = Inr (b, sBuf)
    \<and> sBuf = ''xql6_run (sw) result '' @ result_text r
        @ CHR 0x0A # ''Runtimes (us) Fill '' @ ld (fst us) @ '', Comp '' @ ld (snd us)
        @ ''. #Tups '' @ ld (int (length lis))
    \<and> of_int (sint r) = 10000 * q6_sql lis"
proof -
  have v: "of_int (sint (word_of_int (q6_spec lis) :: i64)) = 10000 * q6_sql lis"
    using assms(2) by (intro revenue_sum [OF _ assms(3-5)]) (simp add: table_def)
  define sBuf where "sBuf = ''xql6_run (sw) result '' @ result_text (word_of_int (q6_spec lis))
    @ CHR 0x0A # ''Runtimes (us) Fill '' @ ld (fst us) @ '', Comp '' @ ld (snd us)
    @ ''. #Tups '' @ ld (int (length lis))"
  obtain s' tr where run: "xql6_run_sw snaps (length tupss) lin0 junk blk us s = Some (Inr (sBuf, s', tr))"
    using xql6_run_sw_law [OF assms(1,2,6-8), of lin0 us] unfolding sBuf_def by blast
  have "c_sprintf sBuf = Inr sBuf"
    unfolding c_sprintf_def sBuf_def using run_sw_text_length [OF assms(9)] by simp
  then have "xql6 e relkind p_relName p_krnName (Inr sBuf) hw b = Inr (b, sBuf)"
    using assms(10,11) by (simp add: xql6_def xql6_check_relation_def strncmp_eq_def)
  with run v show ?thesis unfolding sBuf_def by metis
qed

lemma row1_two_decimals: "two_decimals row1" "two_decimals row2"
  by (simp_all add: two_decimals_def row1_def row2_def snum_real_def power_int_minus)

lemma rows_revenue: "10000 * q6_sql [row1, row2] = 12700938"
proof -
  have "q6_spec [row1, row2] = 12700938"
    using row_values q6_spec_simps(3) [of "[row1]" "[row2]"] by simp
  then show ?thesis
    using q6_spec_sql [of "[row1, row2]"] by (simp add: row1_wf row2_wf row1_two_decimals)
qed

theorem xql6_swemu_answers_sql_witness:
  "\<forall>e hw b. \<exists>r s' tr sBuf. xql6_run_sw (\<lambda>_ _ _. heap1) 1 (\<lambda>_ _. 7) (\<lambda>_ _. replicate 16 9) (replicate XQL6_BLK_SZ 0) (1, 2) sample_rdr
      = Some (Inr (sBuf, s', tr))
    \<and> xql6 e CHR ''r'' ''lineitem'' ''swemu'' (Inr sBuf) hw b = Inr (b, sBuf)
    \<and> sBuf = ''xql6_run (sw) result '' @ result_text r
        @ CHR 0x0A # ''Runtimes (us) Fill '' @ ld 1 @ '', Comp '' @ ld 2 @ ''. #Tups '' @ ld 2
    \<and> of_int (sint r) = 10000 * q6_sql [row1, row2]"
  using rows_revenue xql6_swemu_answers_sql [OF heap1_stored sample_table, of "replicate XQL6_BLK_SZ 0" sample_rdr
      "\<lambda>_ _. replicate 16 9" "(1, 2)" "CHR ''r''" "''swemu''" "[]" "\<lambda>_ _. 7" _ "''lineitem''"]
  by (simp add: sample_rdr_def WORD_SZ_def FIELD_SZ_def row1_two_decimals RELKIND_VIEW_def
      RELKIND_COMPOSITE_TYPE_def RELKIND_FOREIGN_TABLE_def)

text \<open>
  C40. The printed text, read as a decimal numeral, is the sum divided by 10000 exactly when
  the fractional part is zero or has four digits: \<open>%ld.%ld\<close> drops the leading zeros.
\<close>

theorem result_text_correct_iff:
  assumes "0 \<le> sint q6_sum"
  shows "text_value (result_text q6_sum) = of_int (sint q6_sum) / 10000
    \<longleftrightarrow> sint q6_sum mod 10000 = 0 \<or> 1000 \<le> sint q6_sum mod 10000"
  using assms by (rule result_text_value)

theorem result_text_correct_iff_witness:
  "text_value (result_text 12700938) \<noteq> 12700938 / 10000"
  using result_text_correct_iff [of 12700938] by simp

section \<open>The hardware run\<close>

text \<open>
  C3. Whatever the interleaving of host and device, a run of the pipeline that ends without an
  enqueue failure has the query's sum and number for a list of stored rows. Other sessions may insert rows while the
  host packs the blocks: every row stored when the run begins is counted, none that is never stored, and none twice.
\<close>

theorem xql6_run_hw_correct:
  assumes "snaps_grow snaps T E" and "table E lisE"
    and "length inp = 10" and "list_all (\<lambda>b. length b = XQL6_BLK_SZ) inp" and "length out = 10"
    and "hw_reach snaps (fpga_compute junk) (hw_init (length E) inp out) n s"
    and "h_pc s = Halt" and "enq_ok s"
  shows "\<exists>lis. h_sum s = word_of_int (q6_spec lis) \<and> h_nTups s = length lis
    \<and> subseq (live (concat (T 0))) (map enc_tuple lis) \<and> subseq lis lisE"
proof -
  have "hw_inv T E lisE (hw_init (length E) inp out) [] lisE"
    using assms(1,2) by (intro run_init [OF assms(3-5)]) (auto simp: table_def snaps_grow_def)
  from hw_engine.run_reach [OF assms(6,1) this] show ?thesis
    using run_halt_rows [OF _ assms(7,8)] by blast
qed

lemma sample_hw_run:
  assumes "snaps_grow snaps T [[enc_tuple row1, enc_tuple row2]]"
  shows "\<exists>n s. hw_reach snaps (fpga_compute junk)
      (hw_init 1 (replicate 10 (replicate XQL6_BLK_SZ 0)) (replicate 10 0)) n s
    \<and> h_pc s = Halt \<and> enq_ok s"
proof -
  have "hw_inv T [[enc_tuple row1, enc_tuple row2]] [row1, row2]
    (hw_init (length [[enc_tuple row1, enc_tuple row2]]) (replicate 10 (replicate XQL6_BLK_SZ 0)) (replicate 10 0)) []
    [row1, row2]"
    using sample_table assms by (intro run_init) (auto simp: table_def list_all_iff snaps_grow_def)
  from hw_engine.run_can_halt [OF this assms, of junk] show ?thesis
    by (simp add: hw_init_def)
qed

theorem xql6_run_hw_correct_witness:
  "\<exists>n s lis. hw_reach late_snaps (fpga_compute (\<lambda>_ _ _ _. []))
      (hw_init 1 (replicate 10 (replicate XQL6_BLK_SZ 0)) (replicate 10 0)) n s
    \<and> h_pc s = Halt \<and> h_sum s = word_of_int (q6_spec lis) \<and> h_nTups s = length lis
    \<and> subseq [enc_tuple row1] (map enc_tuple lis) \<and> subseq lis [row1, row2]"
proof -
  obtain n s where r: "hw_reach late_snaps (fpga_compute (\<lambda>_ _ _ _. []))
      (hw_init 1 (replicate 10 (replicate XQL6_BLK_SZ 0)) (replicate 10 0)) n s" "h_pc s = Halt" "enq_ok s"
    using sample_hw_run [OF late_relation] by blast
  have "\<exists>lis. h_sum s = word_of_int (q6_spec lis) \<and> h_nTups s = length lis
      \<and> subseq [enc_tuple row1] (map enc_tuple lis) \<and> subseq lis [row1, row2]"
    by (rule xql6_run_hw_correct [OF late_relation sample_table _ _ _ _ r(2,3), of "replicate 10 (replicate XQL6_BLK_SZ 0)"
        "replicate 10 0" "\<lambda>_ _ _ _. []" n, unfolded late_rows_first heap1_sizes])
      (use r(1) in \<open>simp_all add: list_all_iff\<close>)
  with r(1,2) show ?thesis by blast
qed

text \<open>
  C14. Buffers are never reused early: when the host fills or enqueues a block, the device is
  not still working on the buffer of that block.
\<close>

theorem hw_buffer_reuse_safe:
  assumes "snaps_grow snaps T E" and "table E lis"
    and "length inp = 10" and "list_all (\<lambda>b. length b = XQL6_BLK_SZ) inp" and "length out = 10"
    and "hw_reach snaps (fpga_compute junk) (hw_init (length E) inp out) n s"
    and "h_pc s \<in> {DoFill, DoEnq}"
  shows "jobs s ! (blkId s mod 10) \<noteq> Pending"
proof -
  have "hw_inv T E lis (hw_init (length E) inp out) [] lis"
    using assms(1,2) by (intro run_init [OF assms(3-5)]) (auto simp: table_def snaps_grow_def)
  from hw_engine.run_reach [OF assms(6,1) this]
  obtain bs lis' where "hw_inv T E lis s bs lis'" by blast
  then show ?thesis by (rule fill_slot_free [OF _ assms(7)])
qed

theorem hw_buffer_reuse_safe_witness:
  "\<exists>s. hw_reach late_snaps (fpga_compute (\<lambda>_ _ _ _. []))
      (hw_init 1 (replicate 10 (replicate XQL6_BLK_SZ 0)) (replicate 10 0)) 1 s
    \<and> h_pc s = DoFill \<and> jobs s ! 0 \<noteq> Pending"
proof -
  let ?init = "hw_init 1 (replicate 10 (replicate XQL6_BLK_SZ 0)) (replicate 10 0)"
  let ?s = "?init\<lparr>h_pc := DoFill\<rparr>"
  have st: "host_step late_snaps ?init ?s"
    using host_step.top_go [of ?init] by (simp add: hw_init_def read_back_def)
  have r: "hw_reach late_snaps (fpga_compute (\<lambda>_ _ _ _. [])) ?init 1 ?s"
    using hw_reach.reach_host [OF hw_reach.reach_init st] by simp
  have "jobs ?s ! (blkId ?s mod 10) \<noteq> Pending"
    using hw_buffer_reuse_safe [OF late_relation sample_table, of "replicate 10 (replicate XQL6_BLK_SZ 0)"
        "replicate 10 0" "\<lambda>_ _ _ _. []" 1 ?s] r
    by (simp add: list_all_iff)
  with r show ?thesis by (intro exI [of _ ?s]) (simp add: hw_init_def)
qed

text \<open>
  C16. The pipeline cannot run for ever: whatever the interleaving, the number of steps is
  bounded linearly in the number of rows.
\<close>

theorem hw_run_bounded:
  assumes "snaps_grow snaps T E" and "table E lis"
    and "length inp = 10" and "list_all (\<lambda>b. length b = XQL6_BLK_SZ) inp" and "length out = 10"
    and "hw_reach snaps (fpga_compute junk) (hw_init (length E) inp out) n s"
  shows "n \<le> 33 * length lis + 242"
proof -
  have "hw_inv T E lis (hw_init (length E) inp out) [] lis"
    using assms(1,2) by (intro run_init [OF assms(3-5)]) (auto simp: table_def snaps_grow_def)
  from hw_engine.run_reach [OF assms(6,1) this]
  show ?thesis by (auto simp: potential_init)
qed

theorem hw_run_bounded_witness:
  "\<exists>n s. hw_reach late_snaps (fpga_compute (\<lambda>_ _ _ _. []))
      (hw_init 1 (replicate 10 (replicate XQL6_BLK_SZ 0)) (replicate 10 0)) n s
    \<and> h_pc s = Halt \<and> n \<le> 308"
proof -
  obtain n s where r: "hw_reach late_snaps (fpga_compute (\<lambda>_ _ _ _. []))
      (hw_init 1 (replicate 10 (replicate XQL6_BLK_SZ 0)) (replicate 10 0)) n s" "h_pc s = Halt"
    using sample_hw_run [OF late_relation] by blast
  have "n \<le> 308"
    using hw_run_bounded [OF late_relation sample_table, of "replicate 10 (replicate XQL6_BLK_SZ 0)"
        "replicate 10 0" "\<lambda>_ _ _ _. []" n s] r
    by (simp add: list_all_iff)
  with r show ?thesis by blast
qed

text \<open>
  C15. The pipeline never gets stuck: in every reachable state before the end the host or the
  device can take a step.
\<close>

theorem hw_run_progress:
  assumes "snaps_grow snaps T E" and "table E lis"
    and "length inp = 10" and "list_all (\<lambda>b. length b = XQL6_BLK_SZ) inp" and "length out = 10"
    and "hw_reach snaps (fpga_compute junk) (hw_init (length E) inp out) n s"
    and "h_pc s \<noteq> Halt"
  shows "\<exists>s'. host_step snaps s s' \<or> dev_step (fpga_compute junk) s s'"
proof -
  have "hw_inv T E lis (hw_init (length E) inp out) [] lis"
    using assms(1,2) by (intro run_init [OF assms(3-5)]) (auto simp: table_def snaps_grow_def)
  from hw_engine.run_reach [OF assms(6,1) this] show ?thesis
    using hw_engine.run_progress [OF _ assms(1,7)] by blast
qed

theorem hw_run_progress_witness:
  "\<exists>s'. host_step late_snaps (hw_init 1 (replicate 10 (replicate XQL6_BLK_SZ 0)) (replicate 10 0)) s'
    \<or> dev_step (fpga_compute (\<lambda>_ _ _ _. []))
        (hw_init 1 (replicate 10 (replicate XQL6_BLK_SZ 0)) (replicate 10 0)) s'"
  using hw_run_progress [OF late_relation sample_table, of "replicate 10 (replicate XQL6_BLK_SZ 0)"
      "replicate 10 0" "\<lambda>_ _ _ _. []" 0] hw_reach.reach_init
  by (simp add: list_all_iff hw_init_def)

section \<open>The kernel and the emulation\<close>

text \<open>
  C7. The kernel on the words of a block of 256 well-formed pages stores the query's sum over
  the rows of all pages, whatever its local arrays hold initially; no stream runs dry.
\<close>

theorem fpga_q6_correct:
  assumes "wf_block pgs" and "\<forall>u i t f. length (junk u i t f) = NMRC_FIELD_SZ"
  shows "fpga_q6 junk (words_of NUM_WORDS (block_of pgs)) = Inr (word_of_int (q6_spec (rows_of pgs)))"
  using assms by (rule fpga_q6_law)

theorem fpga_q6_correct_witness:
  "fpga_q6 (\<lambda>_ _ _ _. replicate 16 1) (words_of NUM_WORDS (block_of block1)) = Inr 3251440128"
  using fpga_q6_correct [OF block1_wf, of "\<lambda>_ _ _ _. replicate 16 1"]
  by (simp add: NMRC_FIELD_SZ_def block1_value)

text \<open>
  C8. The software emulation on a block of 256 well-formed pages returns the query's sum over
  the rows of all pages, whatever the reader's state and the local buffer held before.
\<close>

theorem q6_swemu_correct:
  assumes "wf_block pgs" and "\<forall>i. length (junk i) = FIELD_SZ" and "length (p_word s) = WORD_SZ"
  shows "\<exists>s'. q6_swemu junk (block_of pgs) s = Inr (word_of_int (q6_spec (rows_of pgs)), s')"
  using assms by (rule q6_swemu_law)

theorem q6_swemu_correct_witness:
  "\<exists>s'. q6_swemu (\<lambda>_. replicate 16 1) (block_of block1) sample_rdr = Inr (3251440128, s')"
  using q6_swemu_correct [OF block1_wf, of "\<lambda>_. replicate 16 1" sample_rdr]
  by (simp add: FIELD_SZ_def WORD_SZ_def sample_rdr_def block1_value)

text \<open>
  C9. Emulation and hardware agree: on every well-formed block the emulator returns the value
  the kernel stores.
\<close>

theorem swemu_kernel_agree:
  assumes "wf_block pgs" and "\<forall>i. length (junk i) = FIELD_SZ" and "length (p_word s) = WORD_SZ"
    and "\<forall>u i t f. length (kjunk u i t f) = NMRC_FIELD_SZ"
  shows "rbind (q6_swemu junk (block_of pgs) s) (\<lambda>(r, _). Inr r)
    = fpga_q6 kjunk (words_of NUM_WORDS (block_of pgs))"
  using q6_swemu_law [OF assms(1-3)] fpga_q6_law [OF assms(1,4)] by auto

theorem swemu_kernel_agree_witness:
  "rbind (q6_swemu (\<lambda>_. replicate 16 1) (block_of block1) sample_rdr) (\<lambda>(r, _). Inr r)
    = fpga_q6 (\<lambda>_ _ _ _. replicate 16 2) (words_of NUM_WORDS (block_of block1))"
  by (rule swemu_kernel_agree [OF block1_wf])
    (simp_all add: FIELD_SZ_def WORD_SZ_def sample_rdr_def NMRC_FIELD_SZ_def)

text \<open>
  A processing unit takes exactly one page from its byte stream, whatever follows, and
  returns the sum of that page: the dataflow processes neither block nor leave bytes behind.
\<close>

theorem k_q6_paged_one_page:
  assumes "wf_page lis dead" and "\<forall>t f. length (junk t f) = NMRC_FIELD_SZ"
  shows "k_q6_paged junk (page_of lis dead @ rest) = Inr (word_of_int (q6_spec lis), rest)"
  using assms by (rule k_q6_paged_law)

theorem k_q6_paged_one_page_witness:
  "k_q6_paged (\<lambda>_ _. replicate 16 1) (page_of [row1, row2] dead1 @ [1, 2, 3]) = Inr (12700938, [1, 2, 3])"
proof -
  have "q6_spec [row1, row2] = 12700938"
    using row_values q6_spec_simps(3) [of "[row1]" "[row2]"] by simp
  then show ?thesis
    using k_q6_paged_one_page [OF page1_wf, of "\<lambda>_ _. replicate 16 1" "[1, 2, 3]"]
    by (simp add: NMRC_FIELD_SZ_def)
qed

text \<open>
  The deal of the reader: processing unit \<open>u\<close> receives, word by word and in order, the
  pages \<open>u\<close>, \<open>u + 32\<close>, \<open>u + 64\<close> and so on of the buffer.
\<close>

theorem k_read_round_robin:
  assumes "length inbuf = NUM_WORDS"
  shows "k_read inbuf (replicate NUM_PU []) = Inr (map (\<lambda>u. concat (map (\<lambda>i.
    map (\<lambda>j. inbuf ! ((i * NUM_PU + u) * WORDS_PER_PAGE + j)) [0..<WORDS_PER_PAGE])
      [0..<PAGES_PER_PU])) [0..<NUM_PU])"
  using k_read_law [OF assms] by (simp add: pg_words_def)

theorem k_read_round_robin_witness:
  "k_read (replicate NUM_WORDS [7]) (replicate NUM_PU []) = Inr (map (\<lambda>u. concat (map (\<lambda>i.
    map (\<lambda>j. replicate NUM_WORDS [7] ! ((i * NUM_PU + u) * WORDS_PER_PAGE + j)) [0..<WORDS_PER_PAGE])
      [0..<PAGES_PER_PU])) [0..<NUM_PU])"
  by (rule k_read_round_robin) simp

section \<open>Numerics and dates\<close>

text \<open>
  C38. For every numeric of weight -1 to 3 the conversion returns the value in hundredths,
  truncated towards zero.
\<close>

theorem snumToLong3_correct:
  assumes "wf_snum n" and "-1 \<le> sn_weight n" and "sn_weight n \<le> 3"
  shows "\<exists>r. snumToLong3 (enc_snum n @ rest) (int (length (enc_snum n))) = Inr r
    \<and> sint r = (if sn_neg n then -1 else 1) * \<lfloor>100 * \<bar>snum_real n\<bar>\<rfloor>"
  using assms by (rule snumToLong3_correct_law)

definition minus_12_345 :: snum where
  "minus_12_345 = \<lparr>sn_neg = True, sn_dscale = 4, sn_weight = 0, sn_digits = [12, 3450]\<rparr>"

theorem snumToLong3_correct_witness:
  "\<exists>r. snumToLong3 (enc_snum minus_12_345 @ [1]) (int (length (enc_snum minus_12_345))) = Inr r
    \<and> sint r = -1 * \<lfloor>100 * \<bar>snum_real minus_12_345\<bar>\<rfloor>"
  using snumToLong3_correct [of minus_12_345 "[1]"] by (simp add: minus_12_345_def wf_snum_def)

text \<open>
  The display scale is decoded only for even scales. For an odd one the shift distance is
  \<open>1 + (fData[0] & 0x80)\<close>, beyond the width of int, because \<open>+\<close> binds tighter than \<open><<\<close>.
\<close>

theorem snum_scale_decodes:
  assumes "wf_snum n"
  shows "snum_scale (enc_snum n ! 0) (enc_snum n ! 1) =
    (if even (sn_dscale n) then Inr (of_nat (sn_dscale n)) else Inl ShiftRange)"
  using assms by (rule snum_scale_enc_law)

theorem snum_scale_decodes_witness:
  "snum_scale (enc_snum (minus_12_345\<lparr>sn_dscale := 3\<rparr>) ! 0) (enc_snum (minus_12_345\<lparr>sn_dscale := 3\<rparr>) ! 1)
    = Inl ShiftRange"
  using snum_scale_decodes [of "minus_12_345\<lparr>sn_dscale := 3\<rparr>"] by (simp add: minus_12_345_def wf_snum_def)

text \<open>
  Numerics below 0.0001 are misread: for a weight under -1 the first digit is taken as
  if it stood right behind the point, although the value in hundredths rounds to 0.
\<close>

theorem snumToLong3_small_values:
  assumes "wf_snum n" and "sn_weight n < -1"
  shows "snumToLong3 (enc_snum n @ rest) (int (length (enc_snum n)))
      = Inr (word_of_int ((if sn_neg n then -1 else 1) * int (hd0 (sn_digits n) div 100)))
    \<and> \<lfloor>100 * \<bar>snum_real n\<bar>\<rfloor> = 0"
  using assms by (rule snumToLong3_low_weight_law)

theorem snumToLong3_small_values_witness:
  "snumToLong3 (enc_snum \<lparr>sn_neg = False, sn_dscale = 6, sn_weight = -2, sn_digits = [500]\<rparr> @ [])
      (int (length (enc_snum \<lparr>sn_neg = False, sn_dscale = 6, sn_weight = -2, sn_digits = [500]\<rparr>))) = Inr 5"
  using snumToLong3_small_values [of "\<lparr>sn_neg = False, sn_dscale = 6, sn_weight = -2, sn_digits = [500]\<rparr>" "[]"]
  by (simp add: wf_snum_def hd0_def)

text \<open>C39. \<open>j2date\<close> inverts \<open>date2j\<close> on every date of the Gregorian calendar in its range.\<close>

theorem j2date_inverts_date2j:
  assumes "valid_date y m d"
  shows "j2date (date2j y m d) = (y, m, d)"
  using assms by (rule j2date_date2j_law)

theorem j2date_inverts_date2j_witness: "j2date (date2j 2000 2 29) = (2000, 2, 29)"
  by (rule j2date_inverts_date2j) (simp add: valid_date_def month_days_def leap_def)

text \<open>Day numbers are ordered as dates are.\<close>

theorem date2j_increasing:
  assumes "valid_date y m d" and "valid_date y' m' d'" and "date_less (y, m, d) (y', m', d')"
  shows "date2j y m d < date2j y' m' d'"
  using assms by (rule date2j_mono_law)

theorem date2j_increasing_witness: "date2j 1999 12 31 < date2j 2000 1 1"
  by (rule date2j_increasing) (simp_all add: valid_date_def month_days_def leap_def date_less_def)

text \<open>
  The date test of the kernel, with its two literal constants, selects exactly the dates of
  1994, the year the emulator computes its bounds for.
\<close>

theorem ship_date_window:
  assumes "valid_date y m d"
  shows "(k_jd19940101 \<le> date2j y m d - POSTGRES_EPOCH_JDATE
      \<and> date2j y m d - POSTGRES_EPOCH_JDATE < k_jd19950101 \<longleftrightarrow> y = 1994)
    \<and> k_jd19940101 = jd19940101 \<and> k_jd19950101 = jd19950101"
  using year_1994_range_law [OF assms]
  by (simp_all add: k_jd19940101_def k_jd19950101_def jd19940101_def jd19950101_def date2j_1994 date2j_1995)

theorem ship_date_window_witness:
  "k_jd19940101 \<le> date2j 1994 12 31 - POSTGRES_EPOCH_JDATE
      \<and> date2j 1994 12 31 - POSTGRES_EPOCH_JDATE < k_jd19950101"
  using ship_date_window [of 1994 12 31] by (simp add: valid_date_def month_days_def leap_def)

section \<open>Packing the relation into blocks\<close>

text \<open>
  C13. One page: the tuples packed are the next ones of the relation in storage order, none
  lost and none twice; the page carries their number; the next tuple would not have fitted;
  and every buffer read is locked, unlocked and released before the next one.
\<close>

theorem xql6GetNextPage_packs:
  assumes "relation_ok bufPage tupss" and "fill_ok tupss st" and "length pg = XQL_PAGE_SZ"
  shows "\<exists>ts dead st' e. xql6GetNextPage bufPage lin0 pg st
      = Inr (length ts, packed ts dead, st',
          concat (map (\<lambda>b. [ReadBuffer b, LockShare b, Unlock b, Release b]) [fs_blkNum st..<e]))
    \<and> length (packed ts dead) = XQL_PAGE_SZ \<and> fill_ok tupss st'
    \<and> pending tupss st = ts @ pending tupss st'
    \<and> (pending tupss st' \<noteq> [] \<longrightarrow> XQL_PAGE_SZ \<le> 2 + length (concat ts) + length (hd (pending tupss st')))"
proof -
  have b: "buf_cycle = (\<lambda>b. [ReadBuffer b, LockShare b, Unlock b, Release b])"
    by (simp add: buf_cycle_def fun_eq_iff)
  show ?thesis by (rule xql6GetNextPage_law [OF assms, unfolded b])
qed

definition fill0 :: Xql6FillState where
  "fill0 = \<lparr>fs_blkNum = 0, fs_nBlks = 1, fs_linNum = 0\<rparr>"

lemma fill0_ok: "fill_ok [[enc_tuple row1, enc_tuple row2]] fill0"
  by (simp add: fill_ok_def fill0_def)

theorem xql6GetNextPage_packs_witness:
  "\<exists>ts dead st' e. xql6GetNextPage (\<lambda>_. heap1) 7 (replicate 8192 0) fill0
      = Inr (length ts, packed ts dead, st',
          concat (map (\<lambda>b. [ReadBuffer b, LockShare b, Unlock b, Release b]) [0..<e]))
    \<and> length (packed ts dead) = XQL_PAGE_SZ"
proof -
  have "length (replicate 8192 (0 :: u8)) = XQL_PAGE_SZ" by (simp add: XQL_PAGE_SZ_def)
  from xql6GetNextPage_packs [OF heap1_relation fill0_ok this, of 7]
  show ?thesis unfolding fill0_def by auto
qed

text \<open>
  C12. One block: filling from a table of lineitem rows gives 256 well-formed pages with the
  next rows; the result says whether the last page has rows, and if it has none the
  table is exhausted.
\<close>

theorem xql6FillBlock_packs:
  assumes "\<forall>i. relation_ok (snap i) tupss" and "fill_ok tupss st" and "length blk = XQL6_BLK_SZ"
    and "pending tupss st = map enc_tuple lis" and "list_all wf_lineitem lis"
  shows "\<exists>pgs lis' b st' tr. xql6FillBlock snap lin0 blk nTups st
      = Inr (b, block_of pgs, nTups + length (rows_of pgs), st', tr)
    \<and> wf_block pgs \<and> lis = rows_of pgs @ lis' \<and> fill_ok tupss st'
    \<and> pending tupss st' = map enc_tuple lis' \<and> (\<not> b \<longrightarrow> lis' = []) \<and> (b \<longrightarrow> rows_of pgs \<noteq> [])"
  using xql6FillBlock_law [OF assms, of lin0 nTups] by fast

theorem xql6FillBlock_packs_witness:
  "\<exists>pgs lis' b st' tr. xql6FillBlock (\<lambda>_ _. heap1) (\<lambda>_. 0) (replicate XQL6_BLK_SZ 0) 0 fill0
      = Inr (b, block_of pgs, 0 + length (rows_of pgs), st', tr) \<and> wf_block pgs
    \<and> [row1, row2] = rows_of pgs @ lis'"
proof -
  have "pending [[enc_tuple row1, enc_tuple row2]] fill0 = map enc_tuple [row1, row2]"
    using sample_table by (simp add: fill0_def pending_def tups_from_0 table_def)
  moreover have "list_all wf_lineitem [row1, row2]" by (simp add: row1_wf row2_wf)
  moreover have "length (replicate XQL6_BLK_SZ (0 :: u8)) = XQL6_BLK_SZ" by simp
  ultimately show ?thesis using xql6FillBlock_packs [OF allI [OF heap1_relation] fill0_ok] by blast
qed

text \<open>
  The scan starts at line pointer 0, although the first is 1, and so reads the four bytes
  before the array, the page's prune hint, as a line pointer. When the item it seems to
  point to has a header longer than its length, the copy length is negative and the copy
  leaves the page.
\<close>

theorem prune_hint_read_as_tuple:
  assumes "fs_blkNum st < fs_nBlks st" and "fs_linNum st = 0"
    and "PageGetMaxOffsetNumber (bufPage (fs_blkNum st)) = Inr nLines"
    and "pd_prune_xid (bufPage (fs_blkNum st)) = Inr xid"
    and "t_hoff (bufPage (fs_blkNum st)) (ItemIdGetOffset xid) = Inr hoff"
    and "ItemIdGetLength xid < hoff"
  shows "xql6GetNextPage bufPage lin0 pg st = Inl OutOfBounds"
proof -
  obtain n where n: "fs_nBlks st - fs_blkNum st = Suc n"
    using assms(1) by (metis Suc_diff_Suc)
  have "PageGetItemId (bufPage (fs_blkNum st)) 0 = Inr xid"
    using assms(4) by (simp add: PageGetItemId_def pd_prune_xid_def SizeOfPageHeaderData_def sizeof_ItemIdData_def)
  then have "lines_loop (bufPage (fs_blkNum st)) (nLines + 1 - 0) 0 \<lparr>fl_buf = pg, fl_dst = 2, fl_nTups = 0\<rparr>
      = Inl OutOfBounds"
    using assms(5,6) by (simp add: PageGetItem_def Let_def XQL_PAGE_SZ_def)
  then show ?thesis
    using n assms(2,3) by (simp add: xql6GetNextPage_def Let_def)
qed

lemma prune_page_values:
  "PageGetMaxOffsetNumber (heap_page_with 2) = Inr 2" "pd_prune_xid (heap_page_with 2) = Inr 2"
  "t_hoff (heap_page_with 2) 2 = Inr 58" "ItemIdGetOffset 2 = 2" "ItemIdGetLength 2 = 0"
proof -
  have b: "le32_bytes 2 = [2, 0, 0, 0]" by code_simp
  show "PageGetMaxOffsetNumber (heap_page_with 2) = Inr 2" "pd_prune_xid (heap_page_with 2) = Inr 2"
    "t_hoff (heap_page_with 2) 2 = Inr 58"
    by (simp_all add: PageGetMaxOffsetNumber_def pd_lower_def SizeOfPageHeaderData_def
        sizeof_ItemIdData_def get32_def get16_def rd_def t_hoff_def le16_def pd_prune_xid_def
        heap_page_with_shape nth_append b)
  show "ItemIdGetOffset 2 = 2" "ItemIdGetLength 2 = 0" by code_simp+
qed

theorem prune_hint_read_as_tuple_witness:
  "xql6GetNextPage (\<lambda>_. heap_page_with 2) 7 (replicate 8192 0) fill0 = Inl OutOfBounds"
  by (rule prune_hint_read_as_tuple [where nLines = 2 and xid = 2 and hoff = 58])
    (simp_all add: fill0_def prune_page_values)

text \<open>A line pointer set to normal gives back the offset and the length it was set to.\<close>

theorem ItemId_set_get:
  assumes "ofs < 2 ^ 15" and "len < 2 ^ 15"
  shows "ItemIdGetOffset (ItemIdSetNormal (of_nat ofs) (of_nat len) iid) = ofs
    \<and> ItemIdGetLength (ItemIdSetNormal (of_nat ofs) (of_nat len) iid) = len
    \<and> ItemIdIsNormal (ItemIdSetNormal (of_nat ofs) (of_nat len) iid)"
  using ItemId_roundtrip [OF assms] by simp

theorem ItemId_set_get_witness:
  "ItemIdGetOffset (ItemIdSetNormal (of_nat 8000) (of_nat 99) 12345) = 8000"
  using ItemId_set_get [of 8000 99 12345] by simp

section \<open>The device session and the entry point\<close>

text \<open>
  C28. A session that starts successfully holds ten pairs of non-null mapped buffers, and ending
  it unmaps and releases each of them once, then the program, the kernel, the queue and
  the context; all handles of buffers are zero afterwards.
\<close>

theorem fpga_session_balanced:
  assumes "arrays_ok s" and "start_fpga orc fs got xclbin s = (EXIT_SUCCESS, s1)"
  shows "calls s1 = calls s @ open_calls xclbin got @ concat (map (alloc_calls s1) [0..<10])
    \<and> list_all (\<lambda>j. devInp s1 ! j \<noteq> 0 \<and> devOut s1 ! j \<noteq> 0 \<and> pInp_ptr s1 ! j \<noteq> 0 \<and> pOut_ptr s1 ! j \<noteq> 0) [0..<10]
    \<and> (\<exists>s2. end_fpga orc s1 = (EXIT_SUCCESS, s2)
        \<and> calls s2 = calls s1 @ concat (map (free_calls s1) [0..<10])
            @ [ReleaseProgram (gprogram s1), ReleaseKernel (gkernel s1),
               ReleaseCommandQueue (gcommands s1), ReleaseContext (gcontext s1)]
        \<and> devInp s2 = replicate 10 0 \<and> devOut s2 = replicate 10 0
        \<and> pInp_ptr s2 = replicate 10 0 \<and> pOut_ptr s2 = replicate 10 0)"
  using session_law [OF assms] by blast

text \<open>A runtime where every call succeeds and returns its number plus one as handle.\<close>

definition good_runtime :: runtime where "good_runtime n = (0, int n + 1)"

lemma session0_ok: "arrays_ok session0"
  by (simp add: session0_def arrays_ok_def)

lemma good_start: "fst (start_fpga good_runtime (\<lambda>_. Some [1, 2, 3]) 3 ''q6.xclbin'' session0) = EXIT_SUCCESS"
  by (simp add: start_fpga_def open_fpga_def load_file_to_memory_def good_runtime_def api_def
      EXIT_SUCCESS_def CL_SUCCESS_def Let_def eval_nat_numeral)

theorem fpga_session_balanced_witness:
  "\<exists>s1 s2. start_fpga good_runtime (\<lambda>_. Some [1, 2, 3]) 3 ''q6.xclbin'' session0 = (EXIT_SUCCESS, s1)
    \<and> end_fpga good_runtime s1 = (EXIT_SUCCESS, s2) \<and> devInp s2 = replicate 10 0"
proof -
  obtain s1 where s1: "start_fpga good_runtime (\<lambda>_. Some [1, 2, 3]) 3 ''q6.xclbin'' session0 = (EXIT_SUCCESS, s1)"
    using good_start by (metis prod.collapse)
  from fpga_session_balanced [OF session0_ok this] s1 show ?thesis by blast
qed

text \<open>
  After a successful enqueue the events of the write and of the kernel have no reference
  left, the read event the host waits on has exactly one. Nothing in the program gives it up.
\<close>

theorem enq_event_refs:
  assumes "arrays_ok s" and "fresh s" and "bufId < 10"
    and "fpga_q6_enq_compute orc bufId s = (EXIT_SUCCESS, s')"
  shows "refs s' (wrEvent s' ! bufId) = 0 \<and> refs s' (ndEvent s' ! bufId) = 0
    \<and> refs s' (rdEvent s' ! bufId) = 1 \<and> fresh s'"
  using assms by (rule enq_refs)

theorem enq_event_refs_witness:
  "\<exists>s'. fpga_q6_enq_compute good_runtime 4 session0 = (EXIT_SUCCESS, s') \<and> refs s' (rdEvent s' ! 4) = 1"
proof -
  have "fst (fpga_q6_enq_compute good_runtime 4 session0) = EXIT_SUCCESS"
    by (simp add: fpga_q6_enq_compute_def good_runtime_def api_def EXIT_SUCCESS_def CL_SUCCESS_def Let_def)
  then obtain s' where s': "fpga_q6_enq_compute good_runtime 4 session0 = (EXIT_SUCCESS, s')"
    by (metis prod.collapse)
  have "fresh session0" by (simp add: fresh_def session0_def)
  from enq_event_refs [OF session0_ok this _ s'] s' show ?thesis by simp
qed

text \<open>
  C29. In every state that calls of the function can leave behind, a remembered kernel name
  means that the ten pairs of buffers are mapped, so the next run may write to them.
\<close>

theorem running_kernel_has_buffers:
  assumes "called b"
  shows "p_fpgaKernelName b \<noteq> None \<longrightarrow> mapped (b_session b)"
  using called_inv [OF assms] by (simp add: backend_inv_def)

definition good_env :: env where
  "good_env = \<lparr>e_orc = good_runtime, e_file = (\<lambda>_. Some [1, 2, 3]), e_got = 3, e_us = 5\<rparr>"

definition good_result :: hw_result where
  "good_result = \<lparr>r_blks = 1, r_sum = 12700938, r_nTups = 2, r_us = (1, 1, 1, 1)\<rparr>"

lemma good_enq: "fst (enq_blocks good_runtime 1 0 s)"
  by (simp add: fpga_q6_enq_compute_def good_runtime_def api_def EXIT_SUCCESS_def CL_SUCCESS_def Let_def)

lemma good_run:
  "\<exists>b' t'. xql6_run_hw good_env good_result ''q6.xclbin'' backend0 [] = Inr (True, b', t')"
proof -
  obtain s1 where s1: "start_fpga good_runtime (\<lambda>_. Some [1, 2, 3]) 3 ''q6.xclbin'' session0 = (EXIT_SUCCESS, s1)"
    using good_start by (metis prod.collapse)
  obtain s2 where s2: "enq_blocks good_runtime 1 0 s1 = (True, s2)"
    using good_enq [of s1] by (metis prod.collapse)
  have "result_text 12700938 = ''1270.938''" "ld 1 = ''1''" "ld 2 = ''2''" "ld 5 = ''5''" by code_simp+
  then show ?thesis
    using s1 s2 by (simp add: xql6_run_hw_def hw_ready_def hw_report_def xql6_init_kernel_def good_env_def
        good_result_def backend0_def append_text_def c_sprintf_def c_strcat_def SBUF_SZ_def)
qed

lemma good_call: "\<exists>b t. xql6 good_env CHR ''r'' ''lineitem'' ''q6.xclbin'' (Inr [])
    (xql6_run_hw good_env good_result) backend0 = Inr (b, t) \<and> p_fpgaKernelName b = Some ''q6.xclbin''"
proof -
  obtain b' t' where r: "xql6_run_hw good_env good_result ''q6.xclbin'' backend0 [] = Inr (True, b', t')"
    using good_run by blast
  have "backend_inv backend0" by (simp add: backend_inv_def backend0_def session0_ok)
  then have "p_fpgaKernelName b' = Some ''q6.xclbin''" using run_hw_inv [OF _ r] by simp
  then show ?thesis
    using r by (simp add: xql6_def xql6_check_relation_def strncmp_eq_def RELKIND_VIEW_def
        RELKIND_COMPOSITE_TYPE_def RELKIND_FOREIGN_TABLE_def)
qed

theorem running_kernel_has_buffers_witness:
  "\<exists>b t. xql6 good_env CHR ''r'' ''lineitem'' ''q6.xclbin'' (Inr []) (xql6_run_hw good_env good_result) backend0
      = Inr (b, t) \<and> p_fpgaKernelName b = Some ''q6.xclbin'' \<and> mapped (b_session b)"
proof -
  obtain b t where r: "xql6 good_env CHR ''r'' ''lineitem'' ''q6.xclbin'' (Inr [])
    (xql6_run_hw good_env good_result) backend0 = Inr (b, t)" "p_fpgaKernelName b = Some ''q6.xclbin''"
    using good_call by blast
  then have "called b" using called.call [OF called.start] by blast
  from running_kernel_has_buffers [OF this] r show ?thesis by simp
qed

text \<open>
  A hardware run that reports success leaves the requested kernel running, whichever was
  running before.
\<close>

theorem run_hw_switches_kernel:
  assumes "backend_inv b" and "xql6_run_hw e r nm b t = Inr (True, b', t')"
  shows "p_fpgaKernelName b' = Some nm"
  using run_hw_inv [OF assms] by blast

theorem run_hw_switches_kernel_witness:
  "\<exists>b' t'. xql6_run_hw good_env good_result ''q6.xclbin'' backend0 [] = Inr (True, b', t')
    \<and> p_fpgaKernelName b' = Some ''q6.xclbin''"
proof -
  obtain b' t' where r: "xql6_run_hw good_env good_result ''q6.xclbin'' backend0 [] = Inr (True, b', t')"
    using good_run by blast
  have "backend_inv backend0" by (simp add: backend_inv_def backend0_def session0_ok)
  from run_hw_switches_kernel [OF this r] r show ?thesis by simp
qed

text \<open>
  C6. A call of the function from SQL with the name of a kernel, whatever calls came before it as long as
  the kernel they left running has a name of at most 700 characters (the report of stopping a kernel repeats its name, and
  with a longer one may overflow its buffer), on
  a relation with storage that holds a table whose columns have at most two decimals and whose revenue fits
  the 64 bits of the sum, as the measured times do theirs: once the kernel is made ready and every block of a run of the pipeline is enqueued, the text
  the call returns fits the buffer and gives the answer of the query as SQL states it over the real
  values of the columns, in units of one ten-thousandth, and the number of rows of the
  table; the kernel is left running with its buffers mapped.
\<close>

theorem xql6_hw_answers_sql:
  assumes "always_stored snaps tupss" and "table tupss lis" and "list_all two_decimals lis"
    and "- (2 ^ 63) \<le> 10000 * q6_sql lis" and "10000 * q6_sql lis < 2 ^ 63"
    and "length inp = 10" and "list_all (\<lambda>b. length b = XQL6_BLK_SZ) inp" and "length out = 10"
    and "hw_reach snaps (fpga_compute junk) (hw_init (length tupss) inp out) n s" and "h_pc s = Halt" and "enq_ok s"
    and "called b" and "\<forall>nm. p_fpgaKernelName b = Some nm \<longrightarrow> length nm \<le> 700"
    and "relkind \<notin> {RELKIND_VIEW, RELKIND_COMPOSITE_TYPE, RELKIND_FOREIGN_TABLE}"
    and "\<not> strncmp_eq p_krnName ''stop'' 4" and "\<not> strncmp_eq p_krnName ''swemu'' 5"
    and "hw_ready e p_krnName b [] = Inr (True, b1, t1)" and "fst (enq_blocks (e_orc e) (blkId s) 0 (b_session b1))"
    and "\<forall>x \<in> {e_us e, tF, tC, tR, tT, int (length lis)}. - (2 ^ 63) \<le> x \<and> x < 2 ^ 63"
  shows "\<exists>r b'. xql6 e relkind p_relName p_krnName sw
      (xql6_run_hw e \<lparr>r_blks = blkId s, r_sum = h_sum s, r_nTups = h_nTups s, r_us = (tF, tC, tR, tT)\<rparr>) b
      = Inr (b', t1 @ ''xql6_run (hw) result '' @ result_text r
          @ CHR 0x0A # ''Runtimes (us) Fill '' @ ld tF @ '', W+Comp '' @ ld tC @ '', Rd '' @ ld tR @ '', Tot '' @ ld tT
          @ ''. #Tups '' @ ld (int (length lis)) @ [CHR 0x0A])
    \<and> of_int (sint r) = 10000 * q6_sql lis
    \<and> p_fpgaKernelName b' = Some p_krnName \<and> mapped (b_session b')"
proof -
  have tab: "live (concat tupss) = map enc_tuple lis" "list_all wf_lineitem lis" using assms(2) by (auto simp: table_def)
  then have "hw_inv (\<lambda>_. tupss) tupss lis (hw_init (length tupss) inp out) [] lis"
    by (intro run_init [OF assms(6-8)]) auto
  from hw_engine.run_reach [OF assms(9) snaps_grow_const [OF assms(1)] this]
  obtain dn rest where "hw_inv (\<lambda>_. tupss) tupss lis s dn rest" by blast
  from run_halt_sum [OF this tab(1) assms(10,11)]
  have h: "h_sum s = word_of_int (q6_spec lis)" "h_nTups s = length lis" by blast+
  have v: "of_int (sint (h_sum s)) = 10000 * q6_sql lis"
    unfolding h(1) by (rule revenue_sum [OF tab(2) assms(3-5)])
  let ?r = "\<lparr>r_blks = blkId s, r_sum = h_sum s, r_nTups = h_nTups s, r_us = (tF, tC, tR, tT)\<rparr>"
  obtain b' where b': "xql6_run_hw e ?r p_krnName b [] = Inr (True, b', t1 @ run_text (h_sum s) tF tC tR tT (int (length lis)))"
    "p_fpgaKernelName b' = Some p_krnName" "backend_inv b'"
    using run_hw_text [OF called_inv [OF assms(12)] assms(17), of ?r tF tC tR tT] assms(13,18,19) h(2) by auto
  have "xql6 e relkind p_relName p_krnName sw (xql6_run_hw e ?r) b
      = Inr (b', t1 @ run_text (h_sum s) tF tC tR tT (int (length lis)))"
    by (rule xql6_runs_hw [where hw = "xql6_run_hw e ?r", OF b'(1) assms(14-16)])
  with v b'(2,3) show ?thesis unfolding backend_inv_def by blast
qed

lemma good_enq_blocks: "fst (enq_blocks good_runtime n i s)"
proof (induction n arbitrary: i s)
  case (Suc n)
  have "fst (fpga_q6_enq_compute good_runtime (i mod 10) s) = EXIT_SUCCESS"
    by (simp add: fpga_q6_enq_compute_def good_runtime_def api_def EXIT_SUCCESS_def CL_SUCCESS_def Let_def)
  then show ?case using Suc.IH by (simp add: split_beta)
qed simp

lemma good_ready: "\<exists>b1. hw_ready good_env ''q6.xclbin'' backend0 [] = Inr (True, b1, ''xql6 init (fpga config) 5 us'' @ [CHR 0x0A])"
proof -
  obtain s1 where "start_fpga good_runtime (\<lambda>_. Some [1, 2, 3]) 3 ''q6.xclbin'' session0 = (EXIT_SUCCESS, s1)"
    using good_start by (metis prod.collapse)
  moreover have "ld 5 = ''5''" by code_simp
  ultimately show ?thesis
    by (simp add: hw_ready_def xql6_init_kernel_def good_env_def backend0_def append_text_def c_sprintf_def
        c_strcat_def SBUF_SZ_def)
qed

theorem xql6_hw_answers_sql_witness:
  "\<exists>(s :: hw) r b'. xql6 good_env CHR ''r'' ''lineitem'' ''q6.xclbin'' (Inr [])
      (xql6_run_hw good_env \<lparr>r_blks = blkId s, r_sum = h_sum s, r_nTups = h_nTups s, r_us = (1, 2, 3, 4)\<rparr>) backend0
      = Inr (b', (''xql6 init (fpga config) 5 us'' @ [CHR 0x0A]) @ ''xql6_run (hw) result '' @ result_text r
          @ CHR 0x0A # ''Runtimes (us) Fill '' @ ld 1 @ '', W+Comp '' @ ld 2 @ '', Rd '' @ ld 3 @ '', Tot '' @ ld 4
          @ ''. #Tups '' @ ld 2 @ [CHR 0x0A])
    \<and> of_int (sint r) = 10000 * q6_sql [row1, row2] \<and> mapped (b_session b')"
proof -
  obtain n s where r: "hw_reach (\<lambda>_ _ _. heap1) (fpga_compute (\<lambda>_ _ _ _. []))
      (hw_init 1 (replicate 10 (replicate XQL6_BLK_SZ 0)) (replicate 10 0)) n s" "h_pc s = Halt" "enq_ok s"
    using sample_hw_run [OF snaps_grow_const [OF heap1_stored]] by blast
  obtain b1 where g: "hw_ready good_env ''q6.xclbin'' backend0 [] = Inr (True, b1, ''xql6 init (fpga config) 5 us'' @ [CHR 0x0A])"
    using good_ready by blast
  have "fst (enq_blocks (e_orc good_env) (blkId s) 0 (b_session b1))" using good_enq_blocks by (simp add: good_env_def)
  then have "\<exists>r b'. xql6 good_env CHR ''r'' ''lineitem'' ''q6.xclbin'' (Inr [])
      (xql6_run_hw good_env \<lparr>r_blks = blkId s, r_sum = h_sum s, r_nTups = h_nTups s, r_us = (1, 2, 3, 4)\<rparr>) backend0
      = Inr (b', (''xql6 init (fpga config) 5 us'' @ [CHR 0x0A]) @ ''xql6_run (hw) result '' @ result_text r
          @ CHR 0x0A # ''Runtimes (us) Fill '' @ ld 1 @ '', W+Comp '' @ ld 2 @ '', Rd '' @ ld 3 @ '', Tot '' @ ld 4
          @ ''. #Tups '' @ ld (int (length [row1, row2])) @ [CHR 0x0A])
    \<and> of_int (sint r) = 10000 * q6_sql [row1, row2] \<and> p_fpgaKernelName b' = Some ''q6.xclbin'' \<and> mapped (b_session b')"
    using r(1) rows_revenue
    by (intro xql6_hw_answers_sql [OF heap1_stored sample_table _ _ _ _ _ _ _ r(2,3) called.start _ _ _ _ g,
        where inp = "replicate 10 (replicate XQL6_BLK_SZ 0)" and out = "replicate 10 0" and junk = "\<lambda>_ _ _ _. []" and n = n])
      (simp_all add: list_all_iff row1_two_decimals backend0_def strncmp_eq_def RELKIND_VIEW_def
        RELKIND_COMPOSITE_TYPE_def RELKIND_FOREIGN_TABLE_def good_env_def)
  moreover have "int (length [row1, row2]) = 2" by simp
  ultimately show ?thesis by (metis (no_types, lifting))
qed

text \<open>
  C5. A call of the peer-to-peer function from SQL with the name of a kernel and the number of a device, whatever calls came
  before it as long as the kernel they left running has a name of at most 700 characters (the report of stopping a kernel
  repeats its name, and with a longer one may overflow its buffer), for a relation that is no view, composite type
  or foreign table, on the file of a relation of fewer than 262144 heap pages (2 GB) whose rows have at most
  two decimals and a revenue that fits the 64 bits of the sum, as the measured times do theirs: whatever the
  interleaving of host and device, the run takes a number of steps linear in the number of pages; once the kernel is made ready and every block is enqueued, the
  text the call returns fits the buffer and gives the answer of the query as SQL states it, but 0 as the number
  of rows; the kernel is left running with its buffers mapped.
\<close>

theorem p2p_xql6_answers_sql:
  assumes "stores sv (raw_bytes pgs)" and "raw_pages pgs" and "length pgs < 262144"
    and "list_all two_decimals (raw_rows pgs)"
    and "- (2 ^ 63) \<le> 10000 * q6_sql (raw_rows pgs)" and "10000 * q6_sql (raw_rows pgs) < 2 ^ 63"
    and "length inp = 10" and "list_all (\<lambda>b. length b = XQL6_BLK_SZ) inp" and "length out = 10"
    and "p2p_reach sv rel (p2p_compute junk) (hw_init nb inp out) n s" and "h_pc s = Halt" and "enq_ok s"
    and "p2p_called b" and "\<forall>nm. p_fpgaKernelName b = Some nm \<longrightarrow> length nm \<le> 700"
    and "relkind \<notin> {RELKIND_VIEW, RELKIND_COMPOSITE_TYPE, RELKIND_FOREIGN_TABLE}"
    and "\<not> strncmp_eq p_krnName ''stop'' 4" and "\<not> strncmp_eq p_krnName ''swemu'' 5"
    and "p2p_hw_ready e devs (sint devid) p_krnName b [] = Inr (True, b1, t1)"
    and "fst (p2p_enq_blocks (e_orc e) (blkId s) 0 (b_session b1))"
    and "\<forall>x \<in> {e_us e, tF, tC, tR, tT}. - (2 ^ 63) \<le> x \<and> x < 2 ^ 63"
  shows "n \<le> 33 * length pgs + 242 \<and> (\<exists>r b'. p2p_xql6 e devs relkind p_relName p_krnName devid sw
      \<lparr>r_blks = blkId s, r_sum = h_sum s, r_nTups = h_nTups s, r_us = (tF, tC, tR, tT)\<rparr> b
      = Inr (b', t1 @ ''xql6_run (hw) result '' @ result_text r
          @ CHR 0x0A # ''Runtimes (us) Fill '' @ ld tF @ '', W+Comp '' @ ld tC @ '', Rd '' @ ld tR @ '', Tot '' @ ld tT
          @ ''. #Tups '' @ ld 0 @ [CHR 0x0A])
    \<and> of_int (sint r) = 10000 * q6_sql (raw_rows pgs)
    \<and> p_fpgaKernelName b' = Some p_krnName \<and> mapped (b_session b'))"
proof -
  have h: "n \<le> 33 * length pgs + 242" "h_sum s = word_of_int (q6_spec (raw_rows pgs))"
    using p2p_run_correct [OF assms(1-3,7-10)] assms(11,12) by simp_all
  have v: "of_int (sint (h_sum s)) = 10000 * q6_sql (raw_rows pgs)"
    unfolding h(2) by (rule revenue_sum [OF raw_rows_wf [OF assms(2)] assms(4-6)])
  let ?r = "\<lparr>r_blks = blkId s, r_sum = h_sum s, r_nTups = h_nTups s, r_us = (tF, tC, tR, tT)\<rparr>"
  have d: "- (2 ^ 63) \<le> sint devid \<and> sint devid < 2 ^ 63" using sint_ge [of devid] sint_lt [of devid] by simp
  obtain b' where b': "p2p_run_hw e devs (sint devid) ?r p_krnName b [] = Inr (True, b', t1 @ run_text (h_sum s) tF tC tR tT 0)"
    "p_fpgaKernelName b' = Some p_krnName" "backend_inv b'"
    using p2p_run_hw_text [OF p2p_called_inv [OF assms(13)] assms(18), of ?r tF tC tR tT] assms(14,19,20) d by auto
  have "p2p_xql6 e devs relkind p_relName p_krnName devid sw ?r b = Inr (b', t1 @ run_text (h_sum s) tF tC tR tT 0)"
    unfolding p2p_xql6_def
    by (rule xql6_runs_hw [where hw = "p2p_run_hw e devs (sint devid) ?r", OF b'(1) assms(15-17)])
  with h(1) v b'(2,3) show ?thesis unfolding backend_inv_def by blast
qed

lemma p2p_good_alloc: "fst (p2p_alloc_loop good_runtime n i s) = EXIT_SUCCESS"
proof (induction n arbitrary: i s)
  case (Suc n)
  have "int k + 1 \<noteq> 0" for k by simp
  then show ?case using Suc.IH by (simp add: good_runtime_def api_def Let_def)
qed simp

lemma p2p_good_ready:
  "\<exists>b1. p2p_hw_ready good_env int 0 ''q6.xclbin'' backend0 [] = Inr (True, b1, ''xql6 init device 0 (fpga config) 5 us'' @ [CHR 0x0A])"
proof -
  have "\<exists>s0. p2p_open_fpga good_runtime int (\<lambda>_. Some [1, 2, 3]) 3 0 ''q6.xclbin'' session0 = Inr (EXIT_SUCCESS, s0)"
    by (simp add: p2p_open_fpga_def load_file_to_memory_def good_runtime_def api_def
        EXIT_SUCCESS_def EXIT_FAILURE_def CL_SUCCESS_def session0_def Let_def)
  then obtain s0 where "p2p_open_fpga good_runtime int (\<lambda>_. Some [1, 2, 3]) 3 0 ''q6.xclbin'' session0 = Inr (EXIT_SUCCESS, s0)"
    by blast
  then have "\<exists>s1. p2p_start_fpga good_runtime int (\<lambda>_. Some [1, 2, 3]) 3 0 ''q6.xclbin'' session0 = Inr (EXIT_SUCCESS, s1)"
    using p2p_good_alloc [of 10 0 s0] by (cases "p2p_alloc_loop good_runtime 10 0 s0") (simp add: p2p_start_fpga_def)
  moreover have "ld 5 = ''5''" "ld 0 = ''0''" by code_simp+
  ultimately show ?thesis
    by (auto simp: p2p_hw_ready_def p2p_init_kernel_def good_env_def backend0_def append_text_def c_sprintf_def
        c_strcat_def SBUF_SZ_def)
qed

lemma p2p_good_enq: "fst (p2p_enq_blocks good_runtime n i s)"
proof (induction n arbitrary: i s)
  case (Suc n)
  have "fst (p2p_enq_compute good_runtime (i mod 10) s) = EXIT_SUCCESS"
    by (simp add: p2p_enq_compute_def good_runtime_def api_def EXIT_SUCCESS_def CL_SUCCESS_def Let_def)
  then show ?case using Suc.IH by (simp add: split_beta)
qed simp

theorem p2p_xql6_answers_sql_witness:
  "\<exists>(s :: hw) r b'. p2p_xql6 good_env int CHR ''r'' ''lineitem'' ''q6.xclbin'' 0 (Inr [])
      \<lparr>r_blks = blkId s, r_sum = h_sum s, r_nTups = h_nTups s, r_us = (1, 2, 3, 4)\<rparr> backend0
      = Inr (b', (''xql6 init device 0 (fpga config) 5 us'' @ [CHR 0x0A]) @ ''xql6_run (hw) result '' @ result_text r
          @ CHR 0x0A # ''Runtimes (us) Fill '' @ ld 1 @ '', W+Comp '' @ ld 2 @ '', Rd '' @ ld 3 @ '', Tot '' @ ld 4
          @ ''. #Tups '' @ ld 0 @ [CHR 0x0A])
    \<and> of_int (sint r) = 10000 * q6_sql [row1, row2] \<and> mapped (b_session b')"
proof -
  let ?pgs = "[(heap1, [row1, row2])]"
  have rows: "raw_rows ?pgs = [row1, row2]" by (simp add: raw_rows_def)
  obtain n s where r: "p2p_reach disk1 rel1 (p2p_compute (\<lambda>_ _ _ _. []))
      (hw_init 1 (replicate 10 (replicate XQL6_BLK_SZ 0)) (replicate 10 0)) n s" "h_pc s = Halt" "enq_ok s"
    using p2p_sample_run by blast
  obtain b1 where g: "p2p_hw_ready good_env int (sint (0 :: u32)) ''q6.xclbin'' backend0 []
      = Inr (True, b1, ''xql6 init device 0 (fpga config) 5 us'' @ [CHR 0x0A])"
    using p2p_good_ready by auto
  have "fst (p2p_enq_blocks (e_orc good_env) (blkId s) 0 (b_session b1))" using p2p_good_enq by (simp add: good_env_def)
  then have "n \<le> 33 * length ?pgs + 242 \<and> (\<exists>r b'. p2p_xql6 good_env int CHR ''r'' ''lineitem'' ''q6.xclbin'' 0 (Inr [])
      \<lparr>r_blks = blkId s, r_sum = h_sum s, r_nTups = h_nTups s, r_us = (1, 2, 3, 4)\<rparr> backend0
      = Inr (b', (''xql6 init device 0 (fpga config) 5 us'' @ [CHR 0x0A]) @ ''xql6_run (hw) result '' @ result_text r
          @ CHR 0x0A # ''Runtimes (us) Fill '' @ ld 1 @ '', W+Comp '' @ ld 2 @ '', Rd '' @ ld 3 @ '', Tot '' @ ld 4
          @ ''. #Tups '' @ ld 0 @ [CHR 0x0A])
    \<and> of_int (sint r) = 10000 * q6_sql (raw_rows ?pgs) \<and> p_fpgaKernelName b' = Some ''q6.xclbin'' \<and> mapped (b_session b'))"
    using rows_revenue
    by (intro p2p_xql6_answers_sql [OF disk1_stores raw_pages1 _ _ _ _ _ _ _ r p2p_start _ _ _ _ g])
      (simp_all add: rows list_all_iff row1_two_decimals backend0_def strncmp_eq_def RELKIND_VIEW_def
        RELKIND_COMPOSITE_TYPE_def RELKIND_FOREIGN_TABLE_def good_env_def)
  then show ?thesis unfolding rows by blast
qed

text \<open>
  Starting a kernel that fails to load, with a name so long that the message does not fit
  the 1024 bytes of \<open>sTmp\<close>, writes past the end of that array.
\<close>

theorem long_kernel_name_overflows:
  assumes "p_fpgaKernelName b = None"
    and "fst (start_fpga (e_orc e) (e_file e) (e_got e) nm (b_session b)) \<noteq> EXIT_SUCCESS"
    and "980 \<le> length nm"
  shows "xql6_init_kernel e nm b t = Inl OutOfBounds"
proof -
  have "1 \<le> length (dec n)" for n by (subst dec.simps) simp
  then have "1 \<le> length (ld x)" for x by (simp add: ld_def)
  then have l: "1 \<le> length (ld (fst (start_fpga (e_orc e) (e_file e) (e_got e) nm (b_session b))))"
    "1 \<le> length (ld (e_us e))" by blast+
  show ?thesis
    using assms l
    by (cases "start_fpga (e_orc e) (e_file e) (e_got e) nm (b_session b)")
      (simp add: xql6_init_kernel_def append_text_def c_sprintf_def SBUF_SZ_def)
qed

theorem long_kernel_name_overflows_witness:
  "xql6_init_kernel (good_env\<lparr>e_file := (\<lambda>_. None)\<rparr>) (replicate 990 CHR ''x'') backend0 [] = Inl OutOfBounds"
  by (rule long_kernel_name_overflows)
    (simp_all add: backend0_def good_env_def start_fpga_def open_fpga_def load_file_to_memory_def
      EXIT_SUCCESS_def EXIT_FAILURE_def Let_def)

end
